(* ===== verification/Prelude.thy ===== *)
theory Prelude
  imports Main "HOL-Library.Monad_Syntax" "HOL-Library.AList"
begin

text \<open>
  Shared vocabulary of the development.

  The programs under \<^verbatim>\<open>src/src\<close> are written in Go.  This theory holds what the component theories
  share: the Go operations on slices and maps that can panic (\<open>go_idx\<close>, \<open>go_slice_from\<close>,
  \<open>go_slice_to\<close>, with \<open>None\<close> for a run-time panic), Go's truncating integer division, Go maps whose
  iteration order matters (\<open>gomap\<close>, an association list with distinct keys; a \<open>range\<close> loop over
  such a map takes its order as an explicit argument, because Go leaves it unspecified), majorities
  of a peer set, and the locales that the components interpret: \<open>codec\<close> (what is encoded can be
  decoded), \<open>replicated_sm\<close> (a state machine driven by an agreed log of commands), \<open>dedup\<close>
  (at-most-once execution) and \<open>ranked_loop\<close> (a loop that ends because a rank decreases).
\<close>

named_theorems go_simps \<open>unfolding rules for the Go primitives\<close>
named_theorems inv_intros \<open>preservation lemmas of component invariants\<close>

section \<open>Go slices\<close>

text \<open>Indexing panics outside \<open>0 \<le> i < len\<close>; slicing from \<open>i\<close> panics outside \<open>0 \<le> i \<le> len\<close>.\<close>

definition go_idx :: "'a list \<Rightarrow> int \<Rightarrow> 'a option" where
  "go_idx xs i = (if 0 \<le> i \<and> i < int (length xs) then Some (xs ! nat i) else None)"

definition go_slice_from :: "'a list \<Rightarrow> int \<Rightarrow> 'a list option" where
  "go_slice_from xs i = (if 0 \<le> i \<and> i \<le> int (length xs) then Some (drop (nat i) xs) else None)"

definition go_slice_to :: "'a list \<Rightarrow> int \<Rightarrow> 'a list option" where
  "go_slice_to xs i = (if 0 \<le> i \<and> i \<le> int (length xs) then Some (take (nat i) xs) else None)"

definition go_set :: "'a list \<Rightarrow> int \<Rightarrow> 'a \<Rightarrow> 'a list option" where
  "go_set xs i v = (if 0 \<le> i \<and> i < int (length xs) then Some (xs[nat i := v]) else None)"

text \<open>Integer division of Go truncates towards zero.\<close>

definition go_div :: "int \<Rightarrow> int \<Rightarrow> int" where
  "go_div a b = sgn a * sgn b * (\<bar>a\<bar> div \<bar>b\<bar>)"

definition go_mod :: "int \<Rightarrow> int \<Rightarrow> int" where
  "go_mod a b = a - b * go_div a b"

lemma go_idx_Some [go_simps]:
  "go_idx xs i = Some x \<longleftrightarrow> 0 \<le> i \<and> i < int (length xs) \<and> x = xs ! nat i"
  by (auto simp: go_idx_def)

lemma go_idx_ok: "0 \<le> i \<Longrightarrow> i < int (length xs) \<Longrightarrow> go_idx xs i = Some (xs ! nat i)"
  by (simp add: go_idx_def)

lemma go_idx_None: "go_idx xs i = None \<longleftrightarrow> i < 0 \<or> int (length xs) \<le> i"
  by (auto simp: go_idx_def)

lemma go_slice_from_Some [go_simps]:
  "go_slice_from xs i = Some ys \<longleftrightarrow> 0 \<le> i \<and> i \<le> int (length xs) \<and> ys = drop (nat i) xs"
  by (auto simp: go_slice_from_def)

lemma go_slice_to_Some [go_simps]:
  "go_slice_to xs i = Some ys \<longleftrightarrow> 0 \<le> i \<and> i \<le> int (length xs) \<and> ys = take (nat i) xs"
  by (auto simp: go_slice_to_def)

lemma go_set_Some [go_simps]:
  "go_set xs i v = Some ys \<longleftrightarrow> 0 \<le> i \<and> i < int (length xs) \<and> ys = xs[nat i := v]"
  by (auto simp: go_set_def)

lemma go_div_nonneg: "0 \<le> a \<Longrightarrow> 0 < b \<Longrightarrow> go_div a b = a div b"
  by (cases "a = 0") (auto simp: go_div_def)

lemma go_mod_nonneg: "0 \<le> a \<Longrightarrow> 0 < b \<Longrightarrow> go_mod a b = a mod b"
  by (simp add: go_mod_def go_div_nonneg minus_mult_div_eq_mod)

section \<open>Go maps with an observable iteration order\<close>

type_synonym ('k, 'v) gomap = "('k \<times> 'v) list"

abbreviation gm_get :: "('k, 'v) gomap \<Rightarrow> 'k \<Rightarrow> 'v option" where
  "gm_get \<equiv> map_of"

abbreviation gm_keys :: "('k, 'v) gomap \<Rightarrow> 'k set" where
  "gm_keys m \<equiv> fst ` set m"

definition gm_wf :: "('k, 'v) gomap \<Rightarrow> bool" where
  "gm_wf m \<longleftrightarrow> distinct (map fst m)"

definition gm_set :: "'k \<Rightarrow> 'v \<Rightarrow> ('k, 'v) gomap \<Rightarrow> ('k, 'v) gomap" where
  "gm_set k v m = AList.update k v m"

definition gm_del :: "'k \<Rightarrow> ('k, 'v) gomap \<Rightarrow> ('k, 'v) gomap" where
  "gm_del k m = AList.delete k m"

text \<open>\<open>m[k]\<close> without the comma-ok form: the zero value for an absent key.\<close>

definition gm_get0 :: "'v \<Rightarrow> ('k, 'v) gomap \<Rightarrow> 'k \<Rightarrow> 'v" where
  "gm_get0 z m k = (case gm_get m k of None \<Rightarrow> z | Some v \<Rightarrow> v)"

text \<open>An order in which a \<open>range\<close> loop may visit the keys.\<close>

definition range_order :: "'k list \<Rightarrow> ('k, 'v) gomap \<Rightarrow> bool" where
  "range_order ks m \<longleftrightarrow> distinct ks \<and> set ks = gm_keys m"

lemma gm_get_set [simp]: "gm_get (gm_set k v m) = (gm_get m)(k \<mapsto> v)"
  by (simp add: gm_set_def update_conv')

lemma gm_get0_Nil: "gm_get0 z [] k = z"
  by (simp add: gm_get0_def)

lemma gm_get0_set: "gm_get0 z (gm_set k v m) j = (if j = k then v else gm_get0 z m j)"
  by (simp add: gm_get0_def)

lemma gm_get_del [simp]: "gm_get (gm_del k m) = (gm_get m)(k := None)"
  by (simp add: gm_del_def delete_conv')

lemma gm_keys_dom: "gm_keys m = dom (gm_get m)"
  by (simp add: dom_map_of_conv_image_fst)

lemma gm_keys_set [simp]: "gm_keys (gm_set k v m) = insert k (gm_keys m)"
  by (simp add: gm_keys_dom)

lemma gm_keys_del [simp]: "gm_keys (gm_del k m) = gm_keys m - {k}"
  by (simp add: gm_keys_dom)

lemma gm_wf_Nil [simp]: "gm_wf []"
  by (simp add: gm_wf_def)

lemma gm_wf_set [simp, intro]: "gm_wf m \<Longrightarrow> gm_wf (gm_set k v m)"
  by (simp add: gm_wf_def gm_set_def distinct_update)

lemma gm_wf_del [simp, intro]: "gm_wf m \<Longrightarrow> gm_wf (gm_del k m)"
  by (simp add: gm_wf_def gm_del_def distinct_delete)

lemma gm_len: "gm_wf m \<Longrightarrow> length m = card (gm_keys m)"
  by (metis gm_wf_def distinct_card length_map list.set_map)

lemma range_order_length: "gm_wf m \<Longrightarrow> range_order ks m \<Longrightarrow> length ks = length m"
  by (metis distinct_card gm_len range_order_def)

lemma range_order_self: "gm_wf m \<Longrightarrow> range_order (map fst m) m"
  by (simp add: range_order_def gm_wf_def)

lemma gm_key_get: "k \<in> gm_keys m \<longleftrightarrow> gm_get m k \<noteq> None"
  by (auto simp: gm_keys_dom)

section \<open>Majorities\<close>

text \<open>The test \<open>cnt > len(peers)/2\<close> of the Raft sources, on sets of peer indices.\<close>

definition majority :: "nat \<Rightarrow> nat set \<Rightarrow> bool" where
  "majority n Q \<longleftrightarrow> Q \<subseteq> {..<n} \<and> n div 2 < card Q"

locale quorum_system =
  fixes quorum :: "'a set \<Rightarrow> bool"
  assumes quorum_meet: "quorum P \<Longrightarrow> quorum Q \<Longrightarrow> P \<inter> Q \<noteq> {}"
begin

text \<open>Two quorums that each agree on a choice of their members agree with each other.\<close>

lemma quorum_agree:
  assumes "quorum P" and "quorum Q"
    and P: "\<And>p. p \<in> P \<Longrightarrow> R p a" and Q: "\<And>q. q \<in> Q \<Longrightarrow> R q b"
    and single: "\<And>p x y. R p x \<Longrightarrow> R p y \<Longrightarrow> x = y"
  shows "a = b"
proof -
  from quorum_meet assms(1,2) obtain p where "p \<in> P" and "p \<in> Q" by blast
  then show ?thesis using P Q single by blast
qed

end

lemma majority_meet:
  assumes "majority n P" and "majority n Q"
  shows "P \<inter> Q \<noteq> {}"
proof
  assume disj: "P \<inter> Q = {}"
  have sub: "P \<union> Q \<subseteq> {..<n}" using assms by (auto simp: majority_def)
  then have fin: "finite P" "finite Q" by (auto intro: finite_subset [of _ "{..<n}"])
  have "card (P \<union> Q) \<le> n" using card_mono [OF _ sub] by simp
  with disj fin have "card P + card Q \<le> n" by (simp add: card_Un_disjoint)
  then show False using assms by (auto simp: majority_def)
qed

interpretation maj: quorum_system "majority n" for n
  by unfold_locales (rule majority_meet)

section \<open>Interfaces shared by the components\<close>

text \<open>A codec: the state a server saves can be read back.\<close>

locale codec =
  fixes encode :: "'a \<Rightarrow> 'b list" and decode :: "'b list \<Rightarrow> 'a option"
  assumes decode_encode: "decode (encode x) = Some x"
    and encode_nonempty: "encode x \<noteq> []"
begin

lemma encode_inject: "encode x = encode y \<longleftrightarrow> x = y"
  by (metis decode_encode option.inject)

end

text \<open>
  A state machine driven by the messages of the apply channel.  \<open>step\<close> may panic (\<open>None\<close>);
  \<open>ok\<close> says which messages the machine can be given.
\<close>

fun run_steps :: "('st \<Rightarrow> 'msg \<Rightarrow> 'st option) \<Rightarrow> 'st \<Rightarrow> 'msg list \<Rightarrow> 'st option" where
  "run_steps step s [] = Some s"
| "run_steps step s (m # ms) = Option.bind (step s m) (\<lambda>s'. run_steps step s' ms)"

lemma run_steps_append:
  "run_steps step s (xs @ ys) = Option.bind (run_steps step s xs) (\<lambda>s'. run_steps step s' ys)"
  by (induction xs arbitrary: s) (auto split: Option.bind_split)

locale replicated_sm =
  fixes step :: "'st \<Rightarrow> 'msg \<Rightarrow> 'st option" and inv :: "'st \<Rightarrow> bool" and ok :: "'st \<Rightarrow> 'msg \<Rightarrow> bool"
  assumes step_inv: "inv s \<Longrightarrow> ok s m \<Longrightarrow> \<exists>s'. step s m = Some s' \<and> inv s'"
    and ok_stable: "inv s \<Longrightarrow> step s m = Some s' \<Longrightarrow> ok s m' \<Longrightarrow> ok s' m'"
begin

text \<open>A whole run neither panics nor leaves the invariant.\<close>

lemma run_inv:
  assumes "inv s" and "\<forall>m \<in> set ms. ok s m"
  shows "\<exists>s'. run_steps step s ms = Some s' \<and> inv s'"
  using assms
proof (induction ms arbitrary: s)
  case Nil
  then show ?case by simp
next
  case (Cons m ms)
  then obtain s' where s': "step s m = Some s'" "inv s'" using step_inv by fastforce
  with Cons.prems have "\<forall>m' \<in> set ms. ok s' m'" using ok_stable by fastforce
  with Cons.IH s' obtain s'' where "run_steps step s' ms = Some s'' \<and> inv s''" by blast
  with s' show ?case by simp
qed

end

text \<open>
  At-most-once execution.  A server remembers the commands it has seen; executing marks a command as
  seen for good, and a seen command changes nothing.
\<close>

locale dedup =
  fixes exec :: "'st \<Rightarrow> 'op \<Rightarrow> 'st" and seen :: "'st \<Rightarrow> 'op \<Rightarrow> bool"
  assumes exec_seen: "seen (exec s p) p"
    and seen_stable: "seen s p \<Longrightarrow> seen (exec s q) p"
    and seen_noop: "seen s p \<Longrightarrow> exec s p = s"
begin

lemma fold_seen: "seen s p \<Longrightarrow> seen (fold (\<lambda>q s. exec s q) ps s) p"
  by (induction ps arbitrary: s) (auto intro: seen_stable)

lemma seen_member: "p \<in> set ps \<Longrightarrow> seen (fold (\<lambda>q s. exec s q) ps s) p"
  by (induction ps arbitrary: s) (auto intro: exec_seen fold_seen)

text \<open>Every delivery of a command after the first one can be dropped.\<close>

lemma drop_duplicate:
  assumes "p \<in> set xs"
  shows "fold (\<lambda>q s. exec s q) (xs @ p # ys) s = fold (\<lambda>q s. exec s q) (xs @ ys) s"
  using seen_noop [OF seen_member [OF assms]] by simp

end

section \<open>Loops with a rank\<close>

text \<open>
  A \<open>for\<close> loop whose body says whether it goes round again, run with fuel: \<open>None\<close> when the fuel is
  used up or the body panics.
\<close>

fun loopn :: "nat \<Rightarrow> ('st \<Rightarrow> ('st \<times> bool) option) \<Rightarrow> 'st \<Rightarrow> 'st option" where
  "loopn 0 body s = None"
| "loopn (Suc n) body s =
     (case body s of None \<Rightarrow> None
      | Some (s', again) \<Rightarrow> if again then loopn n body s' else Some s')"

locale ranked_loop =
  fixes body :: "'st \<Rightarrow> ('st \<times> bool) option" and inv :: "'st \<Rightarrow> bool" and rank :: "'st \<Rightarrow> nat"
    and post :: "'st \<Rightarrow> bool"
  assumes body_step: "inv s \<Longrightarrow> \<exists>s' again. body s = Some (s', again) \<and>
      (if again then inv s' \<and> rank s' < rank s else post s')"
begin

text \<open>The rank bounds the number of rounds: with more fuel than that the loop returns.\<close>

lemma loop_returns: "inv s \<Longrightarrow> rank s < n \<Longrightarrow> \<exists>s'. loopn n body s = Some s' \<and> post s'"
proof (induction n arbitrary: s)
  case (Suc n)
  from body_step [OF Suc.prems(1)] obtain s' again where b: "body s = Some (s', again)"
    "if again then inv s' \<and> rank s' < rank s else post s'" by blast
  show ?case
  proof (cases again)
    case True
    with b Suc.prems Suc.IH [of s'] show ?thesis by simp
  qed (use b in simp)
qed simp

end

text \<open>The state after \<open>n\<close> rounds of a loop that is still running.\<close>

fun loop_rounds :: "nat \<Rightarrow> ('st \<Rightarrow> ('st \<times> bool) option) \<Rightarrow> 'st \<Rightarrow> 'st option" where
  "loop_rounds 0 body s = Some s"
| "loop_rounds (Suc n) body s =
     (case body s of None \<Rightarrow> None
      | Some (s', again) \<Rightarrow> if again then loop_rounds n body s' else None)"

text \<open>A loop whose body leads from a set of states back into it never returns.\<close>

lemma loop_diverges:
  assumes "s \<in> S" and "\<And>s. s \<in> S \<Longrightarrow> \<exists>s' \<in> S. body s = Some (s', True)"
  shows "\<exists>s' \<in> S. loop_rounds n body s = Some s' \<and> loopn n body s = None"
  using assms(1)
proof (induction n arbitrary: s)
  case (Suc n)
  from assms(2) [OF Suc.prems] obtain s' where "s' \<in> S" "body s = Some (s', True)" by blast
  with Suc.IH [of s'] show ?case by simp
qed simp

text \<open>The first occurrences of a list, in order.\<close>

definition firsts :: "'a list \<Rightarrow> 'a list" where
  "firsts xs = rev (remdups (rev xs))"

lemma firsts_Nil [simp]: "firsts [] = []"
  by (simp add: firsts_def)

lemma firsts_snoc: "firsts (xs @ [x]) = (if x \<in> set xs then firsts xs else firsts xs @ [x])"
  by (simp add: firsts_def)

lemma set_firsts [simp]: "set (firsts xs) = set xs"
  by (simp add: firsts_def)

lemma distinct_firsts [simp]: "distinct (firsts xs)"
  by (simp add: firsts_def)

context dedup
begin

lemma fold_firsts: "fold (\<lambda>q s. exec s q) xs s = fold (\<lambda>q s. exec s q) (firsts xs) s"
proof (induction xs rule: rev_induct)
  case (snoc x xs)
  show ?case
  proof (cases "x \<in> set xs")
    case True
    with snoc show ?thesis using drop_duplicate [of x xs "[]" s] by (simp add: firsts_snoc)
  next
    case False
    with snoc show ?thesis by (simp add: firsts_snoc)
  qed
qed simp

end

end
