(* ===== verification/Persister.thy ===== *)
theory Persister
  imports Prelude
begin

text \<open>
  Stable storage: \<^verbatim>\<open>src/src/raft/persister.go\<close> and the gob streams written to it.

  A byte slice produced by a gob encoder is modelled by the list of values that were encoded into
  it, in order; the empty list stands for a nil or empty slice.  Decoding takes the next value off
  the stream and fails on an exhausted stream or a value of another type, which is the behaviour of
  \<^verbatim>\<open>encoding/gob\<close> that the callers rely on.  The number of bytes of a stream is not determined by
  this model, so the operations that report sizes take it as an argument \<open>bytelen\<close>.

  A persister keeps two slices, the Raft state and the service snapshot.  The lemmas state what a
  reader sees after each kind of save; they are the laws of the locale \<open>stable_store\<close>, which
  is interpreted on the operations of the file.
\<close>

section \<open>Gob streams\<close>

definition gob_put :: "'v list \<Rightarrow> 'v \<Rightarrow> 'v list" where
  "gob_put w v = w @ [v]"

definition gob_take :: "('v \<Rightarrow> 'a option) \<Rightarrow> 'v list \<Rightarrow> ('a \<times> 'v list) option" where
  "gob_take as r = (case r of [] \<Rightarrow> None | v # r' \<Rightarrow> map_option (\<lambda>x. (x, r')) (as v))"

lemma gob_take_Cons [simp]: "gob_take as (v # r) = map_option (\<lambda>x. (x, r)) (as v)"
  by (simp add: gob_take_def)

lemma gob_take_Nil [simp]: "gob_take as [] = None"
  by (simp add: gob_take_def)

section \<open>The persister\<close>

record ('r, 's) persister =
  raftstate :: "'r list"
  snapshot :: "'s list"

definition MakePersister :: "('r, 's) persister" where
  "MakePersister = \<lparr>raftstate = [], snapshot = []\<rparr>"

definition Copy :: "('r, 's) persister \<Rightarrow> ('r, 's) persister" where
  "Copy ps = (let np = MakePersister;
                  np = np\<lparr>raftstate := raftstate ps\<rparr>;
                  np = np\<lparr>snapshot := snapshot ps\<rparr>
              in np)"

definition SaveRaftState :: "('r, 's) persister \<Rightarrow> 'r list \<Rightarrow> ('r, 's) persister" where
  "SaveRaftState ps st = ps\<lparr>raftstate := st\<rparr>"

definition ReadRaftState :: "('r, 's) persister \<Rightarrow> 'r list" where
  "ReadRaftState ps = raftstate ps"

definition RaftStateSize :: "('r list \<Rightarrow> nat) \<Rightarrow> ('r, 's) persister \<Rightarrow> int" where
  "RaftStateSize bytelen ps = int (bytelen (raftstate ps))"

definition SaveStateAndSnapshot ::
    "('r, 's) persister \<Rightarrow> 'r list \<Rightarrow> 's list \<Rightarrow> ('r, 's) persister" where
  "SaveStateAndSnapshot ps st snap = ps\<lparr>raftstate := st, snapshot := snap\<rparr>"

definition ReadSnapshot :: "('r, 's) persister \<Rightarrow> 's list" where
  "ReadSnapshot ps = snapshot ps"

definition SnapshotSize :: "('s list \<Rightarrow> nat) \<Rightarrow> ('r, 's) persister \<Rightarrow> int" where
  "SnapshotSize bytelen ps = int (bytelen (snapshot ps))"

lemmas persister_defs =
  MakePersister_def Copy_def SaveRaftState_def ReadRaftState_def RaftStateSize_def
  SaveStateAndSnapshot_def ReadSnapshot_def SnapshotSize_def

section \<open>The contract of stable storage\<close>

locale stable_store =
  fixes save :: "'p \<Rightarrow> 'r \<Rightarrow> 'p" and save_both :: "'p \<Rightarrow> 'r \<Rightarrow> 's \<Rightarrow> 'p"
    and read :: "'p \<Rightarrow> 'r" and read_snap :: "'p \<Rightarrow> 's"
  assumes read_save: "read (save p r) = r"
    and snap_save: "read_snap (save p r) = read_snap p"
    and read_both: "read (save_both p r s) = r"
    and snap_both: "read_snap (save_both p r s) = s"
begin

text \<open>Saves are last-writer-wins, and a state save never disturbs the snapshot.\<close>

lemma read_saves: "rs \<noteq> [] \<Longrightarrow> read (fold (\<lambda>r p. save p r) rs p) = last rs"
  by (induction rs arbitrary: p) (auto simp: read_save)

lemma snap_saves: "read_snap (fold (\<lambda>r p. save p r) rs p) = read_snap p"
  by (induction rs arbitrary: p) (auto simp: snap_save)

end

interpretation ps: stable_store SaveRaftState SaveStateAndSnapshot ReadRaftState ReadSnapshot
  by unfold_locales (simp_all add: persister_defs)

lemma Copy_same: "Copy ps = ps"
  by (simp add: persister_defs)

end
