(* ===== verification/Raft_Model.thy ===== *)
theory Raft_Model
  imports Persister
begin

text \<open>
  The Raft peer of \<^verbatim>\<open>src/src/raft/raft.go\<close>: its data and its operations.

  Terms and indices are Go \<open>int\<close>s and are modelled by unbounded integers (the program only
  increments them by one and never comes near \<open>2^63\<close>).  A value of type \<open>interface{}\<close> in the log or
  on the apply channel is nil, an int (the placeholder \<open>-1\<close>), a service command or a snapshot.
  The peers are represented by their number.  Each definition is one critical section of \<open>rf.mu\<close>;
  operations that release the lock in the middle (\<open>leaderElection\<close>, \<open>broadcastEntries\<close>,
  \<open>sendSnapshot\<close>) are split there, and the local variables that live across the gap are records of
  their own.  The apply channel is the list of the messages sent on it so far.  \<open>None\<close> is a
  run-time panic (an index out of range).  Logging is left out, except where evaluating its
  arguments can panic (\<open>applyLogs\<close>).
\<close>

section \<open>Data\<close>

datatype ('c, 's) iface = INil | IInt int | IOp 'c | IBytes "'s list"

datatype role = Leader | Candidate | Follower

definition votedNull :: int where
  "votedNull = -1"

record ('c, 's) entry =
  e_Term :: int
  e_Index :: int
  e_Command :: "('c, 's) iface"

record ('c, 's) applymsg =
  CommandValid :: bool
  am_Command :: "('c, 's) iface"
  CommandIndex :: int
  CommitTerm :: int
  am_Role :: role

text \<open>What \<open>persist\<close> encodes: ints and the log slice.\<close>

datatype ('c, 's) rval = RInt int | RLogs "('c, 's) entry list"

fun as_int :: "('c, 's) rval \<Rightarrow> int option" where
  "as_int (RInt i) = Some i"
| "as_int (RLogs _) = None"

fun as_logs :: "('c, 's) rval \<Rightarrow> ('c, 's) entry list option" where
  "as_logs (RLogs l) = Some l"
| "as_logs (RInt _) = None"

record ('c, 's) raft =
  npeers :: nat
  persister :: "(('c, 's) rval, 's) persister"
  me :: nat
  role :: role
  currentTerm :: int
  votedFor :: int
  logs :: "('c, 's) entry list"
  commitIndex :: int
  lastApplied :: int
  nextIndex :: "int list"
  matchIndex :: "int list"
  appendCh :: "bool list"
  voteCh :: "bool list"
  exitCh :: "bool list"
  leaderCh :: "bool list"
  applyCh :: "('c, 's) applymsg list"
  lastIncludedIndex :: int
  lastIncludedTerm :: int

record ('c, 's) AppendEntriesArgs =
  ae_Term :: int
  ae_LeaderId :: nat
  PrevLogIndex :: int
  PrevLogTerm :: int
  ae_Entries :: "('c, 's) entry list"
  LeaderCommit :: int

record AppendEntriesReply =
  ar_Term :: int
  Success :: bool
  ConflictIndex :: int
  ConflictTerm :: int

record RequestVoteArgs =
  rv_Term :: int
  CandidateId :: nat
  LastLogIndex :: int
  LastLogTerm :: int

record RequestVoteReply =
  rr_Term :: int
  VoteGranted :: bool

record 's InstallSnapshotArgs =
  is_Term :: int
  LeaaderId :: nat
  is_LastIncludedIndex :: int
  is_LastIncludedTerm :: int
  is_Data :: "'s list"

record InstallSnapshotReply =
  ir_Term :: int

section \<open>Index arithmetic and small helpers\<close>

definition go_min :: "int \<Rightarrow> int \<Rightarrow> int" where
  "go_min a b = (if a < b then a else b)"

definition go_max :: "int \<Rightarrow> int \<Rightarrow> int" where
  "go_max a b = (if a < b then b else a)"

definition subIdx :: "('c, 's) raft \<Rightarrow> int \<Rightarrow> int" where
  "subIdx rf i = i - lastIncludedIndex rf"

definition addIdx :: "('c, 's) raft \<Rightarrow> int \<Rightarrow> int" where
  "addIdx rf i = i + lastIncludedIndex rf"

definition getLastLogIndex :: "('c, 's) raft \<Rightarrow> int" where
  "getLastLogIndex rf = addIdx rf (int (length (logs rf)) - 1)"

definition getLastLogTerm :: "('c, 's) raft \<Rightarrow> int option" where
  "getLastLogTerm rf = map_option e_Term (go_idx (logs rf) (int (length (logs rf)) - 1))"

definition getPrevLogIndex :: "('c, 's) raft \<Rightarrow> nat \<Rightarrow> int option" where
  "getPrevLogIndex rf server = map_option (\<lambda>n. n - 1) (go_idx (nextIndex rf) (int server))"

definition getPrevLogTerm :: "('c, 's) raft \<Rightarrow> nat \<Rightarrow> int option" where
  "getPrevLogTerm rf server = do {
     p \<leftarrow> getPrevLogIndex rf server;
     map_option e_Term (go_idx (logs rf) (subIdx rf p)) }"

definition checkState :: "('c, 's) raft \<Rightarrow> role \<Rightarrow> int \<Rightarrow> bool" where
  "checkState rf r term \<longleftrightarrow> role rf = r \<and> currentTerm rf = term"

definition GetState :: "('c, 's) raft \<Rightarrow> int \<times> bool" where
  "GetState rf = (currentTerm rf, role rf = Leader)"

text \<open>Drain the one-element buffered channel, then send.\<close>

definition dropAndSet :: "bool list \<Rightarrow> bool list" where
  "dropAndSet ch = (case ch of [] \<Rightarrow> [] | _ # rest \<Rightarrow> rest) @ [True]"

section \<open>Persistence\<close>

definition encodeState :: "('c, 's) raft \<Rightarrow> ('c, 's) rval list" where
  "encodeState rf =
     (let w = [];
          w = gob_put w (RInt (currentTerm rf));
          w = gob_put w (RInt (votedFor rf));
          w = gob_put w (RLogs (logs rf));
          w = gob_put w (RInt (lastIncludedIndex rf));
          w = gob_put w (RInt (lastIncludedTerm rf))
      in w)"

definition persist :: "('c, 's) raft \<Rightarrow> ('c, 's) raft" where
  "persist rf = rf\<lparr>persister := SaveRaftState (persister rf) (encodeState rf)\<rparr>"

definition persistStateAndSnapshot :: "('c, 's) raft \<Rightarrow> 's list \<Rightarrow> ('c, 's) raft" where
  "persistStateAndSnapshot rf snap =
     rf\<lparr>persister := SaveStateAndSnapshot (persister rf) (encodeState rf) snap\<rparr>"

definition decodeState ::
    "('c, 's) rval list \<Rightarrow> (int \<times> int \<times> ('c, 's) entry list \<times> int \<times> int) option" where
  "decodeState r = do {
     (term, r) \<leftarrow> gob_take as_int r;
     (voted, r) \<leftarrow> gob_take as_int r;
     (ls, r) \<leftarrow> gob_take as_logs r;
     (lii, r) \<leftarrow> gob_take as_int r;
     (lit, r) \<leftarrow> gob_take as_int r;
     Some (term, voted, ls, lii, lit) }"

definition readPersist :: "('c, 's) raft \<Rightarrow> ('c, 's) rval list \<Rightarrow> ('c, 's) raft" where
  "readPersist rf data =
     (if data = [] then rf
      else case decodeState data of
        None \<Rightarrow> rf
      | Some (term, voted, ls, lii, lit) \<Rightarrow>
          rf\<lparr>currentTerm := term, votedFor := voted, logs := ls,
             lastIncludedIndex := lii, lastIncludedTerm := lit,
             lastApplied := lii, commitIndex := lii\<rparr>)"

section \<open>Roles\<close>

text \<open>The loop of \<open>case Leader\<close>: every peer's slot but one's own.\<close>

fun setOthers :: "nat list \<Rightarrow> nat \<Rightarrow> int \<Rightarrow> int list \<Rightarrow> int list" where
  "setOthers [] self v xs = xs"
| "setOthers (i # is) self v xs = setOthers is self v (if i = self then xs else xs[i := v])"

definition convertRoleTo :: "('c, 's) raft \<Rightarrow> role \<Rightarrow> ('c, 's) raft" where
  "convertRoleTo rf r = persist (case r of
     Leader \<Rightarrow>
       (let rf = rf\<lparr>role := Leader\<rparr> in
        rf\<lparr>nextIndex := setOthers [0..<npeers rf] (me rf)
              (int (length (logs rf)) + lastIncludedIndex rf) (nextIndex rf),
           matchIndex := setOthers [0..<npeers rf] (me rf) 0 (matchIndex rf)\<rparr>)
   | Candidate \<Rightarrow>
       rf\<lparr>currentTerm := currentTerm rf + 1, votedFor := int (me rf), role := Candidate\<rparr>
   | Follower \<Rightarrow>
       rf\<lparr>votedFor := votedNull, role := Follower\<rparr>)"

section \<open>Applying committed entries\<close>

function applyLoop :: "('c, 's) raft \<Rightarrow> int \<Rightarrow> ('c, 's) raft option" where
  "applyLoop rf i =
     (if i \<le> commitIndex rf then do {
        e \<leftarrow> go_idx (logs rf) (subIdx rf i);
        applyLoop (rf\<lparr>applyCh := applyCh rf @
            [\<lparr>CommandValid = True, am_Command = e_Command e, CommandIndex = i,
              CommitTerm = currentTerm rf, am_Role = role rf\<rparr>]\<rparr>) (i + 1) }
      else Some rf)"
  by pat_completeness auto
termination
  by (relation "measure (\<lambda>(rf, i). nat (commitIndex rf + 1 - i))") auto

declare applyLoop.simps [simp del]

definition applyLogs :: "('c, 's) raft \<Rightarrow> ('c, 's) raft option" where
  "applyLogs rf = do {
     rf \<leftarrow> applyLoop rf (lastApplied rf + 1);
     _ \<leftarrow> go_idx (logs rf) (subIdx rf (commitIndex rf));
     Some (rf\<lparr>lastApplied := commitIndex rf\<rparr>) }"

section \<open>AppendEntries\<close>

text \<open>The loop that finds the first index of the conflicting term.\<close>

function conflictScan :: "('c, 's) raft \<Rightarrow> int \<Rightarrow> int \<Rightarrow> int \<Rightarrow> int option" where
  "conflictScan rf cterm i cidx =
     (if i > lastIncludedIndex rf then do {
        e \<leftarrow> go_idx (logs rf) (subIdx rf i);
        if e_Term e \<noteq> cterm then Some cidx
        else conflictScan rf cterm (i - 1) i }
      else Some cidx)"
  by pat_completeness auto
termination
  by (relation "measure (\<lambda>(rf, cterm, i, cidx). nat (i - lastIncludedIndex rf))") auto

declare conflictScan.simps [simp del]

text \<open>The loop that finds the first entry that differs, truncates there and appends the rest.\<close>

fun mergeEntries ::
    "('c, 's) entry list \<Rightarrow> int \<Rightarrow> ('c, 's) entry list \<Rightarrow> ('c, 's) entry list option" where
  "mergeEntries ls ind [] = Some ls"
| "mergeEntries ls ind (e # es) =
     (if ind < int (length ls) then do {
        l \<leftarrow> go_idx ls ind;
        if e_Term l \<noteq> e_Term e then do {
          pre \<leftarrow> go_slice_to ls ind;
          Some (pre @ e # es) }
        else mergeEntries ls (ind + 1) es }
      else Some (ls @ e # es))"

definition AppendEntries ::
    "('c, 's) raft \<Rightarrow> ('c, 's) AppendEntriesArgs \<Rightarrow> (('c, 's) raft \<times> AppendEntriesReply) option"
where
  "AppendEntries rf args =
     (let reply = \<lparr>ar_Term = currentTerm rf, Success = False, ConflictIndex = -1, ConflictTerm = -1\<rparr>
      in if ae_Term args < currentTerm rf then Some (rf, reply)
      else
        let (rf, reply) =
              (if ae_Term args > currentTerm rf
               then (convertRoleTo (rf\<lparr>currentTerm := ae_Term args\<rparr>) Follower,
                     reply\<lparr>ar_Term := ae_Term args\<rparr>)
               else (rf, reply));
            rf = rf\<lparr>appendCh := dropAndSet (appendCh rf)\<rparr>
        in if getLastLogIndex rf < PrevLogIndex args then
             Some (rf, reply\<lparr>ConflictTerm := -1, ConflictIndex := getLastLogIndex rf + 1\<rparr>)
           else if lastIncludedIndex rf > PrevLogIndex args then
             Some (rf, reply\<lparr>ConflictIndex := lastIncludedIndex rf + 1, ConflictTerm := -1\<rparr>)
           else do {
             p \<leftarrow> go_idx (logs rf) (subIdx rf (PrevLogIndex args));
             if PrevLogTerm args \<noteq> e_Term p then do {
               ci \<leftarrow> conflictScan rf (e_Term p) (PrevLogIndex args) (ConflictIndex reply);
               Some (rf, reply\<lparr>ConflictTerm := e_Term p, ConflictIndex := ci\<rparr>) }
             else do {
               let rf = rf\<lparr>currentTerm := ae_Term args\<rparr>;
               let reply = reply\<lparr>Success := True\<rparr>;
               ls \<leftarrow> mergeEntries (logs rf) (subIdx rf (PrevLogIndex args + 1)) (ae_Entries args);
               let rf = rf\<lparr>logs := ls\<rparr>;
               let rf = (if ae_Entries args \<noteq> [] then persist rf else rf);
               rf \<leftarrow> (if LeaderCommit args > commitIndex rf
                     then applyLogs (rf\<lparr>commitIndex :=
                            go_min (LeaderCommit args) (addIdx rf (int (length (logs rf)) - 1))\<rparr>)
                     else Some rf);
               Some (rf, reply) } })"

section \<open>RequestVote\<close>

definition RequestVote ::
    "('c, 's) raft \<Rightarrow> RequestVoteArgs \<Rightarrow> (('c, 's) raft \<times> RequestVoteReply) option" where
  "RequestVote rf args =
     (let reply = \<lparr>rr_Term = currentTerm rf, VoteGranted = False\<rparr>;
          rf = (if currentTerm rf < rv_Term args
                then convertRoleTo (rf\<lparr>currentTerm := rv_Term args\<rparr>) Follower
                else rf)
      in do {
        t \<leftarrow> getLastLogTerm rf;
        let newerEntries = (LastLogTerm args > t
              \<or> LastLogTerm args = t \<and> LastLogIndex args \<ge> getLastLogIndex rf);
        let voteOrNot = (votedFor rf = votedNull \<or> votedFor rf = int (CandidateId args));
        Some (if newerEntries \<and> voteOrNot
              then (persist (rf\<lparr>votedFor := int (CandidateId args), voteCh := dropAndSet (voteCh rf)\<rparr>),
                    reply\<lparr>VoteGranted := True\<rparr>)
              else (rf, reply)) })"

section \<open>Start and Kill\<close>

definition Start :: "('c, 's) raft \<Rightarrow> 'c \<Rightarrow> ('c, 's) raft \<times> int \<times> int \<times> bool" where
  "Start rf command =
     (let term = currentTerm rf; isLeader = (role rf = Leader)
      in if isLeader then
           let index = int (length (logs rf)) + lastIncludedIndex rf;
               rf = rf\<lparr>logs := logs rf @
                  [\<lparr>e_Term = currentTerm rf, e_Index = index, e_Command = IOp command\<rparr>]\<rparr>
           in (persist rf, index, term, isLeader)
         else (rf, -1, term, isLeader))"

text \<open>The exit channel has one slot: a second \<open>Kill\<close> blocks until the main loop has read it.\<close>

definition Kill :: "('c, 's) raft \<Rightarrow> ('c, 's) raft option" where
  "Kill rf = (if exitCh rf = [] then Some (rf\<lparr>exitCh := [True]\<rparr>) else None)"

section \<open>Make and the main loop\<close>

definition Make :: "nat \<Rightarrow> nat \<Rightarrow> (('c, 's) rval, 's) persister \<Rightarrow> ('c, 's) raft option" where
  "Make n self ps =
     (let rf = \<lparr>npeers = n, persister = ps, me = self, role = Follower, currentTerm = -1,
                votedFor = votedNull,
                logs = [\<lparr>e_Term = 0, e_Index = 0, e_Command = INil\<rparr>],
                commitIndex = 0, lastApplied = 0,
                nextIndex = replicate n 0, matchIndex = replicate n 0,
                appendCh = [], voteCh = [], exitCh = [], leaderCh = [], applyCh = [],
                lastIncludedIndex = 0, lastIncludedTerm = -1\<rparr>;
          rf = readPersist rf (ReadRaftState ps)
      in do {
        ls \<leftarrow> go_set (logs rf) 0
               \<lparr>e_Term = lastIncludedTerm rf, e_Index = lastIncludedIndex rf, e_Command = IInt (-1)\<rparr>;
        Some (rf\<lparr>logs := ls\<rparr>) })"

text \<open>
  One \<open>select\<close> of the main loop, for the role sampled at the top of the iteration.  \<open>None\<close>: the
  chosen case is not ready (or not offered in that role).
\<close>

datatype wake = WAppend | WVote | WLeader | WTimeout

fun mainSelect :: "('c, 's) raft \<Rightarrow> role \<Rightarrow> wake \<Rightarrow> ('c, 's) raft option" where
  "mainSelect rf Leader w = None"
| "mainSelect rf r WAppend = (if appendCh rf = [] then None else Some (rf\<lparr>appendCh := tl (appendCh rf)\<rparr>))"
| "mainSelect rf r WVote = (if voteCh rf = [] then None else Some (rf\<lparr>voteCh := tl (voteCh rf)\<rparr>))"
| "mainSelect rf Follower WLeader = None"
| "mainSelect rf Candidate WLeader =
     (if leaderCh rf = [] then None else Some (rf\<lparr>leaderCh := tl (leaderCh rf)\<rparr>))"
| "mainSelect rf r WTimeout = Some (convertRoleTo rf Candidate)"

section \<open>leaderElection\<close>

text \<open>The variables shared by the goroutines of one election.\<close>

record election =
  requestArgs :: RequestVoteArgs
  voteCnt :: int
  voteFlag :: bool

definition electionBegin :: "('c, 's) raft \<Rightarrow> election option" where
  "electionBegin rf = do {
     t \<leftarrow> getLastLogTerm rf;
     Some \<lparr>requestArgs = \<lparr>rv_Term = currentTerm rf, CandidateId = me rf,
             LastLogIndex = getLastLogIndex rf, LastLogTerm = t\<rparr>,
           voteCnt = 1, voteFlag = True\<rparr> }"

text \<open>The check before each request is sent: still candidate of the same term.\<close>

definition electionMaySend :: "('c, 's) raft \<Rightarrow> election \<Rightarrow> nat \<Rightarrow> bool" where
  "electionMaySend rf el server \<longleftrightarrow>
     server < npeers rf \<and> server \<noteq> me rf \<and> checkState rf Candidate (rv_Term (requestArgs el))"

text \<open>The body of a vote goroutine after a reply arrived.\<close>

definition electionReply ::
    "('c, 's) raft \<Rightarrow> election \<Rightarrow> RequestVoteReply \<Rightarrow> ('c, 's) raft \<times> election" where
  "electionReply rf el reply =
     (if rr_Term reply > currentTerm rf then (convertRoleTo rf Follower, el)
      else if \<not> checkState rf Candidate (rv_Term (requestArgs el)) then (rf, el)
      else if VoteGranted reply then
        let el = el\<lparr>voteCnt := voteCnt el + 1\<rparr>
        in if voteFlag el \<and> voteCnt el > go_div (int (npeers rf)) 2
           then (let rf = convertRoleTo rf Leader
                 in (rf\<lparr>leaderCh := dropAndSet (leaderCh rf)\<rparr>, el\<lparr>voteFlag := False\<rparr>))
           else (rf, el)
      else (rf, el))"

section \<open>broadcastEntries\<close>

text \<open>The variables shared by the goroutines of one broadcast.\<close>

record broadcast =
  curTerm :: int
  commitFlag :: bool
  commitNum :: int

definition broadcastBegin :: "('c, 's) raft \<Rightarrow> broadcast" where
  "broadcastBegin rf = \<lparr>curTerm = currentTerm rf, commitFlag = True, commitNum = 1\<rparr>"

definition sendSnapshotArgs :: "('c, 's) raft \<Rightarrow> 's InstallSnapshotArgs" where
  "sendSnapshotArgs rf = \<lparr>is_Term = currentTerm rf, LeaaderId = me rf,
     is_LastIncludedIndex = lastIncludedIndex rf, is_LastIncludedTerm = lastIncludedTerm rf,
     is_Data = ReadSnapshot (persister rf)\<rparr>"

datatype ('c, 's) send = SendNothing | SendSnapshot "'s InstallSnapshotArgs"
  | SendAppend "('c, 's) AppendEntriesArgs"

text \<open>The head of the goroutine's loop: what is sent to \<open>server\<close>.\<close>

definition broadcastSend ::
    "('c, 's) raft \<Rightarrow> broadcast \<Rightarrow> nat \<Rightarrow> ('c, 's) send option" where
  "broadcastSend rf bc server =
     (if \<not> checkState rf Leader (curTerm bc) then Some SendNothing
      else do {
        next \<leftarrow> go_idx (nextIndex rf) (int server);
        if next \<le> lastIncludedIndex rf then Some (SendSnapshot (sendSnapshotArgs rf))
        else do {
          p \<leftarrow> getPrevLogIndex rf server;
          t \<leftarrow> getPrevLogTerm rf server;
          es \<leftarrow> go_slice_from (logs rf) (subIdx rf next);
          Some (SendAppend \<lparr>ae_Term = curTerm bc, ae_LeaderId = me rf, PrevLogIndex = p,
                  PrevLogTerm = t, ae_Entries = es, LeaderCommit = commitIndex rf\<rparr>) } })"

text \<open>
  The scan for the last entry of the conflicting term: the new \<open>nextIndex\<close> and the final loop
  variable.
\<close>

function backtrack :: "('c, 's) raft \<Rightarrow> int \<Rightarrow> int \<Rightarrow> int \<Rightarrow> (int \<times> int) option" where
  "backtrack rf cterm next i =
     (if i > lastIncludedIndex rf then do {
        e \<leftarrow> go_idx (logs rf) (subIdx rf i);
        if e_Term e = cterm then Some (i + 1, i)
        else backtrack rf cterm next (i - 1) }
      else Some (next, i))"
  by pat_completeness auto
termination
  by (relation "measure (\<lambda>(rf, cterm, next, i). nat (i - lastIncludedIndex rf))") auto

declare backtrack.simps [simp del]

text \<open>
  The rest of the loop body, after a reply arrived.  The last component says whether the goroutine
  goes round its loop again.
\<close>

definition broadcastReply ::
    "('c, 's) raft \<Rightarrow> broadcast \<Rightarrow> nat \<Rightarrow> ('c, 's) AppendEntriesArgs \<Rightarrow> AppendEntriesReply
      \<Rightarrow> (('c, 's) raft \<times> broadcast \<times> bool) option" where
  "broadcastReply rf bc server args reply =
     (if ar_Term reply > curTerm bc then
        Some (convertRoleTo (rf\<lparr>currentTerm := ar_Term reply\<rparr>) Follower, bc, False)
      else if \<not> checkState rf Leader (curTerm bc) \<or> ae_Entries args = [] then Some (rf, bc, False)
      else if Success reply then
        let curCommitLen = PrevLogIndex args + int (length (ae_Entries args))
        in if curCommitLen < commitIndex rf then Some (rf, bc, False)
           else do {
             m \<leftarrow> go_idx (matchIndex rf) (int server);
             rf \<leftarrow> (if curCommitLen \<ge> m then do {
                     ms \<leftarrow> go_set (matchIndex rf) (int server) curCommitLen;
                     ns \<leftarrow> go_set (nextIndex rf) (int server) (curCommitLen + 1);
                     Some (rf\<lparr>matchIndex := ms, nextIndex := ns\<rparr>) }
                   else Some rf);
             let bc = bc\<lparr>commitNum := commitNum bc + 1\<rparr>;
             if commitFlag bc \<and> commitNum bc > go_div (int (npeers rf)) 2 then do {
               rf \<leftarrow> applyLogs (rf\<lparr>commitIndex := curCommitLen\<rparr>);
               Some (rf, bc\<lparr>commitFlag := False\<rparr>, False) }
             else Some (rf, bc, False) }
      else if ConflictTerm reply = -1 then do {
        ns \<leftarrow> go_set (nextIndex rf) (int server) (ConflictIndex reply);
        Some (rf\<lparr>nextIndex := ns\<rparr>, bc, True) }
      else do {
        (next, i) \<leftarrow> backtrack rf (ConflictTerm reply) (addIdx rf 1) (ConflictIndex reply);
        let next = (if i \<le> lastIncludedIndex rf \<and> lastIncludedIndex rf \<noteq> 0
                    then lastIncludedIndex rf else next);
        ns \<leftarrow> go_set (nextIndex rf) (int server) next;
        Some (rf\<lparr>nextIndex := ns\<rparr>, bc, True) })"

section \<open>Snapshots\<close>

definition TakeSnapshot ::
    "('c, 's) raft \<Rightarrow> 's list \<Rightarrow> int \<Rightarrow> int \<Rightarrow> ('c, 's) raft option" where
  "TakeSnapshot rf rawSnapshot appliedId term =
     (if appliedId \<le> lastIncludedIndex rf then Some rf
      else do {
        ls \<leftarrow> go_slice_from (logs rf) (subIdx rf appliedId);
        Some (persistStateAndSnapshot
          (rf\<lparr>logs := ls, lastIncludedTerm := term, lastIncludedIndex := appliedId\<rparr>) rawSnapshot) })"

definition InstallSnapshot ::
    "('c, 's) raft \<Rightarrow> 's InstallSnapshotArgs \<Rightarrow> (('c, 's) raft \<times> InstallSnapshotReply) option" where
  "InstallSnapshot rf args =
     (let reply = \<lparr>ir_Term = currentTerm rf\<rparr>
      in if currentTerm rf > is_Term args \<or> is_LastIncludedIndex args \<le> lastIncludedIndex rf
         then Some (rf, reply)
         else
           let rf = (if is_Term args > currentTerm rf
                     then convertRoleTo (rf\<lparr>currentTerm := is_Term args\<rparr>) Follower else rf);
               rf = rf\<lparr>appendCh := dropAndSet (appendCh rf)\<rparr>
           in do {
             ls \<leftarrow> (if is_LastIncludedIndex args \<le> getLastLogIndex rf
                   then go_slice_from (logs rf) (subIdx rf (is_LastIncludedIndex args))
                   else Some [\<lparr>e_Term = is_LastIncludedTerm args,
                               e_Index = is_LastIncludedIndex args, e_Command = IInt (-1)\<rparr>]);
             let rf = rf\<lparr>logs := ls, lastIncludedIndex := is_LastIncludedIndex args,
                         lastIncludedTerm := is_LastIncludedTerm args\<rparr>;
             let rf = rf\<lparr>lastApplied := go_max (lastIncludedIndex rf) (lastApplied rf),
                         commitIndex := go_max (lastIncludedIndex rf) (commitIndex rf)\<rparr>;
             let rf = persistStateAndSnapshot rf (is_Data args);
             Some (rf\<lparr>applyCh := applyCh rf @
                [\<lparr>CommandValid = False, am_Command = IBytes (is_Data args),
                  CommandIndex = lastIncludedIndex rf, CommitTerm = lastIncludedTerm rf,
                  am_Role = role rf\<rparr>]\<rparr>, reply) })"

text \<open>The second half of \<open>sendSnapshot\<close>: the reply arrived before the time-out.\<close>

definition sendSnapshotReply ::
    "('c, 's) raft \<Rightarrow> nat \<Rightarrow> 's InstallSnapshotArgs \<Rightarrow> InstallSnapshotReply \<Rightarrow> ('c, 's) raft option"
where
  "sendSnapshotReply rf server arg reply =
     (if ir_Term reply > currentTerm rf then
        Some (convertRoleTo (rf\<lparr>currentTerm := ir_Term reply\<rparr>) Follower)
      else if \<not> checkState rf Leader (is_Term arg) then Some rf
      else do {
        ns \<leftarrow> go_set (nextIndex rf) (int server) (is_LastIncludedIndex arg + 1);
        ms \<leftarrow> go_set (matchIndex rf) (int server) (is_LastIncludedIndex arg);
        Some (rf\<lparr>nextIndex := ns, matchIndex := ms\<rparr>) })"

end
