(* ===== verification/Raft_Log.thy ===== *)
theory Raft_Log
  imports Raft_Model
begin

text \<open>
  The log of a Raft peer: well-formedness, the behaviour of \<open>applyLogs\<close> and of the
  \<open>AppendEntries\<close> handler (\<^verbatim>\<open>src/src/raft/raft.go\<close>).

  \<open>logAt rf i\<close> is the entry with absolute index \<open>i\<close>; position 0 of the slice is the snapshot
  placeholder.  \<open>log_wf\<close> is what indexing needs (it is kept by every handler, for every message
  with consecutively numbered entries); \<open>raft_wf\<close> adds the relation between the commit index and
  the log.
\<close>

section \<open>Well-formedness\<close>

definition logAt :: "('c, 's) raft \<Rightarrow> int \<Rightarrow> ('c, 's) entry option" where
  "logAt rf i = go_idx (logs rf) (subIdx rf i)"

definition numbered :: "int \<Rightarrow> ('c, 's) entry list \<Rightarrow> bool" where
  "numbered b es \<longleftrightarrow> (\<forall>k < length es. e_Index (es ! k) = b + int k)"

definition log_wf :: "('c, 's) raft \<Rightarrow> bool" where
  "log_wf rf \<longleftrightarrow> logs rf \<noteq> [] \<and> numbered (lastIncludedIndex rf) (logs rf)
     \<and> 0 \<le> lastIncludedIndex rf \<and> lastIncludedIndex rf \<le> lastApplied rf
     \<and> lastApplied rf = commitIndex rf"

definition raft_wf :: "('c, 's) raft \<Rightarrow> bool" where
  "raft_wf rf \<longleftrightarrow> log_wf rf \<and> commitIndex rf \<le> getLastLogIndex rf
     \<and> length (nextIndex rf) = npeers rf \<and> length (matchIndex rf) = npeers rf"

lemmas idx_defs [go_simps] = subIdx_def addIdx_def getLastLogIndex_def

lemma logAt_Some:
  "logAt rf i = Some e \<longleftrightarrow>
     lastIncludedIndex rf \<le> i \<and> i \<le> getLastLogIndex rf \<and> e = logs rf ! nat (i - lastIncludedIndex rf)"
  by (auto simp: logAt_def go_simps)

lemma logAt_in:
  "lastIncludedIndex rf \<le> i \<Longrightarrow> i \<le> getLastLogIndex rf \<Longrightarrow>
     logAt rf i = Some (logs rf ! nat (i - lastIncludedIndex rf))"
  by (simp add: logAt_Some)

lemma logAt_None: "logAt rf i = None \<longleftrightarrow> i < lastIncludedIndex rf \<or> getLastLogIndex rf < i"
  by (auto simp: logAt_def go_idx_None idx_defs)

lemma logAt_index:
  "log_wf rf \<Longrightarrow> logAt rf i = Some e \<Longrightarrow> e_Index e = i"
  by (auto simp: logAt_Some log_wf_def numbered_def idx_defs)

lemma log_wf_last: "log_wf rf \<Longrightarrow> lastIncludedIndex rf \<le> getLastLogIndex rf"
  by (cases "logs rf") (auto simp: log_wf_def idx_defs)

lemma numbered_append:
  "numbered b (xs @ ys) \<longleftrightarrow> numbered b xs \<and> numbered (b + int (length xs)) ys"
proof
  assume h: "numbered b (xs @ ys)"
  have "e_Index (xs ! k) = b + int k" if "k < length xs" for k
    using h that by (auto simp: numbered_def nth_append dest!: spec [of _ k])
  moreover have "e_Index (ys ! k) = b + int (length xs) + int k" if "k < length ys" for k
    using h that by (auto simp: numbered_def nth_append dest!: spec [of _ "length xs + k"])
  ultimately show "numbered b xs \<and> numbered (b + int (length xs)) ys"
    by (simp add: numbered_def)
next
  assume h: "numbered b xs \<and> numbered (b + int (length xs)) ys"
  show "numbered b (xs @ ys)"
    unfolding numbered_def
  proof (intro allI impI)
    fix k assume k: "k < length (xs @ ys)"
    show "e_Index ((xs @ ys) ! k) = b + int k"
    proof (cases "k < length xs")
      case True
      with h show ?thesis by (simp add: numbered_def nth_append)
    next
      case False
      with h k have "e_Index (ys ! (k - length xs)) = b + int (length xs) + int (k - length xs)"
        by (simp add: numbered_def)
      with False show ?thesis by (simp add: nth_append)
    qed
  qed
qed

lemma numbered_take: "numbered b xs \<Longrightarrow> numbered b (take n xs)"
  by (simp add: numbered_def)

lemma numbered_drop: "numbered b xs \<Longrightarrow> n \<le> length xs \<Longrightarrow> numbered (b + int n) (drop n xs)"
  by (simp add: numbered_def)

section \<open>Frame facts of the small operations\<close>

lemma persist_simps [simp]:
  "npeers (persist rf) = npeers rf" "me (persist rf) = me rf" "role (persist rf) = role rf"
  "currentTerm (persist rf) = currentTerm rf" "votedFor (persist rf) = votedFor rf"
  "logs (persist rf) = logs rf" "commitIndex (persist rf) = commitIndex rf"
  "lastApplied (persist rf) = lastApplied rf" "nextIndex (persist rf) = nextIndex rf"
  "matchIndex (persist rf) = matchIndex rf" "appendCh (persist rf) = appendCh rf"
  "voteCh (persist rf) = voteCh rf" "exitCh (persist rf) = exitCh rf"
  "leaderCh (persist rf) = leaderCh rf" "applyCh (persist rf) = applyCh rf"
  "lastIncludedIndex (persist rf) = lastIncludedIndex rf"
  "lastIncludedTerm (persist rf) = lastIncludedTerm rf"
  "persister (persist rf) = SaveRaftState (persister rf) (encodeState rf)"
  by (simp_all add: persist_def)

lemma persistBoth_simps [simp]:
  "npeers (persistStateAndSnapshot rf s) = npeers rf" "me (persistStateAndSnapshot rf s) = me rf"
  "role (persistStateAndSnapshot rf s) = role rf"
  "currentTerm (persistStateAndSnapshot rf s) = currentTerm rf"
  "votedFor (persistStateAndSnapshot rf s) = votedFor rf"
  "logs (persistStateAndSnapshot rf s) = logs rf"
  "commitIndex (persistStateAndSnapshot rf s) = commitIndex rf"
  "lastApplied (persistStateAndSnapshot rf s) = lastApplied rf"
  "nextIndex (persistStateAndSnapshot rf s) = nextIndex rf"
  "matchIndex (persistStateAndSnapshot rf s) = matchIndex rf"
  "applyCh (persistStateAndSnapshot rf s) = applyCh rf"
  "lastIncludedIndex (persistStateAndSnapshot rf s) = lastIncludedIndex rf"
  "lastIncludedTerm (persistStateAndSnapshot rf s) = lastIncludedTerm rf"
  "persister (persistStateAndSnapshot rf s) =
     SaveStateAndSnapshot (persister rf) (encodeState rf) s"
  by (simp_all add: persistStateAndSnapshot_def)

lemma length_setOthers [simp]: "length (setOthers is self v xs) = length xs"
  by (induction "is" arbitrary: xs) auto

lemma setOthers_nth:
  "distinct is \<Longrightarrow> k < length xs \<Longrightarrow>
     setOthers is self v xs ! k = (if k \<in> set is \<and> k \<noteq> self then v else xs ! k)"
  by (induction "is" arbitrary: xs) (auto simp: nth_list_update)

lemma convertRoleTo_frame [simp]:
  "npeers (convertRoleTo rf r) = npeers rf" "me (convertRoleTo rf r) = me rf"
  "role (convertRoleTo rf r) = r" "logs (convertRoleTo rf r) = logs rf"
  "commitIndex (convertRoleTo rf r) = commitIndex rf"
  "lastApplied (convertRoleTo rf r) = lastApplied rf"
  "applyCh (convertRoleTo rf r) = applyCh rf"
  "lastIncludedIndex (convertRoleTo rf r) = lastIncludedIndex rf"
  "lastIncludedTerm (convertRoleTo rf r) = lastIncludedTerm rf"
  "length (nextIndex (convertRoleTo rf r)) = length (nextIndex rf)"
  "length (matchIndex (convertRoleTo rf r)) = length (matchIndex rf)"
  "appendCh (convertRoleTo rf r) = appendCh rf" "voteCh (convertRoleTo rf r) = voteCh rf"
  "leaderCh (convertRoleTo rf r) = leaderCh rf" "exitCh (convertRoleTo rf r) = exitCh rf"
  by (cases r; simp add: convertRoleTo_def Let_def)+

lemma convertRoleTo_term [simp]:
  "currentTerm (convertRoleTo rf Leader) = currentTerm rf"
  "currentTerm (convertRoleTo rf Follower) = currentTerm rf"
  "currentTerm (convertRoleTo rf Candidate) = currentTerm rf + 1"
  "votedFor (convertRoleTo rf Leader) = votedFor rf"
  "votedFor (convertRoleTo rf Follower) = votedNull"
  "votedFor (convertRoleTo rf Candidate) = int (me rf)"
  by (simp_all add: convertRoleTo_def Let_def)

text \<open>Facts that depend only on the log part of the state.\<close>

lemma log_wf_cong:
  "logs rf' = logs rf \<Longrightarrow> lastIncludedIndex rf' = lastIncludedIndex rf \<Longrightarrow>
   lastApplied rf' = lastApplied rf \<Longrightarrow> commitIndex rf' = commitIndex rf \<Longrightarrow> log_wf rf' = log_wf rf"
  by (simp add: log_wf_def)

lemma logAt_cong:
  "logs rf' = logs rf \<Longrightarrow> lastIncludedIndex rf' = lastIncludedIndex rf \<Longrightarrow> logAt rf' = logAt rf"
  by (simp add: logAt_def subIdx_def fun_eq_iff)

lemma getLastLogIndex_cong:
  "logs rf' = logs rf \<Longrightarrow> lastIncludedIndex rf' = lastIncludedIndex rf \<Longrightarrow>
     getLastLogIndex rf' = getLastLogIndex rf"
  by (simp add: idx_defs)

section \<open>applyLogs\<close>

text \<open>The message sent for the entry at index \<open>i\<close>.\<close>

definition applyMsgAt :: "('c, 's) raft \<Rightarrow> int \<Rightarrow> ('c, 's) applymsg" where
  "applyMsgAt rf i = \<lparr>CommandValid = True, am_Command = e_Command (the (logAt rf i)),
     CommandIndex = i, CommitTerm = currentTerm rf, am_Role = role rf\<rparr>"

lemma applyLoop_eq:
  assumes "lastIncludedIndex rf \<le> i" and "commitIndex rf \<le> getLastLogIndex rf"
  shows "applyLoop rf i = Some (rf\<lparr>applyCh := applyCh rf @ map (applyMsgAt rf) [i..commitIndex rf]\<rparr>)"
  using assms
proof (induction rf i rule: applyLoop.induct)
  case (1 rf i)
  show ?case
  proof (cases "i \<le> commitIndex rf")
    case False
    then show ?thesis by (simp add: applyLoop.simps [of rf i])
  next
    case True
    have at: "logAt rf i = Some (logs rf ! nat (i - lastIncludedIndex rf))"
      using True "1.prems" by (intro logAt_in) auto
    let ?e = "logs rf ! nat (i - lastIncludedIndex rf)"
    let ?rf = "rf\<lparr>applyCh := applyCh rf @ [applyMsgAt rf i]\<rparr>"
    have step: "applyLoop rf i = applyLoop ?rf (i + 1)"
      using True at by (simp add: applyLoop.simps [of rf i] applyMsgAt_def) (simp add: logAt_def)
    have msgs: "applyMsgAt ?rf = applyMsgAt rf"
      by (simp add: applyMsgAt_def logAt_def subIdx_def fun_eq_iff)
    have "applyLoop ?rf (i + 1)
        = Some (?rf\<lparr>applyCh := applyCh ?rf @ map (applyMsgAt ?rf) [i + 1..commitIndex ?rf]\<rparr>)"
    proof -
      have g: "go_idx (logs rf) (subIdx rf i) = Some ?e" using at by (simp add: logAt_def)
      have e: "applyMsgAt rf i = \<lparr>CommandValid = True, am_Command = e_Command ?e,
          CommandIndex = i, CommitTerm = currentTerm rf, am_Role = role rf\<rparr>"
        using at by (simp add: applyMsgAt_def)
      show ?thesis
        using "1.IH" [OF True g] "1.prems" unfolding e by (simp add: idx_defs)
    qed
    then show ?thesis
      unfolding step msgs using True by (simp add: upto_rec1 [of i])
  qed
qed

lemma applyLogs_eq:
  assumes "lastIncludedIndex rf \<le> lastApplied rf + 1" "commitIndex rf \<le> getLastLogIndex rf"
    and "lastIncludedIndex rf \<le> commitIndex rf"
  shows "applyLogs rf = Some (rf\<lparr>applyCh := applyCh rf @
           map (applyMsgAt rf) [lastApplied rf + 1..commitIndex rf], lastApplied := commitIndex rf\<rparr>)"
proof -
  have "go_idx (logs rf) (subIdx rf (commitIndex rf)) \<noteq> None"
    using assms by (auto simp: go_idx_None idx_defs)
  with assms show ?thesis
    by (auto simp: applyLogs_def applyLoop_eq subIdx_def)
qed

end
