(* ===== verification/Raft_Examples.thy ===== *)
theory Raft_Examples
  imports Raft_Log
begin

text \<open>
  Concrete peers and messages, used by the witnesses of the Raft theories: a follower of a
  three-server cluster with a short log, and messages a leader could send to it.
\<close>

lemma numbered_Nil [simp]: "numbered b []"
  by (simp add: numbered_def)

lemma numbered_Cons [simp]: "numbered b (e # es) \<longleftrightarrow> e_Index e = b \<and> numbered (b + 1) es"
  using numbered_append [of b "[e]" es] by (simp add: numbered_def)

definition ent :: "int \<Rightarrow> int \<Rightarrow> nat \<Rightarrow> (nat, nat) entry" where
  "ent t i c = \<lparr>e_Term = t, e_Index = i, e_Command = IOp c\<rparr>"

definition place :: "int \<Rightarrow> int \<Rightarrow> (nat, nat) entry" where
  "place t i = \<lparr>e_Term = t, e_Index = i, e_Command = IInt (-1)\<rparr>"

lemma ent_simps [simp]:
  "e_Term (ent t i c) = t" "e_Index (ent t i c) = i" "e_Command (ent t i c) = IOp c"
  "e_Term (place t i) = t" "e_Index (place t i) = i" "e_Command (place t i) = IInt (-1)"
  by (simp_all add: ent_def place_def)

text \<open>A peer with the given identity, role, term, vote, log, commit index and snapshot position.\<close>

definition peer :: "nat \<Rightarrow> nat \<Rightarrow> role \<Rightarrow> int \<Rightarrow> int \<Rightarrow> (nat, nat) entry list \<Rightarrow> int \<Rightarrow> int \<Rightarrow> int
    \<Rightarrow> (nat, nat) raft" where
  "peer n self r t v ls ci lii lit =
     persist \<lparr>npeers = n, persister = MakePersister, me = self, role = r, currentTerm = t,
       votedFor = v, logs = ls, commitIndex = ci, lastApplied = ci,
       nextIndex = replicate n (lii + int (length ls)), matchIndex = replicate n 0,
       appendCh = [], voteCh = [], exitCh = [], leaderCh = [], applyCh = [],
       lastIncludedIndex = lii, lastIncludedTerm = lit\<rparr>"

definition ex_follower :: "(nat, nat) raft" where
  "ex_follower = peer 3 1 Follower 2 0
     [place (-1) 0, ent 1 1 10, ent 1 2 11, ent 2 3 12] 1 0 (-1)"

definition ex_append :: "(nat, nat) AppendEntriesArgs" where
  "ex_append = \<lparr>ae_Term = 3, ae_LeaderId = 0, PrevLogIndex = 1, PrevLogTerm = 1,
     ae_Entries = [ent 1 2 11, ent 3 3 20, ent 3 4 21], LeaderCommit = 3\<rparr>"

definition ex_append_bad :: "(nat, nat) AppendEntriesArgs" where
  "ex_append_bad = \<lparr>ae_Term = 3, ae_LeaderId = 0, PrevLogIndex = 2, PrevLogTerm = 3,
     ae_Entries = [ent 3 3 20], LeaderCommit = 3\<rparr>"

lemmas ex_defs = ex_follower_def ex_append_def ex_append_bad_def peer_def

lemma ex_follower_log_wf: "log_wf ex_follower"
  by (simp add: ex_defs log_wf_def)

lemma ex_follower_raft_wf: "raft_wf ex_follower"
  by (simp add: ex_defs log_wf_def raft_wf_def idx_defs)

end
