(* ===== verification/Raft_Append.thy ===== *)
theory Raft_Append
  imports Raft_Examples
begin

text \<open>
  The \<open>AppendEntries\<close> handler of \<^verbatim>\<open>src/src/raft/raft.go\<close>: what it answers on every branch, what it
  does to the log, and that it never panics.
\<close>

section \<open>The merge loop\<close>

text \<open>
  \<open>agreeLen ls k es\<close>: how many of the entries \<open>es\<close>, laid at position \<open>k\<close>, are already in \<open>ls\<close> with the
  same term.
\<close>

fun agreeLen :: "('c, 's) entry list \<Rightarrow> nat \<Rightarrow> ('c, 's) entry list \<Rightarrow> nat" where
  "agreeLen ls k [] = 0"
| "agreeLen ls k (e # es) =
     (if k < length ls \<and> e_Term (ls ! k) = e_Term e then Suc (agreeLen ls (Suc k) es) else 0)"

text \<open>The specification of the loop: keep what agrees, replace from the first difference on.\<close>

definition mergeSpec ::
    "('c, 's) entry list \<Rightarrow> nat \<Rightarrow> ('c, 's) entry list \<Rightarrow> ('c, 's) entry list" where
  "mergeSpec ls k es =
     (let m = agreeLen ls k es in if m = length es then ls else take (k + m) ls @ drop m es)"

lemma agreeLen_le: "agreeLen ls k es \<le> length es"
  by (induction ls k es rule: agreeLen.induct) auto

lemma agreeLen_bound: "k \<le> length ls \<Longrightarrow> k + agreeLen ls k es \<le> length ls"
  by (induction ls k es rule: agreeLen.induct) auto

lemma agreeLen_term:
  "j < agreeLen ls k es \<Longrightarrow> e_Term (ls ! (k + j)) = e_Term (es ! j)"
proof (induction ls k es arbitrary: j rule: agreeLen.induct)
  case (2 ls k e es)
  then show ?case by (cases j) (auto split: if_splits)
qed simp

lemma agreeLen_stop:
  "agreeLen ls k es < length es \<Longrightarrow> k + agreeLen ls k es < length ls \<Longrightarrow>
     e_Term (ls ! (k + agreeLen ls k es)) \<noteq> e_Term (es ! agreeLen ls k es)"
  by (induction ls k es rule: agreeLen.induct) (auto split: if_splits)

lemma agreeLen_maximal:
  "(\<forall>j < n. k + j < length ls \<and> e_Term (ls ! (k + j)) = e_Term (es ! j)) \<Longrightarrow> n \<le> length es \<Longrightarrow>
     n \<le> agreeLen ls k es"
proof (induction ls k es arbitrary: n rule: agreeLen.induct)
  case (2 ls k e es)
  show ?case
  proof (cases n)
    case (Suc n')
    have "k < length ls \<and> e_Term (ls ! k) = e_Term e" using "2.prems"(1) Suc by force
    moreover have "\<forall>j < n'. Suc k + j < length ls \<and> e_Term (ls ! (Suc k + j)) = e_Term (es ! j)"
    proof (intro allI impI)
      fix j assume "j < n'"
      with Suc have "Suc j < n" by simp
      with "2.prems"(1) show "Suc k + j < length ls \<and> e_Term (ls ! (Suc k + j)) = e_Term (es ! j)"
        by fastforce
    qed
    ultimately show ?thesis using "2.IH" "2.prems"(2) Suc by simp
  qed simp
qed simp

text \<open>The loop of the code computes the specification.\<close>

lemma mergeEntries_spec:
  "k \<le> length ls \<Longrightarrow> mergeEntries ls (int k) es = Some (mergeSpec ls k es)"
proof (induction es arbitrary: k)
  case Nil
  then show ?case by (simp add: mergeSpec_def)
next
  case (Cons e es)
  show ?case
  proof (cases "k < length ls \<and> e_Term (ls ! k) = e_Term e")
    case True
    then have "mergeEntries ls (int k) (e # es) = mergeEntries ls (int (Suc k)) es"
      by (simp add: go_idx_def add.commute)
    with True Cons.IH [of "Suc k"] show ?thesis by (simp add: mergeSpec_def Let_def)
  next
    case False
    with Cons.prems show ?thesis
      by (auto simp: mergeSpec_def Let_def go_idx_def go_slice_to_def)
  qed
qed

lemma length_mergeSpec:
  "k \<le> length ls \<Longrightarrow>
     length (mergeSpec ls k es) = (if agreeLen ls k es = length es then length ls else k + length es)"
  using agreeLen_bound [of k ls es] agreeLen_le [of ls k es]
  by (auto simp: mergeSpec_def Let_def)

lemma mergeSpec_prefix:
  assumes "k \<le> length ls" and "i < k + agreeLen ls k es"
  shows "mergeSpec ls k es ! i = ls ! i"
  using assms agreeLen_bound [of k ls es] by (auto simp: mergeSpec_def Let_def nth_append)

lemma mergeSpec_suffix:
  assumes "k \<le> length ls" and "agreeLen ls k es \<le> j" and "j < length es"
  shows "mergeSpec ls k es ! (k + j) = es ! j"
  using assms agreeLen_bound [of k ls es] agreeLen_le [of ls k es]
  by (auto simp: mergeSpec_def Let_def nth_append)

lemma mergeSpec_term:
  assumes "k \<le> length ls" and "j < length es"
  shows "k + j < length (mergeSpec ls k es)" and "e_Term (mergeSpec ls k es ! (k + j)) = e_Term (es ! j)"
proof -
  show "k + j < length (mergeSpec ls k es)"
    using assms agreeLen_bound [of k ls es] by (auto simp: length_mergeSpec)
  show "e_Term (mergeSpec ls k es ! (k + j)) = e_Term (es ! j)"
  proof (cases "j < agreeLen ls k es")
    case True
    with assms show ?thesis by (simp add: mergeSpec_prefix agreeLen_term)
  next
    case False
    with assms show ?thesis by (simp add: mergeSpec_suffix)
  qed
qed

text \<open>Merging the same entries twice changes nothing the second time.\<close>

lemma agreeLen_merged: "k \<le> length ls \<Longrightarrow> agreeLen (mergeSpec ls k es) k es = length es"
  using agreeLen_maximal [of "length es" k "mergeSpec ls k es" es] mergeSpec_term [of k ls _ es]
    agreeLen_le [of "mergeSpec ls k es" k es] by auto

lemma mergeSpec_idem: "k \<le> length ls \<Longrightarrow> mergeSpec (mergeSpec ls k es) k es = mergeSpec ls k es"
  by (subst mergeSpec_def) (simp add: agreeLen_merged Let_def)

lemma numbered_mergeSpec:
  assumes "numbered b ls" and "numbered (b + int k) es" and "k \<le> length ls"
  shows "numbered b (mergeSpec ls k es)"
proof -
  let ?m = "agreeLen ls k es"
  have "numbered (b + int k + int ?m) (drop ?m es)"
    using numbered_drop [OF assms(2) agreeLen_le] by simp
  with assms agreeLen_bound [OF assms(3), of es] show ?thesis
    by (auto simp: mergeSpec_def Let_def numbered_append numbered_take min_def add.assoc)
qed

section \<open>The conflict scan\<close>

text \<open>
  Scanning down from \<open>i\<close> over entries of term \<open>t\<close>: the result is the first index of the run of \<open>t\<close> that
  ends at \<open>i\<close> (within the log after the snapshot), or the given default when the run is empty.
\<close>

definition hasTerm :: "('c, 's) raft \<Rightarrow> int \<Rightarrow> int \<Rightarrow> bool" where
  "hasTerm rf i t \<longleftrightarrow> map_option e_Term (logAt rf i) = Some t"

definition firstOfRun :: "('c, 's) raft \<Rightarrow> int \<Rightarrow> int \<Rightarrow> int \<Rightarrow> bool" where
  "firstOfRun rf t i c \<longleftrightarrow> lastIncludedIndex rf < c \<and> c \<le> i
     \<and> (\<forall>k \<in> {c..i}. hasTerm rf k t) \<and> (c = lastIncludedIndex rf + 1 \<or> \<not> hasTerm rf (c - 1) t)"

lemma firstOfRun_step:
  assumes "firstOfRun rf t (i - 1) c" and "hasTerm rf i t"
  shows "firstOfRun rf t i c"
proof -
  have "hasTerm rf k t" if "k \<in> {c..i}" for k
    using assms that by (cases "k = i") (auto simp: firstOfRun_def)
  with assms(1) show ?thesis by (auto simp: firstOfRun_def)
qed

lemma firstOfRun_base:
  "lastIncludedIndex rf < i \<Longrightarrow> hasTerm rf i t \<Longrightarrow>
     \<not> (lastIncludedIndex rf < i - 1 \<and> hasTerm rf (i - 1) t) \<Longrightarrow> firstOfRun rf t i i"
  by (auto simp: firstOfRun_def)

lemma conflictScan_spec:
  assumes "i \<le> getLastLogIndex rf"
  shows "\<exists>c. conflictScan rf t i d = Some c \<and>
     (if lastIncludedIndex rf < i \<and> hasTerm rf i t then firstOfRun rf t i c else c = d)"
  using assms
proof (induction rf t i d rule: conflictScan.induct)
  case (1 rf t i d)
  show ?case
  proof (cases "lastIncludedIndex rf < i")
    case False
    then show ?thesis by (simp add: conflictScan.simps [of rf t i d])
  next
    case gt: True
    obtain e where e: "go_idx (logs rf) (subIdx rf i) = Some e" "logAt rf i = Some e"
      using gt "1.prems" logAt_in [of rf i] by (auto simp: logAt_def)
    show ?thesis
    proof (cases "e_Term e = t")
      case False
      with gt e show ?thesis by (simp add: conflictScan.simps [of rf t i d] hasTerm_def)
    next
      case eq: True
      then have here: "hasTerm rf i t" using e by (simp add: hasTerm_def)
      have run: "conflictScan rf t i d = conflictScan rf t (i - 1) i"
        using gt e eq by (simp add: conflictScan.simps [of rf t i d])
      from "1.IH" [OF gt e(1)] eq "1.prems" obtain c where
        c: "conflictScan rf t (i - 1) i = Some c"
        and spec: "if lastIncludedIndex rf < i - 1 \<and> hasTerm rf (i - 1) t
             then firstOfRun rf t (i - 1) c else c = i"
        by auto
      have "firstOfRun rf t i c"
        using spec firstOfRun_step [OF _ here] firstOfRun_base [OF gt here] by (auto split: if_splits)
      with gt here run c show ?thesis by simp
    qed
  qed
qed

section \<open>The handler, branch by branch\<close>

text \<open>The state after the term check: the handler has adopted the leader's term.\<close>

definition ae_enter :: "('c, 's) raft \<Rightarrow> int \<Rightarrow> ('c, 's) raft" where
  "ae_enter rf t =
     (let rf = (if t > currentTerm rf then convertRoleTo (rf\<lparr>currentTerm := t\<rparr>) Follower else rf)
      in rf\<lparr>appendCh := dropAndSet (appendCh rf)\<rparr>)"

lemma ae_enter_simps [simp]:
  "logs (ae_enter rf t) = logs rf" "lastIncludedIndex (ae_enter rf t) = lastIncludedIndex rf"
  "lastIncludedTerm (ae_enter rf t) = lastIncludedTerm rf"
  "commitIndex (ae_enter rf t) = commitIndex rf" "lastApplied (ae_enter rf t) = lastApplied rf"
  "applyCh (ae_enter rf t) = applyCh rf" "npeers (ae_enter rf t) = npeers rf"
  "me (ae_enter rf t) = me rf"
  "length (nextIndex (ae_enter rf t)) = length (nextIndex rf)"
  "length (matchIndex (ae_enter rf t)) = length (matchIndex rf)"
  "getLastLogIndex (ae_enter rf t) = getLastLogIndex rf"
  "subIdx (ae_enter rf t) = subIdx rf" "logAt (ae_enter rf t) = logAt rf"
  by (auto simp: ae_enter_def Let_def idx_defs logAt_def fun_eq_iff)

lemma ae_enter_term: "currentTerm rf \<le> t \<Longrightarrow> currentTerm (ae_enter rf t) = t"
  by (auto simp: ae_enter_def Let_def)

lemma conflictScan_enter: "conflictScan (ae_enter rf t) c i d = conflictScan rf c i d"
proof (induction rf c i d rule: conflictScan.induct)
  case (1 rf c i d)
  show ?case
    using "1.IH" by (simp add: conflictScan.simps [of rf c i d]
        conflictScan.simps [of "ae_enter rf t" c i d] split: Option.bind_split)
qed

abbreviation aeReply :: "int \<Rightarrow> bool \<Rightarrow> int \<Rightarrow> int \<Rightarrow> AppendEntriesReply" where
  "aeReply t s ci ct \<equiv> \<lparr>ar_Term = t, Success = s, ConflictIndex = ci, ConflictTerm = ct\<rparr>"

lemma AppendEntries_stale:
  "ae_Term args < currentTerm rf \<Longrightarrow>
     AppendEntries rf args = Some (rf, aeReply (currentTerm rf) False (-1) (-1))"
  by (simp add: AppendEntries_def)

text \<open>A message that is not stale is handled in the state \<open>ae_enter\<close>.\<close>

lemma AppendEntries_live:
  assumes "currentTerm rf \<le> ae_Term args"
  shows "AppendEntries rf args =
     (let r = ae_enter rf (ae_Term args); prev = PrevLogIndex args
      in if getLastLogIndex rf < prev then
           Some (r, aeReply (ae_Term args) False (getLastLogIndex rf + 1) (-1))
         else if lastIncludedIndex rf > prev then
           Some (r, aeReply (ae_Term args) False (lastIncludedIndex rf + 1) (-1))
         else do {
           p \<leftarrow> logAt rf prev;
           if PrevLogTerm args \<noteq> e_Term p then do {
             ci \<leftarrow> conflictScan rf (e_Term p) prev (-1);
             Some (r, aeReply (ae_Term args) False ci (e_Term p)) }
           else do {
             ls \<leftarrow> mergeEntries (logs rf) (subIdx rf (prev + 1)) (ae_Entries args);
             let r = r\<lparr>logs := ls\<rparr>;
             let r = (if ae_Entries args \<noteq> [] then persist r else r);
             r \<leftarrow> (if LeaderCommit args > commitIndex r
                  then applyLogs (r\<lparr>commitIndex :=
                         go_min (LeaderCommit args) (addIdx r (int (length (logs r)) - 1))\<rparr>)
                  else Some r);
             Some (r, aeReply (ae_Term args) True (-1) (-1)) } })"
proof -
  let ?r = "ae_enter rf (ae_Term args)"
  have same: "?r\<lparr>currentTerm := ae_Term args\<rparr> = ?r" using ae_enter_term [OF assms] by simp
  have rep: "(if ae_Term args > currentTerm rf
        then (convertRoleTo (rf\<lparr>currentTerm := ae_Term args\<rparr>) Follower,
              (aeReply (currentTerm rf) False (-1) (-1))\<lparr>ar_Term := ae_Term args\<rparr>)
        else (rf, aeReply (currentTerm rf) False (-1) (-1)))
      = (if ae_Term args > currentTerm rf
         then convertRoleTo (rf\<lparr>currentTerm := ae_Term args\<rparr>) Follower else rf,
         aeReply (ae_Term args) False (-1) (-1))"
    using assms by auto
  have fold: "(if ae_Term args > currentTerm rf
        then convertRoleTo (rf\<lparr>currentTerm := ae_Term args\<rparr>) Follower else rf)
       \<lparr>appendCh := dropAndSet (appendCh (if ae_Term args > currentTerm rf
        then convertRoleTo (rf\<lparr>currentTerm := ae_Term args\<rparr>) Follower else rf))\<rparr> = ?r"
    by (simp add: ae_enter_def Let_def)
  show ?thesis
    using assms unfolding AppendEntries_def Let_def rep prod.case fold same
    by (simp add: conflictScan_enter logAt_def cong: if_cong)
qed

lemma AppendEntries_missing:
  "currentTerm rf \<le> ae_Term args \<Longrightarrow> getLastLogIndex rf < PrevLogIndex args \<Longrightarrow>
     AppendEntries rf args = Some (ae_enter rf (ae_Term args),
       aeReply (ae_Term args) False (getLastLogIndex rf + 1) (-1))"
  by (simp add: AppendEntries_live)

lemma AppendEntries_snapshotted:
  "currentTerm rf \<le> ae_Term args \<Longrightarrow> PrevLogIndex args \<le> getLastLogIndex rf \<Longrightarrow>
   PrevLogIndex args < lastIncludedIndex rf \<Longrightarrow>
     AppendEntries rf args = Some (ae_enter rf (ae_Term args),
       aeReply (ae_Term args) False (lastIncludedIndex rf + 1) (-1))"
  by (simp add: AppendEntries_live)

lemma AppendEntries_mismatch:
  assumes "currentTerm rf \<le> ae_Term args" and "logAt rf (PrevLogIndex args) = Some p"
    and "PrevLogTerm args \<noteq> e_Term p"
  shows "\<exists>c. conflictScan rf (e_Term p) (PrevLogIndex args) (-1) = Some c \<and>
     AppendEntries rf args = Some (ae_enter rf (ae_Term args),
       aeReply (ae_Term args) False c (e_Term p))"
proof -
  from assms(2) have b: "lastIncludedIndex rf \<le> PrevLogIndex args"
      "PrevLogIndex args \<le> getLastLogIndex rf" by (auto simp: logAt_Some)
  obtain c where "conflictScan rf (e_Term p) (PrevLogIndex args) (-1) = Some c"
    using conflictScan_spec [OF b(2)] by blast
  with assms b show ?thesis by (simp add: AppendEntries_live)
qed

text \<open>The accepting branch: the log is merged, persisted, and the commit index follows.\<close>

definition ae_merged :: "('c, 's) raft \<Rightarrow> ('c, 's) AppendEntriesArgs \<Rightarrow> ('c, 's) raft" where
  "ae_merged rf args =
     (let r = ae_enter rf (ae_Term args);
          r = r\<lparr>logs := mergeSpec (logs r) (nat (subIdx r (PrevLogIndex args + 1))) (ae_Entries args)\<rparr>
      in if ae_Entries args \<noteq> [] then persist r else r)"

definition ae_commit :: "('c, 's) raft \<Rightarrow> ('c, 's) AppendEntriesArgs \<Rightarrow> ('c, 's) raft" where
  "ae_commit r args =
     (if LeaderCommit args > commitIndex r
      then let r = r\<lparr>commitIndex := min (LeaderCommit args) (getLastLogIndex r)\<rparr>
           in r\<lparr>applyCh := applyCh r @ map (applyMsgAt r) [lastApplied r + 1..commitIndex r],
                lastApplied := commitIndex r\<rparr>
      else r)"

lemma ae_merged_simps [simp]:
  "logs (ae_merged rf args) =
     mergeSpec (logs rf) (nat (subIdx rf (PrevLogIndex args + 1))) (ae_Entries args)"
  "lastIncludedIndex (ae_merged rf args) = lastIncludedIndex rf"
  "lastIncludedTerm (ae_merged rf args) = lastIncludedTerm rf"
  "commitIndex (ae_merged rf args) = commitIndex rf"
  "lastApplied (ae_merged rf args) = lastApplied rf" "applyCh (ae_merged rf args) = applyCh rf"
  "npeers (ae_merged rf args) = npeers rf" "me (ae_merged rf args) = me rf"
  "length (nextIndex (ae_merged rf args)) = length (nextIndex rf)"
  "length (matchIndex (ae_merged rf args)) = length (matchIndex rf)"
  by (auto simp: ae_merged_def Let_def)

lemma ae_commit_frame [simp]:
  "logs (ae_commit r args) = logs r" "lastIncludedIndex (ae_commit r args) = lastIncludedIndex r"
  "lastIncludedTerm (ae_commit r args) = lastIncludedTerm r"
  "currentTerm (ae_commit r args) = currentTerm r" "votedFor (ae_commit r args) = votedFor r"
  "role (ae_commit r args) = role r" "persister (ae_commit r args) = persister r"
  "npeers (ae_commit r args) = npeers r" "me (ae_commit r args) = me r"
  "nextIndex (ae_commit r args) = nextIndex r" "matchIndex (ae_commit r args) = matchIndex r"
  by (auto simp: ae_commit_def Let_def)

lemma ae_merged_last:
  assumes "logAt rf (PrevLogIndex args) = Some p"
  shows "PrevLogIndex args \<le> getLastLogIndex (ae_merged rf args)"
    and "PrevLogIndex args + int (length (ae_Entries args)) \<le> getLastLogIndex (ae_merged rf args)"
proof -
  let ?k = "nat (subIdx rf (PrevLogIndex args + 1))"
  from assms have b: "lastIncludedIndex rf \<le> PrevLogIndex args"
      "PrevLogIndex args \<le> getLastLogIndex rf" by (auto simp: logAt_Some)
  then have k: "?k \<le> length (logs rf)" and kk: "int ?k = PrevLogIndex args + 1 - lastIncludedIndex rf"
    by (auto simp: idx_defs)
  show "PrevLogIndex args + int (length (ae_Entries args)) \<le> getLastLogIndex (ae_merged rf args)"
  proof -
    have "?k + length (ae_Entries args) \<le> length (logs (ae_merged rf args))"
      using agreeLen_bound [OF k, of "ae_Entries args"] by (simp add: length_mergeSpec [OF k])
    then have "int ?k + int (length (ae_Entries args)) \<le> int (length (logs (ae_merged rf args)))"
      by linarith
    with kk show ?thesis by (simp add: getLastLogIndex_def addIdx_def del: ae_merged_simps(1))
  qed
  then show "PrevLogIndex args \<le> getLastLogIndex (ae_merged rf args)" by simp
qed

lemma AppendEntries_accept:
  assumes wf: "log_wf rf" and t: "currentTerm rf \<le> ae_Term args"
    and p: "logAt rf (PrevLogIndex args) = Some p" and m: "PrevLogTerm args = e_Term p"
  shows "AppendEntries rf args =
     Some (ae_commit (ae_merged rf args) args, aeReply (ae_Term args) True (-1) (-1))"
proof -
  let ?r = "ae_enter rf (ae_Term args)"
  let ?k = "nat (subIdx rf (PrevLogIndex args + 1))"
  let ?M = "ae_merged rf args"
  let ?c = "?M\<lparr>commitIndex := min (LeaderCommit args) (getLastLogIndex ?M)\<rparr>"
  from p have b: "lastIncludedIndex rf \<le> PrevLogIndex args"
      "PrevLogIndex args \<le> getLastLogIndex rf" by (auto simp: logAt_Some)
  then have k: "?k \<le> length (logs rf)" and kk: "int ?k = subIdx rf (PrevLogIndex args + 1)"
    by (auto simp: idx_defs)
  have merge: "mergeEntries (logs rf) (subIdx rf (PrevLogIndex args + 1)) (ae_Entries args)
      = Some (mergeSpec (logs rf) ?k (ae_Entries args))"
    using mergeEntries_spec [OF k] kk by metis
  have appl: "applyLogs ?c = Some (?c\<lparr>applyCh := applyCh ?c @
        map (applyMsgAt ?c) [lastApplied ?c + 1..commitIndex ?c], lastApplied := commitIndex ?c\<rparr>)"
    if lc: "LeaderCommit args > commitIndex rf"
  proof (rule applyLogs_eq)
    show "lastIncludedIndex ?c \<le> lastApplied ?c + 1" using wf by (simp add: log_wf_def)
    show "commitIndex ?c \<le> getLastLogIndex ?c" by (simp add: idx_defs)
    show "lastIncludedIndex ?c \<le> commitIndex ?c"
      using wf lc b ae_merged_last(1) [OF p] by (auto simp: log_wf_def)
  qed
  have min: "go_min (LeaderCommit args) (addIdx ?M (int (length (logs ?M)) - 1))
      = min (LeaderCommit args) (getLastLogIndex ?M)"
    by (simp add: go_min_def getLastLogIndex_def min_def del: ae_merged_simps)
  have head: "AppendEntries rf args = do {
        rf' \<leftarrow> (if LeaderCommit args > commitIndex ?M
               then applyLogs (?M\<lparr>commitIndex := go_min (LeaderCommit args) (addIdx ?M (int (length (logs ?M)) - 1))\<rparr>)
               else Some ?M);
        Some (rf', aeReply (ae_Term args) True (-1) (-1)) }"
    using b m p merge unfolding AppendEntries_live [OF t] ae_merged_def Let_def by simp
  show ?thesis
  proof (cases "LeaderCommit args > commitIndex rf")
    case True
    then show ?thesis
      unfolding head min using appl by (simp add: ae_commit_def Let_def del: ae_merged_simps(1))
  next
    case False
    then show ?thesis unfolding head by (simp add: ae_commit_def)
  qed
qed

section \<open>Case analysis of the handler\<close>

text \<open>Every outcome of the handler is one of five; \<open>None\<close> is not among them.\<close>

lemma AppendEntries_outcomes:
  assumes wf: "log_wf rf"
  obtains (stale) "ae_Term args < currentTerm rf"
      "AppendEntries rf args = Some (rf, aeReply (currentTerm rf) False (-1) (-1))"
  | (missing) "currentTerm rf \<le> ae_Term args" "getLastLogIndex rf < PrevLogIndex args"
      "AppendEntries rf args = Some (ae_enter rf (ae_Term args),
         aeReply (ae_Term args) False (getLastLogIndex rf + 1) (-1))"
  | (snapshotted) "currentTerm rf \<le> ae_Term args" "PrevLogIndex args < lastIncludedIndex rf"
      "PrevLogIndex args \<le> getLastLogIndex rf"
      "AppendEntries rf args = Some (ae_enter rf (ae_Term args),
         aeReply (ae_Term args) False (lastIncludedIndex rf + 1) (-1))"
  | (mismatch) p c where "currentTerm rf \<le> ae_Term args" "logAt rf (PrevLogIndex args) = Some p"
      "PrevLogTerm args \<noteq> e_Term p"
      "conflictScan rf (e_Term p) (PrevLogIndex args) (-1) = Some c"
      "AppendEntries rf args = Some (ae_enter rf (ae_Term args),
         aeReply (ae_Term args) False c (e_Term p))"
  | (accept) p where "currentTerm rf \<le> ae_Term args" "logAt rf (PrevLogIndex args) = Some p"
      "PrevLogTerm args = e_Term p"
      "AppendEntries rf args = Some (ae_commit (ae_merged rf args) args,
         aeReply (ae_Term args) True (-1) (-1))"
proof -
  consider "ae_Term args < currentTerm rf" | "currentTerm rf \<le> ae_Term args" by linarith
  then show thesis
  proof cases
    case 1
    then show ?thesis using stale AppendEntries_stale by blast
  next
    case live: 2
    show ?thesis
    proof (cases "logAt rf (PrevLogIndex args)")
      case None
      then consider "getLastLogIndex rf < PrevLogIndex args"
        | "PrevLogIndex args < lastIncludedIndex rf" "PrevLogIndex args \<le> getLastLogIndex rf"
        by (meson logAt_None not_le)
      then show ?thesis
        using live missing snapshotted AppendEntries_missing AppendEntries_snapshotted by cases blast+
    next
      case (Some p)
      then show ?thesis
        using live mismatch accept AppendEntries_mismatch [OF live Some]
          AppendEntries_accept [OF wf live Some] by metis
    qed
  qed
qed

lemma ae_enter_wf: "log_wf rf \<Longrightarrow> log_wf (ae_enter rf t)"
  by (simp add: log_wf_def)

lemma ae_merge_index:
  assumes "logAt rf (PrevLogIndex args) = Some p"
  shows "nat (subIdx rf (PrevLogIndex args + 1)) \<le> length (logs rf)"
    and "int (nat (subIdx rf (PrevLogIndex args + 1))) = PrevLogIndex args + 1 - lastIncludedIndex rf"
  using assms by (auto simp: logAt_Some idx_defs)

lemma ae_merged_wf:
  assumes wf: "log_wf rf" and p: "logAt rf (PrevLogIndex args) = Some p"
    and num: "numbered (PrevLogIndex args + 1) (ae_Entries args)"
  shows "log_wf (ae_merged rf args)"
proof -
  note k = ae_merge_index [OF p]
  have "numbered (lastIncludedIndex rf)
      (mergeSpec (logs rf) (nat (subIdx rf (PrevLogIndex args + 1))) (ae_Entries args))"
    using wf num k by (intro numbered_mergeSpec) (auto simp: log_wf_def)
  moreover have "mergeSpec (logs rf) (nat (subIdx rf (PrevLogIndex args + 1))) (ae_Entries args) \<noteq> []"
    using wf length_mergeSpec [OF k(1), of "ae_Entries args"] k
    by (auto simp: log_wf_def logAt_Some [THEN iffD1, OF p] split: if_splits)
  ultimately show ?thesis using wf by (simp add: log_wf_def)
qed

lemma ae_commit_wf: "log_wf r \<Longrightarrow> log_wf (ae_commit r args)"
  using log_wf_last [of r] by (auto simp: ae_commit_def Let_def log_wf_def)

section \<open>Properties of the handler\<close>

text \<open>C3. The handler never panics: from a well-formed peer and for any message whose entries are
  numbered consecutively after \<open>PrevLogIndex\<close> it returns, the peer is well-formed again, and its
  term has not gone back.\<close>

theorem AppendEntries_total:
  assumes "log_wf rf" and "numbered (PrevLogIndex args + 1) (ae_Entries args)"
  shows "\<exists>rf' reply. AppendEntries rf args = Some (rf', reply) \<and> log_wf rf'
     \<and> currentTerm rf' = max (currentTerm rf) (ae_Term args)"
proof (rule AppendEntries_outcomes [OF assms(1), of args])
  fix p
  assume a: "currentTerm rf \<le> ae_Term args" "logAt rf (PrevLogIndex args) = Some p"
    "AppendEntries rf args = Some (ae_commit (ae_merged rf args) args,
       aeReply (ae_Term args) True (-1) (-1))"
  have "currentTerm (ae_merged rf args) = ae_Term args"
    using ae_enter_term [OF a(1)] by (simp add: ae_merged_def Let_def)
  with a assms ae_merged_wf ae_commit_wf show ?thesis by fastforce
qed (use assms(1) in \<open>auto simp: ae_enter_wf ae_enter_term\<close>)

text \<open>The concrete run the witnesses below refer to.\<close>

definition ex_after :: "(nat, nat) raft" where
  "ex_after = fst (the (AppendEntries ex_follower ex_append))"

definition ex_reply :: AppendEntriesReply where
  "ex_reply = snd (the (AppendEntries ex_follower ex_append))"

lemma ex_append_run: "AppendEntries ex_follower ex_append = Some (ex_after, ex_reply)"
  by code_simp

lemma ex_append_ok: "Success ex_reply" "numbered (PrevLogIndex ex_append + 1) (ae_Entries ex_append)"
  by code_simp (simp add: ex_append_def)

theorem AppendEntries_total_witness:
  "log_wf ex_follower \<and> (\<exists>rf' reply. AppendEntries ex_follower ex_append = Some (rf', reply)
     \<and> log_wf rf' \<and> currentTerm rf' = 3)"
  using AppendEntries_total [OF ex_follower_log_wf ex_append_ok(2)] ex_follower_log_wf
  by (simp add: ex_defs)

text \<open>The merged log, seen through absolute indices.\<close>

lemma ae_merged_logAt:
  assumes p: "logAt rf (PrevLogIndex args) = Some p"
  defines "m \<equiv> agreeLen (logs rf) (nat (subIdx rf (PrevLogIndex args + 1))) (ae_Entries args)"
  shows "i \<le> PrevLogIndex args + int m \<Longrightarrow> logAt (ae_merged rf args) i = logAt rf i"
    and "m \<le> j \<Longrightarrow> j < length (ae_Entries args) \<Longrightarrow>
           logAt (ae_merged rf args) (PrevLogIndex args + 1 + int j) = Some (ae_Entries args ! j)"
    and "j < length (ae_Entries args) \<Longrightarrow>
           hasTerm (ae_merged rf args) (PrevLogIndex args + 1 + int j) (e_Term (ae_Entries args ! j))"
    and "getLastLogIndex (ae_merged rf args) =
           (if m = length (ae_Entries args) then getLastLogIndex rf
            else PrevLogIndex args + int (length (ae_Entries args)))"
    and "m < length (ae_Entries args) \<Longrightarrow>
           \<not> hasTerm rf (PrevLogIndex args + 1 + int m) (e_Term (ae_Entries args ! m))"
proof -
  define k where "k = nat (subIdx rf (PrevLogIndex args + 1))"
  let ?M = "ae_merged rf args"
  let ?es = "ae_Entries args"
  note kp = ae_merge_index [OF p, folded k_def]
  have m: "m = agreeLen (logs rf) k ?es" by (simp add: m_def k_def)
  have ls: "logs ?M = mergeSpec (logs rf) k ?es" by (simp add: k_def)
  have lo: "lastIncludedIndex rf \<le> PrevLogIndex args" using p by (simp add: logAt_Some)
  have km: "k + m \<le> length (logs rf)" using agreeLen_bound [OF kp(1)] m by simp
  have len: "length (logs ?M) = (if m = length ?es then length (logs rf) else k + length ?es)"
    using length_mergeSpec [OF kp(1)] m ls by simp
  show "getLastLogIndex ?M = (if m = length ?es then getLastLogIndex rf
            else PrevLogIndex args + int (length ?es))"
    using len kp(2) by (simp add: getLastLogIndex_def addIdx_def del: ae_merged_simps(1))
  show "logAt ?M i = logAt rf i" if i: "i \<le> PrevLogIndex args + int m"
  proof (cases "i < lastIncludedIndex rf")
    case True
    then show ?thesis by (simp add: logAt_def go_idx_def subIdx_def)
  next
    case False
    then have n: "nat (i - lastIncludedIndex rf) < k + m" using i kp(2) by linarith
    with km len m have "nat (i - lastIncludedIndex rf) < length (logs ?M)"
      using agreeLen_le [of "logs rf" k ?es] by (auto split: if_splits)
    with n km False show ?thesis
      using mergeSpec_prefix [OF kp(1)] m ls
      by (simp add: logAt_def go_idx_def subIdx_def nat_less_iff del: ae_merged_simps(1))
  qed
  have at: "logAt ?M (PrevLogIndex args + 1 + int j) = Some (logs ?M ! (k + j))" if "j < length ?es" for j
  proof -
    have "nat (PrevLogIndex args + 1 + int j - lastIncludedIndex rf) = k + j" using kp(2) by linarith
    moreover have "k + j < length (logs ?M)" using mergeSpec_term(1) [OF kp(1) that] ls by simp
    ultimately show ?thesis using lo
      by (simp add: logAt_def go_idx_def subIdx_def nat_less_iff del: ae_merged_simps(1))
  qed
  show "logAt ?M (PrevLogIndex args + 1 + int j) = Some (?es ! j)"
    if "m \<le> j" and "j < length ?es"
    using at [OF that(2)] mergeSpec_suffix [OF kp(1)] that m ls by simp
  show "hasTerm ?M (PrevLogIndex args + 1 + int j) (e_Term (?es ! j))" if "j < length ?es"
    using at [OF that] mergeSpec_term(2) [OF kp(1) that] ls by (simp add: hasTerm_def)
  show "\<not> hasTerm rf (PrevLogIndex args + 1 + int m) (e_Term (?es ! m))" if "m < length ?es"
  proof -
    have "nat (PrevLogIndex args + 1 + int m - lastIncludedIndex rf) = k + m" using kp(2) by linarith
    then show ?thesis
      using agreeLen_stop [of "logs rf" k ?es] that m lo
      by (auto simp: hasTerm_def logAt_def go_idx_def subIdx_def nat_less_iff)
  qed
qed

lemma ae_commit_logAt [simp]:
  "logAt (ae_commit r args) = logAt r" "getLastLogIndex (ae_commit r args) = getLastLogIndex r"
  "hasTerm (ae_commit r args) = hasTerm r"
  by (simp_all add: logAt_def idx_defs hasTerm_def fun_eq_iff)

text \<open>C4. A successful \<open>AppendEntries\<close> keeps the log up to the first entry whose term differs from the
  leader's, takes the leader's entries from there on, and truncates only when there is such an
  entry; afterwards every entry of the message is in the log with its term.\<close>

theorem AppendEntries_log:
  assumes "log_wf rf" and "AppendEntries rf args = Some (rf', reply)" and "Success reply"
  shows "\<exists>m \<le> length (ae_Entries args).
     (\<forall>i \<le> PrevLogIndex args + int m. logAt rf' i = logAt rf i)
   \<and> (\<forall>j. m \<le> j \<and> j < length (ae_Entries args) \<longrightarrow>
        logAt rf' (PrevLogIndex args + 1 + int j) = Some (ae_Entries args ! j))
   \<and> (\<forall>j < length (ae_Entries args).
        hasTerm rf' (PrevLogIndex args + 1 + int j) (e_Term (ae_Entries args ! j)))
   \<and> getLastLogIndex rf' = (if m = length (ae_Entries args) then getLastLogIndex rf
        else PrevLogIndex args + int (length (ae_Entries args)))
   \<and> (m < length (ae_Entries args) \<longrightarrow>
        \<not> hasTerm rf (PrevLogIndex args + 1 + int m) (e_Term (ae_Entries args ! m)))"
proof (rule AppendEntries_outcomes [OF assms(1), of args])
  fix p
  let ?m = "agreeLen (logs rf) (nat (subIdx rf (PrevLogIndex args + 1))) (ae_Entries args)"
  assume p: "logAt rf (PrevLogIndex args) = Some p" and
    "AppendEntries rf args = Some (ae_commit (ae_merged rf args) args,
       aeReply (ae_Term args) True (-1) (-1))"
  then have rf': "rf' = ae_commit (ae_merged rf args) args" using assms(2) by simp
  note facts = ae_merged_logAt [OF p]
  show ?thesis
    unfolding rf' ae_commit_logAt
    by (intro exI [of _ ?m] conjI allI impI) (use facts agreeLen_le in auto)
qed (use assms(2,3) in auto)

theorem AppendEntries_log_witness:
  "log_wf ex_follower \<and> Success ex_reply \<and> hasTerm ex_after 4 3"
proof -
  have "\<forall>j < length (ae_Entries ex_append).
      hasTerm ex_after (PrevLogIndex ex_append + 1 + int j) (e_Term (ae_Entries ex_append ! j))"
    using AppendEntries_log [OF ex_follower_log_wf ex_append_run ex_append_ok(1)] by blast
  from this [rule_format, of 2] show ?thesis
    using ex_follower_log_wf ex_append_ok(1) by (simp add: ex_append_def)
qed

lemma ae_commit_twice: "ae_commit (ae_commit r args) args = ae_commit r args"
  by (cases "LeaderCommit args > commitIndex r")
    (auto simp: ae_commit_def Let_def getLastLogIndex_def addIdx_def)

lemma dropAndSet_twice: "length ch \<le> 1 \<Longrightarrow> dropAndSet (dropAndSet ch) = dropAndSet ch"
  by (cases ch) (auto simp: dropAndSet_def)

lemma ae_enter_appendCh: "appendCh (ae_enter rf t) = dropAndSet (appendCh rf)"
  by (simp add: ae_enter_def Let_def)

lemma ae_enter_twice:
  assumes "currentTerm rf \<le> t" and "length (appendCh rf) \<le> 1"
  shows "ae_enter (ae_enter rf t) t = ae_enter rf t"
  using ae_enter_term [OF assms(1)] dropAndSet_twice [OF assms(2)]
  by (simp add: ae_enter_def Let_def)

text \<open>Accepting a message twice: the second merge finds everything in place.\<close>

lemma ae_merged_twice:
  assumes p: "logAt rf (PrevLogIndex args) = Some p" and t: "currentTerm rf \<le> ae_Term args"
    and ch: "length (appendCh rf) \<le> 1"
  shows "ae_merged (ae_commit (ae_merged rf args) args) args = ae_commit (ae_merged rf args) args"
proof -
  let ?M = "ae_merged rf args"
  let ?C = "ae_commit ?M args"
  have app: "appendCh ?C = appendCh (ae_enter rf (ae_Term args))"
    by (simp add: ae_commit_def ae_merged_def Let_def)
  have tm: "currentTerm ?C = ae_Term args"
    using ae_enter_term [OF t] by (simp add: ae_merged_def Let_def)
  have "dropAndSet (appendCh ?C) = appendCh ?C"
    unfolding app ae_enter_appendCh by (rule dropAndSet_twice [OF ch])
  then have enter: "ae_enter ?C (ae_Term args) = ?C"
    using tm by (simp add: ae_enter_def Let_def)
  have logs: "mergeSpec (logs ?C) (nat (subIdx ?C (PrevLogIndex args + 1))) (ae_Entries args) = logs ?C"
    using mergeSpec_idem [OF ae_merge_index(1) [OF p]] by (simp add: subIdx_def)
  have "persist ?C = ?C" if "ae_Entries args \<noteq> []"
  proof -
    have "encodeState ?C = encodeState ?M" by (simp add: encodeState_def)
    moreover have "persister ?M = SaveRaftState (persister ?M) (encodeState ?M)"
      using that by (simp add: ae_merged_def Let_def SaveRaftState_def encodeState_def)
    ultimately show ?thesis by (simp add: persist_def)
  qed
  moreover have noop: "?C\<lparr>logs := logs ?C\<rparr> = ?C" by simp
  ultimately show ?thesis unfolding ae_merged_def [of ?C] enter Let_def logs noop by argo
qed

text \<open>Delivering the same message again is harmless: the second delivery leaves the peer as it
  is and gives the same reply (requests may be duplicated by retries).\<close>

theorem AppendEntries_idem:
  assumes "log_wf rf" and "length (appendCh rf) \<le> 1"
    and "numbered (PrevLogIndex args + 1) (ae_Entries args)"
    and "AppendEntries rf args = Some (rf', reply)"
  shows "AppendEntries rf' args = Some (rf', reply)"
proof (rule AppendEntries_outcomes [OF assms(1), of args])
  fix p assume a: "currentTerm rf \<le> ae_Term args" "logAt rf (PrevLogIndex args) = Some p"
    "PrevLogTerm args = e_Term p" "AppendEntries rf args = Some (ae_commit (ae_merged rf args) args,
       aeReply (ae_Term args) True (-1) (-1))"
  then have rf': "rf' = ae_commit (ae_merged rf args) args"
    and reply: "reply = aeReply (ae_Term args) True (-1) (-1)" using assms(4) by auto
  have wf: "log_wf rf'" unfolding rf' by (rule ae_commit_wf [OF ae_merged_wf [OF assms(1) a(2) assms(3)]])
  have t: "currentTerm rf' \<le> ae_Term args"
    unfolding rf' using ae_enter_term [OF a(1)] by (simp add: ae_merged_def Let_def)
  have p: "logAt rf' (PrevLogIndex args) = Some p"
    unfolding rf' using ae_merged_logAt(1) [OF a(2), of "PrevLogIndex args"] a(2) by simp
  show ?thesis
    using AppendEntries_accept [OF wf t p a(3)] ae_merged_twice [OF a(2,1) assms(2)]
    by (simp add: rf' reply ae_commit_twice)
next
  fix p c
  let ?r = "ae_enter rf (ae_Term args)"
  assume a: "currentTerm rf \<le> ae_Term args" "logAt rf (PrevLogIndex args) = Some p"
    "PrevLogTerm args \<noteq> e_Term p"
    "conflictScan rf (e_Term p) (PrevLogIndex args) (-1) = Some c"
    "AppendEntries rf args = Some (?r, aeReply (ae_Term args) False c (e_Term p))"
  have "currentTerm ?r \<le> ae_Term args" using ae_enter_term [OF a(1)] by simp
  from AppendEntries_mismatch [OF this _ a(3)] a(2,4) ae_enter_twice [OF a(1) assms(2)]
  have "AppendEntries ?r args = Some (?r, aeReply (ae_Term args) False c (e_Term p))"
    by (simp add: conflictScan_enter)
  with a(5) assms(4) show ?thesis by simp
qed (use assms(2,4) in \<open>auto simp: AppendEntries_stale AppendEntries_missing
      AppendEntries_snapshotted ae_enter_term ae_enter_twice\<close>)

theorem AppendEntries_idem_witness:
  "length (appendCh ex_follower) \<le> 1 \<and> AppendEntries ex_after ex_append = Some (ex_after, ex_reply)"
proof -
  have ch: "length (appendCh ex_follower) \<le> 1" by (simp add: ex_defs)
  then show ?thesis
    using AppendEntries_idem [OF ex_follower_log_wf ch ex_append_ok(2) ex_append_run] by simp
qed

text \<open>A refusal says exactly why: the log is too short, the previous entry is already in the
  snapshot, or its term differs, in which case the reply carries that term and the first index of
  its run.  In all of them the log, the commit index and the apply channel are untouched.\<close>

theorem AppendEntries_refusal:
  assumes "log_wf rf" and "currentTerm rf \<le> ae_Term args"
    and "AppendEntries rf args = Some (rf', reply)" and "\<not> Success reply"
  shows "logs rf' = logs rf \<and> commitIndex rf' = commitIndex rf \<and> applyCh rf' = applyCh rf
   \<and> ar_Term reply = ae_Term args
   \<and> (getLastLogIndex rf < PrevLogIndex args \<and> ConflictTerm reply = -1
        \<and> ConflictIndex reply = getLastLogIndex rf + 1
    \<or> PrevLogIndex args < lastIncludedIndex rf \<and> ConflictTerm reply = -1
        \<and> ConflictIndex reply = lastIncludedIndex rf + 1
    \<or> hasTerm rf (PrevLogIndex args) (ConflictTerm reply) \<and> ConflictTerm reply \<noteq> PrevLogTerm args
        \<and> (if lastIncludedIndex rf < PrevLogIndex args
           then firstOfRun rf (ConflictTerm reply) (PrevLogIndex args) (ConflictIndex reply)
           else ConflictIndex reply = -1))"
proof (rule AppendEntries_outcomes [OF assms(1), of args])
  fix p c
  assume a: "logAt rf (PrevLogIndex args) = Some p" "PrevLogTerm args \<noteq> e_Term p"
    "conflictScan rf (e_Term p) (PrevLogIndex args) (-1) = Some c"
    "AppendEntries rf args = Some (ae_enter rf (ae_Term args),
       aeReply (ae_Term args) False c (e_Term p))"
  then have h: "hasTerm rf (PrevLogIndex args) (e_Term p)" by (simp add: hasTerm_def)
  have "PrevLogIndex args \<le> getLastLogIndex rf" using a(1) by (simp add: logAt_Some)
  from conflictScan_spec [OF this, of "e_Term p" "-1"] a(3) h
  have "if lastIncludedIndex rf < PrevLogIndex args
        then firstOfRun rf (e_Term p) (PrevLogIndex args) c else c = -1" by auto
  with a assms(3) h show ?thesis by auto
qed (use assms(2-4) in auto)

theorem AppendEntries_refusal_witness:
  "\<exists>rf' reply. AppendEntries ex_follower ex_append_bad = Some (rf', reply) \<and> logs rf' = logs ex_follower
     \<and> ConflictTerm reply = 1 \<and> firstOfRun ex_follower 1 2 (ConflictIndex reply)"
proof -
  let ?x = "the (AppendEntries ex_follower ex_append_bad)"
  have run: "AppendEntries ex_follower ex_append_bad = Some (fst ?x, snd ?x)"
    and bad: "\<not> Success (snd ?x)" and ct: "ConflictTerm (snd ?x) = 1" by code_simp+
  have t: "currentTerm ex_follower \<le> ae_Term ex_append_bad" by (simp add: ex_defs)
  have "logs (fst ?x) = logs ex_follower \<and> firstOfRun ex_follower 1 2 (ConflictIndex (snd ?x))"
    using AppendEntries_refusal [OF ex_follower_log_wf t run bad] ct
    by (auto simp: ex_defs idx_defs)
  with run ct show ?thesis by blast
qed

lemma append_delivers:
  assumes "log_wf rf" and "AppendEntries rf args = Some (rf', reply)"
  shows "applyCh rf' = applyCh rf @ map (applyMsgAt rf') [lastApplied rf + 1..lastApplied rf']
    \<and> lastApplied rf' = commitIndex rf'
    \<and> commitIndex rf' = (if Success reply \<and> commitIndex rf < LeaderCommit args
         then min (LeaderCommit args) (getLastLogIndex rf') else commitIndex rf)"
proof (rule AppendEntries_outcomes [OF assms(1), of args])
  fix p assume "AppendEntries rf args = Some (ae_commit (ae_merged rf args) args,
       aeReply (ae_Term args) True (-1) (-1))"
  then have rf': "rf' = ae_commit (ae_merged rf args) args" "Success reply"
    using assms(2) by auto
  have msg: "applyMsgAt (r\<lparr>applyCh := a, lastApplied := l\<rparr>) = applyMsgAt r" for r :: "('a, 'b) raft" and a l
    by (simp add: applyMsgAt_def logAt_def subIdx_def fun_eq_iff)
  show ?thesis
    unfolding rf' using assms(1) rf'(2)
    by (auto simp: ae_commit_def Let_def msg log_wf_def getLastLogIndex_def addIdx_def)
qed (use assms in \<open>auto simp: log_wf_def\<close>)

text \<open>C6. What a peer delivers to its service: an \<open>AppendEntries\<close> sends exactly the entries from
  \<open>lastApplied + 1\<close> up to the new \<open>lastApplied\<close>, once each, in index order, with the commands in the
  log; and \<open>lastApplied\<close> follows the commit index, which is capped by the log.\<close>

theorem AppendEntries_delivers:
  assumes "log_wf rf" and "AppendEntries rf args = Some (rf', reply)"
  shows "applyCh rf' = applyCh rf @ map (applyMsgAt rf') [lastApplied rf + 1..lastApplied rf']
    \<and> lastApplied rf' = commitIndex rf'
    \<and> commitIndex rf' = (if Success reply \<and> commitIndex rf < LeaderCommit args
         then min (LeaderCommit args) (getLastLogIndex rf') else commitIndex rf)"
  by (rule append_delivers [OF assms])

theorem AppendEntries_delivers_witness:
  "log_wf ex_follower \<and> commitIndex ex_after = 3
     \<and> applyCh ex_after = map (applyMsgAt ex_after) [2..3]"
proof -
  have c: "commitIndex ex_after = 3" "lastApplied ex_after = 3" by code_simp+
  have "applyCh ex_after = applyCh ex_follower @
      map (applyMsgAt ex_after) [lastApplied ex_follower + 1..lastApplied ex_after]"
    using AppendEntries_delivers [OF ex_follower_log_wf ex_append_run] by blast
  with c ex_follower_log_wf show ?thesis by (simp add: ex_follower_def peer_def)
qed

lemma append_keeps_committed:
  assumes "raft_wf rf" and "numbered (PrevLogIndex args + 1) (ae_Entries args)"
    and "AppendEntries rf args = Some (rf', reply)"
    and "\<forall>j < length (ae_Entries args). PrevLogIndex args + 1 + int j \<le> commitIndex rf \<longrightarrow>
           hasTerm rf (PrevLogIndex args + 1 + int j) (e_Term (ae_Entries args ! j))"
  shows "raft_wf rf' \<and> commitIndex rf \<le> commitIndex rf'
     \<and> (\<forall>i \<le> commitIndex rf. logAt rf' i = logAt rf i)"
proof (rule AppendEntries_outcomes)
  show "log_wf rf" using assms(1) by (simp add: raft_wf_def)
next
  fix p assume a: "currentTerm rf \<le> ae_Term args" "logAt rf (PrevLogIndex args) = Some p"
    "AppendEntries rf args = Some (ae_commit (ae_merged rf args) args,
       aeReply (ae_Term args) True (-1) (-1))"
  then have rf': "rf' = ae_commit (ae_merged rf args) args" using assms(3) by simp
  define m where "m = agreeLen (logs rf) (nat (subIdx rf (PrevLogIndex args + 1))) (ae_Entries args)"
  note facts = ae_merged_logAt [OF a(2), folded m_def]
  have wf: "log_wf rf" and le: "commitIndex rf \<le> getLastLogIndex rf"
    using assms(1) by (auto simp: raft_wf_def)
  have m: "m = length (ae_Entries args) \<or> commitIndex rf \<le> PrevLogIndex args + int m"
  proof (rule disjCI)
    assume "\<not> commitIndex rf \<le> PrevLogIndex args + int m"
    then have "PrevLogIndex args + 1 + int m \<le> commitIndex rf" by simp
    with facts(5) assms(4) have "\<not> m < length (ae_Entries args)" by blast
    then show "m = length (ae_Entries args)"
      using agreeLen_le [of "logs rf" "nat (subIdx rf (PrevLogIndex args + 1))" "ae_Entries args"]
      by (simp add: m_def)
  qed
  have last: "commitIndex rf \<le> getLastLogIndex (ae_merged rf args)"
    using m facts(4) le agreeLen_le [of "logs rf" "nat (subIdx rf (PrevLogIndex args + 1))" "ae_Entries args"]
    by (auto simp: m_def [symmetric])
  have keep: "logAt (ae_merged rf args) i = logAt rf i" if "i \<le> commitIndex rf" for i
  proof (cases "m = length (ae_Entries args)")
    case True
    then have "logs (ae_merged rf args) = logs rf" by (simp add: mergeSpec_def Let_def m_def)
    then show ?thesis by (simp add: logAt_def subIdx_def)
  next
    case False
    with m that show ?thesis by (intro facts(1)) auto
  qed
  have "log_wf rf'" unfolding rf' by (rule ae_commit_wf [OF ae_merged_wf [OF wf a(2) assms(2)]])
  with assms(1) keep last show ?thesis
    by (auto simp: rf' raft_wf_def ae_commit_def Let_def getLastLogIndex_def addIdx_def logAt_def subIdx_def)
qed (use assms in \<open>auto simp: raft_wf_def ae_enter_wf\<close>)

text \<open>C5. Committed entries survive: if the leader's entries agree in term with whatever the peer has
  already committed, then no committed entry is changed, the commit index does not go back, and
  the peer stays well-formed with its commit index inside the log.\<close>

theorem AppendEntries_keeps_committed:
  assumes "raft_wf rf" and "numbered (PrevLogIndex args + 1) (ae_Entries args)"
    and "AppendEntries rf args = Some (rf', reply)"
    and "\<forall>j < length (ae_Entries args). PrevLogIndex args + 1 + int j \<le> commitIndex rf \<longrightarrow>
           hasTerm rf (PrevLogIndex args + 1 + int j) (e_Term (ae_Entries args ! j))"
  shows "raft_wf rf' \<and> commitIndex rf \<le> commitIndex rf'
     \<and> (\<forall>i \<le> commitIndex rf. logAt rf' i = logAt rf i)"
  by (rule append_keeps_committed [OF assms])

theorem AppendEntries_keeps_committed_witness:
  "raft_wf ex_follower \<and> raft_wf ex_after \<and> logAt ex_after 1 = logAt ex_follower 1"
proof -
  have h: "\<forall>j < length (ae_Entries ex_append). PrevLogIndex ex_append + 1 + int j \<le> commitIndex ex_follower
      \<longrightarrow> hasTerm ex_follower (PrevLogIndex ex_append + 1 + int j) (e_Term (ae_Entries ex_append ! j))"
    by (simp add: ex_defs)
  show ?thesis
    using AppendEntries_keeps_committed [OF ex_follower_raft_wf ex_append_ok(2) ex_append_run h]
      ex_follower_raft_wf by (simp add: ex_follower_def peer_def)
qed

end
