(* ===== verification/Raft_Peer.thy ===== *)
theory Raft_Peer
  imports Raft_Append
begin

text \<open>
  The atomic steps of one Raft peer that do not concern votes (\<open>peer_step\<close>), what is on stable
  storage after each of them (\<open>saved\<close>), what a restart brings back, and the snapshot operations
  of \<^verbatim>\<open>src/src/raft/raft.go\<close>.
\<close>

section \<open>What is on stable storage\<close>

text \<open>The state that \<open>persist\<close> writes, as a tuple, and its codec.\<close>

type_synonym ('c, 's) rimage = "int \<times> int \<times> ('c, 's) entry list \<times> int \<times> int"

definition image :: "('c, 's) raft \<Rightarrow> ('c, 's) rimage" where
  "image rf = (currentTerm rf, votedFor rf, logs rf, lastIncludedIndex rf, lastIncludedTerm rf)"

definition encodeImage :: "('c, 's) rimage \<Rightarrow> ('c, 's) rval list" where
  "encodeImage = (\<lambda>(t, v, ls, lii, lit). [RInt t, RInt v, RLogs ls, RInt lii, RInt lit])"

interpretation rafts: codec encodeImage decodeState
  by unfold_locales (auto simp: encodeImage_def decodeState_def split: prod.splits)

lemma encodeState_image: "encodeState rf = encodeImage (image rf)"
  by (simp add: encodeState_def encodeImage_def image_def gob_put_def Let_def)

lemma decode_encodeState: "decodeState (encodeState rf) = Some (image rf)"
  by (simp add: encodeState_image rafts.decode_encode)

text \<open>
  Position 0 of the log is a placeholder that \<open>Make\<close> rebuilds; everything else that must survive a
  crash is on disk, or the peer has never written and is still in its initial state.
\<close>

definition saved :: "('c, 's) raft \<Rightarrow> bool" where
  "saved rf \<longleftrightarrow>
     (\<exists>h. ReadRaftState (persister rf) = encodeState (rf\<lparr>logs := h # tl (logs rf)\<rparr>))
   \<or> ReadRaftState (persister rf) = [] \<and> currentTerm rf = -1 \<and> votedFor rf = votedNull
       \<and> tl (logs rf) = [] \<and> lastIncludedIndex rf = 0 \<and> lastIncludedTerm rf = -1"

lemma saved_written:
  assumes "ReadRaftState (persister rf) = encodeState rf" and "logs rf \<noteq> []"
  shows "saved rf"
proof -
  have "rf\<lparr>logs := hd (logs rf) # tl (logs rf)\<rparr> = rf" using assms(2) by simp
  with assms(1) show ?thesis unfolding saved_def by metis
qed

lemma saved_persist: "logs rf \<noteq> [] \<Longrightarrow> saved (persist rf)"
  by (rule saved_written) (simp_all add: ps.read_save encodeState_def)

lemma saved_persistBoth: "logs rf \<noteq> [] \<Longrightarrow> saved (persistStateAndSnapshot rf snap)"
  by (rule saved_written) (simp_all add: ps.read_both encodeState_def)

lemma saved_convert: "logs rf \<noteq> [] \<Longrightarrow> saved (convertRoleTo rf r)"
  unfolding convertRoleTo_def by (rule saved_persist) (auto simp: Let_def split: role.splits)

lemma saved_cong:
  assumes "persister rf' = persister rf" "currentTerm rf' = currentTerm rf"
    "votedFor rf' = votedFor rf" "tl (logs rf') = tl (logs rf)"
    "lastIncludedIndex rf' = lastIncludedIndex rf" "lastIncludedTerm rf' = lastIncludedTerm rf"
  shows "saved rf' = saved rf"
  using assms by (simp add: saved_def encodeState_def)

section \<open>Restart\<close>

text \<open>The peer that \<open>Make\<close> returns for a given stored state.\<close>

definition booted :: "nat \<Rightarrow> nat \<Rightarrow> (('c, 's) rval, 's) persister \<Rightarrow> int \<Rightarrow> int
    \<Rightarrow> ('c, 's) entry list \<Rightarrow> int \<Rightarrow> int \<Rightarrow> ('c, 's) raft" where
  "booted n self ps t v rest lii lit =
     \<lparr>npeers = n, persister = ps, me = self, role = Follower, currentTerm = t, votedFor = v,
      logs = \<lparr>e_Term = lit, e_Index = lii, e_Command = IInt (-1)\<rparr> # rest,
      commitIndex = lii, lastApplied = lii, nextIndex = replicate n 0, matchIndex = replicate n 0,
      appendCh = [], voteCh = [], exitCh = [], leaderCh = [], applyCh = [],
      lastIncludedIndex = lii, lastIncludedTerm = lit\<rparr>"

lemma Make_saved:
  assumes "saved rf"
  shows "Make n self (persister rf) = Some (booted n self (persister rf) (currentTerm rf)
     (votedFor rf) (tl (logs rf)) (lastIncludedIndex rf) (lastIncludedTerm rf))"
proof -
  from assms consider
      h where "raftstate (persister rf) = encodeState (rf\<lparr>logs := h # tl (logs rf)\<rparr>)"
    | "raftstate (persister rf) = []" "currentTerm rf = -1" "votedFor rf = votedNull"
      "tl (logs rf) = []" "lastIncludedIndex rf = 0" "lastIncludedTerm rf = -1"
    by (auto simp: saved_def ReadRaftState_def)
  then show ?thesis
  proof cases
    case 1
    moreover have "encodeState (rf\<lparr>logs := h # tl (logs rf)\<rparr>) \<noteq> []"
      by (simp add: encodeState_def gob_put_def Let_def)
    ultimately show ?thesis
      by (simp add: Make_def readPersist_def decode_encodeState image_def booted_def
          ReadRaftState_def go_set_def Let_def)
  next
    case 2
    then show ?thesis
      by (simp add: Make_def readPersist_def ReadRaftState_def booted_def go_set_def Let_def)
  qed
qed

lemma Make_fresh: "Make n self MakePersister =
    Some (booted n self MakePersister (-1) votedNull [] 0 (-1))"
  by (simp add: Make_def readPersist_def ReadRaftState_def MakePersister_def booted_def
      go_set_def Let_def)

lemma saved_booted: "saved rf \<Longrightarrow> saved (booted n self (persister rf) (currentTerm rf)
     (votedFor rf) (tl (logs rf)) (lastIncludedIndex rf) (lastIncludedTerm rf))"
  by (rule saved_cong [THEN iffD2, rotated -1]) (simp_all add: booted_def)

lemma saved_fresh: "saved (booted n self MakePersister (-1) votedNull [] 0 (-1))"
  by (simp add: saved_def booted_def ReadRaftState_def MakePersister_def)

lemma log_wf_booted:
  assumes "log_wf rf"
  shows "log_wf (booted n self ps t v (tl (logs rf)) (lastIncludedIndex rf) lit)"
  using assms by (cases "logs rf") (auto simp: booted_def log_wf_def)

text \<open>A crash loses nothing that Raft relies on: restarting a peer from its persister gives back
  its term, its vote, every log entry after the snapshot and the snapshot position; the peer is a
  well-formed follower that replays from the snapshot.\<close>

lemma restart_spec:
  assumes "saved rf" and "log_wf rf"
  shows "\<exists>rf'. Make n self (persister rf) = Some rf' \<and> log_wf rf' \<and> saved rf'
     \<and> currentTerm rf' = currentTerm rf \<and> votedFor rf' = votedFor rf \<and> role rf' = Follower
     \<and> getLastLogIndex rf' = getLastLogIndex rf
     \<and> (\<forall>i > lastIncludedIndex rf. logAt rf' i = logAt rf i)
     \<and> lastIncludedIndex rf' = lastIncludedIndex rf \<and> commitIndex rf' = lastIncludedIndex rf"
proof -
  let ?b = "booted n self (persister rf) (currentTerm rf) (votedFor rf) (tl (logs rf))
     (lastIncludedIndex rf) (lastIncludedTerm rf)"
  have ne: "logs rf \<noteq> []" using assms(2) by (simp add: log_wf_def)
  have at: "logAt ?b i = logAt rf i" if gt: "i > lastIncludedIndex rf" for i
  proof -
    obtain k where "nat (i - lastIncludedIndex rf) = Suc k"
      using gt by (cases "nat (i - lastIncludedIndex rf)") auto
    with ne show ?thesis
      by (cases "logs rf") (auto simp: logAt_def go_idx_def subIdx_def booted_def)
  qed
  have "getLastLogIndex ?b = getLastLogIndex rf"
    using ne by (cases "logs rf") (auto simp: idx_defs booted_def)
  moreover have "currentTerm ?b = currentTerm rf" "votedFor ?b = votedFor rf" "role ?b = Follower"
    "lastIncludedIndex ?b = lastIncludedIndex rf" "commitIndex ?b = lastIncludedIndex rf"
    by (simp_all add: booted_def)
  ultimately show ?thesis
    using Make_saved [OF assms(1)] log_wf_booted [OF assms(2)] saved_booted [OF assms(1)] at
    by blast
qed

section \<open>Snapshots\<close>

lemma TakeSnapshot_old: "i \<le> lastIncludedIndex rf \<Longrightarrow> TakeSnapshot rf snap i t = Some rf"
  by (simp add: TakeSnapshot_def)

lemma TakeSnapshot_new:
  assumes "lastIncludedIndex rf < i" and "i \<le> getLastLogIndex rf"
  shows "TakeSnapshot rf snap i t = Some (persistStateAndSnapshot
     (rf\<lparr>logs := drop (nat (i - lastIncludedIndex rf)) (logs rf),
        lastIncludedTerm := t, lastIncludedIndex := i\<rparr>) snap)"
  using assms by (auto simp: TakeSnapshot_def go_slice_from_def idx_defs)

lemma TakeSnapshot_spec:
  assumes "log_wf rf" and "lastIncludedIndex rf < i" and "i \<le> lastApplied rf"
    and "i \<le> getLastLogIndex rf"
  shows "\<exists>rf'. TakeSnapshot rf snap i t = Some rf' \<and> log_wf rf' \<and> saved rf'
     \<and> (\<forall>k \<ge> i. logAt rf' k = logAt rf k) \<and> (\<forall>k < i. logAt rf' k = None)
     \<and> getLastLogIndex rf' = getLastLogIndex rf
     \<and> commitIndex rf' = commitIndex rf \<and> applyCh rf' = applyCh rf
     \<and> ReadSnapshot (persister rf') = snap"
proof -
  let ?d = "nat (i - lastIncludedIndex rf)"
  let ?rf = "rf\<lparr>logs := drop ?d (logs rf), lastIncludedTerm := t, lastIncludedIndex := i\<rparr>"
  let ?s = "persistStateAndSnapshot ?rf snap"
  have d: "?d < length (logs rf)" "lastIncludedIndex rf + int ?d = i"
    using assms(2,4) by (auto simp: idx_defs)
  have "numbered (lastIncludedIndex rf + int ?d) (drop ?d (logs rf))"
    using assms(1) d by (intro numbered_drop) (auto simp: log_wf_def)
  with assms d have wf: "log_wf ?s" by (auto simp: log_wf_def)
  have at: "logAt ?s k = logAt rf k" if "k \<ge> i" for k
  proof -
    have "nat (k - lastIncludedIndex rf) = ?d + nat (k - i)" using that assms(2) by linarith
    then show ?thesis
      using that assms(2) d by (auto simp: logAt_def go_idx_def subIdx_def)
  qed
  have no: "logAt ?s k = None" if "k < i" for k
    using that by (simp add: logAt_def go_idx_def subIdx_def)
  have "getLastLogIndex ?s = getLastLogIndex rf" using d by (simp add: idx_defs)
  moreover have "saved ?s" using d by (intro saved_persistBoth) simp
  ultimately show ?thesis
    using TakeSnapshot_new [OF assms(2,4)] wf at no by (auto simp: ps.snap_both)
qed

text \<open>Log compaction only forgets: after a snapshot at index \<open>i\<close> every entry from \<open>i\<close> on is still
  where it was, the end of the log, the commit index and the applied index are unchanged, and the
  snapshot and the shortened log are on disk together.\<close>

theorem TakeSnapshot_forgets:
  assumes "log_wf rf" and "lastIncludedIndex rf < i" and "i \<le> lastApplied rf"
    and "i \<le> getLastLogIndex rf"
  shows "\<exists>rf'. TakeSnapshot rf snap i t = Some rf' \<and> log_wf rf' \<and> saved rf'
     \<and> (\<forall>k \<ge> i. logAt rf' k = logAt rf k) \<and> (\<forall>k < i. logAt rf' k = None)
     \<and> getLastLogIndex rf' = getLastLogIndex rf
     \<and> commitIndex rf' = commitIndex rf \<and> applyCh rf' = applyCh rf
     \<and> ReadSnapshot (persister rf') = snap"
  by (rule TakeSnapshot_spec [OF assms])

theorem TakeSnapshot_forgets_witness:
  "log_wf ex_follower \<and> (\<exists>rf'. TakeSnapshot ex_follower [7] 1 1 = Some rf' \<and> log_wf rf'
     \<and> logAt rf' 3 = logAt ex_follower 3 \<and> ReadSnapshot (persister rf') = [7])"
proof -
  have h: "lastIncludedIndex ex_follower < 1" "1 \<le> lastApplied ex_follower"
    "1 \<le> getLastLogIndex ex_follower" by (simp_all add: ex_defs idx_defs)
  obtain rf' where "TakeSnapshot ex_follower [7] 1 1 = Some rf'" "log_wf rf'"
    "\<forall>k \<ge> 1. logAt rf' k = logAt ex_follower k" "ReadSnapshot (persister rf') = [7]"
    using TakeSnapshot_forgets [OF ex_follower_log_wf h, of "[7]" 1] by blast
  then show ?thesis using ex_follower_log_wf by simp
qed

lemma InstallSnapshot_stale:
  "currentTerm rf > is_Term args \<or> is_LastIncludedIndex args \<le> lastIncludedIndex rf \<Longrightarrow>
     InstallSnapshot rf args = Some (rf, \<lparr>ir_Term = currentTerm rf\<rparr>)"
  by (simp add: InstallSnapshot_def)

lemma InstallSnapshot_spec:
  assumes "log_wf rf" and "currentTerm rf \<le> is_Term args"
    and "lastIncludedIndex rf < is_LastIncludedIndex args"
  shows "\<exists>rf'. InstallSnapshot rf args = Some (rf', \<lparr>ir_Term = currentTerm rf\<rparr>) \<and> log_wf rf'
     \<and> saved rf' \<and> currentTerm rf' = is_Term args
     \<and> lastIncludedIndex rf' = is_LastIncludedIndex args
     \<and> (\<forall>k > is_LastIncludedIndex args. logAt rf' k = logAt rf k)
     \<and> commitIndex rf' = max (is_LastIncludedIndex args) (commitIndex rf)
     \<and> ReadSnapshot (persister rf') = is_Data args
     \<and> applyCh rf' = applyCh rf @ [\<lparr>CommandValid = False, am_Command = IBytes (is_Data args),
          CommandIndex = is_LastIncludedIndex args, CommitTerm = is_LastIncludedTerm args,
          am_Role = role rf'\<rparr>]"
proof -
  let ?i = "is_LastIncludedIndex args"
  let ?r = "ae_enter rf (is_Term args)"
  let ?d = "nat (?i - lastIncludedIndex rf)"
  define ls where "ls = (if ?i \<le> getLastLogIndex rf then drop ?d (logs rf)
     else [\<lparr>e_Term = is_LastIncludedTerm args, e_Index = ?i, e_Command = IInt (-1)\<rparr>])"
  let ?q = "?r\<lparr>logs := ls, lastIncludedIndex := ?i, lastIncludedTerm := is_LastIncludedTerm args,
     lastApplied := max ?i (lastApplied rf), commitIndex := max ?i (commitIndex rf)\<rparr>"
  let ?s = "(persistStateAndSnapshot ?q (is_Data args))\<lparr>applyCh := applyCh rf @
     [\<lparr>CommandValid = False, am_Command = IBytes (is_Data args), CommandIndex = ?i,
       CommitTerm = is_LastIncludedTerm args, am_Role = role ?r\<rparr>]\<rparr>"
  have slice: "(if ?i \<le> getLastLogIndex ?r then go_slice_from (logs ?r) (subIdx ?r ?i)
        else Some [\<lparr>e_Term = is_LastIncludedTerm args, e_Index = ?i, e_Command = IInt (-1)\<rparr>]) = Some ls"
    using assms(3) by (auto simp: ls_def go_slice_from_def idx_defs)
  have enter: "(if is_Term args > currentTerm rf
      then convertRoleTo (rf\<lparr>currentTerm := is_Term args\<rparr>) Follower else rf)
      \<lparr>appendCh := dropAndSet (appendCh (if is_Term args > currentTerm rf
        then convertRoleTo (rf\<lparr>currentTerm := is_Term args\<rparr>) Follower else rf))\<rparr> = ?r"
    by (simp add: ae_enter_def Let_def)
  have guard: "\<not> (currentTerm rf > is_Term args \<or> ?i \<le> lastIncludedIndex rf)"
    using assms(2,3) by simp
  have go_max: "go_max a b = max a b" for a b by (simp add: go_max_def max_def)
  have run: "InstallSnapshot rf args = Some (?s, \<lparr>ir_Term = currentTerm rf\<rparr>)"
    unfolding InstallSnapshot_def Let_def enter go_max if_not_P [OF guard] slice
    by (simp add: persistStateAndSnapshot_def encodeState_def)
  have d: "lastIncludedIndex rf + int ?d = ?i" using assms(3) by simp
  have num: "numbered ?i ls"
  proof (cases "?i \<le> getLastLogIndex rf")
    case True
    then have "?d \<le> length (logs rf)" using assms(3) by (auto simp: idx_defs)
    from numbered_drop [OF _ this, of "lastIncludedIndex rf"] assms(1) d True
    show ?thesis by (simp add: ls_def log_wf_def)
  qed (simp add: ls_def)
  have ne: "ls \<noteq> []" using assms(3) by (auto simp: ls_def idx_defs)
  have wf: "log_wf ?s" using assms num ne by (auto simp: log_wf_def)
  have sv: "saved ?s"
  proof -
    have "saved (persistStateAndSnapshot ?q (is_Data args))" using ne by (intro saved_persistBoth) simp
    then show ?thesis by (rule saved_cong [THEN iffD2, rotated -1]) simp_all
  qed
  have at: "logAt ?s k = logAt rf k" if "k > ?i" for k
  proof -
    have "nat (k - lastIncludedIndex rf) = ?d + nat (k - ?i)" using that assms(3) by linarith
    then show ?thesis using that assms(3) d
      by (auto simp: logAt_def go_idx_def subIdx_def ls_def getLastLogIndex_def addIdx_def)
  qed
  show ?thesis
    using run wf sv at ae_enter_term [OF assms(2)] by (auto simp: ps.snap_both)
qed

text \<open>An accepted \<open>InstallSnapshot\<close> moves the peer to the leader's snapshot: log entries beyond the
  snapshot are kept, older ones dropped; the commit and applied indices never go back and cover
  the snapshot; the snapshot is stored and handed to the service as the last message on the apply
  channel.\<close>

theorem InstallSnapshot_installs:
  assumes "log_wf rf" and "currentTerm rf \<le> is_Term args"
    and "lastIncludedIndex rf < is_LastIncludedIndex args"
  shows "\<exists>rf'. InstallSnapshot rf args = Some (rf', \<lparr>ir_Term = currentTerm rf\<rparr>) \<and> log_wf rf'
     \<and> saved rf' \<and> currentTerm rf' = is_Term args
     \<and> lastIncludedIndex rf' = is_LastIncludedIndex args
     \<and> (\<forall>k > is_LastIncludedIndex args. logAt rf' k = logAt rf k)
     \<and> commitIndex rf' = max (is_LastIncludedIndex args) (commitIndex rf)
     \<and> ReadSnapshot (persister rf') = is_Data args
     \<and> applyCh rf' = applyCh rf @ [\<lparr>CommandValid = False, am_Command = IBytes (is_Data args),
          CommandIndex = is_LastIncludedIndex args, CommitTerm = is_LastIncludedTerm args,
          am_Role = role rf'\<rparr>]"
  by (rule InstallSnapshot_spec [OF assms])

definition ex_install :: "nat InstallSnapshotArgs" where
  "ex_install = \<lparr>is_Term = 4, LeaaderId = 0, is_LastIncludedIndex = 2, is_LastIncludedTerm = 1,
     is_Data = [5, 6]\<rparr>"

theorem InstallSnapshot_installs_witness:
  "log_wf ex_follower \<and> (\<exists>rf'. InstallSnapshot ex_follower ex_install = Some (rf', \<lparr>ir_Term = 2\<rparr>)
     \<and> logAt rf' 3 = logAt ex_follower 3 \<and> commitIndex rf' = 2
     \<and> ReadSnapshot (persister rf') = [5, 6])"
proof -
  have h: "currentTerm ex_follower \<le> is_Term ex_install"
    "lastIncludedIndex ex_follower < is_LastIncludedIndex ex_install"
    by (simp_all add: ex_defs ex_install_def)
  have f: "currentTerm ex_follower = 2" "commitIndex ex_follower = 1"
    "is_LastIncludedIndex ex_install = 2" "is_Data ex_install = [5, 6]"
    by (simp_all add: ex_defs ex_install_def)
  obtain rf' where "InstallSnapshot ex_follower ex_install = Some (rf', \<lparr>ir_Term = currentTerm ex_follower\<rparr>)"
    "\<forall>k > is_LastIncludedIndex ex_install. logAt rf' k = logAt ex_follower k"
    "commitIndex rf' = max (is_LastIncludedIndex ex_install) (commitIndex ex_follower)"
    "ReadSnapshot (persister rf') = is_Data ex_install"
    using InstallSnapshot_installs [OF ex_follower_log_wf h] by blast
  with ex_follower_log_wf show ?thesis by (simp add: f)
qed

end
