(* ===== verification/Raft_Votes.thy ===== *)
theory Raft_Votes
  imports Raft_Peer
begin

text \<open>
  Voting at a single peer: the \<open>RequestVote\<close> handler of \<^verbatim>\<open>src/src/raft/raft.go\<close>, the steps of a peer
  that do not concern votes, and the relation \<open>vstep\<close> that bounds what any of them may do to the
  term, the vote and the role.
\<close>

section \<open>RequestVote\<close>

text \<open>The candidate's log is at least as up to date as the peer's.\<close>

definition upToDate :: "('c, 's) raft \<Rightarrow> RequestVoteArgs \<Rightarrow> bool" where
  "upToDate rf args \<longleftrightarrow> LastLogTerm args > e_Term (last (logs rf))
     \<or> LastLogTerm args = e_Term (last (logs rf)) \<and> LastLogIndex args \<ge> getLastLogIndex rf"

definition rv_enter :: "('c, 's) raft \<Rightarrow> int \<Rightarrow> ('c, 's) raft" where
  "rv_enter rf t =
     (if currentTerm rf < t then convertRoleTo (rf\<lparr>currentTerm := t\<rparr>) Follower else rf)"

lemma rv_enter_simps [simp]:
  "logs (rv_enter rf t) = logs rf" "lastIncludedIndex (rv_enter rf t) = lastIncludedIndex rf"
  "lastIncludedTerm (rv_enter rf t) = lastIncludedTerm rf" "lastApplied (rv_enter rf t) = lastApplied rf"
  "commitIndex (rv_enter rf t) = commitIndex rf" "me (rv_enter rf t) = me rf"
  "npeers (rv_enter rf t) = npeers rf" "currentTerm (rv_enter rf t) = max (currentTerm rf) t"
  by (auto simp: rv_enter_def)

lemma encodeState_persist [simp]: "encodeState (persist rf) = encodeState rf"
  by (simp add: encodeState_def)

lemma getLastLogTerm_last: "logs rf \<noteq> [] \<Longrightarrow> getLastLogTerm rf = Some (e_Term (last (logs rf)))"
  by (cases "logs rf" rule: rev_cases) (auto simp: getLastLogTerm_def go_idx_def nth_append)

lemma RequestVote_eq:
  assumes "logs rf \<noteq> []"
  shows "RequestVote rf args = Some
    (let r = rv_enter rf (rv_Term args)
     in if upToDate rf args \<and> (currentTerm rf < rv_Term args \<or> votedFor rf = votedNull
             \<or> votedFor rf = int (CandidateId args))
        then (persist (r\<lparr>votedFor := int (CandidateId args), voteCh := dropAndSet (voteCh r)\<rparr>),
              \<lparr>rr_Term = currentTerm rf, VoteGranted = True\<rparr>)
        else (r, \<lparr>rr_Term = currentTerm rf, VoteGranted = False\<rparr>))"
proof -
  let ?r = "rv_enter rf (rv_Term args)"
  have l: "getLastLogTerm ?r = Some (e_Term (last (logs rf)))"
    using getLastLogTerm_last [of ?r] assms by simp
  have v: "votedFor ?r = votedNull \<or> votedFor ?r = int (CandidateId args) \<longleftrightarrow>
      currentTerm rf < rv_Term args \<or> votedFor rf = votedNull \<or> votedFor rf = int (CandidateId args)"
    by (auto simp: rv_enter_def)
  have i: "getLastLogIndex ?r = getLastLogIndex rf" by (simp add: idx_defs)
  show ?thesis
    unfolding RequestVote_def Let_def rv_enter_def [symmetric] l v i upToDate_def by simp
qed

text \<open>A vote is granted exactly when the candidate's log is at least as up to date and the peer
  has not voted for another candidate in its term (a newer term frees the vote); a granted vote is
  recorded in memory and on disk before the reply is sent.\<close>

theorem RequestVote_grant:
  assumes "log_wf rf" and "saved rf"
  shows "\<exists>rf' reply. RequestVote rf args = Some (rf', reply) \<and> log_wf rf' \<and> saved rf'
     \<and> currentTerm rf' = max (currentTerm rf) (rv_Term args)
     \<and> (VoteGranted reply \<longleftrightarrow> upToDate rf args \<and> (currentTerm rf < rv_Term args
           \<or> votedFor rf = votedNull \<or> votedFor rf = int (CandidateId args)))
     \<and> (VoteGranted reply \<longrightarrow> votedFor rf' = int (CandidateId args)
           \<and> ReadRaftState (persister rf') = encodeState rf')"
proof -
  have ne: "logs rf \<noteq> []" using assms(1) by (simp add: log_wf_def)
  let ?r = "rv_enter rf (rv_Term args)"
  have "saved ?r" using assms ne by (auto simp: rv_enter_def saved_convert)
  moreover have "saved (persist (?r\<lparr>votedFor := v, voteCh := c\<rparr>))" for v c
    using ne by (intro saved_persist) simp
  moreover have "log_wf ?r" "log_wf (persist (?r\<lparr>votedFor := v, voteCh := c\<rparr>))" for v c
    using assms(1) by (simp_all add: log_wf_def)
  ultimately show ?thesis
    unfolding RequestVote_eq [OF ne] Let_def by (simp add: ps.read_save)
qed

definition ex_vote :: RequestVoteArgs where
  "ex_vote = \<lparr>rv_Term = 3, CandidateId = 2, LastLogIndex = 4, LastLogTerm = 2\<rparr>"

theorem RequestVote_grant_witness:
  "log_wf ex_follower \<and> saved ex_follower
     \<and> (\<exists>rf' reply. RequestVote ex_follower ex_vote = Some (rf', reply) \<and> VoteGranted reply
          \<and> votedFor rf' = 2 \<and> ReadRaftState (persister rf') = encodeState rf')"
proof -
  have sv: "saved ex_follower" unfolding ex_follower_def peer_def by (rule saved_persist) simp
  have f: "upToDate ex_follower ex_vote" "currentTerm ex_follower < rv_Term ex_vote"
    "CandidateId ex_vote = 2"
    by (simp_all add: ex_defs ex_vote_def upToDate_def idx_defs)
  from RequestVote_grant [OF ex_follower_log_wf sv, of ex_vote]
  obtain rf' reply where "RequestVote ex_follower ex_vote = Some (rf', reply)"
    "VoteGranted reply" "votedFor rf' = int (CandidateId ex_vote)"
    "ReadRaftState (persister rf') = encodeState rf'" using f(1,2) by blast
  with sv ex_follower_log_wf f(3) show ?thesis by auto
qed

section \<open>Steps that do not concern votes\<close>

lemma applyLoop_frame:
  "applyLoop rf i = Some rf' \<Longrightarrow> \<exists>msgs. rf' = rf\<lparr>applyCh := applyCh rf @ msgs\<rparr>"
proof (induction rf i rule: applyLoop.induct)
  case (1 rf i)
  show ?case
  proof (cases "i \<le> commitIndex rf")
    case False
    with "1.prems" have "rf' = rf\<lparr>applyCh := applyCh rf @ []\<rparr>" by (simp add: applyLoop.simps [of rf i])
    then show ?thesis by blast
  next
    case True
    with "1.prems" obtain e where e: "go_idx (logs rf) (subIdx rf i) = Some e"
      and run: "applyLoop (rf\<lparr>applyCh := applyCh rf @ [\<lparr>CommandValid = True, am_Command = e_Command e,
        CommandIndex = i, CommitTerm = currentTerm rf, am_Role = role rf\<rparr>]\<rparr>) (i + 1) = Some rf'"
      by (auto simp: applyLoop.simps [of rf i] split: Option.bind_splits)
    from "1.IH" [OF True e run] show ?thesis by auto
  qed
qed

lemma applyLogs_frame:
  assumes "applyLogs rf = Some rf'"
  shows "\<exists>msgs. rf' = rf\<lparr>applyCh := applyCh rf @ msgs, lastApplied := commitIndex rf\<rparr>"
proof -
  from assms obtain r where r: "applyLoop rf (lastApplied rf + 1) = Some r"
    and rf': "rf' = r\<lparr>lastApplied := commitIndex r\<rparr>"
    by (auto simp: applyLogs_def split: Option.bind_splits)
  from applyLoop_frame [OF r] rf' show ?thesis by auto
qed

lemma applyLogs_empty:
  assumes "logs rf = []"
  shows "applyLogs rf = None"
proof (cases "applyLoop rf (lastApplied rf + 1)")
  case (Some r)
  then show ?thesis using applyLoop_frame [OF Some] assms by (auto simp: applyLogs_def go_idx_def)
qed (simp add: applyLogs_def)

text \<open>
  The steps of a peer other than votes.  Two guards describe the callers: entries in an append are
  numbered from \<open>PrevLogIndex + 1\<close>, as they are in every leader's log, and the service snapshots at an
  index that has been applied.  That index need not be in the log any more: the services call
  \<open>TakeSnapshot\<close> from a goroutine of its own, which may run after the log was truncated.
\<close>

inductive peer_step :: "('c, 's) raft \<Rightarrow> ('c, 's) raft \<Rightarrow> bool" where
  ps_append: "numbered (PrevLogIndex args + 1) (ae_Entries args) \<Longrightarrow>
     AppendEntries rf args = Some (rf', reply) \<Longrightarrow> peer_step rf rf'"
| ps_install: "InstallSnapshot rf iargs = Some (rf', ireply) \<Longrightarrow> peer_step rf rf'"
| ps_take: "i \<le> lastApplied rf \<Longrightarrow> TakeSnapshot rf snap i t = Some rf' \<Longrightarrow> peer_step rf rf'"
| ps_start: "Start rf c = (rf', res) \<Longrightarrow> peer_step rf rf'"
| ps_wake: "w \<noteq> WTimeout \<Longrightarrow> mainSelect rf r w = Some rf' \<Longrightarrow> peer_step rf rf'"
| ps_broadcast: "ar_Term reply \<le> curTerm bc \<or> currentTerm rf < ar_Term reply \<Longrightarrow>
     broadcastReply rf bc server args reply = Some (rf', bc', again) \<Longrightarrow> peer_step rf rf'"
| ps_snapreply: "sendSnapshotReply rf server iargs ireply = Some rf' \<Longrightarrow> peer_step rf rf'"
| ps_kill: "Kill rf = Some rf' \<Longrightarrow> peer_step rf rf'"

text \<open>What a step may do to term, vote and role.\<close>

definition vstep :: "('c, 's) raft \<Rightarrow> ('c, 's) raft \<Rightarrow> bool" where
  "vstep rf rf' \<longleftrightarrow> me rf' = me rf \<and> npeers rf' = npeers rf
     \<and> (currentTerm rf < currentTerm rf' \<and> role rf' = Follower
        \<or> currentTerm rf' = currentTerm rf \<and> (votedFor rf \<noteq> votedNull \<longrightarrow> votedFor rf' = votedFor rf)
          \<and> (role rf' = role rf \<or> role rf' = Follower))"

definition peer_inv :: "('c, 's) raft \<Rightarrow> bool" where
  "peer_inv rf \<longleftrightarrow> log_wf rf \<and> saved rf"

lemma vstep_refl [simp]: "vstep rf rf"
  by (simp add: vstep_def)

lemma vstep_quiet:
  "me rf' = me rf \<Longrightarrow> npeers rf' = npeers rf \<Longrightarrow> currentTerm rf' = currentTerm rf \<Longrightarrow>
   votedFor rf' = votedFor rf \<Longrightarrow> role rf' = role rf \<Longrightarrow> vstep rf rf'"
  by (simp add: vstep_def)

lemma vstep_newer:
  "currentTerm rf < t \<Longrightarrow> vstep rf (convertRoleTo (rf\<lparr>currentTerm := t\<rparr>) Follower)"
  by (simp add: vstep_def)

lemma vstep_enter: "vstep rf (ae_enter rf t)"
  by (auto simp: vstep_def ae_enter_def Let_def)

lemma vstep_vote:
  assumes "logs rf \<noteq> []" and "RequestVote rf args = Some (rf', reply)"
  shows "vstep rf rf'"
  using assms(2) unfolding RequestVote_eq [OF assms(1)] Let_def
  by (auto simp: vstep_def rv_enter_def split: if_splits)

lemma peer_inv_convert: "log_wf rf \<Longrightarrow> peer_inv (convertRoleTo (rf\<lparr>currentTerm := t\<rparr>) r)"
  by (simp add: peer_inv_def saved_convert log_wf_def)

lemma peer_inv_quiet:
  assumes "peer_inv rf" "persister rf' = persister rf" "currentTerm rf' = currentTerm rf"
    "votedFor rf' = votedFor rf" "logs rf' = logs rf" "lastIncludedIndex rf' = lastIncludedIndex rf"
    "lastIncludedTerm rf' = lastIncludedTerm rf" "lastApplied rf' = commitIndex rf'"
    "commitIndex rf \<le> commitIndex rf'"
  shows "peer_inv rf'"
  using assms saved_cong [of rf' rf] by (auto simp: peer_inv_def log_wf_def)

lemma peer_inv_enter: "peer_inv rf \<Longrightarrow> peer_inv (ae_enter rf t)"
  by (auto simp: peer_inv_def ae_enter_wf) 
    (auto simp: ae_enter_def Let_def log_wf_def intro: saved_cong [THEN iffD2] saved_convert
      saved_cong [THEN iffD2, OF _ _ _ _ _ _ saved_convert])

lemma peer_step_Start:
  assumes "peer_inv rf" and "Start rf c = (rf', res)"
  shows "peer_inv rf' \<and> vstep rf rf'"
proof (cases "role rf = Leader")
  case True
  let ?q = "rf\<lparr>logs := logs rf @ [\<lparr>e_Term = currentTerm rf,
     e_Index = int (length (logs rf)) + lastIncludedIndex rf, e_Command = IOp c\<rparr>]\<rparr>"
  have rf': "rf' = persist ?q" using assms(2) True by (simp add: Start_def Let_def)
  have "log_wf (persist ?q)"
    using assms(1) by (auto simp: peer_inv_def log_wf_def numbered_append add.commute)
  then show ?thesis by (simp add: rf' peer_inv_def saved_persist vstep_def)
next
  case False
  then show ?thesis using assms by (simp add: Start_def Let_def)
qed

lemma peer_step_append:
  assumes "peer_inv rf" and "numbered (PrevLogIndex args + 1) (ae_Entries args)"
    and "AppendEntries rf args = Some (rf', reply)"
  shows "peer_inv rf' \<and> vstep rf rf'"
proof -
  have wf: "log_wf rf" using assms(1) by (simp add: peer_inv_def)
  show ?thesis
  proof (rule AppendEntries_outcomes [OF wf, of args])
    fix p
    let ?M = "ae_merged rf args"
    assume p: "logAt rf (PrevLogIndex args) = Some p"
      and "AppendEntries rf args = Some (ae_commit ?M args, aeReply (ae_Term args) True (-1) (-1))"
    then have rf': "rf' = ae_commit ?M args" using assms(3) by simp
    have wfM: "log_wf ?M" by (rule ae_merged_wf [OF wf p assms(2)])
    have "saved ?M"
    proof (cases "ae_Entries args = []")
      case True
      then have "?M = ae_enter rf (ae_Term args)" by (simp add: ae_merged_def Let_def mergeSpec_def)
      then show ?thesis using peer_inv_enter [OF assms(1)] by (simp add: peer_inv_def)
    next
      case False
      then have M: "?M = persist ((ae_enter rf (ae_Term args))\<lparr>logs := logs ?M\<rparr>)"
        by (simp add: ae_merged_def Let_def)
      have "logs ?M \<noteq> []" using wfM by (simp add: log_wf_def)
      then show ?thesis by (subst M) (rule saved_persist, simp)
    qed
    then have "saved rf'" unfolding rf' by (rule saved_cong [THEN iffD2, rotated -1]) simp_all
    moreover have "log_wf rf'" unfolding rf' by (rule ae_commit_wf [OF wfM])
    moreover have "vstep rf rf'"
      using vstep_enter [of rf "ae_Term args"] by (simp add: rf' vstep_def ae_merged_def Let_def)
    ultimately show ?thesis by (simp add: peer_inv_def)
  qed (use assms peer_inv_enter vstep_enter in auto)
qed

lemma peer_step_install:
  assumes "peer_inv rf" and "InstallSnapshot rf args = Some (rf', reply)"
  shows "peer_inv rf' \<and> vstep rf rf'"
proof (cases "currentTerm rf > is_Term args \<or> is_LastIncludedIndex args \<le> lastIncludedIndex rf")
  case True
  with assms InstallSnapshot_stale [OF True] show ?thesis by auto
next
  case False
  then have h: "currentTerm rf \<le> is_Term args" "lastIncludedIndex rf < is_LastIncludedIndex args"
    by auto
  have wf: "log_wf rf" using assms(1) by (simp add: peer_inv_def)
  have "peer_inv rf'"
    using InstallSnapshot_spec [OF wf h] assms(2) by (auto simp: peer_inv_def)
  moreover have "vstep rf rf'"
    using assms(2) False
    by (auto simp: InstallSnapshot_def Let_def vstep_def split: if_splits Option.bind_splits)
  ultimately show ?thesis by blast
qed

lemma peer_step_take:
  assumes "peer_inv rf" and "i \<le> lastApplied rf" "i \<le> getLastLogIndex rf"
    and "TakeSnapshot rf snap i t = Some rf'"
  shows "peer_inv rf' \<and> vstep rf rf'"
proof (cases "i \<le> lastIncludedIndex rf")
  case True
  with assms show ?thesis by (simp add: TakeSnapshot_old)
next
  case False
  then have gt: "lastIncludedIndex rf < i" by simp
  have wf: "log_wf rf" using assms(1) by (simp add: peer_inv_def)
  have "peer_inv rf'"
    using TakeSnapshot_spec [OF wf gt assms(2,3), of snap t] assms(4) by (auto simp: peer_inv_def)
  moreover have "vstep rf rf'"
    using assms(4) TakeSnapshot_new [OF gt assms(3)] by (auto simp: vstep_def)
  ultimately show ?thesis by blast
qed

lemma peer_step_broadcast:
  assumes "peer_inv rf" and "broadcastReply rf bc server args reply = Some (rf', bc', again)"
    and "ar_Term reply \<le> curTerm bc"
  shows "peer_inv rf' \<and> vstep rf rf'"
proof -
  have "peer_inv r \<and> vstep rf r" if "applyLogs (rf\<lparr>matchIndex := ms, nextIndex := ns, commitIndex := c\<rparr>) = Some r"
    and "commitIndex rf \<le> c" for r ms ns c
  proof -
    from applyLogs_frame [OF that(1)] obtain msgs where
      r: "r = rf\<lparr>matchIndex := ms, nextIndex := ns, commitIndex := c, applyCh := applyCh rf @ msgs,
        lastApplied := c\<rparr>" by auto
    show ?thesis
      using that(2) peer_inv_quiet [OF assms(1), of r] vstep_quiet [of r rf] by (simp add: r)
  qed
  note appl = this
  have quiet: "peer_inv (rf\<lparr>matchIndex := ms, nextIndex := ns\<rparr>) \<and> vstep rf (rf\<lparr>matchIndex := ms, nextIndex := ns\<rparr>)"
    for ms ns
  proof -
    have "lastApplied rf = commitIndex rf" using assms(1) by (simp add: peer_inv_def log_wf_def)
    then show ?thesis
      using peer_inv_quiet [OF assms(1), of "rf\<lparr>matchIndex := ms, nextIndex := ns\<rparr>"]
        vstep_quiet [of "rf\<lparr>matchIndex := ms, nextIndex := ns\<rparr>" rf] by simp
  qed
  note quiet1 = quiet [where ms = "matchIndex rf", simplified]
  note appl1 = appl [where ms = "matchIndex rf" and ns = "nextIndex rf", simplified]
  show ?thesis
    using assms appl appl1 quiet quiet1
    by (auto simp: broadcastReply_def Let_def split: if_splits Option.bind_splits)
qed

lemma peer_step_snapreply:
  assumes "peer_inv rf" and "sendSnapshotReply rf server arg reply = Some rf'"
  shows "peer_inv rf' \<and> vstep rf rf'"
proof -
  have wf: "log_wf rf" and la: "lastApplied rf = commitIndex rf"
    using assms(1) by (auto simp: peer_inv_def log_wf_def)
  have "peer_inv (rf\<lparr>nextIndex := ns, matchIndex := ms\<rparr>)" for ns ms
    using la by (intro peer_inv_quiet [OF assms(1)]) simp_all
  then show ?thesis
    using assms peer_inv_convert [OF wf, of "ir_Term reply" Follower] vstep_newer [of rf "ir_Term reply"]
    by (auto simp: sendSnapshotReply_def intro: vstep_quiet split: if_splits Option.bind_splits)
qed

lemma peer_step_wake:
  assumes "peer_inv rf" and "mainSelect rf r w = Some rf'" and "w \<noteq> WTimeout"
  shows "peer_inv rf' \<and> vstep rf rf'"
proof -
  have la: "lastApplied rf = commitIndex rf"
    using assms(1) by (auto simp: peer_inv_def log_wf_def)
  have ch: "peer_inv (rf\<lparr>appendCh := a, voteCh := b, leaderCh := c\<rparr>)
      \<and> vstep rf (rf\<lparr>appendCh := a, voteCh := b, leaderCh := c\<rparr>)" for a b c
    using la by (intro conjI peer_inv_quiet [OF assms(1)] vstep_quiet) simp_all
  show ?thesis
    using assms(2,3) ch [where a = "tl (appendCh rf)" and b = "voteCh rf" and c = "leaderCh rf"]
      ch [where a = "appendCh rf" and b = "tl (voteCh rf)" and c = "leaderCh rf"]
      ch [where a = "appendCh rf" and b = "voteCh rf" and c = "tl (leaderCh rf)"]
    by (cases r; cases w) (auto split: if_splits)
qed

lemma peer_step_kill:
  assumes "peer_inv rf" and "Kill rf = Some rf'"
  shows "peer_inv rf' \<and> vstep rf rf'"
proof -
  have la: "lastApplied rf = commitIndex rf"
    using assms(1) by (auto simp: peer_inv_def log_wf_def)
  have rf': "rf' = rf\<lparr>exitCh := [True]\<rparr>" using assms(2) by (auto simp: Kill_def split: if_splits)
  show ?thesis
    unfolding rf' using la by (intro conjI peer_inv_quiet [OF assms(1)] vstep_quiet) simp_all
qed

lemma broadcastReply_newer:
  "ar_Term reply > curTerm bc \<Longrightarrow> broadcastReply rf bc server args reply =
     Some (convertRoleTo (rf\<lparr>currentTerm := ar_Term reply\<rparr>) Follower, bc, False)"
  by (simp add: broadcastReply_def)

section \<open>A peer that has lost its log\<close>

text \<open>
  A snapshot taken one position after the end of a truncated log leaves an empty log, in memory and on
  disk.  The peer is then \<open>lost\<close>: it has not even the placeholder of its snapshot.
\<close>

definition lost :: "('c, 's) raft \<Rightarrow> bool" where
  "lost rf \<longleftrightarrow> logs rf = [] \<and> ReadRaftState (persister rf) = encodeState rf \<and> 0 \<le> lastIncludedIndex rf
     \<and> lastIncludedIndex rf \<le> lastApplied rf \<and> lastApplied rf = commitIndex rf"

definition peer_ok :: "('c, 's) raft \<Rightarrow> bool" where
  "peer_ok rf \<longleftrightarrow> peer_inv rf \<or> lost rf"

lemma lost_persist:
  "logs rf = [] \<Longrightarrow> 0 \<le> lastIncludedIndex rf \<Longrightarrow> lastIncludedIndex rf \<le> lastApplied rf \<Longrightarrow>
     lastApplied rf = commitIndex rf \<Longrightarrow> lost (persist rf)"
  by (simp add: lost_def ps.read_save encodeState_def)

lemma lost_convert: "lost rf \<Longrightarrow> lost (convertRoleTo (rf\<lparr>currentTerm := t\<rparr>) r)"
  unfolding convertRoleTo_def by (rule lost_persist) (auto simp: lost_def Let_def split: role.splits)

lemma lost_convert_same: "lost rf \<Longrightarrow> lost (convertRoleTo rf r)"
  using lost_convert [of rf "currentTerm rf" r] by simp

lemma lost_quiet:
  assumes "lost rf" "persister rf' = persister rf" "currentTerm rf' = currentTerm rf"
    "votedFor rf' = votedFor rf" "logs rf' = logs rf" "lastIncludedIndex rf' = lastIncludedIndex rf"
    "lastIncludedTerm rf' = lastIncludedTerm rf" "lastApplied rf' = lastApplied rf"
    "commitIndex rf' = commitIndex rf"
  shows "lost rf'"
  using assms by (simp add: lost_def encodeState_def)

lemma lost_ok: "lost rf \<Longrightarrow> peer_ok rf"
  by (simp add: peer_ok_def)

lemmas lost_quiet_ok = lost_quiet [THEN lost_ok]

lemma lost_enter: "lost rf \<Longrightarrow> lost (ae_enter rf t)"
  unfolding ae_enter_def Let_def by (rule lost_quiet [where rf = "if t > currentTerm rf
     then convertRoleTo (rf\<lparr>currentTerm := t\<rparr>) Follower else rf"]) (simp_all add: lost_convert)

text \<open>It does not vote, stand for election or restart, and takes no entry of a leader.\<close>

lemma lost_Make:
  assumes "lost rf"
  shows "Make n self (persister rf) = None"
proof -
  have "encodeState rf \<noteq> []" by (simp add: encodeState_def gob_put_def Let_def)
  then show ?thesis
    using assms by (simp add: lost_def Make_def readPersist_def decode_encodeState image_def go_set_def Let_def)
qed

lemma lost_vote: "lost rf \<Longrightarrow> RequestVote rf args = None"
  by (auto simp: lost_def RequestVote_def getLastLogTerm_def go_idx_def Let_def)

lemma lost_election: "lost rf \<Longrightarrow> electionBegin rf = None"
  by (simp add: lost_def electionBegin_def getLastLogTerm_def go_idx_def)

lemma lost_append:
  assumes "lost rf"
  shows "\<exists>reply. AppendEntries rf args
     = Some (if ae_Term args < currentTerm rf then rf else ae_enter rf (ae_Term args), reply) \<and> \<not> Success reply"
  using assms by (auto simp: AppendEntries_def Let_def ae_enter_def idx_defs lost_def)

text \<open>The late snapshot itself: it empties the log, or panics when the gap is larger.\<close>

lemma late_TakeSnapshot:
  assumes "peer_inv rf" and "getLastLogIndex rf < i" and "i \<le> lastApplied rf"
    and "TakeSnapshot rf snap i t = Some rf'"
  shows "lost rf' \<and> vstep rf rf'"
proof -
  have wf: "log_wf rf" and gt: "lastIncludedIndex rf < i"
    using assms(1,2) log_wf_last [of rf] by (auto simp: peer_inv_def)
  with assms(2,4) have "rf' = persistStateAndSnapshot (rf\<lparr>logs := [], lastIncludedTerm := t, lastIncludedIndex := i\<rparr>) snap"
    by (auto simp: TakeSnapshot_def go_slice_from_def idx_defs split: if_splits Option.bind_splits)
  with wf gt assms(3) show ?thesis
    by (auto simp: lost_def vstep_def log_wf_def ps.read_both encodeState_def)
qed

text \<open>Every step keeps the peer well-formed and durable, or leaves it with the empty log.\<close>

lemma peer_step_lost:
  assumes "peer_step rf rf'" and "lost rf"
  shows "peer_ok rf' \<and> vstep rf rf'"
  using assms
proof (induction rule: peer_step.induct)
  case (ps_append args rf rf' reply)
  then show ?case
    using lost_append [of rf args] lost_enter [of rf "ae_Term args"] vstep_enter [of rf "ae_Term args"]
    by (auto simp: peer_ok_def split: if_splits)
next
  case (ps_install rf args rf' reply)
  then have "rf' = rf \<or> ReadRaftState (persister rf') = encodeState rf' \<and> log_wf rf' \<and> vstep rf rf'"
    by (auto simp: InstallSnapshot_def Let_def idx_defs lost_def log_wf_def vstep_def go_max_def
        ps.read_both encodeState_def split: if_splits)
  with ps_install(2) show ?case by (auto simp: peer_ok_def peer_inv_def log_wf_def intro: saved_written)
next
  case (ps_take i rf snap t rf')
  then have "rf' = rf"
    by (auto simp: TakeSnapshot_def go_slice_from_def lost_def subIdx_def split: if_splits Option.bind_splits)
  with ps_take(3) show ?case by (simp add: peer_ok_def)
next
  case (ps_start rf c rf' res)
  let ?q = "rf\<lparr>logs := [\<lparr>e_Term = currentTerm rf, e_Index = lastIncludedIndex rf, e_Command = IOp c\<rparr>]\<rparr>"
  have "log_wf (persist ?q)" "saved (persist ?q)" using ps_start(2) by (auto simp: log_wf_def lost_def intro: saved_persist)
  then have "peer_inv (persist ?q)" by (simp add: peer_inv_def)
  moreover have "rf' = rf \<or> rf' = persist ?q"
    using ps_start by (auto simp: Start_def Let_def lost_def split: if_splits)
  ultimately show ?case using ps_start(2) by (auto simp: peer_ok_def vstep_def)
next
  case (ps_wake w rf r rf')
  then show ?case
    by (cases r; cases w) (auto intro!: vstep_quiet lost_quiet_ok [OF ps_wake(3)] split: if_splits)
next
  case (ps_broadcast reply bc rf server args rf' bc' again)
  have dead: "applyLogs (rf\<lparr>matchIndex := ms, nextIndex := ns, commitIndex := c\<rparr>) = None" for ms ns c
    using ps_broadcast(3) by (intro applyLogs_empty) (simp add: lost_def)
  note dead1 = dead [where ms = "matchIndex rf" and ns = "nextIndex rf", simplified]
  have quiet: "peer_ok (rf\<lparr>matchIndex := ms, nextIndex := ns\<rparr>) \<and> vstep rf (rf\<lparr>matchIndex := ms, nextIndex := ns\<rparr>)"
    for ms ns by (intro conjI lost_quiet_ok [OF ps_broadcast(3)] vstep_quiet) simp_all
  note quiet1 = quiet [where ms = "matchIndex rf", simplified]
  show ?case
    using ps_broadcast(1,2) dead dead1 quiet quiet1 lost_ok [OF lost_convert [OF ps_broadcast(3)], of "ar_Term reply" Follower]
      lost_ok [OF ps_broadcast(3)] vstep_newer [of rf "ar_Term reply"]
    by (auto simp: broadcastReply_def Let_def split: if_splits Option.bind_splits)
next
  case (ps_snapreply rf server iargs ireply rf')
  have quiet: "peer_ok (rf\<lparr>nextIndex := ns, matchIndex := ms\<rparr>) \<and> vstep rf (rf\<lparr>nextIndex := ns, matchIndex := ms\<rparr>)"
    for ms ns by (intro conjI lost_quiet_ok [OF ps_snapreply(2)] vstep_quiet) simp_all
  then show ?case
    using ps_snapreply(1) lost_ok [OF lost_convert [OF ps_snapreply(2)], of "ir_Term ireply" Follower]
      lost_ok [OF ps_snapreply(2)] vstep_newer [of rf "ir_Term ireply"]
    by (auto simp: sendSnapshotReply_def split: if_splits Option.bind_splits)
next
  case (ps_kill rf rf')
  then have "rf' = rf\<lparr>exitCh := [True]\<rparr>" by (auto simp: Kill_def split: if_splits)
  then show ?case by (auto intro!: lost_quiet_ok [OF ps_kill(2)] vstep_quiet)
qed

lemma peer_step_inv:
  assumes "peer_step rf rf'" and "peer_inv rf"
  shows "peer_ok rf' \<and> vstep rf rf'"
  using assms
proof (induction rule: peer_step.induct)
  case (ps_broadcast reply bc rf server args rf' bc' again)
  show ?case
  proof (cases "ar_Term reply \<le> curTerm bc")
    case True
    with ps_broadcast show ?thesis by (auto simp: peer_ok_def dest: peer_step_broadcast)
  next
    case False
    with ps_broadcast have "rf' = convertRoleTo (rf\<lparr>currentTerm := ar_Term reply\<rparr>) Follower"
      by (simp add: broadcastReply_newer)
    with False ps_broadcast show ?thesis
      by (auto simp: peer_ok_def peer_inv_def log_wf_def saved_convert vstep_def)
  qed
next
  case (ps_take i rf snap t rf')
  then show ?case
    using peer_step_take [OF ps_take(3,1) _ ps_take(2)] late_TakeSnapshot [OF ps_take(3) _ ps_take(1,2)]
    by (cases "i \<le> getLastLogIndex rf") (auto simp: peer_ok_def)
qed (auto simp: peer_ok_def dest: peer_step_append peer_step_install peer_step_Start peer_step_wake
      peer_step_snapreply peer_step_kill)

lemma peer_step_sound: "peer_step rf rf' \<Longrightarrow> peer_ok rf \<Longrightarrow> peer_ok rf' \<and> vstep rf rf'"
  using peer_step_inv [of rf rf'] peer_step_lost [of rf rf'] by (auto simp: peer_ok_def)

lemma vote_step_sound:
  assumes "peer_inv rf" and "RequestVote rf args = Some (rf', reply)"
  shows "peer_inv rf' \<and> vstep rf rf'"
proof -
  have ne: "logs rf \<noteq> []" using assms(1) by (simp add: peer_inv_def log_wf_def)
  have "peer_inv (rv_enter rf t)" for t
    using assms(1) ne by (auto simp: rv_enter_def peer_inv_def saved_convert log_wf_def)
  moreover have "peer_inv (persist ((rv_enter rf t)\<lparr>votedFor := v, voteCh := c\<rparr>))" for t v c
    using assms(1) by (auto simp: peer_inv_def log_wf_def intro: saved_persist)
  ultimately have "peer_inv rf'"
    using assms(2) unfolding RequestVote_eq [OF ne] Let_def by (auto split: if_splits)
  with vstep_vote [OF ne assms(2)] show ?thesis by blast
qed

lemma vote_step_ok:
  assumes "peer_ok rf" and "RequestVote rf args = Some (rf', reply)"
  shows "peer_inv rf \<and> peer_ok rf' \<and> vstep rf rf'"
  using assms lost_vote [of rf args] vote_step_sound [of rf args rf' reply] by (auto simp: peer_ok_def)

lemma peer_ok_convert: "peer_ok rf \<Longrightarrow> peer_ok (convertRoleTo (rf\<lparr>currentTerm := t\<rparr>) r)"
  using lost_convert [of rf t r] peer_inv_convert [of rf t r] by (auto simp: peer_ok_def peer_inv_def)

lemma peer_ok_convert_same: "peer_ok rf \<Longrightarrow> peer_ok (convertRoleTo rf r)"
  using peer_ok_convert [of rf "currentTerm rf" r] by simp

lemma peer_ok_leaderCh: "peer_ok (rf\<lparr>leaderCh := c\<rparr>) = peer_ok rf"
  using saved_cong [of "rf\<lparr>leaderCh := c\<rparr>" rf]
  by (simp add: peer_ok_def peer_inv_def log_wf_def lost_def encodeState_def)

text \<open>A peer that restarts had a log.\<close>

lemma peer_ok_Make: "peer_ok rf \<Longrightarrow> Make n self (persister rf) = Some rf' \<Longrightarrow> peer_inv rf"
  using lost_Make [of rf n self] by (auto simp: peer_ok_def)

end
