(* ===== verification/Raft_Cluster.thy ===== *)
theory Raft_Cluster
  imports Raft_Votes
begin

text \<open>
  A cluster of \<open>n\<close> Raft peers: interleavings of the critical sections of \<^verbatim>\<open>src/src/raft/raft.go\<close>, with
  the goroutines of \<open>leaderElection\<close> and the vote requests and replies between them.

  A state holds the peers, the elections started so far (\<open>runs\<close>: the candidate and the variables its
  goroutines share), where each vote goroutine is (\<open>calls k j\<close>: the goroutine of election \<open>k\<close> for
  server \<open>j\<close>), and, as a history variable that no step reads, the ballots cast (\<open>(v, t, c)\<close>:
  \<open>v\<close> voted for \<open>c\<close> in term \<open>t\<close>).  A step is labelled \<open>Normal\<close> except for two kinds that
  the safety proof has to exclude, because the code handles them wrongly: a vote reply from a newer
  term (\<open>NewerVoteReply\<close>: the candidate forgets its vote but does not adopt the term) and an append
  reply that is newer than the broadcast but not newer than the peer (\<open>StaleAppendReply\<close>: the
  peer's term goes back).  Messages other than votes are arbitrary (\<open>peer_step\<close>).
\<close>

datatype vcall = NotSent | InFlight | Returned RequestVoteReply | Counted | Closed

record ('c, 's) cluster =
  node :: "nat \<Rightarrow> ('c, 's) raft"
  runs :: "(nat \<times> election) list"
  calls :: "nat \<Rightarrow> nat \<Rightarrow> vcall"
  ballots :: "(nat \<times> int \<times> nat) set"

datatype label = Normal | NewerVoteReply | StaleAppendReply

definition set_node :: "('c, 's) cluster \<Rightarrow> nat \<Rightarrow> ('c, 's) raft \<Rightarrow> ('c, 's) cluster" where
  "set_node s i rf = s\<lparr>node := (node s)(i := rf)\<rparr>"

definition set_call :: "('c, 's) cluster \<Rightarrow> nat \<Rightarrow> nat \<Rightarrow> vcall \<Rightarrow> ('c, 's) cluster" where
  "set_call s k j c = s\<lparr>calls := (calls s)(k := (calls s k)(j := c))\<rparr>"

definition cluster_init :: "nat \<Rightarrow> ('c, 's) cluster" where
  "cluster_init n = \<lparr>node = (\<lambda>i. booted n i MakePersister (-1) votedNull [] 0 (-1)), runs = [],
     calls = (\<lambda>_ _. NotSent), ballots = {}\<rparr>"

inductive cstep :: "nat \<Rightarrow> label \<Rightarrow> ('c, 's) cluster \<Rightarrow> ('c, 's) cluster \<Rightarrow> bool" for n where
  cs_local: "i < n \<Longrightarrow> peer_step (node s i) rf' \<Longrightarrow> cstep n Normal s (set_node s i rf')"
| cs_timeout: "i < n \<Longrightarrow> mainSelect (node s i) r WTimeout = Some rf' \<Longrightarrow>
     cstep n Normal s ((set_node s i rf')\<lparr>ballots := insert (i, currentTerm rf', i) (ballots s)\<rparr>)"
| cs_begin: "i < n \<Longrightarrow> electionBegin (node s i) = Some el \<Longrightarrow>
     cstep n Normal s (s\<lparr>runs := runs s @ [(i, el)]\<rparr>)"
| cs_send: "k < length (runs s) \<Longrightarrow> runs s ! k = (i, el) \<Longrightarrow> electionMaySend (node s i) el j \<Longrightarrow>
     calls s k j = NotSent \<Longrightarrow> cstep n Normal s (set_call s k j InFlight)"
| cs_deliver: "k < length (runs s) \<Longrightarrow> runs s ! k = (i, el) \<Longrightarrow> calls s k j = InFlight \<Longrightarrow>
     RequestVote (node s j) (requestArgs el) = Some (rf', reply) \<Longrightarrow>
     cstep n Normal s ((set_call (set_node s j rf') k j (Returned reply))
       \<lparr>ballots := (if VoteGranted reply \<and> currentTerm rf' = rv_Term (requestArgs el)
          then insert (j, currentTerm rf', i) (ballots s) else ballots s)\<rparr>)"
| cs_lose: "k < length (runs s) \<Longrightarrow> calls s k j = InFlight \<or> calls s k j = Returned reply \<Longrightarrow>
     cstep n Normal s (set_call s k j Closed)"
| cs_reply: "k < length (runs s) \<Longrightarrow> runs s ! k = (i, el) \<Longrightarrow> calls s k j = Returned reply \<Longrightarrow>
     electionReply (node s i) el reply = (rf', el') \<Longrightarrow>
     l = (if rr_Term reply > currentTerm (node s i) then NewerVoteReply else Normal) \<Longrightarrow>
     cstep n l s ((set_call (set_node s i rf') k j (if voteCnt el' = voteCnt el then Closed else Counted))
       \<lparr>runs := (runs s)[k := (i, el')]\<rparr>)"
| cs_stale: "i < n \<Longrightarrow> ar_Term reply > curTerm bc \<Longrightarrow> ar_Term reply \<le> currentTerm (node s i) \<Longrightarrow>
     broadcastReply (node s i) bc server args reply = Some (rf', bc', again) \<Longrightarrow>
     cstep n StaleAppendReply s (set_node s i rf')"
| cs_restart: "i < n \<Longrightarrow> Make n i (persister (node s i)) = Some rf' \<Longrightarrow>
     cstep n Normal s (set_node s i rf')"

inductive creach :: "nat \<Rightarrow> label set \<Rightarrow> ('c, 's) cluster \<Rightarrow> bool" for n L where
  cr_init: "creach n L (cluster_init n)"
| cr_step: "creach n L s \<Longrightarrow> l \<in> L \<Longrightarrow> cstep n l s s' \<Longrightarrow> creach n L s'"

lemma set_simps [simp]:
  "node (set_node s i rf) = (node s)(i := rf)" "runs (set_node s i rf) = runs s"
  "calls (set_node s i rf) = calls s" "ballots (set_node s i rf) = ballots s"
  "node (set_call s k j c) = node s" "runs (set_call s k j c) = runs s"
  "calls (set_call s k j c) = (calls s)(k := (calls s k)(j := c))"
  "ballots (set_call s k j c) = ballots s"
  by (simp_all add: set_node_def set_call_def)

lemma same_run [simp]: "runs s ! k = p \<Longrightarrow> (runs s)[k := p] = runs s"
  using list_update_id [of "runs s" k] by simp

section \<open>What holds in every execution\<close>

text \<open>Every peer keeps its identity and is well-formed and durable, or has lost its log.\<close>

definition nodes_ok :: "nat \<Rightarrow> ('c, 's) cluster \<Rightarrow> bool" where
  "nodes_ok n s \<longleftrightarrow> (\<forall>i < n. peer_ok (node s i) \<and> me (node s i) = i \<and> npeers (node s i) = n)"

text \<open>The goroutines of an election and what they have counted.\<close>

definition run_ok :: "nat \<Rightarrow> (nat \<Rightarrow> vcall) \<Rightarrow> nat \<Rightarrow> election \<Rightarrow> bool" where
  "run_ok n cs i el \<longleftrightarrow> i < n \<and> CandidateId (requestArgs el) = i
     \<and> voteCnt el = 1 + int (card {j. cs j = Counted})
     \<and> (\<forall>j. cs j \<noteq> NotSent \<longrightarrow> j < n \<and> j \<noteq> i)"

definition runs_ok :: "nat \<Rightarrow> ('c, 's) cluster \<Rightarrow> bool" where
  "runs_ok n s \<longleftrightarrow>
     (\<forall>k i el. k < length (runs s) \<and> runs s ! k = (i, el) \<longrightarrow> run_ok n (calls s k) i el)
   \<and> (\<forall>k j. length (runs s) \<le> k \<longrightarrow> calls s k j = NotSent)"

lemma nodes_ok_init: "nodes_ok n (cluster_init n)"
  by (simp add: nodes_ok_def cluster_init_def peer_ok_def peer_inv_def saved_fresh)
    (simp add: booted_def log_wf_def)

lemma runs_ok_init: "runs_ok n (cluster_init n)"
  by (simp add: runs_ok_def cluster_init_def)

lemma nodes_ok_set:
  "nodes_ok n s \<Longrightarrow> peer_ok rf' \<Longrightarrow> me rf' = me (node s i) \<Longrightarrow> npeers rf' = npeers (node s i) \<Longrightarrow>
     nodes_ok n (set_node s i rf')"
  by (auto simp: nodes_ok_def)

lemma nodes_ok_frame: "node s' = node s \<Longrightarrow> nodes_ok n s' = nodes_ok n s"
  by (simp add: nodes_ok_def)

lemma nodes_ok_vstep:
  "nodes_ok n s \<Longrightarrow> peer_ok rf' \<and> vstep (node s i) rf' \<Longrightarrow> nodes_ok n (set_node s i rf')"
  by (auto simp: nodes_ok_def vstep_def)

lemma electionReply_peer:
  assumes "peer_ok rf" and "electionReply rf el reply = (rf', el')"
  shows "peer_ok rf' \<and> me rf' = me rf \<and> npeers rf' = npeers rf \<and> requestArgs el' = requestArgs el"
  using assms peer_ok_convert_same [OF assms(1)]
  by (auto simp: electionReply_def Let_def peer_ok_leaderCh split: if_splits)

lemma nodes_ok_step:
  assumes "cstep n l s s'" and "nodes_ok n s" and "runs_ok n s"
  shows "nodes_ok n s'"
  using assms
proof (induction rule: cstep.induct)
  case (cs_local i s rf')
  then have "peer_ok (node s i)" by (simp add: nodes_ok_def)
  then show ?case by (rule nodes_ok_vstep [OF cs_local(3) peer_step_sound [OF cs_local(2)]])
next
  case (cs_timeout i s r rf')
  then have rf': "rf' = convertRoleTo (node s i) Candidate" by (cases r) auto
  have "peer_ok rf'" using cs_timeout
    by (auto simp: rf' nodes_ok_def intro: peer_ok_convert_same)
  then have "nodes_ok n (set_node s i rf')"
    using cs_timeout by (intro nodes_ok_set) (auto simp: rf')
  then show ?case by (simp add: nodes_ok_def)
next
  case (cs_deliver k s i el j rf' reply)
  then have j: "j < n" by (auto simp: runs_ok_def run_ok_def)
  then have "peer_ok rf' \<and> vstep (node s j) rf'"
    using cs_deliver vote_step_ok [of "node s j" "requestArgs el" rf' reply] by (auto simp: nodes_ok_def)
  then have "nodes_ok n (set_node s j rf')" by (rule nodes_ok_vstep [OF cs_deliver(5)])
  then show ?case by (simp add: nodes_ok_def)
next
  case (cs_reply k s i el j reply rf' el' l)
  then have i: "i < n" by (auto simp: runs_ok_def run_ok_def)
  have "nodes_ok n (set_node s i rf')"
    using electionReply_peer [OF _ cs_reply(4)] cs_reply i by (intro nodes_ok_set) (auto simp: nodes_ok_def)
  then show ?case by (simp add: nodes_ok_def)
next
  case (cs_stale i reply bc s server args rf' bc' again)
  then have rf': "rf' = convertRoleTo ((node s i)\<lparr>currentTerm := ar_Term reply\<rparr>) Follower"
    by (simp add: broadcastReply_newer)
  have "peer_ok rf'" unfolding rf' using cs_stale
    by (intro peer_ok_convert) (auto simp: nodes_ok_def)
  then show ?case using cs_stale by (intro nodes_ok_set) (auto simp: rf')
next
  case (cs_restart i s rf')
  let ?r = "node s i"
  have inv: "peer_inv ?r" "me ?r = i" "npeers ?r = n"
    using cs_restart peer_ok_Make [OF _ cs_restart(2)] by (auto simp: nodes_ok_def)
  then have rf': "rf' = booted n i (persister ?r) (currentTerm ?r) (votedFor ?r) (tl (logs ?r))
      (lastIncludedIndex ?r) (lastIncludedTerm ?r)"
    using cs_restart Make_saved [of ?r n i] by (simp add: peer_inv_def)
  have "peer_ok rf'"
    unfolding rf' peer_ok_def peer_inv_def using inv by (auto simp: peer_inv_def intro: saved_booted log_wf_booted)
  moreover have "me rf' = i" "npeers rf' = n" by (simp_all add: rf' booted_def)
  ultimately show ?case using cs_restart inv by (intro nodes_ok_set) auto
qed (simp_all add: nodes_ok_def)

lemma electionReply_count:
  assumes "electionReply rf el reply = (rf', el')"
  shows "voteCnt el' = voteCnt el \<or> voteCnt el' = voteCnt el + 1 \<and> VoteGranted reply
     \<and> rr_Term reply \<le> currentTerm rf \<and> role rf = Candidate
     \<and> currentTerm rf = rv_Term (requestArgs el)"
    and "requestArgs el' = requestArgs el"
  using assms by (auto simp: electionReply_def Let_def checkState_def split: if_splits)

lemma runs_ok_frame:
  "runs s' = runs s \<Longrightarrow> calls s' = calls s \<Longrightarrow> runs_ok n s' = runs_ok n s"
  by (simp add: runs_ok_def)

lemma runs_ok_at:
  assumes "runs_ok n s" and "k < length (runs s)" and "runs s ! k = (i, el)"
  shows "i < n" and "CandidateId (requestArgs el) = i"
    and "voteCnt el = 1 + int (card {j. calls s k j = Counted})"
    and "calls s k j \<noteq> NotSent \<Longrightarrow> j < n \<and> j \<noteq> i"
  using assms unfolding runs_ok_def run_ok_def by blast+

lemma counted_finite:
  assumes "runs_ok n s" and "k < length (runs s)"
  shows "finite {j. calls s k j = Counted}"
proof -
  obtain i el where "runs s ! k = (i, el)" by (cases "runs s ! k")
  then have "{j. calls s k j = Counted} \<subseteq> {..<n}"
    using runs_ok_at(4) [OF assms] by fastforce
  then show ?thesis by (rule finite_subset) simp
qed

text \<open>Changing one goroutine's place, and with it the shared variables of its election.\<close>

lemma runs_ok_call:
  assumes ok: "runs_ok n s" and k: "k < length (runs s)" and run: "runs s ! k = (i, el)"
    and j: "j < n" "j \<noteq> i" and c: "c \<noteq> NotSent" and old: "calls s k j \<noteq> Counted"
    and args: "requestArgs el' = requestArgs el"
    and cnt: "voteCnt el' = voteCnt el + (if c = Counted then 1 else 0)"
    and rs: "runs s' = (runs s)[k := (i, el')]"
    and cs: "calls s' = (calls s)(k := (calls s k)(j := c))"
  shows "runs_ok n s'"
proof -
  note at = runs_ok_at [OF ok k run]
  let ?C = "{j. calls s k j = Counted}"
  have fin: "finite ?C" by (rule counted_finite [OF ok k])
  have "{j'. calls s' k j' = Counted} = (if c = Counted then insert j ?C else ?C)"
    using old by (auto simp: cs)
  then have "int (card {j'. calls s' k j' = Counted}) = int (card ?C) + (if c = Counted then 1 else 0)"
    using fin old by auto
  then have "voteCnt el' = 1 + int (card {j'. calls s' k j' = Counted})"
    using cnt at(3) by simp
  moreover have "calls s' k j' \<noteq> NotSent \<Longrightarrow> j' < n \<and> j' \<noteq> i" for j'
    using at(4) j by (auto simp: cs split: if_splits)
  ultimately have mine: "run_ok n (calls s' k) i el'"
    using at args by (simp add: run_ok_def)
  show ?thesis
    unfolding runs_ok_def
  proof (intro conjI allI impI)
    fix k' i' e'
    assume h: "k' < length (runs s') \<and> runs s' ! k' = (i', e')"
    show "run_ok n (calls s' k') i' e'"
      using mine h ok k by (cases "k' = k") (auto simp: rs cs runs_ok_def)
  qed (use ok k in \<open>auto simp: rs cs runs_ok_def\<close>)
qed

lemma runs_ok_step:
  assumes "cstep n l s s'" and "nodes_ok n s" and "runs_ok n s"
  shows "runs_ok n s'"
  using assms
proof (induction rule: cstep.induct)
  case (cs_begin i s el)
  then have "CandidateId (requestArgs el) = i" "voteCnt el = 1"
    by (auto simp: electionBegin_def nodes_ok_def split: Option.bind_splits)
  then have new: "run_ok n (\<lambda>_. NotSent) i el" using cs_begin(1) by (simp add: run_ok_def)
  have idle: "calls s (length (runs s)) = (\<lambda>_. NotSent)"
    using cs_begin(4) by (auto simp: runs_ok_def)
  show ?case
    unfolding runs_ok_def
  proof (intro conjI allI impI)
    fix k i' e'
    let ?s = "s\<lparr>runs := runs s @ [(i, el)]\<rparr>"
    assume "k < length (runs ?s) \<and> runs ?s ! k = (i', e')"
    then have "k = length (runs s) \<and> i' = i \<and> e' = el \<or> k < length (runs s) \<and> runs s ! k = (i', e')"
      by (auto simp: nth_append less_Suc_eq split: if_splits)
    then show "run_ok n (calls ?s k) i' e'"
    proof
      assume "k = length (runs s) \<and> i' = i \<and> e' = el"
      then show ?thesis using new idle by simp
    next
      assume "k < length (runs s) \<and> runs s ! k = (i', e')"
      then have "run_ok n (calls s k) i' e'" using cs_begin(4) unfolding runs_ok_def by blast
      then show ?thesis by simp
    qed
  qed (use cs_begin(4) in \<open>simp add: runs_ok_def\<close>)
next
  case (cs_send k s i el j)
  then have "j < n" "j \<noteq> i"
    using runs_ok_at(1) [of n s k i el] by (auto simp: electionMaySend_def nodes_ok_def)
  then show ?case
    by - (rule runs_ok_call [OF cs_send(6,1,2), where j = j and el' = el],
      use cs_send in auto)
next
  case (cs_deliver k s i el j rf' reply)
  show ?case
    by (rule runs_ok_call [OF cs_deliver(6,1,2), where j = j and el' = el])
      (use cs_deliver runs_ok_at(4) [of n s k i el j] in auto)
next
  case (cs_lose k s j reply)
  obtain i el where run: "runs s ! k = (i, el)" by (cases "runs s ! k")
  show ?case
    by (rule runs_ok_call [OF cs_lose(4,1) run, where j = j and el' = el])
      (use cs_lose run runs_ok_at(4) [of n s k i el j] in auto)
next
  case (cs_reply k s i el j reply rf' el' l)
  show ?case
    by (rule runs_ok_call [OF cs_reply(7,1,2), where j = j and el' = el'])
      (use cs_reply runs_ok_at(4) [of n s k i el j] electionReply_count [OF cs_reply(4)] in auto)
qed (simp_all add: runs_ok_def)

lemma creach_ok:
  assumes "creach n L s"
  shows "nodes_ok n s \<and> runs_ok n s"
  using assms by (induction rule: creach.induct)
    (auto intro: nodes_ok_init runs_ok_init nodes_ok_step runs_ok_step)

end
