(* ===== verification/Raft_Safety.thy ===== *)
theory Raft_Safety
  imports Raft_Cluster
begin

text \<open>
  Election safety of the cluster of \<open>Raft_Cluster\<close>: the ballots of a term are cast at most once per
  peer, a leader holds a majority of them, so a term has at most one leader, in every execution
  without the two replies the code mishandles.  The last section shows that the exclusion is needed.
\<close>

section \<open>The ballots\<close>

definition ballots_ok :: "nat \<Rightarrow> (nat \<Rightarrow> ('c, 's) raft) \<Rightarrow> (nat \<times> int \<times> nat) set \<Rightarrow> bool" where
  "ballots_ok n nd B \<longleftrightarrow>
     (\<forall>v t c. (v, t, c) \<in> B \<longrightarrow> v < n \<and> t \<le> currentTerm (nd v)
        \<and> (t = currentTerm (nd v) \<longrightarrow> votedFor (nd v) = int c))
   \<and> (\<forall>v t c c'. (v, t, c) \<in> B \<longrightarrow> (v, t, c') \<in> B \<longrightarrow> c = c')"

definition elected :: "nat \<Rightarrow> (nat \<times> int \<times> nat) set \<Rightarrow> int \<Rightarrow> nat \<Rightarrow> bool" where
  "elected n B t c \<longleftrightarrow> (\<exists>Q. majority n Q \<and> (\<forall>v \<in> Q. (v, t, c) \<in> B))"

definition roles_ok :: "nat \<Rightarrow> (nat \<Rightarrow> ('c, 's) raft) \<Rightarrow> (nat \<times> int \<times> nat) set \<Rightarrow> bool" where
  "roles_ok n nd B \<longleftrightarrow> (\<forall>i < n.
     (role (nd i) = Candidate \<longrightarrow> (i, currentTerm (nd i), i) \<in> B)
   \<and> (role (nd i) = Leader \<longrightarrow> elected n B (currentTerm (nd i)) i))"

fun vote_in :: "int \<Rightarrow> vcall \<Rightarrow> bool" where
  "vote_in t Counted = True"
| "vote_in t (Returned r) = (VoteGranted r \<and> rr_Term r \<le> t)"
| "vote_in t _ = False"

definition replies_ok :: "('c, 's) cluster \<Rightarrow> bool" where
  "replies_ok s \<longleftrightarrow> (\<forall>k i el j. k < length (runs s) \<longrightarrow> runs s ! k = (i, el) \<longrightarrow>
     vote_in (rv_Term (requestArgs el)) (calls s k j) \<longrightarrow> (j, rv_Term (requestArgs el), i) \<in> ballots s)"

definition votes_ok :: "nat \<Rightarrow> ('c, 's) cluster \<Rightarrow> bool" where
  "votes_ok n s \<longleftrightarrow> ballots_ok n (node s) (ballots s) \<and> roles_ok n (node s) (ballots s) \<and> replies_ok s"

text \<open>A peer keeps its vote within a term.\<close>

definition keeps_vote :: "('c, 's) raft \<Rightarrow> ('c, 's) raft \<Rightarrow> bool" where
  "keeps_vote rf rf' \<longleftrightarrow> currentTerm rf < currentTerm rf'
     \<or> currentTerm rf' = currentTerm rf \<and> (votedFor rf \<noteq> votedNull \<longrightarrow> votedFor rf' = votedFor rf)"

lemma vstep_keeps_vote: "vstep rf rf' \<Longrightarrow> keeps_vote rf rf'"
  by (auto simp: vstep_def keeps_vote_def)

lemma ballots_ok_node:
  assumes "ballots_ok n nd B" and "keeps_vote (nd i) rf'"
  shows "ballots_ok n (nd(i := rf')) B"
proof -
  have nn: "int c \<noteq> votedNull" for c by (simp add: votedNull_def)
  show ?thesis
    using assms nn unfolding ballots_ok_def keeps_vote_def by (fastforce split: if_splits)
qed

lemma ballots_ok_cast:
  assumes "ballots_ok n nd B" and "j < n" and "votedFor (nd j) = int c"
  shows "ballots_ok n nd (insert (j, currentTerm (nd j), c) B)"
proof -
  have "c' = c" if "(j, currentTerm (nd j), c') \<in> B" for c'
    using assms that unfolding ballots_ok_def by fastforce
  then show ?thesis using assms unfolding ballots_ok_def by blast
qed

lemma elected_mono: "elected n B t c \<Longrightarrow> B \<subseteq> B' \<Longrightarrow> elected n B' t c"
  unfolding elected_def by blast

lemma roles_ok_mono: "roles_ok n nd B \<Longrightarrow> B \<subseteq> B' \<Longrightarrow> roles_ok n nd B'"
  unfolding roles_ok_def by (blast intro: elected_mono)

lemma roles_ok_node:
  assumes "roles_ok n nd B"
    and "role rf' = Candidate \<Longrightarrow> (i, currentTerm rf', i) \<in> B"
    and "role rf' = Leader \<Longrightarrow> elected n B (currentTerm rf') i"
  shows "roles_ok n (nd(i := rf')) B"
  using assms unfolding roles_ok_def by auto

lemma roles_ok_vstep:
  assumes "roles_ok n nd B" and "i < n" and "vstep (nd i) rf'"
  shows "roles_ok n (nd(i := rf')) B"
  using assms by (intro roles_ok_node) (auto simp: roles_ok_def vstep_def)

lemma replies_ok_frame:
  "replies_ok s \<Longrightarrow> runs s' = runs s \<Longrightarrow> calls s' = calls s \<Longrightarrow> ballots s \<subseteq> ballots s' \<Longrightarrow> replies_ok s'"
  unfolding replies_ok_def by (simp add: subset_eq)

text \<open>One goroutine moves on.\<close>

lemma replies_ok_call:
  assumes ok: "replies_ok s" and run: "runs s ! k = (i, el)" and "k < length (runs s)"
    and rs: "runs s' = (runs s)[k := (i, el')]" and args: "requestArgs el' = requestArgs el"
    and cs: "calls s' = (calls s)(k := (calls s k)(j := c))" and B: "ballots s \<subseteq> ballots s'"
    and c: "vote_in (rv_Term (requestArgs el)) c \<Longrightarrow> (j, rv_Term (requestArgs el), i) \<in> ballots s'"
  shows "replies_ok s'"
  unfolding replies_ok_def
proof (intro allI impI)
  fix k' i' e' j'
  assume h: "k' < length (runs s')" "runs s' ! k' = (i', e')"
    and v: "vote_in (rv_Term (requestArgs e')) (calls s' k' j')"
  show "(j', rv_Term (requestArgs e'), i') \<in> ballots s'"
  proof (cases "k' = k")
    case True
    then have e: "i' = i" "requestArgs e' = requestArgs el" using h args assms(3) by (auto simp: rs)
    show ?thesis
    proof (cases "j' = j")
      case True
      with v \<open>k' = k\<close> show ?thesis by (simp add: e c cs)
    next
      case False
      with v True have "vote_in (rv_Term (requestArgs el)) (calls s k j')" by (simp add: cs e)
      with ok run assms(3) B show ?thesis unfolding replies_ok_def e by blast
    qed
  next
    case False
    with v h have "vote_in (rv_Term (requestArgs e')) (calls s k' j')" "k' < length (runs s)"
      "runs s ! k' = (i', e')" by (auto simp: cs rs)
    with ok B show ?thesis unfolding replies_ok_def by blast
  qed
qed

lemma votes_ok_init: "votes_ok n (cluster_init n)"
  by (simp add: votes_ok_def ballots_ok_def roles_ok_def replies_ok_def cluster_init_def booted_def)

lemma votes_ok_vstep:
  assumes "votes_ok n s" and "i < n" and "vstep (node s i) rf'"
  shows "votes_ok n (set_node s i rf')"
  using assms unfolding votes_ok_def
  by (auto intro: ballots_ok_node vstep_keeps_vote roles_ok_vstep replies_ok_frame)

lemma votes_ok_reply:
  assumes v: "votes_ok n s" and ok: "nodes_ok n s" "runs_ok n s"
    and k: "k < length (runs s)" and run: "runs s ! k = (i, el)"
    and call: "calls s k j = Returned reply" and r: "electionReply (node s i) el reply = (rf', el')"
    and old: "rr_Term reply \<le> currentTerm (node s i)"
    and s': "s' = (set_call (set_node s i rf') k j (if voteCnt el' = voteCnt el then Closed else Counted))
       \<lparr>runs := (runs s)[k := (i, el')]\<rparr>"
  shows "votes_ok n s'"
proof -
  note at = runs_ok_at [OF ok(2) k run]
  let ?T = "rv_Term (requestArgs el)"
  have node: "me (node s i) = i" "npeers (node s i) = n" using ok(1) at(1) by (auto simp: nodes_ok_def)
  have j: "j < n" "j \<noteq> i" using at(4) [of j] call by auto
  note cnt = electionReply_count [OF r]
  have ballot: "(j, ?T, i) \<in> ballots s" if "voteCnt el' \<noteq> voteCnt el"
    using cnt(1) that v k run call unfolding votes_ok_def replies_ok_def by fastforce
  have "replies_ok s'"
    by (rule replies_ok_call [where s = s and k = k and el = el and el' = el' and j = j])
      (use v k run cnt(2) ballot in \<open>auto simp: s' votes_ok_def split: if_splits\<close>)
  moreover have "ballots_ok n (node s') (ballots s')"
    using v r old by (auto simp: s' votes_ok_def electionReply_def Let_def keeps_vote_def
      intro!: ballots_ok_node split: if_splits)
  moreover have "roles_ok n (node s') (ballots s')"
  proof (cases "role rf' = role (node s i)")
    case True
    have "currentTerm rf' = currentTerm (node s i)"
      using r old by (auto simp: electionReply_def Let_def split: if_splits)
    with True v at(1) show ?thesis
      by (auto simp: s' votes_ok_def roles_ok_def)
  next
    case False
    then have lead: "role rf' = Leader" "currentTerm rf' = ?T" "role (node s i) = Candidate"
      "currentTerm (node s i) = ?T" "voteCnt el' = voteCnt el + 1" "voteCnt el' > int n div 2"
      using r old node by (auto simp: electionReply_def Let_def checkState_def go_div_nonneg split: if_splits)
    let ?C = "{j. calls s k j = Counted}"
    let ?Q = "insert i (insert j ?C)"
    have "i \<notin> insert j ?C" "j \<notin> ?C" using at(4) [of i] call j by auto
    then have "card ?Q = 2 + card ?C"
      using counted_finite [OF ok(2) k] by simp
    then have "int n div 2 < int (card ?Q)" using lead(5,6) at(3) by simp
    then have "n div 2 < card ?Q" by linarith
    moreover have "?Q \<subseteq> {..<n}" using at(1,4) j by fastforce
    ultimately have "majority n ?Q" by (simp add: majority_def)
    moreover have "(q, ?T, i) \<in> ballots s" if "q \<in> ?Q" for q
    proof -
      have "(i, ?T, i) \<in> ballots s" using v at(1) lead by (auto simp: votes_ok_def roles_ok_def)
      moreover have "(q, ?T, i) \<in> ballots s" if "calls s k q = Counted" for q
        using v k run that unfolding votes_ok_def replies_ok_def by fastforce
      ultimately show ?thesis using that ballot lead(5) by auto
    qed
    ultimately have "elected n (ballots s) ?T i" unfolding elected_def by blast
    then show ?thesis
      using v lead by (auto simp: s' votes_ok_def intro!: roles_ok_node)
  qed
  ultimately show ?thesis by (simp add: votes_ok_def)
qed

lemma votes_ok_deliver:
  assumes v: "votes_ok n s" and ok: "nodes_ok n s" "runs_ok n s"
    and k: "k < length (runs s)" and run: "runs s ! k = (i, el)" and call: "calls s k j = InFlight"
    and r: "RequestVote (node s j) (requestArgs el) = Some (rf', reply)"
    and s': "s' = (set_call (set_node s j rf') k j (Returned reply))
       \<lparr>ballots := (if VoteGranted reply \<and> currentTerm rf' = rv_Term (requestArgs el)
          then insert (j, currentTerm rf', i) (ballots s) else ballots s)\<rparr>"
  shows "votes_ok n s'"
proof -
  note at = runs_ok_at [OF ok(2) k run]
  let ?T = "rv_Term (requestArgs el)"
  have j: "j < n" using at(4) [of j] call by auto
  then have inv: "peer_inv (node s j)" and vs: "vstep (node s j) rf'"
    using ok(1) vote_step_ok [OF _ r] by (auto simp: nodes_ok_def)
  then have ne: "logs (node s j) \<noteq> []" by (simp add: peer_inv_def log_wf_def)
  have vote: "votedFor rf' = int i" "rr_Term reply = currentTerm (node s j)"
      "currentTerm rf' = max (currentTerm (node s j)) ?T" if "VoteGranted reply"
    using r at(2) that unfolding RequestVote_eq [OF ne] Let_def by (auto split: if_splits)
  have v1: "votes_ok n (set_node s j rf')" by (rule votes_ok_vstep [OF v j vs])
  have sub: "ballots s \<subseteq> ballots s'" by (auto simp: s')
  have "ballots_ok n ((node s)(j := rf')) (ballots s')"
    using v1 vote j ballots_ok_cast [of n "(node s)(j := rf')" "ballots s" j i]
    by (auto simp: s' votes_ok_def)
  moreover have "roles_ok n ((node s)(j := rf')) (ballots s')"
    using v1 sub by (auto simp: votes_ok_def intro: roles_ok_mono)
  moreover have "replies_ok s'"
    by (rule replies_ok_call [where s = s and k = k and el = el and el' = el and j = j])
      (use v k run vote sub in \<open>auto simp: s' votes_ok_def\<close>)
  ultimately show ?thesis by (simp add: votes_ok_def s')
qed

lemma votes_ok_step:
  assumes "cstep n l s s'" and "l = Normal" and "nodes_ok n s" and "runs_ok n s" and "votes_ok n s"
  shows "votes_ok n s'"
  using assms
proof (induction rule: cstep.induct)
  case (cs_local i s rf')
  then have "peer_ok (node s i)" by (simp add: nodes_ok_def)
  from peer_step_sound [OF cs_local(2) this] show ?case
    using cs_local by (blast intro: votes_ok_vstep)
next
  case (cs_timeout i s r rf')
  then have rf': "rf' = convertRoleTo (node s i) Candidate" by (cases r) auto
  have me: "me (node s i) = i" using cs_timeout by (simp add: nodes_ok_def)
  let ?nd = "(node s)(i := rf')" and ?B = "insert (i, currentTerm rf', i) (ballots s)"
  have "ballots_ok n ?nd (ballots s)"
    using cs_timeout by (intro ballots_ok_node) (auto simp: votes_ok_def rf' keeps_vote_def)
  then have "ballots_ok n ?nd ?B"
    using ballots_ok_cast [of n ?nd "ballots s" i i] cs_timeout(1) me by (simp add: rf')
  moreover have "roles_ok n (node s) ?B" using cs_timeout by (auto simp: votes_ok_def intro: roles_ok_mono)
  then have "roles_ok n ?nd ?B" by (rule roles_ok_node) (simp_all add: rf')
  moreover have "replies_ok s" using cs_timeout by (simp add: votes_ok_def)
  ultimately show ?case by (auto simp: votes_ok_def intro: replies_ok_frame)
next
  case (cs_begin i s el)
  then show ?case
    by (auto simp: votes_ok_def replies_ok_def nth_append less_Suc_eq runs_ok_def split: if_splits)
next
  case (cs_send k s i el j)
  have "replies_ok (set_call s k j InFlight)"
    by (rule replies_ok_call [where s = s and k = k and el = el and el' = el and j = j])
      (use cs_send in \<open>auto simp: votes_ok_def\<close>)
  with cs_send show ?case by (simp add: votes_ok_def)
next
  case (cs_deliver k s i el j rf' reply)
  then show ?case by (blast intro: votes_ok_deliver)
next
  case (cs_lose k s j reply)
  obtain i el where run: "runs s ! k = (i, el)" by (cases "runs s ! k")
  have "replies_ok (set_call s k j Closed)"
    by (rule replies_ok_call [where s = s and k = k and el = el and el' = el and j = j])
      (use cs_lose run in \<open>auto simp: votes_ok_def\<close>)
  with cs_lose show ?case by (simp add: votes_ok_def)
next
  case (cs_reply k s i el j reply rf' el' l)
  then have "rr_Term reply \<le> currentTerm (node s i)" by (simp split: if_splits)
  then show ?case using cs_reply by (blast intro: votes_ok_reply)
next
  case (cs_restart i s rf')
  let ?r = "node s i"
  have inv: "peer_inv ?r" "me ?r = i" "npeers ?r = n"
    using cs_restart peer_ok_Make [OF _ cs_restart(2)] by (auto simp: nodes_ok_def)
  then have rf': "rf' = booted n i (persister ?r) (currentTerm ?r) (votedFor ?r) (tl (logs ?r))
      (lastIncludedIndex ?r) (lastIncludedTerm ?r)"
    using cs_restart(2) Make_saved [of ?r n i] by (simp add: peer_inv_def)
  have "vstep ?r rf'" using inv by (simp add: rf' booted_def vstep_def)
  then show ?case using cs_restart by (blast intro: votes_ok_vstep)
qed simp_all

lemma creach_votes:
  assumes "creach n {Normal} s"
  shows "votes_ok n s"
  using assms
proof (induction rule: creach.induct)
  case cr_init
  show ?case by (rule votes_ok_init)
next
  case (cr_step s l s')
  with creach_ok [OF cr_step(1)] show ?case by (blast intro: votes_ok_step)
qed

lemma elected_unique:
  assumes "ballots_ok n nd B" and "elected n B t a" and "elected n B t b"
  shows "a = b"
proof -
  from assms(2,3) obtain P Q where "majority n P" "majority n Q"
    and "\<And>p. p \<in> P \<Longrightarrow> (p, t, a) \<in> B" "\<And>q. q \<in> Q \<Longrightarrow> (q, t, b) \<in> B"
    unfolding elected_def by blast
  moreover have "\<And>p x y. (p, t, x) \<in> B \<Longrightarrow> (p, t, y) \<in> B \<Longrightarrow> x = y"
    using assms(1) unfolding ballots_ok_def by blast
  ultimately show ?thesis by (rule maj.quorum_agree [where R = "\<lambda>p x. (p, t, x) \<in> B"])
qed

section \<open>A scheduler for concrete executions\<close>

text \<open>The steps of an election as executable actions; \<open>None\<close>: the action is not enabled.\<close>

datatype action = Timeout nat | Begin nat | Send nat nat | Deliver nat nat | Reply nat nat

fun perform :: "nat \<Rightarrow> action \<Rightarrow> ('c, 's) cluster \<Rightarrow> (label \<times> ('c, 's) cluster) option" where
  "perform n (Timeout i) s = (if i < n then
     (let rf' = convertRoleTo (node s i) Candidate
      in Some (Normal, (set_node s i rf')\<lparr>ballots := insert (i, currentTerm rf', i) (ballots s)\<rparr>)) else None)"
| "perform n (Begin i) s = (if i < n then do {
     el \<leftarrow> electionBegin (node s i); Some (Normal, s\<lparr>runs := runs s @ [(i, el)]\<rparr>) } else None)"
| "perform n (Send k j) s = (if k < length (runs s) then
     (case runs s ! k of (i, el) \<Rightarrow>
        if electionMaySend (node s i) el j \<and> calls s k j = NotSent
        then Some (Normal, set_call s k j InFlight) else None) else None)"
| "perform n (Deliver k j) s = (if k < length (runs s) \<and> calls s k j = InFlight then
     (case runs s ! k of (i, el) \<Rightarrow> do {
        (rf', reply) \<leftarrow> RequestVote (node s j) (requestArgs el);
        Some (Normal, (set_call (set_node s j rf') k j (Returned reply))
          \<lparr>ballots := (if VoteGranted reply \<and> currentTerm rf' = rv_Term (requestArgs el)
             then insert (j, currentTerm rf', i) (ballots s) else ballots s)\<rparr>) }) else None)"
| "perform n (Reply k j) s = (if k < length (runs s) then
     (case calls s k j of Returned reply \<Rightarrow>
        (case runs s ! k of (i, el) \<Rightarrow>
          (case electionReply (node s i) el reply of (rf', el') \<Rightarrow>
            Some (if rr_Term reply > currentTerm (node s i) then NewerVoteReply else Normal,
              (set_call (set_node s i rf') k j (if voteCnt el' = voteCnt el then Closed else Counted))
                \<lparr>runs := (runs s)[k := (i, el')]\<rparr>)))
      | _ \<Rightarrow> None) else None)"

text \<open>
  A run evaluates each state into tables (\<open>compress\<close>) before the next action, so that a concrete
  execution computes.
\<close>

type_synonym ('c, 's) tables =
  "('c, 's) raft list \<times> (nat \<times> election) list \<times> vcall list list \<times> (nat \<times> int \<times> nat) set"

definition compress :: "nat \<Rightarrow> ('c, 's) cluster \<Rightarrow> ('c, 's) tables" where
  "compress n s = (map (node s) [0..<n], runs s,
     map (\<lambda>k. map (calls s k) [0..<n]) [0..<length (runs s)], ballots s)"

fun expand :: "nat \<Rightarrow> ('c, 's) tables \<Rightarrow> ('c, 's) cluster" where
  "expand n (nd, rs, cs, B) =
     \<lparr>node = (\<lambda>i. if i < n then nd ! i else node (cluster_init n) i), runs = rs,
      calls = (\<lambda>k j. if k < length rs \<and> j < n then cs ! k ! j else NotSent), ballots = B\<rparr>"

definition tidy :: "nat \<Rightarrow> ('c, 's) cluster \<Rightarrow> bool" where
  "tidy n s \<longleftrightarrow> (\<forall>i \<ge> n. node s i = node (cluster_init n) i)"

fun perform_next ::
    "nat \<Rightarrow> action \<Rightarrow> label set \<times> ('c, 's) tables \<Rightarrow> (label set \<times> ('c, 's) tables) option" where
  "perform_next n a (L, v) =
     (case perform n a (expand n v) of None \<Rightarrow> None | Some (l, s') \<Rightarrow> Some (insert l L, compress n s'))"

fun schedule ::
    "nat \<Rightarrow> action list \<Rightarrow> (label set \<times> ('c, 's) tables) option \<Rightarrow> (label set \<times> ('c, 's) tables) option" where
  "schedule n as None = None"
| "schedule n [] (Some c) = Some c"
| "schedule n (a # as) (Some c) = schedule n as (perform_next n a c)"

lemma cstep_tidy:
  assumes "cstep n l s s'" and "runs_ok n s" and "tidy n s"
  shows "tidy n s'"
  using assms
proof (induction rule: cstep.induct)
  case (cs_deliver k s i el j rf' reply)
  then have "j < n" using runs_ok_at(4) [of n s k i el j] by simp
  with cs_deliver show ?case by (simp add: tidy_def)
qed (auto simp: tidy_def dest: runs_ok_at)

lemma creach_tidy: "creach n L s \<Longrightarrow> tidy n s"
  by (induction rule: creach.induct) (auto simp: tidy_def [of n "cluster_init n"] dest: creach_ok cstep_tidy)

lemma expand_compress:
  assumes "tidy n s" and "runs_ok n s"
  shows "expand n (compress n s) = s"
proof -
  have "calls s k j = NotSent" if "\<not> (k < length (runs s) \<and> j < n)" for k j
  proof (cases "runs s ! k")
    case (Pair i el)
    show ?thesis
    proof (cases "k < length (runs s)")
      case True
      then show ?thesis using that runs_ok_at(4) [OF assms(2) True Pair, of j] by blast
    next
      case False
      then show ?thesis using assms(2) by (simp add: runs_ok_def)
    qed
  qed
  then show ?thesis
    using assms(1) by (auto simp: compress_def tidy_def fun_eq_iff intro!: cluster.equality)
qed

lemma perform_sound: "perform n a s = Some (l, s') \<Longrightarrow> cstep n l s s'"
proof (induction n a s rule: perform.induct)
  case (1 n i s)
  then show ?case
    using cs_timeout [of i n s Follower "convertRoleTo (node s i) Candidate"]
    by (auto simp: Let_def split: if_splits)
next
  case (2 n i s)
  then show ?case by (auto split: if_splits Option.bind_splits intro!: cs_begin)
next
  case (3 n k j s)
  then show ?case by (auto split: if_splits prod.splits intro!: cs_send)
next
  case (4 n k j s)
  obtain i el where run: "runs s ! k = (i, el)" by (cases "runs s ! k")
  from 4 obtain rf' reply where call: "k < length (runs s)" "calls s k j = InFlight"
    and r: "RequestVote (node s j) (requestArgs el) = Some (rf', reply)"
    by (auto simp: run split: if_splits Option.bind_splits)
  show ?case using 4 cs_deliver [OF call(1) run call(2) r] by (simp add: run call r)
next
  case (5 n k j s)
  obtain i el where run: "runs s ! k = (i, el)" by (cases "runs s ! k")
  from 5 obtain reply where call: "k < length (runs s)" "calls s k j = Returned reply"
    by (auto split: if_splits vcall.splits)
  obtain rf' el' where r: "electionReply (node s i) el reply = (rf', el')"
    by (cases "electionReply (node s i) el reply")
  show ?case using 5 cs_reply [OF call(1) run call(2) r refl] by (simp add: run call r)
qed

lemma creach_mono: "creach n L s \<Longrightarrow> L \<subseteq> L' \<Longrightarrow> creach n L' s"
  by (induction rule: creach.induct) (auto intro: creach.intros)

lemma schedule_reach:
  assumes "schedule n as (Some (L, compress n s)) = Some (L', v)" and "creach n L s"
  shows "creach n L' (expand n v)"
  using assms
proof (induction as arbitrary: s L)
  case Nil
  then show ?case
    using expand_compress [of n s] creach_tidy [of n L s] creach_ok [of n L s] by auto
next
  case (Cons a as)
  have same: "expand n (compress n s) = s"
    using expand_compress [of n s] creach_tidy [of n L s] creach_ok [of n L s] Cons.prems by auto
  from Cons.prems(1) obtain l s1 where p: "perform n a s = Some (l, s1)"
    "schedule n as (Some (insert l L, compress n s1)) = Some (L', v)"
    by (auto simp: same split: option.splits)
  have "creach n (insert l L) s1"
    using Cons.prems(2) p(1) by (blast intro: cr_step perform_sound creach_mono)
  with Cons.IH [OF p(2)] show ?case .
qed

lemma schedule_outcome:
  assumes "map_option (\<lambda>(L, v). (L, f (expand n v))) (schedule n as (Some ({}, compress n (cluster_init n))))
    = Some (L, x)"
  obtains s where "creach n L s" and "f s = x"
proof -
  from assms obtain v where "schedule n as (Some ({}, compress n (cluster_init n))) = Some (L, v)"
    "f (expand n v) = x"
    by (cases "schedule n as (Some ({}, compress n (cluster_init n)))") auto
  then show ?thesis using that schedule_reach [OF _ cr_init] by blast
qed

text \<open>An undisturbed election of three peers.\<close>

definition one_leader :: "action list" where
  "one_leader = [Timeout 0, Begin 0, Send 0 1, Deliver 0 1, Reply 0 1]"

text \<open>
  Five peers.  Peer 1 asks peer 3 for its vote in term 0 and then votes for peer 0 in term 1.  Peer 3
  votes for peer 4 in term 1, moves to term 2 and only then answers peer 1, which forgets its vote of
  term 1 and gives it a second time, to peer 4.
\<close>

definition two_leaders :: "action list" where
  "two_leaders = [Timeout 1, Begin 1, Send 0 3,
     Timeout 0, Timeout 0, Begin 0, Timeout 4, Timeout 4, Begin 4,
     Send 1 1, Deliver 1 1, Reply 1 1, Send 1 2, Deliver 1 2, Reply 1 2,
     Send 2 3, Deliver 2 3, Reply 2 3, Send 2 1,
     Timeout 3, Deliver 0 3, Reply 0 3,
     Deliver 2 1, Reply 2 1]"

definition leaders :: "nat \<Rightarrow> ('c, 's) cluster \<Rightarrow> (nat \<times> int) list" where
  "leaders n s = map (\<lambda>i. (i, currentTerm (node s i))) (filter (\<lambda>i. role (node s i) = Leader) [0..<n])"

lemma one_leader_run:
  "map_option (\<lambda>(L, v). (L, leaders 3 (expand 3 v)))
     (schedule 3 one_leader (Some ({}, compress 3 (cluster_init 3 :: (nat, nat) cluster))))
   = Some ({Normal}, [(0, 0)])"
  by code_simp

lemma one_leader_log_run:
  "map_option (\<lambda>(L, v). (L, leaders 3 (expand 3 v), logs (node (expand 3 v) 1) \<noteq> []))
     (schedule 3 one_leader (Some ({}, compress 3 (cluster_init 3 :: (nat, nat) cluster))))
   = Some ({Normal}, [(0, 0)], True)"
  by code_simp

lemma two_leaders_run:
  "map_option (\<lambda>(L, v). (L, leaders 5 (expand 5 v)))
     (schedule 5 two_leaders (Some ({}, compress 5 (cluster_init 5 :: (nat, nat) cluster))))
   = Some ({Normal, NewerVoteReply}, [(0, 1), (4, 1)])"
  by code_simp

section \<open>Election safety\<close>

text \<open>
  C1. Election safety.  In every execution of a cluster of \<open>n\<close> peers (any interleaving of elections,
  votes, appends, snapshots, crashes with restart and lost or delayed messages) in which no vote reply
  from a newer term and no outdated append reply is processed, a leader is the only leader of its term.
\<close>

theorem election_safety:
  assumes "creach n {Normal} s" and "i < n" and "role (node s i) = Leader"
  shows "{j. j < n \<and> role (node s j) = Leader \<and> currentTerm (node s j) = currentTerm (node s i)} = {i}"
proof -
  have v: "ballots_ok n (node s) (ballots s)" "roles_ok n (node s) (ballots s)"
    using creach_votes [OF assms(1)] by (auto simp: votes_ok_def)
  have "elected n (ballots s) (currentTerm (node s j)) j" if "j < n" "role (node s j) = Leader" for j
    using that v by (auto simp: roles_ok_def)
  then have "j = i" if "j < n" "role (node s j) = Leader" "currentTerm (node s j) = currentTerm (node s i)" for j
    using that assms elected_unique [OF v(1), of "currentTerm (node s i)" j i] by metis
  then show ?thesis using assms by auto
qed

theorem election_safety_witness:
  "\<exists>s :: (nat, nat) cluster. creach 3 {Normal} s \<and> role (node s 0) = Leader
     \<and> {j. j < 3 \<and> role (node s j) = Leader \<and> currentTerm (node s j) = currentTerm (node s 0)} = {0}"
proof -
  obtain s :: "(nat, nat) cluster" where r: "creach 3 {Normal} s" "leaders 3 s = [(0, 0)]"
    by (rule schedule_outcome [OF one_leader_run])
  have "(0, 0) \<in> set (leaders 3 s)" by (simp add: r)
  then have "role (node s 0) = Leader" by (auto simp: leaders_def)
  then show ?thesis using election_safety [OF r(1), of 0] r(1) by auto
qed

text \<open>
  C14. The exclusion of newer vote replies in election safety is needed: five peers can reach a state
  with two leaders of the same term, because a peer that gets a vote reply from a newer term clears
  \<open>votedFor\<close> without adopting the term and then votes a second time in its term.
\<close>

theorem two_leaders_of_one_term:
  "\<exists>s :: (nat, nat) cluster. creach 5 {Normal, NewerVoteReply} s
     \<and> role (node s 0) = Leader \<and> role (node s 4) = Leader
     \<and> currentTerm (node s 0) = 1 \<and> currentTerm (node s 4) = 1"
proof -
  obtain s :: "(nat, nat) cluster"
    where r: "creach 5 {Normal, NewerVoteReply} s" "leaders 5 s = [(0, 1), (4, 1)]"
    by (rule schedule_outcome [OF two_leaders_run])
  have "(0, 1) \<in> set (leaders 5 s)" "(4, 1) \<in> set (leaders 5 s)" by (simp_all add: r)
  then have "role (node s 0) = Leader \<and> role (node s 4) = Leader
     \<and> currentTerm (node s 0) = 1 \<and> currentTerm (node s 4) = 1"
    by (auto simp: leaders_def)
  with r(1) show ?thesis by blast
qed

section \<open>Crashes and stale replies\<close>

text \<open>
  C2. Crash safety.  In every execution, the mishandled replies and snapshots taken late included (appends
  carry entries numbered after \<open>PrevLogIndex\<close>, the service snapshots at indices that have been applied), a peer
  that is killed while its log has at least its first position is restarted by \<open>Make\<close>, from what is in its
  persister, as a well-formed follower with its term, its vote, the position of its snapshot and every log
  entry after it.  With an empty log, which only a late snapshot leaves behind, \<open>Make\<close> panics, so that
  peer is gone for good.
\<close>

theorem crash_safety:
  assumes "creach n UNIV s" and "i < n"
  shows "if logs (node s i) = [] then Make n i (persister (node s i)) = None
     else \<exists>rf'. Make n i (persister (node s i)) = Some rf' \<and> log_wf rf' \<and> role rf' = Follower
     \<and> currentTerm rf' = currentTerm (node s i) \<and> votedFor rf' = votedFor (node s i)
     \<and> lastIncludedIndex rf' = lastIncludedIndex (node s i)
     \<and> getLastLogIndex rf' = getLastLogIndex (node s i)
     \<and> (\<forall>k > lastIncludedIndex (node s i). logAt rf' k = logAt (node s i) k)"
proof -
  have "peer_ok (node s i)" using creach_ok [OF assms(1)] assms(2) by (simp add: nodes_ok_def)
  then consider "peer_inv (node s i)" | "lost (node s i)" by (auto simp: peer_ok_def)
  then show ?thesis
  proof cases
    case 1
    then have "logs (node s i) \<noteq> []" by (simp add: peer_inv_def log_wf_def)
    then show ?thesis using 1 restart_spec [of "node s i" n i] unfolding peer_inv_def by auto
  next
    case 2
    then show ?thesis using lost_Make [OF 2] by (simp add: lost_def)
  qed
qed

theorem crash_safety_witness:
  "\<exists>s :: (nat, nat) cluster. creach 3 UNIV s \<and> leaders 3 s = [(0, 0)] \<and> logs (node s 1) \<noteq> []
     \<and> (\<exists>rf'. Make 3 1 (persister (node s 1)) = Some rf' \<and> votedFor rf' = votedFor (node s 1))"
proof -
  obtain s :: "(nat, nat) cluster" where r: "creach 3 {Normal} s" "(leaders 3 s, logs (node s 1) \<noteq> []) = ([(0, 0)], True)"
    by (rule schedule_outcome [OF one_leader_log_run])
  have u: "creach 3 UNIV s" by (rule creach_mono [OF r(1)]) simp
  from crash_safety [OF u, of 1] r(2) obtain rf' where
    "Make 3 1 (persister (node s 1)) = Some rf'" "votedFor rf' = votedFor (node s 1)" by auto
  with u r(2) show ?thesis by blast
qed

text \<open>
  A late snapshot destroys the peer.  If the log was truncated after an entry had been applied, a
  \<open>TakeSnapshot\<close> for the index right after the new end of the log is accepted and leaves an empty log in
  memory and on disk: the peer then rejects every append, panics on every vote request and when it
  stands for election, and \<open>Make\<close> panics on what it has stored.  With a larger gap \<open>TakeSnapshot\<close> itself panics.
\<close>

theorem late_snapshot_destroys:
  assumes "log_wf rf" and "getLastLogIndex rf < i" and "i \<le> lastApplied rf"
  shows "if i = getLastLogIndex rf + 1
     then \<exists>rf'. TakeSnapshot rf snap i t = Some rf' \<and> logs rf' = [] \<and> Make n self (persister rf') = None
       \<and> (\<forall>vargs. RequestVote rf' vargs = None) \<and> electionBegin rf' = None
       \<and> (\<forall>args. \<exists>rf'' reply. AppendEntries rf' args = Some (rf'', reply) \<and> \<not> Success reply \<and> logs rf'' = [])
     else TakeSnapshot rf snap i t = None"
proof (cases "i = getLastLogIndex rf + 1")
  case True
  let ?rf = "persistStateAndSnapshot (rf\<lparr>logs := [], lastIncludedTerm := t, lastIncludedIndex := i\<rparr>) snap"
  have run: "TakeSnapshot rf snap i t = Some ?rf"
    using True log_wf_last [OF assms(1)] by (simp add: TakeSnapshot_def go_slice_from_def idx_defs)
  have l: "lost ?rf"
    using assms log_wf_last [OF assms(1)] by (auto simp: lost_def log_wf_def ps.read_both encodeState_def)
  have "\<exists>rf'' reply. AppendEntries ?rf args = Some (rf'', reply) \<and> \<not> Success reply \<and> logs rf'' = []" for args
    using lost_append [OF l, of args] l by (auto simp: lost_def)
  moreover have "logs ?rf = []" by simp
  ultimately show ?thesis
    using True run lost_Make [OF l] lost_vote [OF l] lost_election [OF l] by auto
next
  case False
  then show ?thesis
    using assms(2) log_wf_last [OF assms(1)] by (auto simp: TakeSnapshot_def go_slice_from_def idx_defs)
qed

text \<open>
  The situation arises in the cluster: peer 1 applies two entries of term 1, a leader of term 2 overwrites
  the first of them, and the snapshot for the second entry comes after that.
\<close>

definition late_first :: "(nat, nat) AppendEntriesArgs" where
  "late_first = \<lparr>ae_Term = 1, ae_LeaderId = 0, PrevLogIndex = 0, PrevLogTerm = -1,
     ae_Entries = [ent 1 1 10, ent 1 2 11], LeaderCommit = 2\<rparr>"

definition late_second :: "(nat, nat) AppendEntriesArgs" where
  "late_second = \<lparr>ae_Term = 2, ae_LeaderId = 2, PrevLogIndex = 0, PrevLogTerm = -1,
     ae_Entries = [ent 2 1 20], LeaderCommit = 0\<rparr>"

definition late_run :: "((nat, nat) raft \<times> (nat, nat) raft) option" where
  "late_run = do {
     (rf1, _) \<leftarrow> AppendEntries (node (cluster_init 3) 1) late_first;
     (rf2, _) \<leftarrow> AppendEntries rf1 late_second;
     Some (rf1, rf2) }"

lemma late_run_result:
  "map_option (\<lambda>(_, rf). (lastApplied rf, getLastLogIndex rf, logs rf \<noteq> [])) late_run = Some (2, 1, True)"
  by code_simp

lemma late_reachable:
  obtains s :: "(nat, nat) cluster" where "creach 3 {Normal} s" "log_wf (node s 1)"
    "lastApplied (node s 1) = 2" "getLastLogIndex (node s 1) = 1"
proof -
  let ?s0 = "cluster_init 3 :: (nat, nat) cluster"
  obtain rf1 rf2 where "late_run = Some (rf1, rf2)"
    and at: "lastApplied rf2 = 2" "getLastLogIndex rf2 = 1" "logs rf2 \<noteq> []"
    using late_run_result by (cases late_run) auto
  then obtain r1 r2 where a: "AppendEntries (node ?s0 1) late_first = Some (rf1, r1)" "AppendEntries rf1 late_second = Some (rf2, r2)"
    by (auto simp: late_run_def split: Option.bind_splits)
  let ?s1 = "set_node ?s0 1 rf1"
  let ?s2 = "set_node ?s1 1 rf2"
  have "peer_step (node ?s0 1) rf1" by (rule ps_append [OF _ a(1)]) (simp add: late_first_def)
  then have "creach 3 {Normal} ?s1" by (rule cr_step [OF cr_init _ cs_local, rotated -1]) simp_all
  moreover have "peer_step (node ?s1 1) rf2" by (rule ps_append [of late_second]) (simp_all add: a(2), simp add: late_second_def)
  then have "cstep 3 Normal ?s1 ?s2" by (rule cs_local [rotated]) simp
  ultimately have r: "creach 3 {Normal} ?s2" by (blast intro: cr_step)
  have "node ?s2 1 = rf2" by simp
  moreover have "peer_ok (node ?s2 1)"
    using creach_ok [OF r, THEN conjunct1, unfolded nodes_ok_def, rule_format, of 1] by simp
  ultimately have "log_wf rf2" using at(3) by (auto simp: peer_ok_def peer_inv_def lost_def)
  with \<open>node ?s2 1 = rf2\<close> show ?thesis using that [OF r] at by simp
qed

theorem late_snapshot_destroys_witness:
  "\<exists>(s :: (nat, nat) cluster) rf'. creach 3 {Normal} s \<and> TakeSnapshot (node s 1) [7] 2 1 = Some rf'
     \<and> creach 3 {Normal} (set_node s 1 rf') \<and> Make 3 1 (persister rf') = None"
proof -
  obtain s :: "(nat, nat) cluster" where s: "creach 3 {Normal} s" "log_wf (node s 1)"
    "lastApplied (node s 1) = 2" "getLastLogIndex (node s 1) = 1" by (rule late_reachable)
  have b: "getLastLogIndex (node s 1) < 2" "2 \<le> lastApplied (node s 1)" "2 = getLastLogIndex (node s 1) + 1"
    using s(3,4) by simp_all
  from late_snapshot_destroys [OF s(2) b(1,2), of "[7]" 1 3 1] obtain rf' where
    r: "TakeSnapshot (node s 1) [7] 2 1 = Some rf'" "Make 3 1 (persister rf') = None" unfolding if_P [OF b(3)] by blast
  then have "peer_step (node s 1) rf'" by (intro ps_take [OF b(2)])
  then have "cstep 3 Normal s (set_node s 1 rf')" by (rule cs_local [rotated]) simp
  then have "creach 3 {Normal} (set_node s 1 rf')" using s(1) by (blast intro: cr_step)
  with s(1) r show ?thesis by blast
qed

text \<open>
  A term can go back.  An append reply is compared with the term of the broadcast it answers, not
  with the peer's: a peer that has moved on takes over a reply term that is older than its own and
  forgets its vote, so the monotonicity that election safety rests on is lost.
\<close>

theorem broadcastReply_term_goes_back:
  assumes "curTerm bc < ar_Term reply" and "ar_Term reply < currentTerm rf"
  shows "\<exists>rf'. broadcastReply rf bc server args reply = Some (rf', bc, False)
     \<and> currentTerm rf' < currentTerm rf \<and> votedFor rf' = votedNull \<and> role rf' = Follower"
  using assms by (simp add: broadcastReply_newer)

definition ex_stale_broadcast :: broadcast where
  "ex_stale_broadcast = \<lparr>curTerm = 0, commitFlag = True, commitNum = 1\<rparr>"

definition ex_stale_reply :: AppendEntriesReply where
  "ex_stale_reply = \<lparr>ar_Term = 1, Success = False, ConflictIndex = -1, ConflictTerm = -1\<rparr>"

theorem broadcastReply_term_goes_back_witness:
  "\<exists>rf'. broadcastReply ex_follower ex_stale_broadcast 2 ex_append ex_stale_reply
      = Some (rf', ex_stale_broadcast, False) \<and> currentTerm rf' < 2 \<and> votedFor rf' = votedNull"
  using broadcastReply_term_goes_back [of ex_stale_broadcast ex_stale_reply ex_follower 2 ex_append]
  by (auto simp: ex_stale_broadcast_def ex_stale_reply_def ex_defs)

end
