(* ===== verification/Raft_Replication.thy ===== *)
theory Raft_Replication
  imports Raft_Peer
begin

text \<open>
  Replication of the leader's log: the goroutine of \<open>broadcastEntries\<close> for one follower
  (\<^verbatim>\<open>src/src/raft/raft.go\<close>), run against the follower's \<open>AppendEntries\<close> handler over a network that
  answers.  \<open>syncRound\<close> is one round of the goroutine's \<open>for\<close> loop; \<open>loopn\<close> iterates it.

  The loop backs \<open>nextIndex\<close> up until the logs meet.  It ends when the follower's snapshot position
  carries the term of the entry that was there, and it may run for ever when it does not.
\<close>

section \<open>One round and the loop\<close>

type_synonym ('c, 's) sync = "('c, 's) raft \<times> broadcast \<times> ('c, 's) raft"

definition syncRound :: "nat \<Rightarrow> ('c, 's) sync \<Rightarrow> (('c, 's) sync \<times> bool) option" where
  "syncRound server s = (case s of (L, bc, F) \<Rightarrow> do {
     snd \<leftarrow> broadcastSend L bc server;
     case snd of
       SendAppend args \<Rightarrow> do {
         (F', reply) \<leftarrow> AppendEntries F args;
         (L', bc', again) \<leftarrow> broadcastReply L bc server args reply;
         Some ((L', bc', F'), again) }
     | SendNothing \<Rightarrow> Some ((L, bc, F), False)
     | SendSnapshot args \<Rightarrow> Some ((L, bc, F), False) })"

text \<open>The terms of two logs agree at an index.\<close>

definition sameTerm :: "('c, 's) raft \<Rightarrow> ('c, 's) raft \<Rightarrow> int \<Rightarrow> bool" where
  "sameTerm L F i \<longleftrightarrow> map_option e_Term (logAt L i) = map_option e_Term (logAt F i)"

text \<open>Raft's Log Matching property, for the part that both peers still hold.\<close>

definition logMatching :: "('c, 's) raft \<Rightarrow> ('c, 's) raft \<Rightarrow> bool" where
  "logMatching L F \<longleftrightarrow> (\<forall>i j. lastIncludedIndex L \<le> j \<and> lastIncludedIndex F \<le> j \<and> j \<le> i
     \<and> i \<le> getLastLogIndex L \<and> i \<le> getLastLogIndex F \<and> sameTerm L F i \<longrightarrow> sameTerm L F j)"

text \<open>The leader is current, has something to send, and the follower's snapshot is honest: at the
  snapshot's index the follower has the leader's term.\<close>

definition syncReady :: "nat \<Rightarrow> ('c, 's) sync \<Rightarrow> bool" where
  "syncReady server s = (case s of (L, bc, F) \<Rightarrow>
     raft_wf L \<and> checkState L Leader (curTerm bc) \<and> server < npeers L
   \<and> nextIndex L ! server \<le> getLastLogIndex L \<and> matchIndex L ! server \<le> getLastLogIndex L
   \<and> log_wf F \<and> currentTerm F \<le> curTerm bc \<and> lastIncludedIndex F \<le> getLastLogIndex L
   \<and> (\<forall>e \<in> set (tl (logs F)). e_Term e \<noteq> -1)
   \<and> (lastIncludedIndex L \<le> lastIncludedIndex F \<longrightarrow> sameTerm L F (lastIncludedIndex F)))"

section \<open>The messages of the leader\<close>

lemma broadcastSend_snapshot:
  assumes "raft_wf L" "checkState L Leader (curTerm bc)" "server < npeers L"
    and "nextIndex L ! server \<le> lastIncludedIndex L"
  shows "broadcastSend L bc server = Some (SendSnapshot (sendSnapshotArgs L))"
  using assms by (simp add: broadcastSend_def raft_wf_def go_idx_def)

text \<open>What is sent when the log still reaches back: everything from \<open>nextIndex\<close> on.\<close>

lemma broadcastSend_append:
  assumes wf: "raft_wf L" "checkState L Leader (curTerm bc)" "server < npeers L"
    and nx: "nextIndex L ! server = prev + 1"
    and lo: "lastIncludedIndex L \<le> prev" and hi: "prev \<le> getLastLogIndex L"
  obtains args p where "broadcastSend L bc server = Some (SendAppend args)"
    "ae_Term args = curTerm bc" "PrevLogIndex args = prev"
    "logAt L prev = Some p" "PrevLogTerm args = e_Term p"
    "int (length (ae_Entries args)) = getLastLogIndex L - prev"
    "\<forall>j < length (ae_Entries args). logAt L (prev + 1 + int j) = Some (ae_Entries args ! j)"
proof -
  let ?k = "nat (prev + 1 - lastIncludedIndex L)"
  define args where "args = \<lparr>ae_Term = curTerm bc, ae_LeaderId = me L, PrevLogIndex = prev,
     PrevLogTerm = e_Term (logs L ! nat (prev - lastIncludedIndex L)),
     ae_Entries = drop ?k (logs L), LeaderCommit = commitIndex L\<rparr>"
  have p: "logAt L prev = Some (logs L ! nat (prev - lastIncludedIndex L))"
    by (rule logAt_in [OF lo hi])
  have n: "go_idx (nextIndex L) (int server) = Some (prev + 1)"
    using wf nx by (simp add: raft_wf_def go_idx_def)
  have "go_idx (logs L) (subIdx L prev) = Some (logs L ! nat (prev - lastIncludedIndex L))"
    using p by (simp add: logAt_def)
  moreover have sl: "go_slice_from (logs L) (subIdx L (prev + 1)) = Some (drop ?k (logs L))"
    using lo hi by (auto simp: go_slice_from_def idx_defs)
  ultimately have snd: "broadcastSend L bc server = Some (SendAppend args)"
    using wf lo n
    by (simp add: broadcastSend_def getPrevLogIndex_def getPrevLogTerm_def args_def)
  have k: "int ?k = prev + 1 - lastIncludedIndex L" using lo by simp
  have "logAt L (prev + 1 + int j) = Some (ae_Entries args ! j)" if j: "j < length (ae_Entries args)" for j
  proof -
    have "nat (prev + 1 + int j - lastIncludedIndex L) = ?k + j" using k by linarith
    with j lo show ?thesis by (auto simp: args_def logAt_def go_idx_def subIdx_def nat_less_iff)
  qed
  moreover have "int (length (ae_Entries args)) = getLastLogIndex L - prev"
    using lo hi by (simp add: args_def idx_defs)
  ultimately show thesis using snd p by (intro that [of args]) (auto simp: args_def)
qed

section \<open>What the leader does with a reply\<close>

lemma backtrack_spec:
  assumes "c \<le> getLastLogIndex L"
  shows "\<exists>n i. backtrack L t d c = Some (n, i) \<and>
     (if lastIncludedIndex L < i then i \<le> c \<and> hasTerm L i t \<and> n = i + 1 else n = d)"
  using assms
proof (induction L t d c rule: backtrack.induct)
  case (1 L t d c)
  show ?case
  proof (cases "lastIncludedIndex L < c")
    case False
    then show ?thesis by (simp add: backtrack.simps [of L t d c])
  next
    case gt: True
    then obtain e where e: "go_idx (logs L) (subIdx L c) = Some e" "logAt L c = Some e"
      using "1.prems" logAt_in [of L c] by (auto simp: logAt_def)
    show ?thesis
    proof (cases "e_Term e = t")
      case True
      with gt e show ?thesis by (simp add: backtrack.simps [of L t d c] hasTerm_def)
    next
      case False
      with gt e have run: "backtrack L t d c = backtrack L t d (c - 1)"
        by (simp add: backtrack.simps [of L t d c])
      from "1.IH" [OF gt e(1) False] "1.prems" obtain n i where
        "backtrack L t d (c - 1) = Some (n, i)"
        "if lastIncludedIndex L < i then i \<le> c - 1 \<and> hasTerm L i t \<and> n = i + 1 else n = d"
        by auto
      with run show ?thesis by (auto split: if_splits)
    qed
  qed
qed

abbreviation retryAt :: "('c, 's) raft \<Rightarrow> nat \<Rightarrow> int \<Rightarrow> ('c, 's) raft" where
  "retryAt L server n \<equiv> L\<lparr>nextIndex := (nextIndex L)[server := n]\<rparr>"

lemma broadcastReply_heartbeat:
  assumes "ar_Term reply \<le> curTerm bc" and "ae_Entries args = []"
  shows "broadcastReply L bc server args reply = Some (L, bc, False)"
  using assms by (simp add: broadcastReply_def)

lemma broadcastReply_hint:
  assumes "ar_Term reply \<le> curTerm bc" "checkState L Leader (curTerm bc)" "raft_wf L"
    "server < npeers L" "ae_Entries args \<noteq> []" "\<not> Success reply" "ConflictTerm reply = -1"
  shows "broadcastReply L bc server args reply
     = Some (retryAt L server (ConflictIndex reply), bc, True)"
  using assms by (simp add: broadcastReply_def go_set_def raft_wf_def)

text \<open>After a mismatch the next attempt is after the last entry of the conflicting term, at the
  beginning of the log, or a snapshot.\<close>

lemma broadcastReply_mismatch:
  assumes "ar_Term reply \<le> curTerm bc" "checkState L Leader (curTerm bc)" "raft_wf L"
    "server < npeers L" "ae_Entries args \<noteq> []" "\<not> Success reply" "ConflictTerm reply \<noteq> -1"
    "ConflictIndex reply \<le> getLastLogIndex L"
  obtains n where "broadcastReply L bc server args reply = Some (retryAt L server n, bc, True)"
    "lastIncludedIndex L + 1 < n \<and> n \<le> ConflictIndex reply + 1 \<and> hasTerm L (n - 1) (ConflictTerm reply)
     \<or> n = lastIncludedIndex L \<and> lastIncludedIndex L \<noteq> 0 \<or> n = 1 \<and> lastIncludedIndex L = 0"
proof -
  from backtrack_spec [OF assms(8), of "ConflictTerm reply" "addIdx L 1"] obtain n i where
    b: "backtrack L (ConflictTerm reply) (addIdx L 1) (ConflictIndex reply) = Some (n, i)"
    "if lastIncludedIndex L < i then i \<le> ConflictIndex reply \<and> hasTerm L i (ConflictTerm reply)
       \<and> n = i + 1 else n = addIdx L 1" by blast
  let ?n = "if i \<le> lastIncludedIndex L \<and> lastIncludedIndex L \<noteq> 0 then lastIncludedIndex L else n"
  have "broadcastReply L bc server args reply = Some (retryAt L server ?n, bc, True)"
    using assms b(1) by (simp add: broadcastReply_def go_set_def raft_wf_def)
  moreover have "lastIncludedIndex L + 1 < ?n \<and> ?n \<le> ConflictIndex reply + 1
       \<and> hasTerm L (?n - 1) (ConflictTerm reply)
     \<or> ?n = lastIncludedIndex L \<and> lastIncludedIndex L \<noteq> 0 \<or> ?n = 1 \<and> lastIncludedIndex L = 0"
    using b(2) by (auto simp: addIdx_def split: if_splits)
  ultimately show thesis by (rule that)
qed

text \<open>A success advances the follower's indices and, with enough of them, the commit index.\<close>

definition acked :: "('c, 's) raft \<Rightarrow> nat \<Rightarrow> int \<Rightarrow> ('c, 's) raft" where
  "acked L server len =
     (if matchIndex L ! server \<le> len
      then L\<lparr>matchIndex := (matchIndex L)[server := len], nextIndex := (nextIndex L)[server := len + 1]\<rparr>
      else L)"

definition committed :: "('c, 's) raft \<Rightarrow> int \<Rightarrow> ('c, 's) raft" where
  "committed L len = L\<lparr>commitIndex := len, applyCh := applyCh L @
     map (applyMsgAt L) [lastApplied L + 1..len], lastApplied := len\<rparr>"

lemma broadcastReply_success:
  assumes "ar_Term reply \<le> curTerm bc" "checkState L Leader (curTerm bc)" "raft_wf L"
    "server < npeers L" "ae_Entries args \<noteq> []" "Success reply"
  defines "len \<equiv> PrevLogIndex args + int (length (ae_Entries args))"
  assumes "commitIndex L \<le> len" and "len \<le> getLastLogIndex L"
  shows "broadcastReply L bc server args reply =
     (let bc' = bc\<lparr>commitNum := commitNum bc + 1\<rparr>; L' = acked L server len
      in if commitFlag bc \<and> int (npeers L) div 2 < commitNum bc'
         then Some (committed L' len, bc'\<lparr>commitFlag := False\<rparr>, False)
         else Some (L', bc', False))"
proof -
  let ?A = "acked L server len"
  have frame: "logs ?A = logs L" "lastIncludedIndex ?A = lastIncludedIndex L"
    "lastApplied ?A = lastApplied L" "npeers ?A = npeers L" "commitIndex ?A = commitIndex L"
    by (simp_all add: acked_def)
  have apply_len: "applyLogs (?A\<lparr>commitIndex := len\<rparr>) = Some (committed ?A len)"
    using assms frame applyLogs_eq [of "?A\<lparr>commitIndex := len\<rparr>"]
    by (simp add: raft_wf_def log_wf_def committed_def idx_defs applyMsgAt_def logAt_def fun_eq_iff)
  show ?thesis
  proof (cases "matchIndex L ! server \<le> len")
    case True
    with assms apply_len show ?thesis
      by (simp add: broadcastReply_def Let_def go_set_def go_idx_def go_div_nonneg raft_wf_def acked_def
          flip: len_def)
  next
    case False
    with assms apply_len show ?thesis
      by (simp add: broadcastReply_def Let_def go_set_def go_idx_def go_div_nonneg raft_wf_def acked_def
          flip: len_def)
  qed
qed

lemma retryAt_simps [simp]:
  "raft_wf (retryAt L server n) = raft_wf L" "checkState (retryAt L server n) = checkState L"
  "logAt (retryAt L server n) = logAt L" "getLastLogIndex (retryAt L server n) = getLastLogIndex L"
  "hasTerm (retryAt L server n) = hasTerm L" "sameTerm (retryAt L server n) = sameTerm L"
  by (auto simp: raft_wf_def log_wf_def idx_defs checkState_def logAt_def hasTerm_def sameTerm_def
      fun_eq_iff)

section \<open>The loop ends\<close>

text \<open>States that the loop passes through: only \<open>nextIndex\<close> of this follower has moved, and the
  follower's log is as it was.\<close>

definition syncInv :: "nat \<Rightarrow> ('c, 's) sync \<Rightarrow> ('c, 's) sync \<Rightarrow> bool" where
  "syncInv server s0 s = (case s0 of (L0, bc0, F0) \<Rightarrow> case s of (L, bc, F) \<Rightarrow>
     syncReady server s0 \<and> bc = bc0 \<and> log_wf F \<and> currentTerm F \<le> curTerm bc0
   \<and> logs F = logs F0 \<and> lastIncludedIndex F = lastIncludedIndex F0
   \<and> (\<exists>n. L = retryAt L0 server n \<and> (n \<le> getLastLogIndex L0 \<or> n = lastIncludedIndex F0 + 1)))"

definition syncRank :: "nat \<Rightarrow> ('c, 's) sync \<Rightarrow> nat" where
  "syncRank server s = (case s of (L, bc, F) \<Rightarrow>
     let prev = nextIndex L ! server - 1
     in if prev < lastIncludedIndex F then 1
        else if prev = lastIncludedIndex F then 0 else nat (prev - lastIncludedIndex F) + 1)"

text \<open>Where the loop ends: the leader has to send its snapshot, or the follower has its log.\<close>

definition syncDone :: "nat \<Rightarrow> ('c, 's) sync \<Rightarrow> ('c, 's) sync \<Rightarrow> bool" where
  "syncDone server s0 s' = (case s0 of (L0, bc0, F0) \<Rightarrow> case s' of (L', bc', F') \<Rightarrow>
     logs L' = logs L0 \<and> lastIncludedIndex L' = lastIncludedIndex L0
   \<and> (nextIndex L' ! server \<le> lastIncludedIndex L0 \<and> logs F' = logs F0
      \<or> nextIndex L' ! server = getLastLogIndex L0 + 1 \<and> getLastLogIndex L0 \<le> getLastLogIndex F'
        \<and> (logMatching L0 F0 \<longrightarrow> (\<forall>i. lastIncludedIndex L0 \<le> i \<and> lastIncludedIndex F0 \<le> i
             \<and> i \<le> getLastLogIndex L0 \<longrightarrow> sameTerm L0 F' i))))"

lemma syncReady_nextIndex:
  "syncReady server (L, bc, F) \<Longrightarrow> server < length (nextIndex L) \<and> server < length (matchIndex L)"
  by (simp add: syncReady_def raft_wf_def)

text \<open>A message that is accepted brings the follower's log in line with the leader's.\<close>

lemma accept_agrees:
  assumes p: "logAt F (PrevLogIndex args) = Some q" and same: "sameTerm L F (PrevLogIndex args)"
    and len: "int (length (ae_Entries args)) = getLastLogIndex L - PrevLogIndex args"
    and es: "\<forall>j < length (ae_Entries args).
        logAt L (PrevLogIndex args + 1 + int j) = Some (ae_Entries args ! j)"
    and lm: "logMatching L F" and lo: "lastIncludedIndex L \<le> i" "lastIncludedIndex F \<le> i"
    and hi: "i \<le> getLastLogIndex L"
  shows "sameTerm L (ae_commit (ae_merged F args) args) i"
proof (cases "i \<le> PrevLogIndex args")
  case True
  have "PrevLogIndex args \<le> getLastLogIndex L" "PrevLogIndex args \<le> getLastLogIndex F"
    using len p by (auto simp: logAt_Some)
  with lm lo True same have "sameTerm L F i" unfolding logMatching_def by blast
  moreover have "logAt (ae_merged F args) i = logAt F i"
    by (rule ae_merged_logAt(1) [OF p]) (use True in simp)
  ultimately show ?thesis by (simp add: sameTerm_def)
next
  case False
  then obtain j where j: "i = PrevLogIndex args + 1 + int j"
    by (metis add.commute not_le zle_iff_zadd zless_imp_add1_zle)
  with hi len have jl: "j < length (ae_Entries args)" by linarith
  have "hasTerm (ae_merged F args) i (e_Term (ae_Entries args ! j))"
    unfolding j by (rule ae_merged_logAt(3) [OF p jl])
  moreover have "logAt L i = Some (ae_Entries args ! j)" using es jl j by blast
  ultimately show ?thesis by (auto simp: sameTerm_def hasTerm_def)
qed

text \<open>The follower's part of a mismatch: the conflicting term is a real one and its run starts after
  the snapshot.\<close>

lemma mismatch_hint:
  assumes "logAt F prev = Some q" and "lastIncludedIndex F < prev"
    and "\<forall>e \<in> set (tl (logs F)). e_Term e \<noteq> -1"
    and "conflictScan F (e_Term q) prev (-1) = Some c"
  shows "e_Term q \<noteq> -1" and "lastIncludedIndex F < c" and "c \<le> prev"
proof -
  have b: "prev \<le> getLastLogIndex F" and q: "q = logs F ! nat (prev - lastIncludedIndex F)"
    using assms(1) by (auto simp: logAt_Some)
  obtain k where k: "nat (prev - lastIncludedIndex F) = Suc k"
    using assms(2) by (cases "nat (prev - lastIncludedIndex F)") auto
  with q b have "q = tl (logs F) ! k" "k < length (tl (logs F))"
    by (cases "logs F"; auto simp: idx_defs)+
  with assms(3) show "e_Term q \<noteq> -1" by auto
  have "firstOfRun F (e_Term q) prev c"
    using conflictScan_spec [OF b, of "e_Term q" "-1"] assms by (auto simp: hasTerm_def)
  then show "lastIncludedIndex F < c" "c \<le> prev" by (auto simp: firstOfRun_def)
qed

text \<open>Going round again: a refusal changes neither log, and the new position is closer.\<close>

lemma sync_again:
  assumes inv: "syncInv server (L0, bc, F0) (retryAt L0 server n, bc, F)"
    and n': "n' \<le> getLastLogIndex L0 \<or> n' = lastIncludedIndex F0 + 1"
    and closer: "n' - 1 = lastIncludedIndex F \<and> n - 1 \<noteq> lastIncludedIndex F
       \<or> lastIncludedIndex F < n - 1 \<and> n' < n"
  shows "syncInv server (L0, bc, F0) (retryAt L0 server n', bc, ae_enter F (curTerm bc))"
    and "syncRank server (retryAt L0 server n', bc, ae_enter F (curTerm bc))
       < syncRank server (retryAt L0 server n, bc, F)"
proof -
  have ready: "syncReady server (L0, bc, F0)" and t: "currentTerm F \<le> curTerm bc"
    using inv by (auto simp: syncInv_def)
  have wf: "log_wf (ae_enter F (curTerm bc))" using inv ae_enter_wf by (auto simp: syncInv_def)
  have "\<exists>m. retryAt L0 server n' = retryAt L0 server m
      \<and> (m \<le> getLastLogIndex L0 \<or> m = lastIncludedIndex F0 + 1)" using n' by blast
  with inv wf ae_enter_term [OF t] show
    "syncInv server (L0, bc, F0) (retryAt L0 server n', bc, ae_enter F (curTerm bc))"
    by (simp add: syncInv_def)
  show "syncRank server (retryAt L0 server n', bc, ae_enter F (curTerm bc))
       < syncRank server (retryAt L0 server n, bc, F)"
    using closer syncReady_nextIndex [OF ready] by (auto simp: syncRank_def Let_def)
qed

lemma syncRound_append:
  assumes "broadcastSend L bc server = Some (SendAppend args)"
    and "AppendEntries F args = Some (F', reply)"
    and "broadcastReply L bc server args reply = Some (L', bc', again)"
  shows "syncRound server (L, bc, F) = Some ((L', bc', F'), again)"
  using assms by (simp add: syncRound_def)

text \<open>A refusal, whatever its reason, leads to another round from a closer position.\<close>

lemma sync_refused:
  assumes inv: "syncInv server (L0, bc, F0) (retryAt L0 server n, bc, F)"
    and send: "broadcastSend (retryAt L0 server n) bc server = Some (SendAppend args)"
    and args: "ae_Term args = curTerm bc" "PrevLogIndex args = n - 1"
      "int (length (ae_Entries args)) = getLastLogIndex L0 - (n - 1)"
    and run: "AppendEntries F args = Some (ae_enter F (curTerm bc), aeReply (curTerm bc) False c (-1))"
    and n: "n \<le> getLastLogIndex L0"
    and c: "c \<le> getLastLogIndex L0 \<or> c = lastIncludedIndex F0 + 1"
      "c - 1 = lastIncludedIndex F \<and> n - 1 \<noteq> lastIncludedIndex F \<or> lastIncludedIndex F < n - 1 \<and> c < n"
  shows "\<exists>s'. syncRound server (retryAt L0 server n, bc, F) = Some (s', True)
     \<and> syncInv server (L0, bc, F0) s' \<and> syncRank server s' < syncRank server (retryAt L0 server n, bc, F)"
proof -
  have ready: "raft_wf L0" "checkState L0 Leader (curTerm bc)" "server < npeers L0"
    using inv by (auto simp: syncInv_def syncReady_def)
  have es: "ae_Entries args \<noteq> []" using args(3) n by auto
  have "broadcastReply (retryAt L0 server n) bc server args (aeReply (curTerm bc) False c (-1))
      = Some (retryAt L0 server c, bc, True)"
    using broadcastReply_hint [of "aeReply (curTerm bc) False c (-1)" bc "retryAt L0 server n" server args]
      ready es by simp
  from syncRound_append [OF send run this] sync_again [OF inv c] show ?thesis by blast
qed

lemma sync_mismatch:
  assumes inv: "syncInv server (L0, bc, F0) (retryAt L0 server n, bc, F)"
    and send: "broadcastSend (retryAt L0 server n) bc server = Some (SendAppend args)"
    and args: "ae_Term args = curTerm bc" "PrevLogIndex args = n - 1"
      "int (length (ae_Entries args)) = getLastLogIndex L0 - (n - 1)"
    and p: "logAt L0 (n - 1) = Some p" and q: "logAt F (n - 1) = Some q" "e_Term p \<noteq> e_Term q"
    and scan: "conflictScan F (e_Term q) (n - 1) (-1) = Some c"
    and run: "AppendEntries F args = Some (ae_enter F (curTerm bc), aeReply (curTerm bc) False c (e_Term q))"
    and n: "n \<le> getLastLogIndex L0" and gt: "lastIncludedIndex F < n - 1"
  shows "\<exists>s'. syncRound server (retryAt L0 server n, bc, F) = Some (s', True)
     \<and> syncInv server (L0, bc, F0) s' \<and> syncRank server s' < syncRank server (retryAt L0 server n, bc, F)"
proof -
  have ready: "raft_wf L0" "checkState L0 Leader (curTerm bc)" "server < npeers L0"
    and honest: "\<forall>e \<in> set (tl (logs F)). e_Term e \<noteq> -1" and wfF: "0 \<le> lastIncludedIndex F"
    using inv by (auto simp: syncInv_def syncReady_def log_wf_def)
  have es: "ae_Entries args \<noteq> []" using args(3) n by auto
  note hint = mismatch_hint [OF q(1) gt honest scan]
  obtain m where
    rep: "broadcastReply (retryAt L0 server n) bc server args (aeReply (curTerm bc) False c (e_Term q))
      = Some (retryAt L0 server m, bc, True)" and
    m: "lastIncludedIndex L0 + 1 < m \<and> m \<le> c + 1 \<and> hasTerm L0 (m - 1) (e_Term q)
     \<or> m = lastIncludedIndex L0 \<and> lastIncludedIndex L0 \<noteq> 0 \<or> m = 1 \<and> lastIncludedIndex L0 = 0"
    by (rule broadcastReply_mismatch [of "aeReply (curTerm bc) False c (e_Term q)" bc
          "retryAt L0 server n" server args]) (use ready es hint n in auto)
  have "\<not> hasTerm L0 (n - 1) (e_Term q)" using p q(2) by (simp add: hasTerm_def)
  then have "m \<noteq> n" if "lastIncludedIndex L0 + 1 < m" using m that by auto
  moreover have "lastIncludedIndex L0 \<le> n - 1" using p by (simp add: logAt_Some)
  ultimately have less: "m < n" using m hint(3) gt wfF by linarith
  show ?thesis
    using syncRound_append [OF send run rep] sync_again [OF inv, of m] less n gt by auto
qed

text \<open>An accepted message ends the loop.\<close>

lemma sync_reply_done:
  assumes ready: "syncReady server (L0, bc, F0)" and n: "n \<le> getLastLogIndex L0 + 1"
    and len: "PrevLogIndex args + int (length (ae_Entries args)) = getLastLogIndex L0"
    and prev: "PrevLogIndex args = n - 1"
  obtains L' bc' where "broadcastReply (retryAt L0 server n) bc server args (aeReply (curTerm bc) True (-1) (-1))
       = Some (L', bc', False)" "logs L' = logs L0" "lastIncludedIndex L' = lastIncludedIndex L0"
    "nextIndex L' ! server = getLastLogIndex L0 + 1"
proof (cases "ae_Entries args = []")
  case True
  with len prev syncReady_nextIndex [OF ready]
    broadcastReply_heartbeat [of "aeReply (curTerm bc) True (-1) (-1)" bc args]
  show thesis by (intro that [of "retryAt L0 server n" bc]) auto
next
  case False
  let ?r = "aeReply (curTerm bc) True (-1) (-1)"
  let ?L = "retryAt L0 server n"
  let ?A = "acked ?L server (getLastLogIndex L0)"
  have r: "raft_wf L0" "checkState L0 Leader (curTerm bc)" "server < npeers L0"
    "commitIndex L0 \<le> getLastLogIndex L0" "matchIndex L0 ! server \<le> getLastLogIndex L0"
    using ready by (auto simp: syncReady_def raft_wf_def)
  have "broadcastReply ?L bc server args ?r =
     (let bc' = bc\<lparr>commitNum := commitNum bc + 1\<rparr>
      in if commitFlag bc \<and> int (npeers ?L) div 2 < commitNum bc'
         then Some (committed ?A (getLastLogIndex L0), bc'\<lparr>commitFlag := False\<rparr>, False)
         else Some (?A, bc', False))"
    using broadcastReply_success [of ?r bc ?L server args] r False len by (simp add: Let_def)
  moreover have A: "logs ?A = logs L0" "lastIncludedIndex ?A = lastIncludedIndex L0"
    "nextIndex ?A ! server = getLastLogIndex L0 + 1"
    using r syncReady_nextIndex [OF ready] by (simp_all add: acked_def)
  moreover have "logs (committed ?A i) = logs L0" "lastIncludedIndex (committed ?A i) = lastIncludedIndex L0"
    "nextIndex (committed ?A i) ! server = getLastLogIndex L0 + 1" for i
    using A by (simp_all add: committed_def)
  ultimately show thesis by (auto simp: Let_def split: if_splits intro!: that)
qed

lemma sync_accept:
  assumes inv: "syncInv server (L0, bc, F0) (retryAt L0 server n, bc, F)"
    and send: "broadcastSend (retryAt L0 server n) bc server = Some (SendAppend args)"
    and args: "ae_Term args = curTerm bc" "PrevLogIndex args = n - 1" "PrevLogTerm args = e_Term p"
      "int (length (ae_Entries args)) = getLastLogIndex L0 - (n - 1)"
      "\<forall>j < length (ae_Entries args). logAt L0 (n - 1 + 1 + int j) = Some (ae_Entries args ! j)"
    and p: "logAt L0 (n - 1) = Some p" and q: "logAt F (n - 1) = Some q" "e_Term p = e_Term q"
  shows "\<exists>s'. syncRound server (retryAt L0 server n, bc, F) = Some (s', False)
     \<and> syncDone server (L0, bc, F0) s'"
proof -
  let ?F = "ae_commit (ae_merged F args) args"
  have ready: "syncReady server (L0, bc, F0)" and wf: "log_wf F" and t: "currentTerm F \<le> curTerm bc"
    and eq: "logs F = logs F0" "lastIncludedIndex F = lastIncludedIndex F0"
    using inv by (auto simp: syncInv_def)
  have q': "logAt F (PrevLogIndex args) = Some q" using q args(2) by simp
  have run: "AppendEntries F args = Some (?F, aeReply (curTerm bc) True (-1) (-1))"
    using AppendEntries_accept [OF wf _ q'] t args q(2) by simp
  have hi: "n - 1 \<le> getLastLogIndex L0" using p by (simp add: logAt_Some)
  obtain L' bc' where rep: "broadcastReply (retryAt L0 server n) bc server args
       (aeReply (curTerm bc) True (-1) (-1)) = Some (L', bc', False)" "logs L' = logs L0"
    "lastIncludedIndex L' = lastIncludedIndex L0" "nextIndex L' ! server = getLastLogIndex L0 + 1"
    by (rule sync_reply_done [OF ready, of n args]) (use args hi in auto)
  have same: "sameTerm L0 F (PrevLogIndex args)" using args(2) p q by (simp add: sameTerm_def)
  have "logMatching L0 F0 = logMatching L0 F"
    using eq by (simp add: logMatching_def sameTerm_def logAt_def idx_defs)
  then have "sameTerm L0 ?F i" if "logMatching L0 F0" "lastIncludedIndex L0 \<le> i"
      "lastIncludedIndex F0 \<le> i" "i \<le> getLastLogIndex L0" for i
    using accept_agrees [OF q' same, of i] that args eq by simp
  moreover have "getLastLogIndex L0 \<le> getLastLogIndex ?F"
    using ae_merged_last(2) [OF q'] args by simp
  ultimately have "syncDone server (L0, bc, F0) (L', bc', ?F)"
    using rep by (simp add: syncDone_def)
  with syncRound_append [OF send run rep(1)] show ?thesis by blast
qed

text \<open>The outcomes of one exchange.\<close>

lemma sync_answered:
  assumes inv: "syncInv server (L0, bc, F0) (retryAt L0 server n, bc, F)"
    and a: "broadcastSend (retryAt L0 server n) bc server = Some (SendAppend args)"
      "ae_Term args = curTerm bc" "PrevLogIndex args = n - 1"
      "logAt L0 (n - 1) = Some p" "PrevLogTerm args = e_Term p"
      "int (length (ae_Entries args)) = getLastLogIndex L0 - (n - 1)"
      "\<forall>j < length (ae_Entries args). logAt L0 (n - 1 + 1 + int j) = Some (ae_Entries args ! j)"
    and eq: "lastIncludedIndex F = lastIncludedIndex F0"
    and met: "\<And>q. n - 1 = lastIncludedIndex F \<Longrightarrow> logAt F (n - 1) = Some q \<Longrightarrow> e_Term p = e_Term q"
    and more_n: "n - 1 \<noteq> lastIncludedIndex F \<Longrightarrow> n \<le> getLastLogIndex L0"
  shows "\<exists>s' again. syncRound server (retryAt L0 server n, bc, F) = Some (s', again) \<and>
     (if again then syncInv server (L0, bc, F0) s'
        \<and> syncRank server s' < syncRank server (retryAt L0 server n, bc, F)
      else syncDone server (L0, bc, F0) s')"
proof -
  have wfF: "log_wf F" and t: "currentTerm F \<le> curTerm bc" using inv by (auto simp: syncInv_def)
  show ?thesis
  proof (rule AppendEntries_outcomes [OF wfF, of args])
    assume "ae_Term args < currentTerm F"
    with a(2) t show ?thesis by simp
  next
    assume m: "getLastLogIndex F < PrevLogIndex args" "AppendEntries F args = Some
      (ae_enter F (ae_Term args), aeReply (ae_Term args) False (getLastLogIndex F + 1) (-1))"
    have "lastIncludedIndex F < n - 1" using m(1) log_wf_last [OF wfF] a(3) by simp
    moreover from this have "n \<le> getLastLogIndex L0" using more_n by simp
    ultimately show ?thesis
      using sync_refused [OF inv a(1,2,3,6), of "getLastLogIndex F + 1"] m a(2,3)
      by auto
  next
    assume m: "PrevLogIndex args < lastIncludedIndex F" "AppendEntries F args = Some
      (ae_enter F (ae_Term args), aeReply (ae_Term args) False (lastIncludedIndex F + 1) (-1))"
    moreover have "n \<le> getLastLogIndex L0" using more_n m(1) a(3) by simp
    ultimately show ?thesis
      using sync_refused [OF inv a(1,2,3,6), of "lastIncludedIndex F + 1"] a(2,3) eq
      by auto
  next
    fix q c
    assume m: "logAt F (PrevLogIndex args) = Some q" "PrevLogTerm args \<noteq> e_Term q"
      "conflictScan F (e_Term q) (PrevLogIndex args) (-1) = Some c" "AppendEntries F args = Some
      (ae_enter F (ae_Term args), aeReply (ae_Term args) False c (e_Term q))"
    have "n - 1 \<noteq> lastIncludedIndex F" using met m(1,2) a(3,5) by auto
    moreover have "lastIncludedIndex F \<le> n - 1" using m(1) a(3) by (simp add: logAt_Some)
    ultimately show ?thesis
      using sync_mismatch [OF inv a(1,2,3,6,4), of q c] m a(2,3,5) more_n
      by auto
  next
    fix q
    assume m: "logAt F (PrevLogIndex args) = Some q" "PrevLogTerm args = e_Term q"
    then show ?thesis
      using sync_accept [OF inv a(1,2,3,5,6,7,4), of q] a(3,5) by auto
  qed
qed

lemma sync_step:
  assumes "syncInv server s0 s"
  shows "\<exists>s' again. syncRound server s = Some (s', again) \<and>
     (if again then syncInv server s0 s' \<and> syncRank server s' < syncRank server s
      else syncDone server s0 s')"
proof -
  obtain L0 bc F0 where s0: "s0 = (L0, bc, F0)" by (cases s0)
  with assms obtain n F where s: "s = (retryAt L0 server n, bc, F)"
    and n: "n \<le> getLastLogIndex L0 \<or> n = lastIncludedIndex F0 + 1"
    by (cases s) (auto simp: syncInv_def)
  note inv = assms [unfolded s0 s]
  have ready: "syncReady server (L0, bc, F0)" and wfF: "log_wf F" and t: "currentTerm F \<le> curTerm bc"
    and eq: "logs F = logs F0" "lastIncludedIndex F = lastIncludedIndex F0"
    using inv by (auto simp: syncInv_def)
  have r: "raft_wf L0" "checkState L0 Leader (curTerm bc)" "server < npeers L0"
    "lastIncludedIndex F \<le> getLastLogIndex L0" "0 \<le> lastIncludedIndex F"
    and honest: "lastIncludedIndex L0 \<le> lastIncludedIndex F \<longrightarrow> sameTerm L0 F (lastIncludedIndex F)"
    using ready eq wfF by (auto simp: syncReady_def sameTerm_def logAt_def subIdx_def log_wf_def)
  have at: "nextIndex (retryAt L0 server n) ! server = n"
    using syncReady_nextIndex [OF ready] by simp
  show ?thesis
  proof (cases "n \<le> lastIncludedIndex L0")
    case True
    have "broadcastSend (retryAt L0 server n) bc server
        = Some (SendSnapshot (sendSnapshotArgs (retryAt L0 server n)))"
      by (rule broadcastSend_snapshot) (use r True at in simp_all)
    then have "syncRound server s = Some (s, False)" by (simp add: syncRound_def s)
    moreover have "syncDone server s0 s" using True at eq by (simp add: syncDone_def s0 s)
    ultimately show ?thesis by auto
  next
    case False
    have hi: "n - 1 \<le> getLastLogIndex L0" using n eq(2) r(4) by auto
    obtain args p where a: "broadcastSend (retryAt L0 server n) bc server = Some (SendAppend args)"
      "ae_Term args = curTerm bc" "PrevLogIndex args = n - 1"
      "logAt L0 (n - 1) = Some p" "PrevLogTerm args = e_Term p"
      "int (length (ae_Entries args)) = getLastLogIndex L0 - (n - 1)"
      "\<forall>j < length (ae_Entries args). logAt L0 (n - 1 + 1 + int j) = Some (ae_Entries args ! j)"
      by (rule broadcastSend_append [of "retryAt L0 server n" bc server "n - 1"])
        (use r at False hi in auto)
    have met: "e_Term p = e_Term q" if "n - 1 = lastIncludedIndex F" "logAt F (n - 1) = Some q" for q
      using honest a(4) [unfolded that(1)] that(2) [unfolded that(1)] that(1) False
      by (auto simp: sameTerm_def)
    have more_n: "n \<le> getLastLogIndex L0" if "n - 1 \<noteq> lastIncludedIndex F"
      using n that eq(2) by auto
    show ?thesis
      unfolding s0 s by (rule sync_answered [OF inv a eq(2) met more_n])
  qed
qed

interpretation sync: ranked_loop "syncRound server" "syncInv server s0" "syncRank server"
    "syncDone server s0" for server s0
  by unfold_locales (rule sync_step)

lemma syncInv_start:
  assumes "syncReady server (L, bc, F)"
  shows "syncInv server (L, bc, F) (L, bc, F)"
  using assms by (auto simp: syncInv_def syncReady_def intro!: exI [of _ "nextIndex L ! server"])

lemma syncRank_bound:
  "syncReady server (L, bc, F) \<Longrightarrow> syncRank server (L, bc, F) \<le> nat (getLastLogIndex L) + 1"
  by (auto simp: syncRank_def Let_def syncReady_def log_wf_def raft_wf_def)

text \<open>C7. The leader's loop for one follower ends, however far the two logs have diverged, after at most two
  rounds more than the leader's log is long: it neither panics nor goes on for ever.  (The follower's
  snapshot, where the leader still has that index, has to record the term the leader has there; C12
  shows the loop without it.)  When it ends, either
  the follower needs entries the leader has compacted away and the next message is the snapshot, or
  the leader's whole log has been sent: \<open>nextIndex\<close> is past its end and, by log matching, the two
  logs agree wherever both still have entries.  The leader's log is untouched.\<close>

theorem log_sync_returns:
  assumes "syncReady server (L, bc, F)" and "nat (getLastLogIndex L) + 2 \<le> fuel"
  shows "\<exists>L' bc' F'. loopn fuel (syncRound server) (L, bc, F) = Some (L', bc', F')
     \<and> logs L' = logs L
     \<and> (nextIndex L' ! server \<le> lastIncludedIndex L' \<and> logs F' = logs F
        \<or> nextIndex L' ! server = getLastLogIndex L + 1 \<and> getLastLogIndex L \<le> getLastLogIndex F'
          \<and> (logMatching L F \<longrightarrow> (\<forall>i. lastIncludedIndex L \<le> i \<and> lastIncludedIndex F \<le> i
               \<and> i \<le> getLastLogIndex L \<longrightarrow> sameTerm L F' i)))"
proof -
  have "syncRank server (L, bc, F) < fuel" using syncRank_bound [OF assms(1)] assms(2) by simp
  from sync.loop_returns [OF syncInv_start [OF assms(1)] this] obtain L' bc' F' where
    "loopn fuel (syncRound server) (L, bc, F) = Some (L', bc', F')"
    "syncDone server (L, bc, F) (L', bc', F')" by (metis prod_cases3)
  then show ?thesis by (auto simp: syncDone_def)
qed

definition ex_leader :: "(nat, nat) raft" where
  "ex_leader = (peer 3 0 Leader 4 0
     [place (-1) 0, ent 1 1 10, ent 3 2 20, ent 3 3 21, ent 4 4 22] 1 0 (-1))
     \<lparr>nextIndex := [5, 4, 4]\<rparr>"

definition ex_round :: broadcast where
  "ex_round = \<lparr>curTerm = 4, commitFlag = True, commitNum = 1\<rparr>"

lemma ex_sync_ready: "syncReady 1 (ex_leader, ex_round, ex_follower)"
  by (simp add: syncReady_def ex_leader_def ex_round_def ex_defs raft_wf_def log_wf_def checkState_def
      idx_defs sameTerm_def logAt_def go_idx_def)

lemma ex_logMatching: "logMatching ex_leader ex_follower"
proof -
  have "sameTerm ex_leader ex_follower j"
    if b: "0 \<le> j" "j \<le> i" "i \<le> 3" and s: "sameTerm ex_leader ex_follower i" for i j
  proof -
    have "i \<in> {0, 1, 2, 3}" using b by auto
    with s have "i \<le> 1" by (auto simp: sameTerm_def ex_leader_def ex_defs logAt_def go_idx_def subIdx_def)
    with b have "j \<in> {0, 1}" by auto
    then show ?thesis by (auto simp: sameTerm_def ex_leader_def ex_defs logAt_def go_idx_def subIdx_def)
  qed
  then show ?thesis by (auto simp: logMatching_def ex_leader_def ex_defs idx_defs)
qed

theorem log_sync_returns_witness:
  "syncReady 1 (ex_leader, ex_round, ex_follower) \<and> logMatching ex_leader ex_follower
   \<and> (\<exists>L' bc' F'. loopn 6 (syncRound 1) (ex_leader, ex_round, ex_follower) = Some (L', bc', F')
        \<and> logs L' = logs ex_leader
        \<and> (nextIndex L' ! 1 \<le> lastIncludedIndex L' \<or> sameTerm ex_leader F' 4))"
proof -
  have f: "nat (getLastLogIndex ex_leader) + 2 \<le> 6" "getLastLogIndex ex_leader = 4"
    "lastIncludedIndex ex_leader = 0" "lastIncludedIndex ex_follower = 0"
    by (simp_all add: ex_leader_def ex_defs idx_defs)
  from log_sync_returns [OF ex_sync_ready f(1)] ex_logMatching ex_sync_ready f(2,3,4)
  show ?thesis by fastforce
qed

section \<open>The loop may not end\<close>

text \<open>
  A follower whose snapshot position carries another term than the leader's entry there, and a leader
  that still has its whole log: the two positions the leader tries in turn.
\<close>

definition snapshotLies :: "nat \<Rightarrow> ('c, 's) sync \<Rightarrow> bool" where
  "snapshotLies server s = (case s of (L, bc, F) \<Rightarrow>
     raft_wf L \<and> checkState L Leader (curTerm bc) \<and> server < npeers L \<and> lastIncludedIndex L = 0
   \<and> log_wf F \<and> currentTerm F \<le> curTerm bc
   \<and> 0 < lastIncludedIndex F \<and> lastIncludedIndex F < getLastLogIndex L
   \<and> e_Term (logs F ! 0) \<noteq> -1 \<and> \<not> hasTerm L (lastIncludedIndex F) (e_Term (logs F ! 0))
   \<and> (nextIndex L ! server = 1 \<or> nextIndex L ! server = lastIncludedIndex F + 1))"

lemma snapshotLies_retry:
  assumes "snapshotLies server (L, bc, F)" and "n = 1 \<or> n = lastIncludedIndex F + 1"
  shows "snapshotLies server (retryAt L server n, bc, ae_enter F (curTerm bc))"
proof -
  have "server < length (nextIndex L)" using assms(1) by (simp add: snapshotLies_def raft_wf_def)
  moreover have "currentTerm (ae_enter F (curTerm bc)) = curTerm bc"
    using assms(1) ae_enter_term by (auto simp: snapshotLies_def)
  ultimately show ?thesis
    using assms ae_enter_wf [of F "curTerm bc"] by (simp add: snapshotLies_def)
qed

lemma livelock_step:
  assumes lies: "snapshotLies server (L, bc, F)"
  shows "\<exists>n. syncRound server (L, bc, F) = Some ((retryAt L server n, bc, ae_enter F (curTerm bc)), True)
     \<and> (n = 1 \<or> n = lastIncludedIndex F + 1)"
proof -
  define prev where "prev = nextIndex L ! server - 1"
  have l: "raft_wf L" "checkState L Leader (curTerm bc)" "server < npeers L"
    "lastIncludedIndex L = 0" "log_wf F" "currentTerm F \<le> curTerm bc"
    "lastIncludedIndex F < getLastLogIndex L" "0 < lastIncludedIndex F"
    "e_Term (logs F ! 0) \<noteq> -1" "\<not> hasTerm L (lastIncludedIndex F) (e_Term (logs F ! 0))"
    and prev: "prev = 0 \<or> prev = lastIncludedIndex F"
    using lies by (auto simp: snapshotLies_def prev_def)
  obtain args p where a: "broadcastSend L bc server = Some (SendAppend args)"
      "ae_Term args = curTerm bc" "PrevLogIndex args = prev"
      "logAt L prev = Some p" "PrevLogTerm args = e_Term p"
      "int (length (ae_Entries args)) = getLastLogIndex L - prev"
    by (rule broadcastSend_append [of L bc server prev]) (use l prev in \<open>auto simp: prev_def\<close>)
  have es: "ae_Entries args \<noteq> []" using a(6) l prev by auto
  have last: "lastIncludedIndex F \<le> getLastLogIndex F" by (rule log_wf_last [OF l(5)])
  show ?thesis
  proof (cases "prev = lastIncludedIndex F")
    case True
    let ?r = "aeReply (curTerm bc) False (-1) (e_Term (logs F ! 0))"
    have q: "logAt F prev = Some (logs F ! 0)" using True last logAt_in [of F prev] by simp
    have "e_Term p \<noteq> e_Term (logs F ! 0)" using l(10) a(4) True by (simp add: hasTerm_def)
    moreover have "conflictScan F (e_Term (logs F ! 0)) prev (-1) = Some (-1)"
      using True by (simp add: conflictScan.simps)
    ultimately have run: "AppendEntries F args = Some (ae_enter F (curTerm bc), ?r)"
      using AppendEntries_mismatch [of F args] l(6) a q by auto
    obtain m where rep: "broadcastReply L bc server args ?r = Some (retryAt L server m, bc, True)" and
      "lastIncludedIndex L + 1 < m \<and> m \<le> -1 + 1 \<and> hasTerm L (m - 1) (e_Term (logs F ! 0))
       \<or> m = lastIncludedIndex L \<and> lastIncludedIndex L \<noteq> 0 \<or> m = 1 \<and> lastIncludedIndex L = 0"
      by (rule broadcastReply_mismatch [of ?r bc L server args]) (use l es in auto)
    then have "m = 1" using l(4) by auto
    with syncRound_append [OF a(1) run rep] show ?thesis by blast
  next
    case False
    let ?r = "aeReply (curTerm bc) False (lastIncludedIndex F + 1) (-1)"
    have run: "AppendEntries F args = Some (ae_enter F (curTerm bc), ?r)"
      using AppendEntries_snapshotted [of F args] False prev l last a by simp
    have "broadcastReply L bc server args ?r = Some (retryAt L server (lastIncludedIndex F + 1), bc, True)"
      using broadcastReply_hint [of ?r bc L server args] l es by simp
    from syncRound_append [OF a(1) run this] show ?thesis by blast
  qed
qed

text \<open>C12. A follower whose snapshot records a wrong term is never synchronised: the leader alternates
  between the follower's snapshot position, which is refused because of the term, and the beginning
  of the log, which is refused because the follower has a snapshot.  The goroutine goes round for
  ever, without a pause, and the follower's log stays as it is.\<close>

theorem sync_livelock:
  assumes "snapshotLies server (L, bc, F)"
  shows "\<exists>L' bc' F'. loop_rounds n (syncRound server) (L, bc, F) = Some (L', bc', F')
     \<and> loopn n (syncRound server) (L, bc, F) = None
     \<and> logs F' = logs F \<and> commitIndex F' = commitIndex F \<and> nextIndex L' ! server \<in> {1, lastIncludedIndex F + 1}"
proof -
  let ?S = "{(L', bc', F'). snapshotLies server (L', bc', F') \<and> logs F' = logs F
     \<and> lastIncludedIndex F' = lastIncludedIndex F \<and> commitIndex F' = commitIndex F}"
  have step: "\<exists>s' \<in> ?S. syncRound server s = Some (s', True)" if "s \<in> ?S" for s
  proof -
    obtain L1 bc1 F1 where s: "s = (L1, bc1, F1)" by (cases s)
    with that livelock_step [of server L1 bc1 F1] snapshotLies_retry [of server L1 bc1 F1]
    show ?thesis by fastforce
  qed
  have "(L, bc, F) \<in> ?S" using assms by simp
  from loop_diverges [of "(L, bc, F)" ?S "syncRound server" n, OF this step] obtain s' where
    s': "s' \<in> ?S" "loop_rounds n (syncRound server) (L, bc, F) = Some s'"
    "loopn n (syncRound server) (L, bc, F) = None" by blast
  then show ?thesis by (cases s') (auto simp: snapshotLies_def)
qed

text \<open>A restarted follower whose snapshot was taken with the term of the moment, 3, instead of the
  term of the entry, 1.\<close>

definition ex_liar :: "(nat, nat) raft" where
  "ex_liar = the (Make 3 1 (persister (the (TakeSnapshot
     (peer 3 1 Follower 3 0 [place (-1) 0, ent 1 1 10, ent 3 2 20] 1 0 (-1)) [7] 1 3))))"

lemma ex_liar_lies: "snapshotLies 1 (ex_leader\<lparr>nextIndex := [5, 2, 4]\<rparr>, ex_round, ex_liar)"
  by (simp add: snapshotLies_def hasTerm_def ex_liar_def Make_def TakeSnapshot_def go_slice_from_def
      go_set_def readPersist_def decodeState_def persistStateAndSnapshot_def encodeState_def gob_put_def
      gob_take_def SaveStateAndSnapshot_def ReadRaftState_def Let_def ex_leader_def ex_round_def ex_defs
      raft_wf_def log_wf_def checkState_def idx_defs logAt_def go_idx_def)

theorem sync_livelock_witness:
  "snapshotLies 1 (ex_leader\<lparr>nextIndex := [5, 2, 4]\<rparr>, ex_round, ex_liar)
   \<and> loopn 1000 (syncRound 1) (ex_leader\<lparr>nextIndex := [5, 2, 4]\<rparr>, ex_round, ex_liar) = None"
  using sync_livelock [OF ex_liar_lies, of 1000] ex_liar_lies by blast

section \<open>Counting replies\<close>

text \<open>
  A leader of five peers starts a broadcast, sends its log of one entry to peer 1, receives a second
  command, and sends the longer log to peer 2; both followers accept.
\<close>

definition ex_lead5 :: "(nat, nat) raft" where
  "ex_lead5 = (peer 5 0 Leader 1 0 [place (-1) 0, ent 1 1 10] 0 0 (-1))
     \<lparr>nextIndex := [1, 1, 1, 1, 1]\<rparr>"

definition ex_empty5 :: "nat \<Rightarrow> (nat, nat) raft" where
  "ex_empty5 self = peer 5 self Follower 1 0 [place (-1) 0] 0 0 (-1)"

text \<open>The leader's log and commit index and the last log index of every peer at the end.\<close>

definition two_lengths :: "(int \<times> int \<times> int list) option" where
  "two_lengths = (let bc = broadcastBegin ex_lead5; L1 = fst (Start ex_lead5 11)
     in case broadcastSend ex_lead5 bc 1 of Some (SendAppend args1) \<Rightarrow>
       (case broadcastSend L1 bc 2 of Some (SendAppend args2) \<Rightarrow>
         (case AppendEntries (ex_empty5 1) args1 of Some (F1, reply1) \<Rightarrow>
           (case AppendEntries (ex_empty5 2) args2 of Some (F2, reply2) \<Rightarrow>
             (case broadcastReply L1 bc 1 args1 reply1 of Some (L2, bc2, _) \<Rightarrow>
               (case broadcastReply L2 bc2 2 args2 reply2 of Some (L3, bc3, _) \<Rightarrow>
                  Some (getLastLogIndex L3, commitIndex L3,
                    map getLastLogIndex [L3, F1, F2, ex_empty5 3, ex_empty5 4])
               | _ \<Rightarrow> None) | _ \<Rightarrow> None) | _ \<Rightarrow> None) | _ \<Rightarrow> None) | _ \<Rightarrow> None) | _ \<Rightarrow> None)"

lemma two_lengths_val: "two_lengths = Some (2, 2, [2, 1, 2, 0, 0])"
  by code_simp

text \<open>Successful replies of one broadcast, in the order in which they arrive.\<close>

fun ackAll :: "('c, 's) raft \<Rightarrow> broadcast \<Rightarrow> (nat \<times> ('c, 's) AppendEntriesArgs) list
    \<Rightarrow> (('c, 's) raft \<times> broadcast) option" where
  "ackAll L bc [] = Some (L, bc)"
| "ackAll L bc ((server, args) # acks) =
     (case broadcastReply L bc server args (aeReply (curTerm bc) True (-1) (-1)) of
        None \<Rightarrow> None | Some (L', bc', again) \<Rightarrow> ackAll L' bc' acks)"

lemma acked_frame [simp]:
  "logs (acked L s k) = logs L" "lastIncludedIndex (acked L s k) = lastIncludedIndex L"
  "lastApplied (acked L s k) = lastApplied L" "commitIndex (acked L s k) = commitIndex L"
  "npeers (acked L s k) = npeers L" "applyCh (acked L s k) = applyCh L" "me (acked L s k) = me L"
  "checkState (acked L s k) = checkState L" "applyMsgAt (acked L s k) = applyMsgAt L"
  "getLastLogIndex (acked L s k) = getLastLogIndex L"
  by (simp_all add: acked_def idx_defs checkState_def applyMsgAt_def logAt_def fun_eq_iff)

lemma committed_frame [simp]:
  "logs (committed L k) = logs L" "lastIncludedIndex (committed L k) = lastIncludedIndex L"
  "lastApplied (committed L k) = k" "commitIndex (committed L k) = k"
  "npeers (committed L k) = npeers L" "me (committed L k) = me L"
  "matchIndex (committed L k) = matchIndex L" "nextIndex (committed L k) = nextIndex L"
  "checkState (committed L k) = checkState L" "applyMsgAt (committed L k) = applyMsgAt L"
  "getLastLogIndex (committed L k) = getLastLogIndex L"
  by (simp_all add: committed_def idx_defs checkState_def applyMsgAt_def logAt_def fun_eq_iff)

lemma acked_wf [simp]: "raft_wf (acked L s k) = raft_wf L"
  by (auto simp: acked_def raft_wf_def log_wf_def idx_defs)

lemma committed_wf: "raft_wf L \<Longrightarrow> commitIndex L \<le> k \<Longrightarrow> k \<le> getLastLogIndex L \<Longrightarrow> raft_wf (committed L k)"
  by (auto simp: raft_wf_def log_wf_def)

lemma acked_match:
  "server < length (matchIndex L) \<Longrightarrow> k \<le> matchIndex (acked L server k) ! server"
  "s < length (matchIndex L) \<Longrightarrow> k \<le> matchIndex L ! s \<Longrightarrow> k \<le> matchIndex (acked L server k) ! s"
  by (simp_all add: acked_def) (cases "server = s"; simp)

text \<open>Replies that all acknowledge the log up to \<open>k\<close>.\<close>

definition acksOf :: "('c, 's) raft \<Rightarrow> int \<Rightarrow> (nat \<times> ('c, 's) AppendEntriesArgs) list \<Rightarrow> bool" where
  "acksOf L k acks \<longleftrightarrow> (\<forall>(server, args) \<in> set acks. server < npeers L \<and> ae_Entries args \<noteq> []
     \<and> PrevLogIndex args + int (length (ae_Entries args)) = k)"

text \<open>What \<open>ackAll\<close> does, for a count that starts anywhere below the majority or after the commit.\<close>

lemma ackAll_spec:
  assumes "raft_wf L" "checkState L Leader (curTerm bc)" "acksOf L k acks"
    and "commitIndex L \<le> k" "k \<le> getLastLogIndex L"
    and "if commitFlag bc then commitNum bc \<le> int (npeers L) div 2 else commitIndex L = k"
  shows "\<exists>L' bc'. ackAll L bc acks = Some (L', bc')
     \<and> (if commitFlag bc \<and> int (npeers L) div 2 < commitNum bc + int (length acks)
        then commitIndex L' = k \<and> applyCh L' = applyCh L @ map (applyMsgAt L) [lastApplied L + 1..k]
        else commitIndex L' = commitIndex L \<and> applyCh L' = applyCh L)
     \<and> (\<forall>s < npeers L. s \<in> fst ` set acks \<or> k \<le> matchIndex L ! s \<longrightarrow> k \<le> matchIndex L' ! s)"
  using assms
proof (induction acks arbitrary: L bc)
  case Nil
  then show ?case by (auto split: if_splits)
next
  case (Cons a acks)
  obtain server args where a: "a = (server, args)" by (cases a)
  let ?r = "aeReply (curTerm bc) True (-1) (-1)"
  let ?bc = "bc\<lparr>commitNum := commitNum bc + 1\<rparr>"
  let ?A = "acked L server k"
  have ack: "server < npeers L" "ae_Entries args \<noteq> []"
    "PrevLogIndex args + int (length (ae_Entries args)) = k" and rest: "acksOf L k acks"
    using Cons.prems(3) by (auto simp: acksOf_def a)
  have len: "length (matchIndex L) = npeers L" using Cons.prems(1) by (simp add: raft_wf_def)
  note m = acked_match [of _ L k, unfolded len]
  have rep: "broadcastReply L bc server args ?r =
      (if commitFlag bc \<and> int (npeers L) div 2 < commitNum bc + 1
       then Some (committed ?A k, ?bc\<lparr>commitFlag := False\<rparr>, False) else Some (?A, ?bc, False))"
    using broadcastReply_success [of ?r bc L server args] Cons.prems ack by (simp add: Let_def)
  show ?case
  proof (cases "commitFlag bc \<and> int (npeers L) div 2 < commitNum bc + 1")
    case True
    let ?C = "committed ?A k"
    have "raft_wf ?C" using Cons.prems by (intro committed_wf) simp_all
    moreover have "acksOf ?C k acks" using rest by (simp add: acksOf_def)
    ultimately obtain L' bc' where ih: "ackAll ?C (?bc\<lparr>commitFlag := False\<rparr>) acks = Some (L', bc')"
      "commitIndex L' = k" "applyCh L' = applyCh ?C"
      "\<forall>s < npeers L. s \<in> fst ` set acks \<or> k \<le> matchIndex ?A ! s \<longrightarrow> k \<le> matchIndex L' ! s"
      using Cons.IH [of ?C "?bc\<lparr>commitFlag := False\<rparr>"] Cons.prems by auto
    have "applyCh ?C = applyCh L @ map (applyMsgAt L) [lastApplied L + 1..k]"
      by (simp add: committed_def)
    with ih True rep m show ?thesis by (auto simp: a)
  next
    case False
    have flag: "if commitFlag ?bc then commitNum ?bc \<le> int (npeers ?A) div 2 else commitIndex ?A = k"
      using Cons.prems(6) False by (auto split: if_splits)
    have "acksOf ?A k acks" using rest by (simp add: acksOf_def)
    from Cons.IH [OF _ _ this _ _ flag] Cons.prems(1,2,4,5)
    have "\<exists>L' bc'. ackAll ?A ?bc acks = Some (L', bc')
     \<and> (if commitFlag bc \<and> int (npeers L) div 2 < commitNum bc + 1 + int (length acks)
        then commitIndex L' = k \<and> applyCh L' = applyCh L @ map (applyMsgAt L) [lastApplied L + 1..k]
        else commitIndex L' = commitIndex L \<and> applyCh L' = applyCh L)
     \<and> (\<forall>s < npeers L. s \<in> fst ` set acks \<or> k \<le> matchIndex ?A ! s \<longrightarrow> k \<le> matchIndex L' ! s)"
      by (simp cong: if_cong split del: if_split)
    then obtain L' bc' where ih: "ackAll ?A ?bc acks = Some (L', bc')"
      "if commitFlag bc \<and> int (npeers L) div 2 < commitNum bc + 1 + int (length acks)
       then commitIndex L' = k \<and> applyCh L' = applyCh L @ map (applyMsgAt L) [lastApplied L + 1..k]
       else commitIndex L' = commitIndex L \<and> applyCh L' = applyCh L"
      "\<forall>s < npeers L. s \<in> fst ` set acks \<or> k \<le> matchIndex ?A ! s \<longrightarrow> k \<le> matchIndex L' ! s"
      by blast
    have "ackAll L bc (a # acks) = Some (L', bc')" using rep False ih(1) by (auto simp: a)
    moreover have "\<forall>s < npeers L. s \<in> fst ` set (a # acks) \<or> k \<le> matchIndex L ! s \<longrightarrow> k \<le> matchIndex L' ! s"
      using ih(3) m by (auto simp: a)
    moreover have "commitNum bc + 1 + int (length acks) = commitNum bc + int (length (a # acks))" by simp
    ultimately show ?thesis using ih(2) by metis
  qed
qed

text \<open>C9. When the replies of one broadcast all acknowledge the same length \<open>k\<close> of the log the count is
  sound: the leader moves its commit index to \<open>k\<close> exactly when the peers that have acknowledged,
  together with the leader itself, are a majority, it then delivers exactly the entries after the
  old commit index in order, and every acknowledgement is recorded.  (For a cluster of at least two
  peers: with one peer there is no reply and nothing is ever committed.)\<close>

theorem commit_counts:
  assumes "raft_wf L" "role L = Leader" "1 < npeers L"
    and "acksOf L k acks" "distinct (map fst acks)" "me L < npeers L" "me L \<notin> fst ` set acks"
    and "commitIndex L \<le> k" "k \<le> getLastLogIndex L"
  shows "\<exists>L' bc'. ackAll L (broadcastBegin L) acks = Some (L', bc')
     \<and> (if majority (npeers L) (insert (me L) (fst ` set acks))
        then commitIndex L' = k \<and> applyCh L' = applyCh L @ map (applyMsgAt L) [commitIndex L + 1..k]
        else commitIndex L' = commitIndex L \<and> applyCh L' = applyCh L)
     \<and> (\<forall>s \<in> fst ` set acks. k \<le> matchIndex L' ! s)"
proof -
  have sub: "fst ` set acks \<subseteq> {..<npeers L}" using assms(4) by (auto simp: acksOf_def)
  have "card (fst ` set acks) = length acks" using distinct_card [OF assms(5)] by simp
  with assms(6,7) sub have maj: "majority (npeers L) (insert (me L) (fst ` set acks))
      \<longleftrightarrow> int (npeers L) div 2 < 1 + int (length acks)"
    by (simp add: majority_def) linarith
  have st: "checkState L Leader (curTerm (broadcastBegin L))"
    using assms(2) by (simp add: checkState_def broadcastBegin_def)
  have flag: "if commitFlag (broadcastBegin L) then commitNum (broadcastBegin L) \<le> int (npeers L) div 2
      else commitIndex L = k" using assms(3) by (simp add: broadcastBegin_def)
  have applied: "lastApplied L = commitIndex L" using assms(1) by (simp add: raft_wf_def log_wf_def)
  from ackAll_spec [OF assms(1) st assms(4,8,9) flag] sub show ?thesis
    unfolding maj applied by (simp add: broadcastBegin_def cong: if_cong split del: if_split) blast
qed

definition ex_ack :: "(nat, nat) AppendEntriesArgs" where
  "ex_ack = \<lparr>ae_Term = 1, ae_LeaderId = 0, PrevLogIndex = 0, PrevLogTerm = -1,
     ae_Entries = [ent 1 1 10], LeaderCommit = 0\<rparr>"

theorem commit_counts_witness:
  "raft_wf ex_lead5 \<and> (\<exists>L' bc'. ackAll ex_lead5 (broadcastBegin ex_lead5) [(1, ex_ack), (3, ex_ack)] = Some (L', bc')
     \<and> commitIndex L' = 1 \<and> 1 \<le> matchIndex L' ! 3)"
proof -
  have f: "raft_wf ex_lead5" "role ex_lead5 = Leader" "npeers ex_lead5 = 5" "me ex_lead5 = 0"
    "commitIndex ex_lead5 = 0" "getLastLogIndex ex_lead5 = 1"
    by (simp_all add: ex_lead5_def peer_def raft_wf_def log_wf_def idx_defs)
  have "acksOf ex_lead5 1 [(1, ex_ack), (3, ex_ack)]" by (simp add: acksOf_def f ex_ack_def)
  moreover have "majority 5 (insert 0 (fst ` set [(1, ex_ack), (3, ex_ack)]))" by (simp add: majority_def)
  ultimately show ?thesis
    using commit_counts [of ex_lead5 1 "[(1, ex_ack), (3, ex_ack)]"] f by (auto simp: f)
qed

text \<open>Replies that acknowledge different lengths, as long as they are too few.\<close>

definition ackLen :: "('c, 's) AppendEntriesArgs \<Rightarrow> int" where
  "ackLen args = PrevLogIndex args + int (length (ae_Entries args))"

definition ackOk :: "('c, 's) raft \<Rightarrow> nat \<times> ('c, 's) AppendEntriesArgs \<Rightarrow> bool" where
  "ackOk L = (\<lambda>(server, args). server < npeers L \<and> ae_Entries args \<noteq> []
     \<and> commitIndex L \<le> ackLen args \<and> ackLen args \<le> getLastLogIndex L)"

lemma ackAll_append:
  "ackAll L bc (xs @ ys) = (case ackAll L bc xs of None \<Rightarrow> None | Some (L', bc') \<Rightarrow> ackAll L' bc' ys)"
  by (induction L bc xs rule: ackAll.induct) (auto split: option.split)

lemma ackAll_pending:
  assumes "raft_wf L" "checkState L Leader (curTerm bc)" "\<forall>a \<in> set acks. ackOk L a"
    and "commitNum bc + int (length acks) \<le> int (npeers L) div 2"
  shows "\<exists>L'. ackAll L bc acks = Some (L', bc\<lparr>commitNum := commitNum bc + int (length acks)\<rparr>)
     \<and> raft_wf L' \<and> checkState L' = checkState L \<and> npeers L' = npeers L \<and> ackOk L' = ackOk L"
  using assms
proof (induction acks arbitrary: L bc)
  case (Cons a acks)
  obtain server args where a: "a = (server, args)" by (cases a)
  let ?A = "acked L server (ackLen args)" and ?bc = "bc\<lparr>commitNum := commitNum bc + 1\<rparr>"
  have "broadcastReply L bc server args (aeReply (curTerm bc) True (-1) (-1)) = Some (?A, ?bc, False)"
    using broadcastReply_success [of "aeReply (curTerm bc) True (-1) (-1)" bc L server args] Cons.prems
    by (simp add: a ackOk_def ackLen_def Let_def)
  moreover have same: "ackOk ?A = ackOk L" by (simp add: ackOk_def fun_eq_iff)
  moreover obtain L' where "ackAll ?A ?bc acks = Some (L', ?bc\<lparr>commitNum := commitNum ?bc + int (length acks)\<rparr>)"
      "raft_wf L'" "checkState L' = checkState L" "npeers L' = npeers L" "ackOk L' = ackOk L"
    using Cons.IH [of ?A ?bc] Cons.prems same by auto
  ultimately show ?case by (simp add: a add.commute add.left_commute)
qed simp

text \<open>C11. The replies of one broadcast are counted together although they may acknowledge different lengths
  of the log, because the log grows between the sends.  The reply that completes the majority moves the
  commit index to the length it acknowledges itself; that index has been acknowledged by a majority
  exactly when no earlier reply acknowledged less.\<close>

theorem commit_without_majority:
  assumes "raft_wf L" "role L = Leader" "1 < npeers L" "me L < npeers L"
    and "distinct (map fst acks)" "me L \<notin> fst ` set acks" "\<forall>a \<in> set acks. ackOk L a"
    and "length acks = npeers L div 2"
  shows "\<exists>L' bc' k. k = ackLen (snd (last acks)) \<and> ackAll L (broadcastBegin L) acks = Some (L', bc') \<and> commitIndex L' = k
     \<and> (majority (npeers L) (insert (me L) {server. \<exists>args. (server, args) \<in> set acks \<and> k \<le> ackLen args})
        \<longleftrightarrow> (\<forall>(server, args) \<in> set acks. k \<le> ackLen args))"
proof -
  define k where "k = ackLen (snd (last acks))"
  have ne: "acks \<noteq> []" using assms(3,8) by auto
  obtain server args where l: "last acks = (server, args)" by (cases "last acks")
  have split: "acks = butlast acks @ [(server, args)]" using ne l append_butlast_last_id [OF ne] by simp
  have k: "k = ackLen args" by (simp add: k_def l)
  let ?bc = "broadcastBegin L"
  have st: "checkState L Leader (curTerm ?bc)" using assms(2) by (simp add: checkState_def broadcastBegin_def)
  have num: "commitNum ?bc + int (length (butlast acks)) = int (npeers L) div 2"
    using ne assms(8) by (cases acks) (auto simp: broadcastBegin_def zdiv_int)
  obtain L1 where one: "ackAll L ?bc (butlast acks) = Some (L1, ?bc\<lparr>commitNum := int (npeers L) div 2\<rparr>)"
      "raft_wf L1" "checkState L1 = checkState L" "npeers L1 = npeers L" "ackOk L1 = ackOk L"
    using ackAll_pending [OF assms(1) st, of "butlast acks"] assms(7) num by (auto dest: in_set_butlastD)
  have "ackOk L1 (server, args)" using assms(7) one(5) l ne last_in_set [OF ne] by simp
  then have "broadcastReply L1 (?bc\<lparr>commitNum := int (npeers L) div 2\<rparr>) server args (aeReply (curTerm ?bc) True (-1) (-1))
      = Some (committed (acked L1 server k) k, ?bc\<lparr>commitNum := int (npeers L) div 2 + 1, commitFlag := False\<rparr>, False)"
    using broadcastReply_success [of "aeReply (curTerm ?bc) True (-1) (-1)" "?bc\<lparr>commitNum := int (npeers L) div 2\<rparr>" L1 server args]
      one st by (simp add: ackOk_def ackLen_def k Let_def broadcastBegin_def)
  then have run: "ackAll L ?bc acks = Some (committed (acked L1 server k) k, ?bc\<lparr>commitNum := int (npeers L) div 2 + 1, commitFlag := False\<rparr>)"
    by (subst split) (simp add: ackAll_append one(1))
  let ?S = "{server. \<exists>args. (server, args) \<in> set acks \<and> k \<le> ackLen args}"
  have sub: "?S \<subseteq> fst ` set acks" by force
  have card: "card (fst ` set acks) = npeers L div 2" using distinct_card [OF assms(5)] assms(8) by simp
  have "fst ` set acks \<subseteq> {..<npeers L}" using assms(7) by (auto simp: ackOk_def)
  then have "majority (npeers L) (insert (me L) ?S) \<longleftrightarrow> npeers L div 2 \<le> card ?S"
    using sub assms(4,6) finite_subset [OF sub] by (subst majority_def) (auto simp: card_insert_if)
  also have "\<dots> \<longleftrightarrow> ?S = fst ` set acks"
    using card_seteq [OF _ sub] card by auto
  also have "\<dots> \<longleftrightarrow> (\<forall>(server, args) \<in> set acks. k \<le> ackLen args)"
  proof
    assume same: "?S = fst ` set acks"
    have "k \<le> ackLen a" if "(s, a) \<in> set acks" for s a
    proof -
      have "s \<in> ?S" unfolding same using that by (rule image_eqI [rotated]) simp
      then obtain a' where a': "(s, a') \<in> set acks" "k \<le> ackLen a'" by blast
      with eq_key_imp_eq_value [OF assms(5) that a'(1)] show ?thesis by simp
    qed
    then show "\<forall>(server, args) \<in> set acks. k \<le> ackLen args" by blast
  qed (use sub in auto)
  finally show ?thesis
    using run k_def by (intro exI [of _ "committed (acked L1 server k) k"] exI [of _ k] exI conjI) simp_all
qed

definition ex_ack2 :: "(nat, nat) AppendEntriesArgs" where
  "ex_ack2 = \<lparr>ae_Term = 1, ae_LeaderId = 0, PrevLogIndex = 0, PrevLogTerm = -1,
     ae_Entries = [ent 1 1 10, ent 1 2 11], LeaderCommit = 0\<rparr>"

text \<open>The messages of the example above: the leader of five peers commits index 2, which only it and peer 2 hold.\<close>

theorem commit_without_majority_witness:
  "two_lengths = Some (2, 2, [2, 1, 2, 0, 0])
   \<and> (\<exists>L' bc'. ackAll (fst (Start ex_lead5 11)) (broadcastBegin ex_lead5) [(1, ex_ack), (2, ex_ack2)] = Some (L', bc')
     \<and> commitIndex L' = 2 \<and> \<not> majority 5 {0, 2})"
proof -
  let ?L = "fst (Start ex_lead5 11)"
  have f: "raft_wf ?L" "role ?L = Leader" "npeers ?L = 5" "me ?L = 0" "commitIndex ?L = 0" "getLastLogIndex ?L = 2"
    "broadcastBegin ?L = broadcastBegin ex_lead5"
    by (simp_all add: Start_def ex_lead5_def peer_def raft_wf_def log_wf_def idx_defs broadcastBegin_def Let_def)
  have ok: "\<forall>a \<in> set [(1, ex_ack), (2, ex_ack2)]. ackOk ?L a" by (simp add: ackOk_def ackLen_def f ex_ack_def ex_ack2_def)
  have len: "ackLen ex_ack = 1" "ackLen ex_ack2 = 2" by (simp_all add: ackLen_def ex_ack_def ex_ack2_def)
  have "{s. \<exists>args. (s, args) \<in> set [(1 :: nat, ex_ack), (2, ex_ack2)] \<and> 2 \<le> ackLen args} = {2}" using len by auto
  then show ?thesis
    using commit_without_majority [OF f(1,2) _ _ _ _ ok] two_lengths_val by (simp add: f len)
qed

end
