(* ===== verification/KVRaft.thy ===== *)
theory KVRaft
  imports Raft_Peer
begin

text \<open>
  The key/value service of \<^verbatim>\<open>src/src/kvraft\<close> (\<^verbatim>\<open>server.go\<close>, \<^verbatim>\<open>client.go\<close>, \<^verbatim>\<open>common.go\<close>).

  The server's maps are HOL maps.  A handler is split where it waits: \<open>kv_GetEnter\<close> is the part after
  \<open>rf.Start\<close> up to the \<open>select\<close>, \<open>kv_GetWake\<close> the part after it; the two parts of \<open>PutAppend\<close> before
  and after \<open>rf.Start\<close> are \<open>kv_PutAppendCheck\<close> and \<open>kv_PutAppendEnter\<close>.  A channel is a number drawn
  from a counter; the message on it is what \<open>kv_receive\<close> reports as sent.  \<open>None\<close> is a panic (a failed
  type assertion, the close of a nil channel).  A clerk's endless retry loop runs over the list of
  the answers the network gives it; \<open>None\<close> says that it is still trying.
\<close>

section \<open>Data\<close>

definition OK :: string where
  "OK = ''OK''"

definition ErrNoKey :: string where
  "ErrNoKey = ''ErrNoKey''"

record kvop =
  o_Method :: string
  o_Key :: string
  o_Value :: string
  o_Clerk :: int
  o_Index :: int

record PutAppendArgs =
  pa_Key :: string
  pa_Value :: string
  pa_Op :: string
  pa_ClerkID :: int
  pa_CmdIndex :: int

record PutAppendReply =
  pr_WrongLeader :: bool
  pr_Err :: string

record GetArgs =
  ga_Key :: string
  ga_ClerkID :: int
  ga_CmdIndex :: int

record GetReply =
  gr_WrongLeader :: bool
  gr_Err :: string
  gr_Value :: string

text \<open>What a snapshot consists of.\<close>

datatype kvval = VDB "string \<rightharpoonup> string" | VClerk "int \<rightharpoonup> int"

fun as_db :: "kvval \<Rightarrow> (string \<rightharpoonup> string) option" where
  "as_db (VDB m) = Some m"
| "as_db (VClerk _) = None"

fun as_clerk :: "kvval \<Rightarrow> (int \<rightharpoonup> int) option" where
  "as_clerk (VClerk m) = Some m"
| "as_clerk (VDB _) = None"

record KVServer =
  kv_me :: nat
  kv_maxraftstate :: int
  kv_clerkLog :: "int \<rightharpoonup> int"
  kv_kvDB :: "string \<rightharpoonup> string"
  kv_msgCh :: "int \<rightharpoonup> nat"
  kv_chans :: nat

type_synonym kvraft = "(kvop, kvval) raft"

section \<open>The handlers\<close>

text \<open>The guard \<open>ind, ok := kv.clerkLog[clerk]; ok && ind >= index\<close>.\<close>

definition kv_done :: "KVServer \<Rightarrow> int \<Rightarrow> int \<Rightarrow> bool" where
  "kv_done kv clerk index = (case kv_clerkLog kv clerk of None \<Rightarrow> False | Some ind \<Rightarrow> ind \<ge> index)"

datatype 'r pending = Answer 'r | Wait int int nat

datatype wakeup = WaitOver | Notified int

definition kv_GetOp :: "GetArgs \<Rightarrow> kvop" where
  "kv_GetOp args = \<lparr>o_Method = ''Get'', o_Key = ga_Key args, o_Value = '''',
     o_Clerk = ga_ClerkID args, o_Index = ga_CmdIndex args\<rparr>"

definition kv_GetEnter ::
    "KVServer \<Rightarrow> GetArgs \<Rightarrow> int \<times> int \<times> bool \<Rightarrow> KVServer \<times> GetReply pending" where
  "kv_GetEnter kv args started =
     (let reply = \<lparr>gr_WrongLeader = True, gr_Err = ErrNoKey, gr_Value = ''''\<rparr>;
          (index, term, isLeader) = started
      in if \<not> isLeader then (kv, Answer reply)
         else if kv_done kv (ga_ClerkID args) (ga_CmdIndex args) then
           (kv, Answer (reply\<lparr>gr_Value := (case kv_kvDB kv (ga_Key args) of None \<Rightarrow> '''' | Some v \<Rightarrow> v),
                              gr_WrongLeader := False, gr_Err := OK\<rparr>))
         else (kv\<lparr>kv_msgCh := (kv_msgCh kv)(index \<mapsto> kv_chans kv), kv_chans := kv_chans kv + 1\<rparr>,
               Wait index term (kv_chans kv)))"

definition kv_GetWake :: "KVServer \<Rightarrow> GetArgs \<Rightarrow> int \<Rightarrow> wakeup \<Rightarrow> GetReply" where
  "kv_GetWake kv args term w =
     (let reply = \<lparr>gr_WrongLeader = True, gr_Err = ErrNoKey, gr_Value = ''''\<rparr>
      in case w of WaitOver \<Rightarrow> reply
         | Notified msgTerm \<Rightarrow>
             if msgTerm = term then
               (case kv_kvDB kv (ga_Key args) of
                  None \<Rightarrow> reply\<lparr>gr_WrongLeader := False\<rparr>
                | Some v \<Rightarrow> reply\<lparr>gr_Value := v, gr_Err := OK, gr_WrongLeader := False\<rparr>)
             else reply)"

definition kv_PutAppendOp :: "PutAppendArgs \<Rightarrow> kvop" where
  "kv_PutAppendOp args = \<lparr>o_Method = pa_Op args, o_Key = pa_Key args, o_Value = pa_Value args,
     o_Clerk = pa_ClerkID args, o_Index = pa_CmdIndex args\<rparr>"

text \<open>Before \<open>rf.Start\<close>: an answer at once for a command that was executed.\<close>

definition kv_PutAppendCheck :: "KVServer \<Rightarrow> PutAppendArgs \<Rightarrow> PutAppendReply option" where
  "kv_PutAppendCheck kv args =
     (if kv_done kv (pa_ClerkID args) (pa_CmdIndex args)
      then Some \<lparr>pr_WrongLeader = False, pr_Err = OK\<rparr> else None)"

definition kv_PutAppendEnter ::
    "KVServer \<Rightarrow> int \<times> int \<times> bool \<Rightarrow> KVServer \<times> PutAppendReply pending" where
  "kv_PutAppendEnter kv started =
     (let (index, term, isLeader) = started
      in if \<not> isLeader then (kv, Answer \<lparr>pr_WrongLeader = True, pr_Err = OK\<rparr>)
         else (kv\<lparr>kv_msgCh := (kv_msgCh kv)(index \<mapsto> kv_chans kv), kv_chans := kv_chans kv + 1\<rparr>,
               Wait index term (kv_chans kv)))"

definition kv_PutAppendWake :: "int \<Rightarrow> wakeup \<Rightarrow> PutAppendReply" where
  "kv_PutAppendWake term w = \<lparr>pr_WrongLeader =
     (case w of WaitOver \<Rightarrow> True | Notified msgTerm \<Rightarrow> msgTerm \<noteq> term), pr_Err = OK\<rparr>"

text \<open>Closing a channel that is not in the map closes a nil channel.\<close>

definition kv_closeCh :: "KVServer \<Rightarrow> int \<Rightarrow> KVServer option" where
  "kv_closeCh kv index =
     (case kv_msgCh kv index of None \<Rightarrow> None
      | Some ch \<Rightarrow> Some (kv\<lparr>kv_msgCh := (kv_msgCh kv)(index := None)\<rparr>))"

definition kv_Kill :: "kvraft \<Rightarrow> kvraft option" where
  "kv_Kill rf = Kill rf"

section \<open>Snapshots\<close>

definition kv_encodeSnapshot :: "KVServer \<Rightarrow> kvval list" where
  "kv_encodeSnapshot kv = gob_put (gob_put [] (VDB (kv_kvDB kv))) (VClerk (kv_clerkLog kv))"

definition kv_decodeMaps :: "kvval list \<Rightarrow> ((string \<rightharpoonup> string) \<times> (int \<rightharpoonup> int)) option" where
  "kv_decodeMaps data = do {
     (db, r) \<leftarrow> gob_take as_db data;
     (cl, r) \<leftarrow> gob_take as_clerk r;
     Some (db, cl) }"

definition kv_decodedSnapshot :: "KVServer \<Rightarrow> kvval list \<Rightarrow> KVServer" where
  "kv_decodedSnapshot kv data =
     (case kv_decodeMaps data of None \<Rightarrow> kv
      | Some (db, cl) \<Rightarrow> kv\<lparr>kv_kvDB := db, kv_clerkLog := cl\<rparr>)"

definition kv_loadSnapshot :: "KVServer \<Rightarrow> ((kvop, kvval) rval, kvval) persister \<Rightarrow> KVServer" where
  "kv_loadSnapshot kv ps =
     (let data = ReadSnapshot ps in if data = [] then kv else kv_decodedSnapshot kv data)"

text \<open>
  The arguments of the \<open>TakeSnapshot\<close> call, if there is one; \<open>sz\<close> gives the length in bytes of the
  encoded Raft state.  Go evaluates \<open>maxraftstate*2/3.0\<close> in integers.
\<close>

definition kv_checkState ::
    "((kvop, kvval) rval list \<Rightarrow> nat) \<Rightarrow> KVServer \<Rightarrow> ((kvop, kvval) rval, kvval) persister
      \<Rightarrow> int \<Rightarrow> int \<Rightarrow> (kvval list \<times> int \<times> int) option" where
  "kv_checkState sz kv ps index term =
     (if kv_maxraftstate kv = -1 then None
      else if RaftStateSize sz ps < go_div (kv_maxraftstate kv * 2) 3 then None
      else Some (kv_encodeSnapshot kv, index, term))"

section \<open>Applying\<close>

text \<open>The \<open>else\<close> branch and the \<open>switch\<close> of \<open>receiveNewMsg\<close>.\<close>

definition kv_execute :: "KVServer \<Rightarrow> kvop \<Rightarrow> KVServer" where
  "kv_execute kv op =
     (let kv = kv\<lparr>kv_clerkLog := (kv_clerkLog kv)(o_Clerk op \<mapsto> o_Index op)\<rparr>
      in if o_Method op = ''Put'' then kv\<lparr>kv_kvDB := (kv_kvDB kv)(o_Key op \<mapsto> o_Value op)\<rparr>
         else if o_Method op = ''Append'' then
           (case kv_kvDB kv (o_Key op) of
              Some v \<Rightarrow> kv\<lparr>kv_kvDB := (kv_kvDB kv)(o_Key op \<mapsto> v @ o_Value op)\<rparr>
            | None \<Rightarrow> kv\<lparr>kv_kvDB := (kv_kvDB kv)(o_Key op \<mapsto> o_Value op)\<rparr>)
         else kv)"

definition kv_apply :: "KVServer \<Rightarrow> kvop \<Rightarrow> KVServer" where
  "kv_apply kv op = (if kv_done kv (o_Clerk op) (o_Index op) then kv else kv_execute kv op)"

text \<open>
  One message of the apply channel: the new state, the channel and term of the notification and the
  snapshot to take.  The send on the channel is an output here; that it waits for its reader is not part
  of the state.
\<close>

definition kv_receiveNewMsg ::
    "((kvop, kvval) rval list \<Rightarrow> nat) \<Rightarrow> KVServer \<Rightarrow> ((kvop, kvval) rval, kvval) persister
      \<Rightarrow> (kvop, kvval) applymsg
      \<Rightarrow> (KVServer \<times> (nat \<times> int) option \<times> (kvval list \<times> int \<times> int) option) option" where
  "kv_receiveNewMsg sz kv ps msg =
     (let index = CommandIndex msg; term = CommitTerm msg
      in if \<not> CommandValid msg then
           (case am_Command msg of IBytes data \<Rightarrow> Some (kv_decodedSnapshot kv data, None, None) | _ \<Rightarrow> None)
         else
           (case am_Command msg of
              IOp op \<Rightarrow>
                (let kv = kv_apply kv op
                 in Some (kv, map_option (\<lambda>ch. (ch, term)) (kv_msgCh kv index),
                          kv_checkState sz kv ps index term))
            | _ \<Rightarrow> None))"

definition StartKVServer ::
    "nat \<Rightarrow> nat \<Rightarrow> ((kvop, kvval) rval, kvval) persister \<Rightarrow> int \<Rightarrow> (KVServer \<times> kvraft) option" where
  "StartKVServer n self ps maxraftstate = do {
     rf \<leftarrow> Make n self ps;
     let kv = \<lparr>kv_me = self, kv_maxraftstate = maxraftstate, kv_clerkLog = Map.empty,
               kv_kvDB = Map.empty, kv_msgCh = Map.empty, kv_chans = 0\<rparr>;
     Some (kv_loadSnapshot kv ps, rf) }"

section \<open>The clerk\<close>

record Clerk =
  ck_servers :: nat
  ck_leader :: nat
  ck_me :: int
  ck_cmdIndex :: int

definition MakeClerk :: "nat \<Rightarrow> int \<Rightarrow> Clerk" where
  "MakeClerk n nrand = \<lparr>ck_servers = n, ck_leader = 0, ck_me = nrand, ck_cmdIndex = 0\<rparr>"

text \<open>The retry loops.  An answer of the network is \<open>None\<close> when \<open>Call\<close> returns false.\<close>

fun ck_GetLoop :: "Clerk \<Rightarrow> nat \<Rightarrow> (nat \<Rightarrow> GetReply option) list \<Rightarrow> (Clerk \<times> string) option" where
  "ck_GetLoop ck leader [] = None"
| "ck_GetLoop ck leader (call # calls) =
     (case call leader of
        Some reply \<Rightarrow>
          if \<not> gr_WrongLeader reply then
            (let ck = ck\<lparr>ck_leader := leader\<rparr>
             in if gr_Value reply = ErrNoKey then Some (ck, '''') else Some (ck, gr_Value reply))
          else ck_GetLoop ck ((leader + 1) mod ck_servers ck) calls
      | None \<Rightarrow> ck_GetLoop ck ((leader + 1) mod ck_servers ck) calls)"

definition ck_Get ::
    "Clerk \<Rightarrow> string \<Rightarrow> (GetArgs \<Rightarrow> (nat \<Rightarrow> GetReply option) list) \<Rightarrow> (Clerk \<times> string) option" where
  "ck_Get ck key net =
     (let ck = ck\<lparr>ck_cmdIndex := ck_cmdIndex ck + 1\<rparr>;
          args = \<lparr>ga_Key = key, ga_ClerkID = ck_me ck, ga_CmdIndex = ck_cmdIndex ck\<rparr>
      in ck_GetLoop ck (ck_leader ck) (net args))"

fun ck_PutAppendLoop :: "Clerk \<Rightarrow> nat \<Rightarrow> (nat \<Rightarrow> PutAppendReply option) list \<Rightarrow> Clerk option" where
  "ck_PutAppendLoop ck leader [] = None"
| "ck_PutAppendLoop ck leader (call # calls) =
     (case call leader of
        Some reply \<Rightarrow>
          if \<not> pr_WrongLeader reply \<and> pr_Err reply = OK then Some (ck\<lparr>ck_leader := leader\<rparr>)
          else ck_PutAppendLoop ck ((leader + 1) mod ck_servers ck) calls
      | None \<Rightarrow> ck_PutAppendLoop ck ((leader + 1) mod ck_servers ck) calls)"

definition ck_PutAppend ::
    "Clerk \<Rightarrow> string \<Rightarrow> string \<Rightarrow> string \<Rightarrow> (PutAppendArgs \<Rightarrow> (nat \<Rightarrow> PutAppendReply option) list)
      \<Rightarrow> Clerk option" where
  "ck_PutAppend ck key value oper net =
     (let ck = ck\<lparr>ck_cmdIndex := ck_cmdIndex ck + 1\<rparr>;
          args = \<lparr>pa_Key = key, pa_Value = value, pa_Op = oper, pa_ClerkID = ck_me ck,
                  pa_CmdIndex = ck_cmdIndex ck\<rparr>
      in ck_PutAppendLoop ck (ck_leader ck) (net args))"

definition ck_Put where
  "ck_Put ck key value net = ck_PutAppend ck key value ''Put'' net"

definition ck_Append where
  "ck_Append ck key value net = ck_PutAppend ck key value ''Append'' net"

end
