(* ===== verification/KV_Service.thy ===== *)
theory KV_Service
  imports KVRaft
begin

text \<open>
  Properties of the key/value service: commands take effect at most once and in log order, replicas
  that consume the same messages hold the same data whether or not a snapshot replaces a prefix, the
  handlers answer what the state machine holds, and the clerk's loop.
\<close>

section \<open>The reference machine\<close>

text \<open>What a command means on a plain map.\<close>

definition kv_spec :: "kvop \<Rightarrow> (string \<rightharpoonup> string) \<Rightarrow> (string \<rightharpoonup> string)" where
  "kv_spec op m =
     (if o_Method op = ''Put'' then m(o_Key op \<mapsto> o_Value op)
      else if o_Method op = ''Append'' then m(o_Key op \<mapsto> (case m (o_Key op) of None \<Rightarrow> [] | Some v \<Rightarrow> v) @ o_Value op)
      else m)"

lemma kv_execute_simps [simp]:
  "kv_kvDB (kv_execute kv op) = kv_spec op (kv_kvDB kv)"
  "kv_clerkLog (kv_execute kv op) = (kv_clerkLog kv)(o_Clerk op \<mapsto> o_Index op)"
  "kv_msgCh (kv_execute kv op) = kv_msgCh kv"
  "kv_me (kv_execute kv op) = kv_me kv" "kv_maxraftstate (kv_execute kv op) = kv_maxraftstate kv"
  by (auto simp: kv_execute_def kv_spec_def Let_def split: option.splits)

lemma kv_apply_frame [simp]:
  "kv_msgCh (kv_apply kv op) = kv_msgCh kv" "kv_me (kv_apply kv op) = kv_me kv"
  "kv_maxraftstate (kv_apply kv op) = kv_maxraftstate kv"
  by (simp_all add: kv_apply_def)

section \<open>At most once\<close>

abbreviation kv_seen :: "KVServer \<Rightarrow> kvop \<Rightarrow> bool" where
  "kv_seen kv op \<equiv> kv_done kv (o_Clerk op) (o_Index op)"

interpretation kvd: dedup kv_apply kv_seen
  by unfold_locales (auto simp: kv_apply_def kv_done_def split: option.splits if_splits)

abbreviation kv_run :: "kvop list \<Rightarrow> KVServer \<Rightarrow> KVServer" where
  "kv_run \<equiv> fold (\<lambda>op kv. kv_apply kv op)"

text \<open>The indices of each clerk come in increasing order.\<close>

fun in_order :: "(int \<rightharpoonup> int) \<Rightarrow> kvop list \<Rightarrow> bool" where
  "in_order cl [] = True"
| "in_order cl (op # ops) =
     ((case cl (o_Clerk op) of None \<Rightarrow> True | Some i \<Rightarrow> i < o_Index op)
      \<and> in_order (cl(o_Clerk op \<mapsto> o_Index op)) ops)"

lemma kv_run_in_order:
  "in_order (kv_clerkLog kv) ops \<Longrightarrow> kv_kvDB (kv_run ops kv) = fold kv_spec ops (kv_kvDB kv)"
proof (induction ops arbitrary: kv)
  case (Cons op ops)
  then have "\<not> kv_seen kv op" by (auto simp: kv_done_def split: option.splits)
  then have "kv_apply kv op = kv_execute kv op" by (simp add: kv_apply_def)
  moreover have "in_order (kv_clerkLog (kv_execute kv op)) ops"
    using Cons.prems by (simp only: kv_execute_simps in_order.simps)
  note Cons.IH [OF this]
  ultimately show ?case by simp
qed simp

definition kv_initial :: "nat \<Rightarrow> int \<Rightarrow> KVServer" where
  "kv_initial self maxraftstate = \<lparr>kv_me = self, kv_maxraftstate = maxraftstate,
     kv_clerkLog = Map.empty, kv_kvDB = Map.empty, kv_msgCh = Map.empty, kv_chans = 0\<rparr>"

text \<open>
  C15. Exactly-once execution.  Take any committed log in which clerks have retried commands any number
  of times, at any later place, with each clerk numbering its commands upwards.  The database that
  results is the one obtained by executing the first copy of every command, in log order, on a
  plain map.
\<close>

theorem kv_exactly_once:
  assumes "in_order Map.empty (firsts log)"
  shows "kv_kvDB (kv_run log (kv_initial self maxraftstate)) = fold kv_spec (firsts log) Map.empty"
  using kv_run_in_order [of "kv_initial self maxraftstate" "firsts log"] assms
  by (simp add: kvd.fold_firsts [of log] kv_initial_def)

definition ex_kvop :: "string \<Rightarrow> string \<Rightarrow> int \<Rightarrow> int \<Rightarrow> kvop" where
  "ex_kvop meth v c i = \<lparr>o_Method = meth, o_Key = ''x'', o_Value = v, o_Clerk = c, o_Index = i\<rparr>"

definition ex_kvlog :: "kvop list" where
  "ex_kvlog = [ex_kvop ''Put'' ''a'' 1 1, ex_kvop ''Append'' ''b'' 2 1, ex_kvop ''Append'' ''b'' 2 1,
     ex_kvop ''Append'' ''c'' 1 2, ex_kvop ''Put'' ''a'' 1 1]"

theorem kv_exactly_once_witness:
  "in_order Map.empty (firsts ex_kvlog)
   \<and> kv_kvDB (kv_run ex_kvlog (kv_initial 0 (-1))) ''x'' = Some ''abc''"
proof -
  have f: "firsts ex_kvlog = [ex_kvop ''Put'' ''a'' 1 1, ex_kvop ''Append'' ''b'' 2 1, ex_kvop ''Append'' ''c'' 1 2]"
    by (simp add: firsts_def ex_kvlog_def ex_kvop_def)
  have o: "in_order Map.empty (firsts ex_kvlog)" by (simp add: f ex_kvop_def)
  have "fold kv_spec (firsts ex_kvlog) Map.empty ''x'' = Some ''abc''"
    by (simp add: f ex_kvop_def kv_spec_def)
  with o kv_exactly_once [OF o] show ?thesis by simp
qed

section \<open>Replicas and snapshots\<close>

text \<open>The replicated part of a server.\<close>

definition kv_data :: "KVServer \<Rightarrow> (string \<rightharpoonup> string) \<times> (int \<rightharpoonup> int)" where
  "kv_data kv = (kv_kvDB kv, kv_clerkLog kv)"

definition kv_encodeMaps :: "(string \<rightharpoonup> string) \<times> (int \<rightharpoonup> int) \<Rightarrow> kvval list" where
  "kv_encodeMaps = (\<lambda>(db, cl). [VDB db, VClerk cl])"

interpretation kvs: codec kv_encodeMaps kv_decodeMaps
  by unfold_locales (auto simp: kv_encodeMaps_def kv_decodeMaps_def gob_take_def split: prod.splits)

lemma kv_encodeSnapshot_data: "kv_encodeSnapshot kv = kv_encodeMaps (kv_data kv)"
  by (simp add: kv_encodeSnapshot_def kv_encodeMaps_def kv_data_def gob_put_def)

lemma kv_restore: "kv_data (kv_decodedSnapshot kv (kv_encodeSnapshot a)) = kv_data a"
  by (simp add: kv_decodedSnapshot_def kv_encodeSnapshot_data kvs.decode_encode kv_data_def)

lemma kv_done_data: "kv_data a = kv_data b \<Longrightarrow> kv_done a c i = kv_done b c i"
  by (simp add: kv_data_def kv_done_def)

lemma kv_apply_data: "kv_data a = kv_data b \<Longrightarrow> kv_data (kv_apply a op) = kv_data (kv_apply b op)"
  using kv_done_data [of a b] by (simp add: kv_apply_def kv_data_def)

lemma kv_run_data: "kv_data a = kv_data b \<Longrightarrow> kv_data (kv_run ops a) = kv_data (kv_run ops b)"
proof (induction ops arbitrary: a b)
  case (Cons op ops)
  show ?case using Cons.IH [OF kv_apply_data [OF Cons.prems, of op]] by simp
qed simp

text \<open>The server consumes a whole sequence of messages from its apply channel.\<close>

definition kv_step ::
    "((kvop, kvval) rval list \<Rightarrow> nat) \<Rightarrow> ((kvop, kvval) rval, kvval) persister \<Rightarrow> KVServer
      \<Rightarrow> (kvop, kvval) applymsg \<Rightarrow> KVServer option" where
  "kv_step sz ps kv msg = map_option fst (kv_receiveNewMsg sz kv ps msg)"

text \<open>The messages Raft delivers: a command, or a snapshot some server has encoded.\<close>

definition kv_msg_ok :: "(kvop, kvval) applymsg \<Rightarrow> bool" where
  "kv_msg_ok msg \<longleftrightarrow>
     (if CommandValid msg then \<exists>op. am_Command msg = IOp op else \<exists>d. am_Command msg = IBytes d)"

interpretation kvr: replicated_sm "kv_step sz ps" "\<lambda>kv. True" "\<lambda>kv. kv_msg_ok" for sz ps
  by unfold_locales
    (auto simp: kv_step_def kv_msg_ok_def kv_receiveNewMsg_def Let_def split: if_splits)

definition cmdMsg :: "int \<Rightarrow> int \<Rightarrow> kvop \<Rightarrow> (kvop, kvval) applymsg" where
  "cmdMsg i t op = \<lparr>CommandValid = True, am_Command = IOp op, CommandIndex = i, CommitTerm = t, am_Role = Follower\<rparr>"

definition snapMsg :: "int \<Rightarrow> int \<Rightarrow> kvval list \<Rightarrow> (kvop, kvval) applymsg" where
  "snapMsg i t d = \<lparr>CommandValid = False, am_Command = IBytes d, CommandIndex = i, CommitTerm = t, am_Role = Follower\<rparr>"

lemma kv_step_cmd: "CommandValid m \<Longrightarrow> am_Command m = IOp op \<Longrightarrow> kv_step sz ps kv m = Some (kv_apply kv op)"
  by (simp add: kv_step_def kv_receiveNewMsg_def Let_def)

lemma kv_step_snap: "\<not> CommandValid m \<Longrightarrow> am_Command m = IBytes d \<Longrightarrow>
    kv_step sz ps kv m = Some (kv_decodedSnapshot kv d)"
  by (simp add: kv_step_def kv_receiveNewMsg_def Let_def)

fun carries :: "(kvop, kvval) applymsg list \<Rightarrow> kvop list \<Rightarrow> bool" where
  "carries [] [] = True"
| "carries (m # ms) (op # ops) = (CommandValid m \<and> am_Command m = IOp op \<and> carries ms ops)"
| "carries _ _ = False"

lemma run_steps_carries:
  "carries ms ops \<Longrightarrow> run_steps (kv_step sz ps) kv ms = Some (kv_run ops kv)"
  by (induction ms ops arbitrary: kv rule: carries.induct) (simp_all add: kv_step_cmd)

text \<open>
  C16. State machine safety across snapshots.  One server has applied the commands \<open>xs\<close> and then \<open>ys\<close>;
  another one, in any state, is given the first one's snapshot after \<open>xs\<close> and then the messages that
  carry \<open>ys\<close> (with other terms and roles).  Both end with the same database and the same record of
  executed commands, and neither panics.
\<close>

theorem kv_snapshot_then_suffix:
  assumes "carries ms1 (xs @ ys)" and "carries ms2 ys"
    and "\<not> CommandValid snap" and "am_Command snap = IBytes (kv_encodeSnapshot (kv_run xs a))"
  shows "\<exists>a' b'. run_steps (kv_step sz1 ps1) a ms1 = Some a'
     \<and> run_steps (kv_step sz2 ps2) b (snap # ms2) = Some b' \<and> kv_data b' = kv_data a'"
proof -
  have "run_steps (kv_step sz2 ps2) b (snap # ms2)
      = Some (kv_run ys (kv_decodedSnapshot b (kv_encodeSnapshot (kv_run xs a))))"
    using run_steps_carries [OF assms(2)] kv_step_snap [OF assms(3,4)] by simp
  moreover have "kv_data (kv_run ys (kv_decodedSnapshot b (kv_encodeSnapshot (kv_run xs a))))
      = kv_data (kv_run ys (kv_run xs a))"
    by (rule kv_run_data) (rule kv_restore)
  ultimately show ?thesis using run_steps_carries [OF assms(1)] by simp
qed

theorem kv_snapshot_then_suffix_witness:
  "\<exists>a' b'. run_steps (kv_step length MakePersister) (kv_initial 0 (-1))
       [cmdMsg 1 1 (ex_kvop ''Put'' ''a'' 1 1), cmdMsg 2 1 (ex_kvop ''Append'' ''b'' 1 2)] = Some a'
     \<and> run_steps (kv_step length MakePersister) (kv_initial 1 100)
       [snapMsg 1 1 (kv_encodeSnapshot (kv_apply (kv_initial 0 (-1)) (ex_kvop ''Put'' ''a'' 1 1))),
        cmdMsg 2 3 (ex_kvop ''Append'' ''b'' 1 2)] = Some b'
     \<and> kv_data b' = kv_data a'"
  using kv_snapshot_then_suffix [of "[cmdMsg 1 1 (ex_kvop ''Put'' ''a'' 1 1), cmdMsg 2 1 (ex_kvop ''Append'' ''b'' 1 2)]"
      "[ex_kvop ''Put'' ''a'' 1 1]" "[ex_kvop ''Append'' ''b'' 1 2]" "[cmdMsg 2 3 (ex_kvop ''Append'' ''b'' 1 2)]"
      "snapMsg 1 1 (kv_encodeSnapshot (kv_apply (kv_initial 0 (-1)) (ex_kvop ''Put'' ''a'' 1 1)))"
      "kv_initial 0 (-1)" length MakePersister length MakePersister "kv_initial 1 100"]
  by (simp add: cmdMsg_def snapMsg_def)

section \<open>Answers\<close>

text \<open>The record of executed commands is exact when clerks number upwards.\<close>

lemma kv_run_clerkLog:
  "in_order (kv_clerkLog kv) ops \<Longrightarrow>
     kv_done (kv_run ops kv) c i \<longleftrightarrow> kv_done kv c i \<or> (\<exists>op \<in> set ops. o_Clerk op = c \<and> o_Index op \<ge> i)"
proof (induction ops arbitrary: kv)
  case (Cons op ops)
  have new: "\<not> kv_seen kv op" using Cons.prems by (auto simp: kv_done_def split: option.splits)
  have nxt: "in_order (kv_clerkLog (kv_execute kv op)) ops"
    using Cons.prems by (simp only: kv_execute_simps in_order.simps)
  have "kv_done (kv_execute kv op) c i \<longleftrightarrow> kv_done kv c i \<or> o_Clerk op = c \<and> o_Index op \<ge> i"
    using new by (auto simp: kv_done_def split: option.splits)
  with new Cons.IH [OF nxt] show ?case by (auto simp: kv_apply_def)
qed simp

lemma kv_done_log:
  assumes "in_order Map.empty (firsts log)"
  shows "kv_done (kv_run log (kv_initial self maxraftstate)) c i
     \<longleftrightarrow> (\<exists>op \<in> set log. o_Clerk op = c \<and> o_Index op \<ge> i)"
  using kv_run_clerkLog [of "kv_initial self maxraftstate" "firsts log" c i] assms
  by (simp add: kvd.fold_firsts [of log]) (simp add: kv_initial_def kv_done_def)

text \<open>
  An acknowledged write is in the log.  A server that has applied \<open>log\<close> answers a \<open>PutAppend\<close> at once,
  without a new log entry, exactly when the log holds a command of that clerk with that number or a
  later one; the answer is then a success.
\<close>

theorem kv_early_answer_exact:
  assumes "in_order Map.empty (firsts log)"
  shows "kv_PutAppendCheck (kv_run log (kv_initial self maxraftstate)) args =
    (if \<exists>op \<in> set log. o_Clerk op = pa_ClerkID args \<and> o_Index op \<ge> pa_CmdIndex args
     then Some \<lparr>pr_WrongLeader = False, pr_Err = OK\<rparr> else None)"
  using kv_done_log [OF assms] by (simp add: kv_PutAppendCheck_def)

definition ex_putargs :: PutAppendArgs where
  "ex_putargs = \<lparr>pa_Key = ''x'', pa_Value = ''b'', pa_Op = ''Append'', pa_ClerkID = 2, pa_CmdIndex = 1\<rparr>"

lemma ex_kvlog_in_order: "in_order Map.empty (firsts ex_kvlog)"
  by (simp add: firsts_def ex_kvlog_def ex_kvop_def)

theorem kv_early_answer_exact_witness:
  "in_order Map.empty (firsts ex_kvlog)
   \<and> kv_PutAppendCheck (kv_run ex_kvlog (kv_initial 0 (-1))) ex_putargs = Some \<lparr>pr_WrongLeader = False, pr_Err = OK\<rparr>"
proof -
  have "\<exists>op \<in> set ex_kvlog. o_Clerk op = pa_ClerkID ex_putargs \<and> o_Index op \<ge> pa_CmdIndex ex_putargs"
    by (simp add: ex_kvlog_def ex_kvop_def ex_putargs_def)
  with kv_early_answer_exact [OF ex_kvlog_in_order, of 0 "-1" ex_putargs] ex_kvlog_in_order
  show ?thesis by simp
qed

text \<open>
  A \<open>Get\<close> returns the committed value.  A handler that is notified with the term it started in
  answers with the value that the first copies of the commands applied so far give the key, or with
  \<open>ErrNoKey\<close> and the empty string when they give none; on a time-out or another term it asks the clerk
  to retry.
\<close>

theorem kv_get_answer:
  assumes "in_order Map.empty (firsts log)"
  shows "kv_GetWake (kv_run log (kv_initial self maxraftstate)) args t w =
    (if w = Notified t
     then (case fold kv_spec (firsts log) Map.empty (ga_Key args) of
         Some v \<Rightarrow> \<lparr>gr_WrongLeader = False, gr_Err = OK, gr_Value = v\<rparr>
       | None \<Rightarrow> \<lparr>gr_WrongLeader = False, gr_Err = ErrNoKey, gr_Value = []\<rparr>)
     else \<lparr>gr_WrongLeader = True, gr_Err = ErrNoKey, gr_Value = []\<rparr>)"
proof -
  have "kv_kvDB (kv_run log (kv_initial self maxraftstate)) = fold kv_spec (firsts log) Map.empty"
    using kv_run_in_order [of "kv_initial self maxraftstate" "firsts log"] assms(1)
    by (simp add: kvd.fold_firsts [of log]) (simp add: kv_initial_def)
  then show ?thesis by (auto simp: kv_GetWake_def Let_def split: wakeup.splits option.splits)
qed

definition ex_getargs :: GetArgs where
  "ex_getargs = \<lparr>ga_Key = ''x'', ga_ClerkID = 3, ga_CmdIndex = 1\<rparr>"

theorem kv_get_answer_witness:
  "in_order Map.empty (firsts ex_kvlog)
   \<and> kv_GetWake (kv_run ex_kvlog (kv_initial 0 (-1))) ex_getargs 4 (Notified 4)
     = \<lparr>gr_WrongLeader = False, gr_Err = OK, gr_Value = ''abc''\<rparr>"
proof -
  have "fold kv_spec (firsts ex_kvlog) Map.empty (ga_Key ex_getargs) = Some ''abc''"
    by (simp add: firsts_def ex_kvlog_def ex_kvop_def kv_spec_def ex_getargs_def)
  with kv_get_answer [OF ex_kvlog_in_order, of 0 "-1" ex_getargs 4 "Notified 4"] ex_kvlog_in_order
  show ?thesis by simp
qed

text \<open>
  The clerk mistakes a value for an error.  It compares the returned value, not the error field,
  with \<open>ErrNoKey\<close>: a key whose stored value is the string \<open>ErrNoKey\<close> reads as the empty string.
\<close>

theorem ck_Get_confuses_value:
  assumes "kv_kvDB kv key = Some ErrNoKey"
  shows "map_option snd (ck_Get ck key (\<lambda>args. [\<lambda>server. Some (kv_GetWake kv args t (Notified t))])) = Some ''''"
  using assms by (simp add: ck_Get_def Let_def kv_GetWake_def)

theorem ck_Get_confuses_value_witness:
  "kv_kvDB (kv_apply (kv_initial 0 (-1)) (ex_kvop ''Put'' ErrNoKey 1 1)) ''x'' = Some ErrNoKey
   \<and> map_option snd (ck_Get (MakeClerk 3 7) ''x''
      (\<lambda>args. [\<lambda>server. Some (kv_GetWake (kv_apply (kv_initial 0 (-1)) (ex_kvop ''Put'' ErrNoKey 1 1)) args 2 (Notified 2))]))
     = Some ''''"
proof -
  have "kv_kvDB (kv_apply (kv_initial 0 (-1)) (ex_kvop ''Put'' ErrNoKey 1 1)) ''x'' = Some ErrNoKey"
    by (simp add: kv_apply_def kv_done_def kv_initial_def ex_kvop_def kv_spec_def)
  with ck_Get_confuses_value [OF this, of "MakeClerk 3 7" 2] show ?thesis by simp
qed

section \<open>The clerk's loop\<close>

text \<open>The tries of a clerk that starts with \<open>leader\<close> all fail.\<close>

fun fails_until :: "Clerk \<Rightarrow> nat \<Rightarrow> (nat \<Rightarrow> PutAppendReply option) list \<Rightarrow> bool" where
  "fails_until ck leader [] = True"
| "fails_until ck leader (call # calls) =
     ((case call leader of None \<Rightarrow> True | Some r \<Rightarrow> pr_WrongLeader r \<or> pr_Err r \<noteq> OK)
      \<and> fails_until ck ((leader + 1) mod ck_servers ck) calls)"

lemma fails_until_frame:
  "ck_servers ck' = ck_servers ck \<Longrightarrow> fails_until ck' leader pre = fails_until ck leader pre"
  by (induction pre arbitrary: leader) simp_all

lemma ck_PutAppendLoop_tries:
  assumes "fails_until ck leader pre" and "leader < ck_servers ck"
  shows "ck_PutAppendLoop ck leader (pre @ calls)
     = ck_PutAppendLoop ck ((leader + length pre) mod ck_servers ck) calls"
  using assms
proof (induction pre arbitrary: leader)
  case (Cons c pre)
  let ?l = "(leader + 1) mod ck_servers ck"
  have step: "ck_PutAppendLoop ck leader ((c # pre) @ calls) = ck_PutAppendLoop ck ?l (pre @ calls)"
    and rest: "fails_until ck ?l pre"
    using Cons.prems by (auto split: option.splits)
  have "?l < ck_servers ck" using Cons.prems(2) by simp
  from Cons.IH [OF rest this] show ?case unfolding step by (simp add: mod_simps)
qed simp

text \<open>
  The clerk finds the leader.  While every try before fails, the clerk asks the servers in turn; as
  soon as the server it asks confirms, \<open>PutAppend\<close> returns, and the clerk has remembered that server
  and has used exactly one new command number, the same for all tries.
\<close>

theorem ck_PutAppend_returns:
  assumes "ck_leader ck < ck_servers ck" and "fails_until ck (ck_leader ck) pre"
    and "call ((ck_leader ck + length pre) mod ck_servers ck) = Some \<lparr>pr_WrongLeader = False, pr_Err = OK\<rparr>"
    and "net \<lparr>pa_Key = key, pa_Value = value, pa_Op = oper, pa_ClerkID = ck_me ck,
               pa_CmdIndex = ck_cmdIndex ck + 1\<rparr> = pre @ call # later"
  shows "ck_PutAppend ck key value oper net =
     Some (ck\<lparr>ck_cmdIndex := ck_cmdIndex ck + 1, ck_leader := (ck_leader ck + length pre) mod ck_servers ck\<rparr>)"
  using ck_PutAppendLoop_tries [of "ck\<lparr>ck_cmdIndex := ck_cmdIndex ck + 1\<rparr>" "ck_leader ck" pre "call # later"]
    assms fails_until_frame [of "ck\<lparr>ck_cmdIndex := ck_cmdIndex ck + 1\<rparr>" ck]
  by (simp add: ck_PutAppend_def Let_def)

definition ex_net :: "nat \<Rightarrow> PutAppendReply option" where
  "ex_net s = Some \<lparr>pr_WrongLeader = (s \<noteq> 2), pr_Err = OK\<rparr>"

theorem ck_PutAppend_returns_witness:
  "ck_PutAppend (MakeClerk 3 7) ''x'' ''a'' ''Put'' (\<lambda>args. [\<lambda>s. None, ex_net, ex_net])
   = Some \<lparr>ck_servers = 3, ck_leader = 2, ck_me = 7, ck_cmdIndex = 1\<rparr>"
proof -
  have "fails_until (MakeClerk 3 7) 0 [\<lambda>s. None, ex_net]"
    by (simp add: MakeClerk_def ex_net_def)
  then show ?thesis
    using ck_PutAppend_returns [of "MakeClerk 3 7" "[\<lambda>s. None, ex_net]" ex_net "\<lambda>args. [\<lambda>s. None, ex_net, ex_net]"
      "''x''" "''a''" "''Put''" "[]"]
    by (simp add: MakeClerk_def ex_net_def)
qed

section \<open>Notification channels\<close>

text \<open>
  Two waiting handlers of one index bring the server down.  When a server starts a command at an
  index, loses the leadership, becomes leader again and starts another command at the same index
  before the first handler has given up, the second channel replaces the first in \<open>msgCh\<close>; the first
  handler's \<open>closeCh\<close> then closes the channel of the second, and the second one's closes a nil
  channel, which panics.
\<close>

theorem kv_closeCh_panics:
  assumes "kv_PutAppendEnter kv (index, term1, True) = (kv1, Wait index term1 ch1)"
    and "kv_PutAppendEnter kv1 (index, term2, True) = (kv2, Wait index term2 ch2)"
  shows "ch1 \<noteq> ch2 \<and> kv_msgCh kv2 index = Some ch2
     \<and> (\<exists>kv3. kv_closeCh kv2 index = Some kv3 \<and> kv_closeCh kv3 index = None)"
  using assms by (auto simp: kv_PutAppendEnter_def kv_closeCh_def)

theorem kv_closeCh_panics_witness:
  "\<exists>kv1 kv2 kv3. kv_PutAppendEnter (kv_initial 0 (-1)) (5, 1, True) = (kv1, Wait 5 1 0)
     \<and> kv_PutAppendEnter kv1 (5, 3, True) = (kv2, Wait 5 3 1)
     \<and> kv_closeCh kv2 5 = Some kv3 \<and> kv_closeCh kv3 5 = None"
proof -
  obtain kv1 where 1: "kv_PutAppendEnter (kv_initial 0 (-1)) (5, 1, True) = (kv1, Wait 5 1 0)"
    and n: "kv_chans kv1 = 1"
    by (simp add: kv_PutAppendEnter_def kv_initial_def)
  obtain kv2 where 2: "kv_PutAppendEnter kv1 (5, 3, True) = (kv2, Wait 5 3 1)"
    by (simp add: kv_PutAppendEnter_def n)
  from kv_closeCh_panics [OF 1 2] 1 2 show ?thesis by blast
qed

end
