(* ===== verification/KV_Node.thy ===== *)
theory KV_Node
  imports Raft_Votes Raft_Replication KV_Service
begin

text \<open>
  One replica of the key/value service: a Raft peer and the server that consumes its apply channel
  (\<^verbatim>\<open>src/src/raft/raft.go\<close> and \<^verbatim>\<open>src/src/kvraft/server.go\<close> together).

  A step of the node is a step of the peer followed by the server reading whatever the peer has sent
  on the apply channel.  The snapshots the server asks for are taken by goroutines of their own, so
  they are kept in a list of requests that later steps serve in any order.  \<open>H\<close> is a history
  variable: the commands committed so far.
\<close>

section \<open>The node\<close>

type_synonym kvmsg = "(kvop, kvval) applymsg"
type_synonym snapreq = "kvval list \<times> int \<times> int"

fun kv_drain :: "((kvop, kvval) rval list \<Rightarrow> nat) \<Rightarrow> ((kvop, kvval) rval, kvval) persister \<Rightarrow> KVServer
    \<Rightarrow> kvmsg list \<Rightarrow> (KVServer \<times> snapreq list) option" where
  "kv_drain sz ps kv [] = Some (kv, [])"
| "kv_drain sz ps kv (m # ms) =
     (case kv_receiveNewMsg sz kv ps m of None \<Rightarrow> None
      | Some (kv', note, req) \<Rightarrow>
          (case kv_drain sz ps kv' ms of None \<Rightarrow> None
           | Some (kv'', reqs) \<Rightarrow> Some (kv'', (case req of None \<Rightarrow> reqs | Some r \<Rightarrow> r # reqs))))"

text \<open>The messages a step has sent, and the commands among them.\<close>

definition newMsgs :: "kvraft \<Rightarrow> kvraft \<Rightarrow> kvmsg list" where
  "newMsgs rf rf' = drop (length (applyCh rf)) (applyCh rf')"

fun msgOp :: "kvmsg \<Rightarrow> kvop option" where
  "msgOp m = (case am_Command m of IOp op \<Rightarrow> Some op | _ \<Rightarrow> None)"

definition newOps :: "kvraft \<Rightarrow> kvraft \<Rightarrow> kvop list" where
  "newOps rf rf' = List.map_filter msgOp (newMsgs rf rf')"

type_synonym kvnode = "kvop list \<times> kvraft \<times> KVServer \<times> snapreq list"

text \<open>
  The handlers accept more than a sound cluster sends, so a step is labelled with what its message is:
  \<open>Expected\<close>, or one of four kinds that nothing in the code keeps out.  \<open>ConflictingEntries\<close>: entries that
  are not numbered commands or contradict what this peer has committed (against Raft's State Machine
  Safety).  \<open>ForeignReply\<close>: an append reply about entries beyond the leader's log.  \<open>OldSnapshot\<close>: a snapshot
  of committed commands, but older than what this node has applied.  \<open>ForeignSnapshot\<close>: a snapshot that is no
  server's state after as many commands as its index says.
\<close>

datatype kvlabel = Expected | ConflictingEntries | ForeignReply | OldSnapshot | ForeignSnapshot

definition entriesOk :: "kvraft \<Rightarrow> (kvop, kvval) AppendEntriesArgs \<Rightarrow> bool" where
  "entriesOk rf args \<longleftrightarrow> numbered (PrevLogIndex args + 1) (ae_Entries args)
     \<and> (\<forall>e \<in> set (ae_Entries args). \<exists>op. e_Command e = IOp op)
     \<and> (\<forall>j < length (ae_Entries args). PrevLogIndex args + 1 + int j \<le> commitIndex rf \<longrightarrow>
          hasTerm rf (PrevLogIndex args + 1 + int j) (e_Term (ae_Entries args ! j)))"

definition snapshotOf :: "kvop list \<Rightarrow> kvval InstallSnapshotArgs \<Rightarrow> bool" where
  "snapshotOf H iargs \<longleftrightarrow> int (length H) = is_LastIncludedIndex iargs
     \<and> (\<exists>kv. is_Data iargs = kv_encodeSnapshot kv \<and> kv_data kv = kv_data (kv_run H (kv_initial 0 0)))"

text \<open>\<open>kv_node L\<close>: what a node can reach by steps labelled in \<open>L\<close>.\<close>

inductive kv_node_step ::
    "((kvop, kvval) rval list \<Rightarrow> nat) \<Rightarrow> nat \<Rightarrow> nat \<Rightarrow> int \<Rightarrow> kvlabel \<Rightarrow> kvnode \<Rightarrow> kvnode \<Rightarrow> bool"
  for sz n self maxraftstate where
  ns_append: "l = (if entriesOk rf args then Expected else ConflictingEntries) \<Longrightarrow> AppendEntries rf args = Some (rf', reply) \<Longrightarrow>
     kv_drain sz (persister rf') kv (newMsgs rf rf') = Some (kv', rs') \<Longrightarrow>
     kv_node_step sz n self maxraftstate l (H, rf, kv, rs) (H @ newOps rf rf', rf', kv', rs @ rs')"
| ns_reply: "l = (if PrevLogIndex args + int (length (ae_Entries args)) \<le> getLastLogIndex rf then Expected else ForeignReply) \<Longrightarrow>
     broadcastReply rf bc server args reply = Some (rf', bc', again) \<Longrightarrow>
     kv_drain sz (persister rf') kv (newMsgs rf rf') = Some (kv', rs') \<Longrightarrow>
     kv_node_step sz n self maxraftstate l (H, rf, kv, rs) (H @ newOps rf rf', rf', kv', rs @ rs')"
| ns_start: "Start rf op = (rf', res) \<Longrightarrow>
     kv_node_step sz n self maxraftstate Expected (H, rf, kv, rs) (H, rf', kv, rs)"
| ns_vote: "RequestVote rf vargs = Some (rf', vreply) \<Longrightarrow>
     kv_node_step sz n self maxraftstate Expected (H, rf, kv, rs) (H, rf', kv, rs)"
| ns_wake: "mainSelect rf r w = Some rf' \<Longrightarrow>
     kv_node_step sz n self maxraftstate Expected (H, rf, kv, rs) (H, rf', kv, rs)"
| ns_election: "electionReply rf el ereply = (rf', el') \<Longrightarrow>
     kv_node_step sz n self maxraftstate Expected (H, rf, kv, rs) (H, rf', kv, rs)"
| ns_snapreply: "sendSnapshotReply rf server iargs ireply = Some rf' \<Longrightarrow>
     kv_node_step sz n self maxraftstate Expected (H, rf, kv, rs) (H, rf', kv, rs)"
| ns_take: "(snap, i, t) \<in> set rs \<Longrightarrow> TakeSnapshot rf snap i t = Some rf' \<Longrightarrow>
     kv_node_step sz n self maxraftstate Expected (H, rf, kv, rs) (H, rf', kv, rs)"
| ns_install: "l = (if \<not> snapshotOf H2 iargs then ForeignSnapshot
        else if commitIndex rf \<le> is_LastIncludedIndex iargs then Expected else OldSnapshot) \<Longrightarrow>
     InstallSnapshot rf iargs = Some (rf', ireply) \<Longrightarrow>
     kv_drain sz (persister rf') kv (newMsgs rf rf') = Some (kv', rs') \<Longrightarrow>
     kv_node_step sz n self maxraftstate l (H, rf, kv, rs)
       (if newMsgs rf rf' = [] then H else H2, rf', kv', rs @ rs')"
| ns_get: "kv_GetEnter kv gargs started = (kv', gpend) \<Longrightarrow>
     kv_node_step sz n self maxraftstate Expected (H, rf, kv, rs) (H, rf, kv', rs)"
| ns_put: "kv_PutAppendEnter kv started = (kv', ppend) \<Longrightarrow>
     kv_node_step sz n self maxraftstate Expected (H, rf, kv, rs) (H, rf, kv', rs)"
| ns_close: "kv_closeCh kv index = Some kv' \<Longrightarrow>
     kv_node_step sz n self maxraftstate Expected (H, rf, kv, rs) (H, rf, kv', rs)"
| ns_restart: "StartKVServer n self (persister rf) maxraftstate = Some (kv', rf') \<Longrightarrow>
     kv_node_step sz n self maxraftstate Expected (H, rf, kv, rs) (take (nat (lastIncludedIndex rf)) H, rf', kv', [])"

inductive kv_node ::
    "((kvop, kvval) rval list \<Rightarrow> nat) \<Rightarrow> nat \<Rightarrow> nat \<Rightarrow> int \<Rightarrow> kvlabel set \<Rightarrow> kvnode \<Rightarrow> bool"
  for sz n self maxraftstate L where
  kn_boot: "StartKVServer n self MakePersister maxraftstate = Some (kv, rf) \<Longrightarrow>
     kv_node sz n self maxraftstate L ([], rf, kv, [])"
| kn_step: "kv_node sz n self maxraftstate L s \<Longrightarrow> l \<in> L \<Longrightarrow> kv_node_step sz n self maxraftstate l s s' \<Longrightarrow>
     kv_node sz n self maxraftstate L s'"

section \<open>The invariant\<close>

definition cmdAt :: "kvraft \<Rightarrow> int \<Rightarrow> kvop option" where
  "cmdAt rf i = (case logAt rf i of None \<Rightarrow> None
     | Some e \<Rightarrow> (case e_Command e of IOp op \<Rightarrow> Some op | _ \<Rightarrow> None))"

definition cmdsOk :: "kvraft \<Rightarrow> bool" where
  "cmdsOk rf \<longleftrightarrow> (\<forall>i. lastIncludedIndex rf < i \<and> i \<le> getLastLogIndex rf \<longrightarrow> cmdAt rf i \<noteq> None)"

text \<open>The server state after a list of commands.\<close>

abbreviation stateAfter :: "kvop list \<Rightarrow> (string \<rightharpoonup> string) \<times> (int \<rightharpoonup> int)" where
  "stateAfter H \<equiv> kv_data (kv_run H (kv_initial 0 0))"

definition peerRep :: "kvop list \<Rightarrow> kvraft \<Rightarrow> bool" where
  "peerRep H rf \<longleftrightarrow> raft_wf rf \<and> saved rf \<and> cmdsOk rf \<and> int (length H) = commitIndex rf
     \<and> (\<forall>i. lastIncludedIndex rf < i \<and> i \<le> commitIndex rf \<longrightarrow> cmdAt rf i = Some (H ! nat (i - 1)))
     \<and> (if lastIncludedIndex rf = 0 then ReadSnapshot (persister rf) = []
        else \<exists>kv. ReadSnapshot (persister rf) = kv_encodeSnapshot kv
               \<and> kv_data kv = stateAfter (take (nat (lastIncludedIndex rf)) H))"

definition reqRep :: "kvop list \<Rightarrow> kvraft \<Rightarrow> snapreq \<Rightarrow> bool" where
  "reqRep H rf req = (case req of (snap, i, t) \<Rightarrow> i \<le> lastIncludedIndex rf \<or> i \<le> commitIndex rf
     \<and> (\<exists>kv. snap = kv_encodeSnapshot kv \<and> kv_data kv = stateAfter (take (nat i) H)))"

definition nodeRep :: "kvnode \<Rightarrow> bool" where
  "nodeRep s = (case s of (H, rf, kv, rs) \<Rightarrow>
     peerRep H rf \<and> kv_data kv = stateAfter H \<and> (\<forall>r \<in> set rs. reqRep H rf r))"

section \<open>Delivering commands\<close>

fun deliv :: "int \<Rightarrow> kvmsg list \<Rightarrow> kvop list \<Rightarrow> bool" where
  "deliv a [] [] = True"
| "deliv a (m # ms) (op # ops) =
     (CommandValid m \<and> am_Command m = IOp op \<and> CommandIndex m = a \<and> deliv (a + 1) ms ops)"
| "deliv a _ _ = False"

lemma deliv_ops: "deliv a ms ops \<Longrightarrow> List.map_filter msgOp ms = ops"
  by (induction a ms ops rule: deliv.induct) (auto simp: List.map_filter_def)

text \<open>The server applies the commands in order; each snapshot it asks for is its state right after the
  command with that index.\<close>

lemma kv_drain_deliv:
  assumes "deliv a ms ops"
  shows "\<exists>rs. kv_drain sz ps kv ms = Some (kv_run ops kv, rs)
     \<and> (\<forall>(snap, i, t) \<in> set rs. a \<le> i \<and> i < a + int (length ops)
          \<and> snap = kv_encodeSnapshot (kv_run (take (nat (i - a + 1)) ops) kv))"
  using assms
proof (induction a ms ops arbitrary: kv rule: deliv.induct)
  case (2 a m ms op ops)
  let ?kv = "kv_apply kv op"
  obtain rs where rs: "kv_drain sz ps ?kv ms = Some (kv_run ops ?kv, rs)"
    "\<forall>(snap, i, t) \<in> set rs. a + 1 \<le> i \<and> i < a + 1 + int (length ops)
       \<and> snap = kv_encodeSnapshot (kv_run (take (nat (i - (a + 1) + 1)) ops) ?kv)"
    using "2.IH" [of ?kv] "2.prems" by auto
  have recv: "kv_receiveNewMsg sz kv ps m = Some (?kv, map_option (\<lambda>ch. (ch, CommitTerm m)) (kv_msgCh ?kv a),
      kv_checkState sz ?kv ps a (CommitTerm m))"
    using "2.prems" by (simp add: kv_receiveNewMsg_def Let_def)
  let ?req = "kv_checkState sz ?kv ps a (CommitTerm m)"
  have req: "?req = Some (snap, i, t) \<Longrightarrow> i = a \<and> snap = kv_encodeSnapshot ?kv" for snap i t
    by (auto simp: kv_checkState_def split: if_splits)
  have step: "kv_run (take (nat (i - a + 1)) (op # ops)) kv = kv_run (take (nat (i - (a + 1) + 1)) ops) ?kv"
    if "a + 1 \<le> i" for i
  proof -
    have "nat (i - a + 1) = Suc (nat (i - (a + 1) + 1))" using that by linarith
    then show ?thesis by simp
  qed
  have rest: "\<forall>(snap, i, t) \<in> set rs. a \<le> i \<and> i < a + int (length (op # ops))
       \<and> snap = kv_encodeSnapshot (kv_run (take (nat (i - a + 1)) (op # ops)) kv)"
    using rs(2) step by (auto simp: split_beta)
  have "kv_drain sz ps kv (m # ms)
      = Some (kv_run (op # ops) kv, case ?req of None \<Rightarrow> rs | Some r \<Rightarrow> r # rs)"
    using recv rs(1) by simp
  moreover have "\<forall>(snap, i, t) \<in> set (case ?req of None \<Rightarrow> rs | Some r \<Rightarrow> r # rs).
      a \<le> i \<and> i < a + int (length (op # ops))
       \<and> snap = kv_encodeSnapshot (kv_run (take (nat (i - a + 1)) (op # ops)) kv)"
    using rest req by (cases ?req) auto
  ultimately show ?case by blast
qed auto

lemma deliv_log:
  assumes "\<forall>i \<in> {a..b}. cmdAt rf i \<noteq> None"
  shows "deliv a (map (applyMsgAt rf) [a..b]) (map (the \<circ> cmdAt rf) [a..b])"
  using assms
proof (induction "nat (b - a + 1)" arbitrary: a)
  case 0
  then show ?case by simp
next
  case (Suc k)
  then have le: "a \<le> b" by linarith
  have "cmdAt rf a \<noteq> None" using Suc.prems le by auto
  then have "am_Command (applyMsgAt rf a) = IOp (the (cmdAt rf a))"
    by (auto simp: cmdAt_def applyMsgAt_def split: option.splits iface.splits)
  moreover have "deliv (a + 1) (map (applyMsgAt rf) [a + 1..b]) (map (the \<circ> cmdAt rf) [a + 1..b])"
    by (rule Suc.hyps(1)) (use Suc in auto)
  ultimately show ?case using le by (simp add: upto_rec1 [of a b] applyMsgAt_def)
qed

section \<open>Steps that deliver\<close>

text \<open>What a step of the peer promises to the server: committed entries stay, and the newly committed
  ones are sent in order.\<close>

definition delivers :: "kvraft \<Rightarrow> kvraft \<Rightarrow> bool" where
  "delivers rf rf' \<longleftrightarrow> raft_wf rf' \<and> saved rf' \<and> cmdsOk rf'
     \<and> lastIncludedIndex rf' = lastIncludedIndex rf \<and> commitIndex rf \<le> commitIndex rf'
     \<and> (\<forall>i \<le> commitIndex rf. logAt rf' i = logAt rf i)
     \<and> applyCh rf' = applyCh rf @ map (applyMsgAt rf') [commitIndex rf + 1..commitIndex rf']
     \<and> ReadSnapshot (persister rf') = ReadSnapshot (persister rf)"

lemma take_nat_append: "i \<le> int (length H) \<Longrightarrow> take (nat i) (H @ ops) = take (nat i) H"
  by (simp add: nat_le_iff)

lemma stateAfter_append:
  "kv_data kv = stateAfter H \<Longrightarrow> kv_data (kv_run ops kv) = stateAfter (H @ ops)"
  using kv_run_data [of kv "kv_run H (kv_initial 0 0)" ops] by simp

lemma reqRep_append:
  assumes "reqRep H rf r" "int (length H) = commitIndex rf" "lastIncludedIndex rf' = lastIncludedIndex rf"
    "commitIndex rf \<le> commitIndex rf'"
  shows "reqRep (H @ ops) rf' r"
  using assms by (cases r) (auto simp: reqRep_def take_nat_append simp del: take_append)

lemma peerRep_delivers:
  assumes rep: "peerRep H rf" and d: "delivers rf rf'"
    and ops: "ops = map (the \<circ> cmdAt rf') [commitIndex rf + 1..commitIndex rf']"
  shows "peerRep (H @ ops) rf'"
proof -
  have len: "int (length H) = commitIndex rf" and wf: "raft_wf rf'" "cmdsOk rf'"
    and c: "commitIndex rf \<le> commitIndex rf'" and lii: "lastIncludedIndex rf' = lastIncludedIndex rf"
    and lo: "0 \<le> lastIncludedIndex rf" "lastIncludedIndex rf \<le> commitIndex rf"
    using rep d by (auto simp: peerRep_def delivers_def raft_wf_def log_wf_def)
  have "cmdAt rf' i = Some ((H @ ops) ! nat (i - 1))"
    if i: "lastIncludedIndex rf' < i" "i \<le> commitIndex rf'" for i
  proof (cases "i \<le> commitIndex rf")
    case True
    then have "cmdAt rf' i = cmdAt rf i" using d by (simp add: delivers_def cmdAt_def)
    moreover have "nat (i - 1) < length H" using True i lo lii len by linarith
    ultimately show ?thesis using rep i True lii by (simp add: peerRep_def nth_append)
  next
    case False
    let ?k = "nat (i - commitIndex rf - 1)"
    have "cmdAt rf' i \<noteq> None" using wf i by (auto simp: cmdsOk_def raft_wf_def)
    moreover have "ops ! ?k = the (cmdAt rf' i)" using False i by (simp add: ops)
    moreover have "nat (i - 1) = length H + ?k" using False len by linarith
    ultimately show ?thesis by simp
  qed
  moreover have "int (length (H @ ops)) = commitIndex rf'" using len c by (simp add: ops)
  ultimately show ?thesis
    using rep d lo len by (auto simp: peerRep_def delivers_def take_nat_append)
qed

lemma node_delivers:
  assumes rep: "nodeRep (H, rf, kv, rs)" and d: "delivers rf rf'"
  shows "\<exists>kv' rs'. kv_drain sz ps kv (newMsgs rf rf') = Some (kv', rs')
     \<and> nodeRep (H @ newOps rf rf', rf', kv', rs @ rs')"
proof -
  define ops where "ops = map (the \<circ> cmdAt rf') [commitIndex rf + 1..commitIndex rf']"
  have P: "peerRep H rf" and K: "kv_data kv = stateAfter H" and R: "\<forall>r \<in> set rs. reqRep H rf r"
    using rep by (auto simp: nodeRep_def)
  have len: "int (length H) = commitIndex rf" using P by (simp add: peerRep_def)
  have lo: "lastIncludedIndex rf \<le> commitIndex rf" and c: "commitIndex rf \<le> commitIndex rf'"
    using P d by (auto simp: peerRep_def raft_wf_def log_wf_def delivers_def)
  have msgs: "newMsgs rf rf' = map (applyMsgAt rf') [commitIndex rf + 1..commitIndex rf']"
    using d by (simp add: newMsgs_def delivers_def)
  have "deliv (commitIndex rf + 1) (newMsgs rf rf') ops"
    unfolding msgs ops_def by (rule deliv_log) (use d lo in \<open>auto simp: delivers_def cmdsOk_def raft_wf_def\<close>)
  note dl = this
  from kv_drain_deliv [OF dl, of sz ps kv] obtain rs' where
    run: "kv_drain sz ps kv (newMsgs rf rf') = Some (kv_run ops kv, rs')" and
    new: "\<forall>(snap, i, t) \<in> set rs'. commitIndex rf + 1 \<le> i \<and> i < commitIndex rf + 1 + int (length ops)
       \<and> snap = kv_encodeSnapshot (kv_run (take (nat (i - (commitIndex rf + 1) + 1)) ops) kv)" by blast
  have lens: "int (length ops) = commitIndex rf' - commitIndex rf" using c by (simp add: ops_def)
  have "reqRep (H @ ops) rf' r" if "r \<in> set rs'" for r
  proof -
    obtain snap i t where r: "r = (snap, i, t)" by (cases r)
    with new that have i: "commitIndex rf + 1 \<le> i" "i < commitIndex rf + 1 + int (length ops)"
      and snap: "snap = kv_encodeSnapshot (kv_run (take (nat (i - commitIndex rf)) ops) kv)" by auto
    have "nat i = length H + nat (i - commitIndex rf)" using i len by linarith
    then have "take (nat i) (H @ ops) = H @ take (nat (i - commitIndex rf)) ops" by simp
    with stateAfter_append [OF K, of "take (nat (i - commitIndex rf)) ops"]
    have "kv_data (kv_run (take (nat (i - commitIndex rf)) ops) kv) = stateAfter (take (nat i) (H @ ops))"
      by simp
    moreover have "i \<le> commitIndex rf'" using i lens by simp
    ultimately show ?thesis unfolding reqRep_def r prod.case using snap by blast
  qed
  moreover have "reqRep (H @ ops) rf' r" if "r \<in> set rs" for r
    using R that d c len by (intro reqRep_append) (auto simp: delivers_def)
  ultimately have "nodeRep (H @ ops, rf', kv_run ops kv, rs @ rs')"
    using peerRep_delivers [OF P d ops_def] stateAfter_append [OF K] by (auto simp: nodeRep_def)
  moreover have "newOps rf rf' = ops" using deliv_ops [OF dl] by (simp add: newOps_def)
  ultimately show ?thesis using run by simp
qed

text \<open>Most steps only touch terms, votes, roles and channels.\<close>

definition quiet :: "kvraft \<Rightarrow> kvraft \<Rightarrow> bool" where
  "quiet rf rf' \<longleftrightarrow> logs rf' = logs rf \<and> lastIncludedIndex rf' = lastIncludedIndex rf
     \<and> commitIndex rf' = commitIndex rf \<and> lastApplied rf' = lastApplied rf \<and> applyCh rf' = applyCh rf
     \<and> npeers rf' = npeers rf \<and> length (nextIndex rf') = length (nextIndex rf)
     \<and> length (matchIndex rf') = length (matchIndex rf)
     \<and> ReadSnapshot (persister rf') = ReadSnapshot (persister rf)"

lemma quiet_frame:
  "quiet rf rf' \<Longrightarrow> logAt rf' = logAt rf \<and> getLastLogIndex rf' = getLastLogIndex rf
     \<and> raft_wf rf' = raft_wf rf \<and> cmdsOk rf' = cmdsOk rf"
  by (auto simp: quiet_def logAt_def idx_defs raft_wf_def log_wf_def cmdsOk_def cmdAt_def fun_eq_iff)

lemma delivers_quiet:
  "quiet rf rf' \<Longrightarrow> raft_wf rf \<Longrightarrow> cmdsOk rf \<Longrightarrow> saved rf' \<Longrightarrow> delivers rf rf'"
  using quiet_frame [of rf rf'] by (auto simp: delivers_def quiet_def)

lemma quiet_convert: "quiet rf (convertRoleTo (rf\<lparr>currentTerm := t\<rparr>) r)" "quiet rf (convertRoleTo rf r)"
  by (cases r; simp add: quiet_def convertRoleTo_def Let_def ps.snap_save)+

lemma quiet_enter: "quiet rf (ae_enter rf t)"
  by (simp add: quiet_def ae_enter_def Let_def convertRoleTo_def ps.snap_save)

text \<open>The handlers, one by one.\<close>

lemma delivers_append:
  assumes "raft_wf rf" "saved rf" "cmdsOk rf" "entriesOk rf args"
    and run: "AppendEntries rf args = Some (rf', reply)"
  shows "delivers rf rf'"
proof -
  have wf: "log_wf rf" and num: "numbered (PrevLogIndex args + 1) (ae_Entries args)"
    using assms by (auto simp: raft_wf_def entriesOk_def)
  have keep: "raft_wf rf'" "commitIndex rf \<le> commitIndex rf'" "\<forall>i \<le> commitIndex rf. logAt rf' i = logAt rf i"
    using append_keeps_committed [OF assms(1) num run] assms(4) by (auto simp: entriesOk_def)
  have sv: "saved rf'" using peer_step_append [OF _ num run] wf assms(2) by (simp add: peer_inv_def)
  have ch: "applyCh rf' = applyCh rf @ map (applyMsgAt rf') [commitIndex rf + 1..commitIndex rf']"
    using append_delivers [OF wf run] wf by (auto simp: log_wf_def)
  have enter: "cmdsOk (ae_enter rf t)"
      "ReadSnapshot (persister (ae_enter rf t)) = ReadSnapshot (persister rf)" for t
    using quiet_frame [OF quiet_enter, of rf t] quiet_enter [of rf t] assms(3) by (simp_all add: quiet_def)
  have "lastIncludedIndex rf' = lastIncludedIndex rf \<and> cmdsOk rf'
      \<and> ReadSnapshot (persister rf') = ReadSnapshot (persister rf)"
  proof (rule AppendEntries_outcomes [OF wf, of args])
    fix p assume p: "logAt rf (PrevLogIndex args) = Some p" and
      "AppendEntries rf args = Some (ae_commit (ae_merged rf args) args,
         aeReply (ae_Term args) True (-1) (-1))"
    then have rf': "rf' = ae_commit (ae_merged rf args) args" using run by simp
    note facts = ae_merged_logAt [OF p]
    let ?m = "agreeLen (logs rf) (nat (subIdx rf (PrevLogIndex args + 1))) (ae_Entries args)"
    have "cmdAt rf' i \<noteq> None" if i: "lastIncludedIndex rf < i" "i \<le> getLastLogIndex (ae_merged rf args)" for i
    proof (cases "i \<le> PrevLogIndex args + int ?m \<or> ?m = length (ae_Entries args)")
      case True
      then have "logAt (ae_merged rf args) i = logAt rf i"
        using facts(1) by (auto simp: mergeSpec_def Let_def logAt_def subIdx_def)
      moreover from this i have "i \<le> getLastLogIndex rf"
        by (metis logAt_None ae_merged_simps(2) linorder_not_le order_less_imp_le)
      ultimately show ?thesis using assms(3) i by (auto simp: rf' cmdsOk_def cmdAt_def)
    next
      case False
      define j where "j = nat (i - PrevLogIndex args - 1)"
      have j: "i = PrevLogIndex args + 1 + int j" "?m \<le> j" using False by (auto simp: j_def)
      moreover have "j < length (ae_Entries args)" using facts(4) False i j(1) by simp
      ultimately have "logAt (ae_merged rf args) i = Some (ae_Entries args ! j)"
          "ae_Entries args ! j \<in> set (ae_Entries args)" using facts(2) by auto
      with assms(4) show ?thesis by (fastforce simp: rf' cmdAt_def entriesOk_def)
    qed
    then show ?thesis
      by (auto simp: rf' cmdsOk_def ae_merged_def Let_def ae_enter_def convertRoleTo_def ps.snap_save)
  qed (use run assms(3) enter in auto)
  with keep sv ch show ?thesis by (simp add: delivers_def)
qed

lemma delivers_committed:
  assumes "raft_wf rf" "saved rf" "cmdsOk rf" "length ms = npeers rf" "length ns = npeers rf"
    and "commitIndex rf \<le> c" "c \<le> getLastLogIndex rf"
    and run: "applyLogs (rf\<lparr>matchIndex := ms, nextIndex := ns, commitIndex := c\<rparr>) = Some rf'"
  shows "delivers rf rf'"
proof -
  let ?A = "rf\<lparr>matchIndex := ms, nextIndex := ns, commitIndex := c\<rparr>"
  have la: "lastIncludedIndex rf \<le> lastApplied rf" "lastApplied rf = commitIndex rf"
    using assms(1) by (auto simp: raft_wf_def log_wf_def)
  have rf': "rf' = ?A\<lparr>applyCh := applyCh rf @ map (applyMsgAt ?A) [commitIndex rf + 1..c], lastApplied := c\<rparr>"
    using applyLogs_eq [of ?A] run la assms(6,7) by (simp add: idx_defs)
  have "saved rf'" by (rule saved_cong [THEN iffD2, OF _ _ _ _ _ _ assms(2)]) (simp_all add: rf')
  moreover have "applyMsgAt rf' = applyMsgAt ?A"
    by (simp add: rf' applyMsgAt_def logAt_def subIdx_def fun_eq_iff)
  ultimately show ?thesis
    using assms la
    by (auto simp: delivers_def rf' raft_wf_def log_wf_def idx_defs cmdsOk_def cmdAt_def logAt_def)
qed

lemma delivers_reply:
  assumes inv: "raft_wf rf" "saved rf" "cmdsOk rf"
    and len: "PrevLogIndex args + int (length (ae_Entries args)) \<le> getLastLogIndex rf"
    and run: "broadcastReply rf bc server args reply = Some (rf', bc', again)"
  shows "delivers rf rf'"
proof -
  have l: "length (matchIndex rf) = npeers rf" "length (nextIndex rf) = npeers rf" "logs rf \<noteq> []"
    using inv(1) by (auto simp: raft_wf_def log_wf_def)
  have newer: "delivers rf (convertRoleTo (rf\<lparr>currentTerm := t\<rparr>) Follower)" for t
    using l(3) by (intro delivers_quiet quiet_convert inv saved_convert) simp
  have idx: "delivers rf (rf\<lparr>matchIndex := ms, nextIndex := ns\<rparr>)"
    if "length ms = npeers rf" "length ns = npeers rf" for ms ns
    using that l inv
    by (intro delivers_quiet saved_cong [THEN iffD2, OF _ _ _ _ _ _ inv(2)]) (simp_all add: quiet_def)
  note idx1 = idx [where ms = "matchIndex rf", simplified]
    and idx2 = idx [where ms = "matchIndex rf" and ns = "nextIndex rf", simplified]
  have comm: "delivers rf r"
    if "applyLogs (rf\<lparr>matchIndex := ms, nextIndex := ns, commitIndex := c\<rparr>) = Some r"
      "length ms = npeers rf" "length ns = npeers rf" "commitIndex rf \<le> c" "c \<le> getLastLogIndex rf" for r ms ns c
    using delivers_committed [OF inv that(2-5,1)] .
  note comm1 = comm [where ms = "matchIndex rf" and ns = "nextIndex rf", simplified]
  show ?thesis
    using run newer l idx idx1 idx2 len
    by (auto simp: broadcastReply_def Let_def go_set_Some split: if_splits Option.bind_splits
        intro: comm comm1)
qed

lemma delivers_Start:
  assumes inv: "raft_wf rf" "saved rf" "cmdsOk rf" and run: "Start rf op = (rf', res)"
  shows "delivers rf rf'" "commitIndex rf' = commitIndex rf"
proof -
  have sv: "saved rf'" and wf: "log_wf rf'"
    using peer_step_Start [OF _ run] inv by (auto simp: peer_inv_def raft_wf_def)
  show "commitIndex rf' = commitIndex rf" using run by (auto simp: Start_def Let_def split: if_splits)
  show "delivers rf rf'"
  proof (cases "role rf = Leader")
    case True
    define e where "e = \<lparr>e_Term = currentTerm rf,
       e_Index = int (length (logs rf)) + lastIncludedIndex rf, e_Command = IOp op :: (kvop, kvval) iface\<rparr>"
    have rf': "rf' = persist (rf\<lparr>logs := logs rf @ [e]\<rparr>)"
      using run True by (simp add: Start_def Let_def e_def)
    have at: "logAt rf' i = (if i = getLastLogIndex rf + 1 then Some e else logAt rf i)" for i
      by (auto simp: rf' logAt_def go_idx_def idx_defs nth_append)
    have "commitIndex rf \<le> getLastLogIndex rf" using inv by (simp add: raft_wf_def)
    then have "\<forall>i \<le> commitIndex rf. logAt rf' i = logAt rf i" by (simp add: at)
    moreover have "cmdsOk rf'"
      using inv(3) by (auto simp: cmdsOk_def cmdAt_def at e_def) (simp add: rf' idx_defs)
    moreover have "raft_wf rf'" using wf inv(1) by (simp add: raft_wf_def rf' idx_defs)
    ultimately show ?thesis
      using sv by (simp add: delivers_def rf' ps.snap_save)
  next
    case False
    then have "rf' = rf" using run by (simp add: Start_def Let_def)
    then show ?thesis using inv by (intro delivers_quiet) (simp_all add: quiet_def)
  qed
qed

lemma quiet_vote:
  assumes "RequestVote rf args = Some (rf', reply)" "logs rf \<noteq> []"
  shows "quiet rf rf'"
  using assms(1) unfolding RequestVote_eq [OF assms(2)] Let_def
  by (auto simp: quiet_def rv_enter_def convertRoleTo_def ps.snap_save split: if_splits)

lemma quiet_wake: "mainSelect rf r w = Some rf' \<Longrightarrow> quiet rf rf'"
  by (cases r; cases w) (auto simp: quiet_convert split: if_splits, auto simp: quiet_def)

lemma quiet_election:
  assumes "electionReply rf el reply = (rf', el')"
  shows "quiet rf rf'"
proof -
  have "quiet rf ((convertRoleTo rf Leader)\<lparr>leaderCh := c\<rparr>)" for c
    using quiet_convert(2) [of rf Leader] by (simp add: quiet_def)
  moreover have "quiet rf rf" by (simp add: quiet_def)
  ultimately show ?thesis
    using assms quiet_convert(2) [of rf Follower]
    by (auto simp: electionReply_def Let_def split: if_splits)
qed

lemma quiet_snapreply:
  assumes "sendSnapshotReply rf server args reply = Some rf'"
  shows "quiet rf rf'"
  using assms quiet_convert(1) [of rf "ir_Term reply" Follower]
  by (auto simp: sendSnapshotReply_def go_set_Some split: if_splits Option.bind_splits)
    (auto simp: quiet_def)

section \<open>Every step keeps the invariant\<close>

lemma nodeRep_peer:
  "nodeRep (H, rf, kv, rs) \<Longrightarrow> raft_wf rf \<and> saved rf \<and> cmdsOk rf \<and> peer_inv rf \<and> log_wf rf \<and> logs rf \<noteq> []"
  by (auto simp: nodeRep_def peerRep_def peer_inv_def raft_wf_def log_wf_def)

lemma node_silent:
  assumes rep: "nodeRep (H, rf, kv, rs)" and d: "delivers rf rf'" and c: "commitIndex rf' = commitIndex rf"
  shows "nodeRep (H, rf', kv, rs)"
proof -
  have "newMsgs rf rf' = []" using d c by (simp add: newMsgs_def delivers_def)
  with node_delivers [OF rep d] show ?thesis by (simp add: newOps_def List.map_filter_def)
qed

lemma node_quiet:
  assumes rep: "nodeRep (H, rf, kv, rs)" and q: "quiet rf rf'" and "saved rf'"
  shows "nodeRep (H, rf', kv, rs)"
  using nodeRep_peer [OF rep] node_silent [OF rep delivers_quiet [OF q]] assms(3) q by (simp add: quiet_def)

lemma node_handler: "nodeRep (H, rf, kv, rs) \<Longrightarrow> kv_data kv' = kv_data kv \<Longrightarrow> nodeRep (H, rf, kv', rs)"
  by (simp add: nodeRep_def)

lemma saved_wake:
  assumes "peer_inv rf" "mainSelect rf r w = Some rf'"
  shows "saved rf'"
proof (cases "w = WTimeout")
  case True
  then have "rf' = convertRoleTo rf Candidate" using assms(2) by (cases r) auto
  then show ?thesis using assms(1) by (simp add: peer_inv_def log_wf_def saved_convert)
next
  case False
  then show ?thesis using peer_step_wake [OF assms] by (simp add: peer_inv_def)
qed

lemma saved_election:
  assumes "saved rf" "logs rf \<noteq> []" "electionReply rf el reply = (rf', el')"
  shows "saved rf'"
proof -
  have "saved ((convertRoleTo rf Leader)\<lparr>leaderCh := c\<rparr>)" for c
    using saved_convert [OF assms(2), of Leader] by (rule saved_cong [THEN iffD2, rotated -1]) simp_all
  then show ?thesis
    using assms saved_convert [of rf Follower] by (auto simp: electionReply_def Let_def split: if_splits)
qed

lemma node_take:
  assumes rep: "nodeRep (H, rf, kv, rs)" and req: "(snap, i, t) \<in> set rs"
    and run: "TakeSnapshot rf snap i t = Some rf'"
  shows "nodeRep (H, rf', kv, rs)"
proof (cases "i \<le> lastIncludedIndex rf")
  case True
  then show ?thesis using rep run by (simp add: TakeSnapshot_old)
next
  case False
  then have gt: "lastIncludedIndex rf < i" by simp
  have P: "peerRep H rf" and R: "\<forall>r \<in> set rs. reqRep H rf r" using rep by (auto simp: nodeRep_def)
  from req R have "reqRep H rf (snap, i, t)" by blast
  with False obtain kv2 where i: "i \<le> commitIndex rf"
    and snap: "snap = kv_encodeSnapshot kv2" "kv_data kv2 = stateAfter (take (nat i) H)"
    by (auto simp: reqRep_def)
  have wf: "raft_wf rf" "log_wf rf" and la: "i \<le> lastApplied rf" "i \<le> getLastLogIndex rf"
    "0 \<le> lastIncludedIndex rf" using P i by (auto simp: peerRep_def raft_wf_def log_wf_def)
  obtain r where r: "TakeSnapshot rf snap i t = Some r" "log_wf r" "saved r" "\<forall>k \<ge> i. logAt r k = logAt rf k"
    "getLastLogIndex r = getLastLogIndex rf" "commitIndex r = commitIndex rf"
    "ReadSnapshot (persister r) = snap" using TakeSnapshot_spec [OF wf(2) gt la(1,2), of snap t] by blast
  then have rf': "rf' = r" using run by simp
  have lii: "lastIncludedIndex rf' = i" "length (nextIndex rf') = length (nextIndex rf)"
    "length (matchIndex rf') = length (matchIndex rf)" "npeers rf' = npeers rf"
    using TakeSnapshot_new [OF gt la(2)] run by auto
  have at: "cmdAt rf' k = cmdAt rf k" if "i \<le> k" for k using r(4) that by (simp add: rf' cmdAt_def)
  have "raft_wf rf'" using wf r lii by (simp add: raft_wf_def rf')
  moreover have "cmdsOk rf'" using P gt at r(5) lii(1) by (auto simp: cmdsOk_def peerRep_def rf')
  moreover have "i \<noteq> 0" using gt la(3) by simp
  ultimately have "peerRep H rf'"
    using P gt at r lii(1) snap by (auto simp: peerRep_def rf')
  moreover have "reqRep H rf' r" if "r \<in> set rs" for r
    using R that gt lii(1) r(6) by (cases r) (fastforce simp: reqRep_def rf')
  ultimately show ?thesis using rep by (simp add: nodeRep_def)
qed

lemma InstallSnapshot_lengths:
  assumes "InstallSnapshot rf args = Some (rf', reply)"
  shows "length (nextIndex rf') = length (nextIndex rf) \<and> length (matchIndex rf') = length (matchIndex rf)
     \<and> npeers rf' = npeers rf"
  using assms by (auto simp: InstallSnapshot_def Let_def split: if_splits Option.bind_splits)

lemma node_install:
  assumes rep: "nodeRep (H, rf, kv, rs)"
    and snap: "is_Data args = kv_encodeSnapshot kv2" "kv_data kv2 = stateAfter H2"
      "int (length H2) = is_LastIncludedIndex args" "commitIndex rf \<le> is_LastIncludedIndex args"
    and run: "InstallSnapshot rf args = Some (rf', reply)"
    and drain: "kv_drain sz (persister rf') kv (newMsgs rf rf') = Some (kv', rs')"
  shows "nodeRep (if newMsgs rf rf' = [] then H else H2, rf', kv', rs @ rs')"
proof (cases "currentTerm rf > is_Term args \<or> is_LastIncludedIndex args \<le> lastIncludedIndex rf")
  case True
  with run have "rf' = rf" by (simp add: InstallSnapshot_stale)
  then show ?thesis using rep drain by (auto simp: newMsgs_def)
next
  case False
  let ?i = "is_LastIncludedIndex args"
  have P: "peerRep H rf" and R: "\<forall>r \<in> set rs. reqRep H rf r" using rep by (auto simp: nodeRep_def)
  have wf: "raft_wf rf" "log_wf rf" "0 \<le> lastIncludedIndex rf"
    using P by (auto simp: peerRep_def raft_wf_def log_wf_def)
  from InstallSnapshot_spec [OF wf(2), of args] False run have
    r: "log_wf rf'" "saved rf'" "lastIncludedIndex rf' = ?i" "\<forall>k > ?i. logAt rf' k = logAt rf k"
      "commitIndex rf' = max ?i (commitIndex rf)" "ReadSnapshot (persister rf') = is_Data args"
      "applyCh rf' = applyCh rf @ [\<lparr>CommandValid = False, am_Command = IBytes (is_Data args),
          CommandIndex = ?i, CommitTerm = is_LastIncludedTerm args, am_Role = role rf'\<rparr>]" by auto
  have c: "commitIndex rf' = ?i" using r(5) snap(4) by simp
  have new: "newMsgs rf rf' = [\<lparr>CommandValid = False, am_Command = IBytes (is_Data args),
      CommandIndex = ?i, CommitTerm = is_LastIncludedTerm args, am_Role = role rf'\<rparr>]"
    using r(7) by (simp add: newMsgs_def)
  have kv': "kv' = kv_decodedSnapshot kv (kv_encodeSnapshot kv2)" "rs' = []"
    using drain snap(1) by (auto simp: new kv_receiveNewMsg_def)
  have "raft_wf rf'"
    using r(1,3) c log_wf_last [OF r(1)] InstallSnapshot_lengths [OF run] wf(1) by (simp add: raft_wf_def)
  moreover have "cmdAt rf' k \<noteq> None" if "?i < k" "k \<le> getLastLogIndex rf'" for k
  proof -
    have at: "logAt rf' k = logAt rf k" using r(4) that(1) by simp
    have "logAt rf' k \<noteq> None" using that r(3) logAt_None [of rf' k] by simp
    with at have "k \<le> getLastLogIndex rf" using logAt_None [of rf k] by auto
    with P that(1) False at show ?thesis by (auto simp: peerRep_def cmdsOk_def cmdAt_def)
  qed
  moreover have "?i \<noteq> 0" using False wf(3) by auto
  ultimately have "peerRep H2 rf'" using r c snap by (auto simp: peerRep_def cmdsOk_def)
  moreover have "reqRep H2 rf' r" if "r \<in> set rs" for r
    using R that r(3) False snap(4) by (cases r) (fastforce simp: reqRep_def)
  moreover have "kv_data kv' = stateAfter H2" using kv_restore snap(2) kv' by simp
  ultimately show ?thesis by (simp add: nodeRep_def new kv')
qed

lemma node_restart:
  assumes rep: "nodeRep (H, rf, kv, rs)"
    and run: "StartKVServer n self (persister rf) maxraftstate = Some (kv', rf')"
  shows "nodeRep (take (nat (lastIncludedIndex rf)) H, rf', kv', [])"
proof -
  have P: "peerRep H rf" using rep by (simp add: nodeRep_def)
  then have wf: "log_wf rf" "saved rf" "0 \<le> lastIncludedIndex rf" "lastIncludedIndex rf \<le> int (length H)"
    by (auto simp: peerRep_def raft_wf_def log_wf_def)
  have boot: "rf' = booted n self (persister rf) (currentTerm rf) (votedFor rf) (tl (logs rf))
       (lastIncludedIndex rf) (lastIncludedTerm rf)"
    and kv': "kv' = kv_loadSnapshot (kv_initial self maxraftstate) (persister rf)"
    using run Make_saved [OF wf(2)] by (auto simp: StartKVServer_def kv_initial_def Let_def)
  from restart_spec [OF wf(2,1), of n self] have r: "log_wf rf'" "saved rf'"
    "getLastLogIndex rf' = getLastLogIndex rf" "\<forall>i > lastIncludedIndex rf. logAt rf' i = logAt rf i"
    "lastIncludedIndex rf' = lastIncludedIndex rf" "commitIndex rf' = lastIncludedIndex rf"
    using Make_saved [OF wf(2), of n self] by (auto simp: boot)
  have "raft_wf rf'" using r(1,5,6) log_wf_last [OF r(1)] by (simp add: raft_wf_def boot booted_def)
  moreover have "cmdsOk rf'" using P r by (auto simp: peerRep_def cmdsOk_def cmdAt_def)
  moreover have "persister rf' = persister rf" by (simp add: boot booted_def)
  ultimately have "peerRep (take (nat (lastIncludedIndex rf)) H) rf'"
    using P r wf(3,4) by (auto simp: peerRep_def)
  moreover have "kv_data kv' = stateAfter (take (nat (lastIncludedIndex rf)) H)"
  proof (cases "lastIncludedIndex rf = 0")
    case True
    then show ?thesis using P by (simp add: peerRep_def kv' kv_loadSnapshot_def kv_initial_def kv_data_def)
  next
    case False
    then obtain kv2 where "ReadSnapshot (persister rf) = kv_encodeSnapshot kv2"
      "kv_data kv2 = stateAfter (take (nat (lastIncludedIndex rf)) H)" using P by (auto simp: peerRep_def)
    moreover have "kv_encodeSnapshot kv2 \<noteq> []" by (simp add: kv_encodeSnapshot_data kvs.encode_nonempty)
    ultimately show ?thesis by (simp add: kv' kv_loadSnapshot_def kv_restore)
  qed
  ultimately show ?thesis by (simp add: nodeRep_def)
qed

lemma node_boot:
  assumes "StartKVServer n self MakePersister maxraftstate = Some (kv, rf)"
  shows "nodeRep ([], rf, kv, [])"
proof -
  have boot: "rf = booted n self MakePersister (-1) votedNull [] 0 (-1)"
    and kv: "kv = kv_loadSnapshot (kv_initial self maxraftstate) MakePersister"
    using assms by (auto simp: Make_fresh StartKVServer_def kv_initial_def Let_def)
  have "saved rf" unfolding boot by (rule saved_fresh)
  moreover have "raft_wf rf" by (simp add: boot booted_def raft_wf_def log_wf_def idx_defs)
  ultimately show ?thesis
    by (auto simp: nodeRep_def peerRep_def cmdsOk_def boot booted_def idx_defs kv kv_loadSnapshot_def
        ReadSnapshot_def MakePersister_def kv_initial_def kv_data_def)
qed

lemma kv_node_step_sound:
  assumes "kv_node_step sz n self maxraftstate l s s'" and "l = Expected" and "nodeRep s"
  shows "nodeRep s'"
  using assms
proof (induction rule: kv_node_step.induct)
  case (ns_append l rf args rf' reply kv kv' rs' H rs)
  then have "entriesOk rf args" by (simp split: if_splits)
  with ns_append nodeRep_peer [OF ns_append.prems(2)] have "delivers rf rf'" by (blast intro: delivers_append)
  from node_delivers [OF ns_append.prems(2) this, of sz "persister rf'"] ns_append show ?case by auto
next
  case (ns_reply l args rf bc server reply rf' bc' again kv kv' rs' H rs)
  then have "PrevLogIndex args + int (length (ae_Entries args)) \<le> getLastLogIndex rf" by (simp split: if_splits)
  with ns_reply nodeRep_peer [OF ns_reply.prems(2)] have "delivers rf rf'" by (blast intro: delivers_reply)
  from node_delivers [OF ns_reply.prems(2) this, of sz "persister rf'"] ns_reply show ?case by auto
next
  case (ns_start rf op rf' res H kv rs)
  then show ?case using nodeRep_peer [OF ns_start.prems(2)] delivers_Start [of rf op rf' res] node_silent by blast
next
  case (ns_vote rf vargs rf' vreply H kv rs)
  then show ?case
    using nodeRep_peer [OF ns_vote.prems(2)] quiet_vote vote_step_sound node_quiet by (metis peer_inv_def)
next
  case (ns_wake rf r w rf' H kv rs)
  then show ?case using nodeRep_peer [OF ns_wake.prems(2)] quiet_wake saved_wake node_quiet by metis
next
  case (ns_election rf el ereply rf' el' H kv rs)
  then show ?case using nodeRep_peer [OF ns_election.prems(2)] quiet_election saved_election node_quiet by metis
next
  case (ns_snapreply rf server iargs ireply rf' H kv rs)
  then show ?case
    using nodeRep_peer [OF ns_snapreply.prems(2)] quiet_snapreply peer_step_snapreply node_quiet
    by (metis peer_inv_def)
next
  case (ns_take snap i t rs rf rf' H kv)
  then show ?case by (blast intro: node_take)
next
  case (ns_install l H2 iargs rf rf' ireply kv kv' rs' H rs)
  then have "snapshotOf H2 iargs" "commitIndex rf \<le> is_LastIncludedIndex iargs" by (auto split: if_splits)
  then show ?case using ns_install node_install [OF ns_install.prems(2), of iargs _ H2] unfolding snapshotOf_def by blast
next
  case (ns_get kv gargs started kv' gpend H rf rs)
  then show ?case
    by (intro node_handler [OF ns_get.prems(2)]) (auto simp: kv_GetEnter_def kv_data_def Let_def split: if_splits prod.splits)
next
  case (ns_put kv started kv' ppend H rf rs)
  then show ?case
    by (intro node_handler [OF ns_put.prems(2)]) (auto simp: kv_PutAppendEnter_def kv_data_def split: if_splits prod.splits)
next
  case (ns_close kv index kv' H rf rs)
  then show ?case
    by (intro node_handler [OF ns_close.prems(2)]) (auto simp: kv_closeCh_def kv_data_def split: option.splits)
next
  case (ns_restart rf kv' rf' H kv rs)
  then show ?case by (blast intro: node_restart)
qed

lemma kv_node_rep: "kv_node sz n self maxraftstate {Expected} s \<Longrightarrow> nodeRep s"
  by (induction rule: kv_node.induct) (blast intro: node_boot kv_node_step_sound)+

text \<open>C8. End to end, one replica: as long as every message is an \<open>Expected\<close> one (leaders send numbered commands
  that agree with what the node has committed, replies are about the node's own log, and a snapshot that arrives
  is the state after the commands up to its index and not older than the node's commit index), whatever the peer
  does (elections, compaction, installed snapshots, restarts) and however its goroutines take the
  snapshots the server asked for, the server's database and record of executed commands are those of
  the committed commands, executed in log order from the empty state; the log still holds every
  committed command after the snapshot; and reading the apply channel after an \<open>AppendEntries\<close> never
  panics.  The last condition on snapshots is one the code does not check: C10 shows what an \<open>OldSnapshot\<close> does.\<close>

theorem kv_node_tracks_log:
  assumes "kv_node sz n self maxraftstate {Expected} (H, rf, kv, rs)"
  shows "int (length H) = commitIndex rf \<and> kv_data kv = kv_data (kv_run H (kv_initial self maxraftstate))
     \<and> (\<forall>i. lastIncludedIndex rf < i \<and> i \<le> commitIndex rf \<longrightarrow> cmdAt rf i = Some (H ! nat (i - 1)))
     \<and> (\<forall>args rf' reply. entriesOk rf args \<and> AppendEntries rf args = Some (rf', reply) \<longrightarrow>
          kv_drain sz (persister rf') kv (newMsgs rf rf') \<noteq> None)"
proof -
  have rep: "nodeRep (H, rf, kv, rs)" by (rule kv_node_rep [OF assms])
  have "kv_drain sz (persister rf') kv (newMsgs rf rf') \<noteq> None"
    if "entriesOk rf args" "AppendEntries rf args = Some (rf', reply)" for args rf' reply
    using node_delivers [OF rep delivers_append [OF _ _ _ that]] nodeRep_peer [OF rep] by fastforce
  moreover have "stateAfter H = kv_data (kv_run H (kv_initial self maxraftstate))"
    by (rule kv_run_data) (simp add: kv_data_def kv_initial_def)
  ultimately show ?thesis using rep by (auto simp: nodeRep_def peerRep_def)
qed

definition ex_kventry :: "int \<Rightarrow> int \<Rightarrow> kvop \<Rightarrow> (kvop, kvval) entry" where
  "ex_kventry t i op = \<lparr>e_Term = t, e_Index = i, e_Command = IOp op\<rparr>"

definition ex_kvargs :: "(kvop, kvval) AppendEntriesArgs" where
  "ex_kvargs = \<lparr>ae_Term = 1, ae_LeaderId = 1, PrevLogIndex = 0, PrevLogTerm = -1,
     ae_Entries = [ex_kventry 1 1 (ex_kvop ''Put'' ''a'' 1 1), ex_kventry 1 2 (ex_kvop ''Append'' ''b'' 1 2)],
     LeaderCommit = 2\<rparr>"

lemma ex_kv_reached: "\<exists>H rf kv rs. kv_node length 3 0 (-1) {Expected} (H, rf, kv, rs) \<and> length H = 2
    \<and> lastIncludedIndex rf = 0"
proof -
  let ?rf = "booted 3 0 MakePersister (-1) votedNull [] 0 (-1) :: kvraft"
  let ?kv = "kv_loadSnapshot (kv_initial 0 (-1)) MakePersister"
  have start: "StartKVServer 3 0 MakePersister (-1) = Some (?kv, ?rf)"
    by (simp add: Make_fresh StartKVServer_def kv_initial_def Let_def)
  then have boot: "kv_node length 3 0 (-1) {Expected} ([], ?rf, ?kv, [])" by (rule kn_boot)
  have ok: "entriesOk ?rf ex_kvargs"
    by (auto simp: entriesOk_def ex_kvargs_def ex_kventry_def booted_def)
  have rep: "nodeRep ([], ?rf, ?kv, [])" by (rule kv_node_rep [OF boot])
  have wf: "log_wf ?rf" using nodeRep_peer [OF rep] by simp
  have "logAt ?rf (PrevLogIndex ex_kvargs) = Some \<lparr>e_Term = -1, e_Index = 0, e_Command = IInt (-1)\<rparr>"
    by (simp add: ex_kvargs_def booted_def logAt_def go_idx_def subIdx_def)
  note acc = AppendEntries_accept [OF wf _ this]
  then obtain rf' reply where run: "AppendEntries ?rf ex_kvargs = Some (rf', reply)" "Success reply"
    and rf': "rf' = ae_commit (ae_merged ?rf ex_kvargs) ex_kvargs"
    by (simp add: ex_kvargs_def booted_def)
  have d: "delivers ?rf rf'" using delivers_append [OF _ _ _ ok run(1)] nodeRep_peer [OF rep] by simp
  from node_delivers [OF rep d] obtain kv' rs' where
    dr: "kv_drain length (persister rf') ?kv (newMsgs ?rf rf') = Some (kv', rs')" by blast
  note kn = kn_step [OF boot insertI1 ns_append [OF if_P [OF ok, symmetric] run(1) dr]]
  have "int (length ([] @ newOps ?rf rf')) = commitIndex rf'"
    using kv_node_rep [OF kn] by (simp add: nodeRep_def peerRep_def)
  moreover have "commitIndex rf' = min 2 (getLastLogIndex rf')"
    using append_delivers [OF wf run(1)] run(2) by (simp add: ex_kvargs_def booted_def)
  moreover have "2 \<le> getLastLogIndex rf'"
    unfolding rf' using ae_merged_last(2) [of ?rf ex_kvargs]
    by (simp add: ex_kvargs_def booted_def logAt_def go_idx_def subIdx_def)
  ultimately have "length ([] @ newOps ?rf rf') = 2" by simp
  moreover have "lastIncludedIndex rf' = 0" using d by (simp add: delivers_def booted_def)
  ultimately show ?thesis using kn by blast
qed

theorem kv_node_tracks_log_witness:
  "\<exists>H rf kv rs. kv_node length 3 0 (-1) {Expected} (H, rf, kv, rs) \<and> commitIndex rf = 2
     \<and> cmdAt rf 2 = Some (H ! 1) \<and> kv_data kv = kv_data (kv_run H (kv_initial 0 (-1)))"
proof -
  obtain H rf kv rs where k: "kv_node length 3 0 (-1) {Expected} (H, rf, kv, rs)" "length H = 2"
      "lastIncludedIndex rf = 0" using ex_kv_reached by blast
  note t = kv_node_tracks_log [OF k(1)]
  have "commitIndex rf = 2" using t k(2) by simp
  moreover from this have "cmdAt rf 2 = Some (H ! 1)" using t k(3) by simp
  ultimately show ?thesis using t k(1) by blast
qed

section \<open>Snapshots that are too old\<close>

text \<open>C10. A snapshot that is older than what the node has applied, but newer than the node's own
  snapshot, is installed all the same: the server goes back to the state of the snapshot while
  \<open>lastApplied\<close> stays, so the commands in between are gone from the database and are not delivered
  again.\<close>

theorem install_rolls_back:
  assumes "raft_wf rf" and "currentTerm rf \<le> is_Term args"
    and "lastIncludedIndex rf < is_LastIncludedIndex args" "is_LastIncludedIndex args < commitIndex rf"
    and "is_Data args = kv_encodeSnapshot kv2"
  shows "\<exists>rf' reply kv'. InstallSnapshot rf args = Some (rf', reply)
     \<and> kv_drain sz (persister rf') kv (newMsgs rf rf') = Some (kv', [])
     \<and> kv_data kv' = kv_data kv2
     \<and> lastApplied rf' = commitIndex rf \<and> commitIndex rf' = commitIndex rf
     \<and> lastIncludedIndex rf' = is_LastIncludedIndex args"
proof -
  have wf: "log_wf rf" using assms(1) by (simp add: raft_wf_def)
  from InstallSnapshot_spec [OF wf assms(2,3)] obtain rf' where
    r: "InstallSnapshot rf args = Some (rf', \<lparr>ir_Term = currentTerm rf\<rparr>)" "log_wf rf'"
      "lastIncludedIndex rf' = is_LastIncludedIndex args"
      "commitIndex rf' = max (is_LastIncludedIndex args) (commitIndex rf)"
      "applyCh rf' = applyCh rf @ [\<lparr>CommandValid = False, am_Command = IBytes (is_Data args),
          CommandIndex = is_LastIncludedIndex args, CommitTerm = is_LastIncludedTerm args,
          am_Role = role rf'\<rparr>]" by blast
  have "kv_drain sz (persister rf') kv (newMsgs rf rf')
      = Some (kv_decodedSnapshot kv (kv_encodeSnapshot kv2), [])"
    using r(5) assms(5) by (simp add: newMsgs_def kv_receiveNewMsg_def)
  moreover have "lastApplied rf' = commitIndex rf'" using r(2) by (simp add: log_wf_def)
  ultimately show ?thesis using r assms(4) by (auto simp: kv_restore)
qed

text \<open>A leader that has compacted its log up to index 1 and a follower that has applied index 2 and has
  an entry of another term after it: the leader falls back to its snapshot.\<close>

definition ex_old_leader :: kvraft where
  "ex_old_leader = (booted 3 0 (SaveStateAndSnapshot MakePersister []
        (kv_encodeSnapshot (kv_run [ex_kvop ''Put'' ''a'' 1 1] (kv_initial 0 0)))) 4 0
     [ex_kventry 1 2 (ex_kvop ''Append'' ''b'' 1 2), ex_kventry 4 3 (ex_kvop ''Put'' ''c'' 1 3),
      ex_kventry 4 4 (ex_kvop ''Put'' ''d'' 1 4)] 1 1)
     \<lparr>role := Leader, commitIndex := 2, lastApplied := 2, nextIndex := [5, 4, 4]\<rparr>"

definition ex_old_follower :: kvraft where
  "ex_old_follower = (booted 3 1 MakePersister 3 votedNull
     [ex_kventry 1 1 (ex_kvop ''Put'' ''a'' 1 1), ex_kventry 1 2 (ex_kvop ''Append'' ''b'' 1 2),
      ex_kventry 2 3 (ex_kvop ''Put'' ''x'' 2 1)] 0 (-1))
     \<lparr>commitIndex := 2, lastApplied := 2\<rparr>"

definition ex_old_sent :: "(kvraft \<times> kvval InstallSnapshotArgs) option" where
  "ex_old_sent = (case syncRound 1 (ex_old_leader, ex_round, ex_old_follower) of
     Some ((L, bc, F), True) \<Rightarrow>
       (case broadcastSend L bc 1 of Some (SendSnapshot args) \<Rightarrow> Some (F, args) | _ \<Rightarrow> None)
   | _ \<Rightarrow> None)"

lemmas ex_old_defs = ex_old_leader_def ex_old_follower_def ex_round_def booted_def ex_kventry_def

lemma ex_old_sent_val: "ex_old_sent = Some (ae_enter ex_old_follower 4, sendSnapshotArgs ex_old_leader)"
proof -
  have scan: "conflictScan ex_old_follower 2 3 (-1) = Some 3"
    by (simp add: conflictScan.simps [of _ _ 3] conflictScan.simps [of _ _ 2] ex_old_defs go_idx_def subIdx_def)
  have bt: "backtrack ex_old_leader 2 2 3 = Some (2, 1)"
    by (simp add: backtrack.simps [of _ _ _ 3] backtrack.simps [of _ _ _ 2] backtrack.simps [of _ _ _ 1]
        ex_old_defs go_idx_def subIdx_def)
  define args where "args = \<lparr>ae_Term = 4, ae_LeaderId = 0, PrevLogIndex = 3, PrevLogTerm = 4,
     ae_Entries = [ex_kventry 4 4 (ex_kvop ''Put'' ''d'' 1 4)], LeaderCommit = 2\<rparr>"
  have send: "broadcastSend ex_old_leader ex_round 1 = Some (SendAppend args)"
    by (simp add: broadcastSend_def args_def checkState_def getPrevLogIndex_def getPrevLogTerm_def
        go_idx_def go_slice_from_def subIdx_def ex_old_defs)
  have run: "AppendEntries ex_old_follower args = Some (ae_enter ex_old_follower 4, aeReply 4 False 3 2)"
  proof -
    have at: "logAt ex_old_follower 3 = Some (ex_kventry 2 3 (ex_kvop ''Put'' ''x'' 2 1))"
      and tm: "currentTerm ex_old_follower = 3"
      by (simp_all add: ex_old_defs logAt_def go_idx_def idx_defs)
    show ?thesis
      using AppendEntries_mismatch [of ex_old_follower args] at tm scan
      by (simp add: args_def ex_kventry_def)
  qed
  have rep: "broadcastReply ex_old_leader ex_round 1 args (aeReply 4 False 3 2)
      = Some (retryAt ex_old_leader 1 1, ex_round, True)"
  proof -
    have "checkState ex_old_leader Leader (curTerm ex_round)" "curTerm ex_round = 4"
      "lastIncludedIndex ex_old_leader = 1" "length (nextIndex ex_old_leader) = 3"
      by (simp_all add: ex_old_defs checkState_def)
    with bt show ?thesis by (simp add: broadcastReply_def args_def addIdx_def go_set_def)
  qed
  have "broadcastSend (retryAt ex_old_leader 1 1) ex_round 1
      = Some (SendSnapshot (sendSnapshotArgs ex_old_leader))"
    by (simp add: broadcastSend_def checkState_def go_idx_def sendSnapshotArgs_def ex_old_defs)
  with syncRound_append [OF send run rep] show ?thesis by (simp add: ex_old_sent_def)
qed

theorem install_rolls_back_witness:
  "ex_old_sent = Some (ae_enter ex_old_follower 4, sendSnapshotArgs ex_old_leader)
   \<and> (\<exists>rf' reply kv'. InstallSnapshot (ae_enter ex_old_follower 4) (sendSnapshotArgs ex_old_leader) = Some (rf', reply)
     \<and> kv_drain length (persister rf') (kv_initial 1 0) (newMsgs (ae_enter ex_old_follower 4) rf') = Some (kv', [])
     \<and> kv_data kv' = kv_data (kv_run [ex_kvop ''Put'' ''a'' 1 1] (kv_initial 0 0)) \<and> lastApplied rf' = 2)"
proof -
  let ?F = "ae_enter ex_old_follower 4"
  let ?a = "sendSnapshotArgs ex_old_leader"
  have wf: "raft_wf ?F" by (simp add: raft_wf_def log_wf_def) (simp add: ex_old_defs idx_defs)
  have f: "currentTerm ?F \<le> is_Term ?a"
    using ae_enter_term [of ex_old_follower 4] by (simp add: sendSnapshotArgs_def ex_old_defs)
  have g: "lastIncludedIndex ?F < is_LastIncludedIndex ?a" "is_LastIncludedIndex ?a < commitIndex ?F"
    "commitIndex ?F = 2" by (simp_all add: sendSnapshotArgs_def) (simp_all add: ex_old_defs)
  have d: "is_Data ?a = kv_encodeSnapshot (kv_run [ex_kvop ''Put'' ''a'' 1 1] (kv_initial 0 0))"
    by (simp add: sendSnapshotArgs_def ex_old_defs ps.snap_both)
  show ?thesis
    using install_rolls_back [OF wf f g(1,2) d, of length "kv_initial 1 0"] ex_old_sent_val g(3) by auto
qed

end
