(* ===== verification/ShardMaster.thy ===== *)
theory ShardMaster
  imports Raft_Model
begin

text \<open>
  The shard master of \<^verbatim>\<open>src/src/shardmaster\<close> (\<^verbatim>\<open>server.go\<close>, \<^verbatim>\<open>client.go\<close>, \<^verbatim>\<open>common.go\<close>): the
  service that numbers configurations and assigns the shards to the replica groups.

  \<open>g2shard\<close> and \<open>Groups\<close> are Go maps (\<open>gomap\<close>); \<open>navieAssign\<close> ranges over \<open>g2shard\<close>, and the order of
  that range is chosen by its argument \<open>ord\<close>.  \<open>navieAssign\<close> is split into its loops over a record of the
  variables they share (\<open>assigning\<close>).  \<open>executeOp\<close> is split where it waits.  \<open>None\<close> is a panic.  The flag
  \<open>sm_mu\<close> says that the mutex has been left locked: \<open>run\<close> does so when it meets an executed command.
\<close>

section \<open>Data\<close>

definition NShards :: nat where
  "NShards = 10"

record Config =
  c_Num :: int
  c_Shards :: "int list"
  c_Groups :: "(int, string list) gomap"

record smop =
  so_Clerk :: int
  so_CmdIndex :: int
  so_Operation :: string
  so_Servers :: "(int, string list) gomap"
  so_GIDs :: "int list"
  so_Shard :: int
  so_QueryNum :: int

record JoinArgs =
  ja_Servers :: "(int, string list) gomap"
  ja_Clerk :: int
  ja_Index :: int

record LeaveArgs =
  la_GIDs :: "int list"
  la_Clerk :: int
  la_Index :: int

record MoveArgs =
  ma_Shard :: int
  ma_GID :: int
  ma_Clerk :: int
  ma_Index :: int

record QueryArgs =
  qa_Num :: int
  qa_Clerk :: int
  qa_Index :: int

record QueryReply =
  qr_WrongLeader :: bool
  qr_Config :: Config

record ShardMaster =
  sm_mu :: bool
  sm_me :: nat
  configs :: "Config list"
  g2shard :: "(int, int list) gomap"
  sm_clerkLog :: "int \<rightharpoonup> int"
  sm_msgCh :: "int \<rightharpoonup> nat"
  sm_chans :: nat

section \<open>Configurations\<close>

definition getLastCfg :: "ShardMaster \<Rightarrow> Config option" where
  "getLastCfg sm = go_idx (configs sm) (int (length (configs sm)) - 1)"

text \<open>\<open>getLastCfg\<close> returns a pointer: this is a write through it.\<close>

definition setLastCfg :: "ShardMaster \<Rightarrow> Config \<Rightarrow> ShardMaster" where
  "setLastCfg sm cfg = sm\<lparr>configs := (configs sm)[length (configs sm) - 1 := cfg]\<rparr>"

definition addConfig :: "ShardMaster \<Rightarrow> ShardMaster option" where
  "addConfig sm = do {
     oldCfg \<leftarrow> getLastCfg sm;
     Some (sm\<lparr>configs := configs sm @ [\<lparr>c_Num = c_Num oldCfg + 1, c_Shards = c_Shards oldCfg,
                                        c_Groups = c_Groups oldCfg\<rparr>]\<rparr>) }"

definition getLastShard :: "(int, int list) gomap \<Rightarrow> int \<Rightarrow> int option" where
  "getLastShard g2s gid = (let l = gm_get0 [] g2s gid in go_idx l (int (length l) - 1))"

definition cutG2shard :: "(int, int list) gomap \<Rightarrow> int \<Rightarrow> int list option" where
  "cutG2shard g2s gid = (let l = gm_get0 [] g2s gid in go_slice_to l (int (length l) - 1))"

lemma getLastShard_eq:
  "getLastShard g2s gid = (let l = gm_get0 [] g2s gid in if l = [] then None else Some (last l))"
  by (cases "gm_get0 [] g2s gid" rule: rev_cases) (auto simp: getLastShard_def go_idx_def nth_append)

lemma cutG2shard_eq:
  "cutG2shard g2s gid = (let l = gm_get0 [] g2s gid in if l = [] then None else Some (butlast l))"
  by (cases "gm_get0 [] g2s gid" rule: rev_cases) (auto simp: cutG2shard_def go_slice_to_def)

section \<open>navieAssign\<close>

record assigning =
  a_Shards :: "int list"
  a_g2shard :: "(int, int list) gomap"
  tless :: "int list"
  tok :: "int list"
  tplus :: "int list"
  tmore :: "int list"

abbreviation shardsOf :: "assigning \<Rightarrow> int \<Rightarrow> int list" where
  "shardsOf a \<equiv> gm_get0 [] (a_g2shard a)"

text \<open>The shards that no group has.\<close>

definition unassigned :: "int list \<Rightarrow> int list" where
  "unassigned shards = map int (filter (\<lambda>s. shards ! s = 0) [0..<length shards])"

text \<open>The loop over \<open>g2shard\<close> that sorts the groups by their load.\<close>

fun classify :: "nat \<Rightarrow> int list \<Rightarrow> assigning \<Rightarrow> assigning" where
  "classify share [] a = a"
| "classify share (gid # ord) a =
     (let shardNum = length (shardsOf a gid)
      in classify share ord
           (if shardNum = share then a\<lparr>tok := tok a @ [gid]\<rparr>
            else if shardNum = share + 1 then a\<lparr>tplus := tplus a @ [gid]\<rparr>
            else if shardNum < share then a\<lparr>tless := tless a @ [gid]\<rparr>
            else a\<lparr>tmore := tmore a @ [gid]\<rparr>))"

definition load :: "(int, int list) gomap \<Rightarrow> nat" where
  "load g2s = sum_list (map (length \<circ> snd) g2s)"

lemma load_update:
  "gm_get g2s gid = Some l \<Longrightarrow> load (gm_set gid l' g2s) + length l = load g2s + length l'"
  by (induction g2s) (auto simp: load_def gm_set_def split: if_splits)

lemma cut_load:
  assumes "cutG2shard g2s gid = Some l"
  shows "load (gm_set gid l g2s) < load g2s"
proof -
  from assms obtain l0 where l0: "gm_get g2s gid = Some l0" and "length l < length l0"
    by (auto simp: cutG2shard_eq gm_get0_def Let_def split: if_splits option.splits)
  then show ?thesis using load_update [OF l0, of l] by linarith
qed

text \<open>Groups with more than \<open>share + 1\<close> shards give some up.\<close>

function moreLoop :: "nat \<Rightarrow> assigning \<Rightarrow> int list \<Rightarrow> (assigning \<times> int list) option" where
  "moreLoop share a shardToAssign =
     (case tmore a of [] \<Rightarrow> Some (a, shardToAssign)
      | gid # rest \<Rightarrow>
          (case (getLastShard (a_g2shard a) gid, cutG2shard (a_g2shard a) gid) of
             (Some moreShard, Some l) \<Rightarrow>
               (let a = a\<lparr>a_g2shard := gm_set gid l (a_g2shard a)\<rparr>;
                    shardToAssign = shardToAssign @ [moreShard]
                in if length (shardsOf a gid) = share + 1
                   then moreLoop share (a\<lparr>tplus := tplus a @ [gid], tmore := rest\<rparr>) shardToAssign
                   else moreLoop share a shardToAssign)
           | _ \<Rightarrow> None))"
  by pat_completeness auto
termination
  by (relation "measure (\<lambda>(share, a, todo). load (a_g2shard a))") (auto intro: cut_load)

declare moreLoop.simps [simp del]

text \<open>The shards to assign go to groups below the share first, then to groups at it.\<close>

fun assignLoop :: "nat \<Rightarrow> int list \<Rightarrow> assigning \<Rightarrow> assigning option" where
  "assignLoop share [] a = Some a"
| "assignLoop share (curShard # shardToAssign) a =
     (case tless a of
        groupId # rest \<Rightarrow> do {
          shards \<leftarrow> go_set (a_Shards a) curShard groupId;
          let a = a\<lparr>a_Shards := shards,
                    a_g2shard := gm_set groupId (shardsOf a groupId @ [curShard]) (a_g2shard a)\<rparr>;
          assignLoop share shardToAssign
            (if length (shardsOf a groupId) = share
             then a\<lparr>tok := tok a @ [groupId], tless := rest\<rparr> else a) }
      | [] \<Rightarrow> do {
          groupId \<leftarrow> go_idx (tok a) 0;
          shards \<leftarrow> go_set (a_Shards a) curShard groupId;
          assignLoop share shardToAssign
            (a\<lparr>a_Shards := shards,
               a_g2shard := gm_set groupId (shardsOf a groupId @ [curShard]) (a_g2shard a),
               tok := tl (tok a), tplus := tplus a @ [groupId]\<rparr>) })"

text \<open>Groups still below the share take a shard each from groups above it.\<close>

function lessLoop :: "nat \<Rightarrow> assigning \<Rightarrow> assigning option" where
  "lessLoop share a =
     (case tless a of [] \<Rightarrow> Some a
      | groupIdLess # rest \<Rightarrow>
          (case tplus a of [] \<Rightarrow> None
           | groupId # rest2 \<Rightarrow> do {
               plusShard \<leftarrow> getLastShard (a_g2shard a) groupId;
               l \<leftarrow> cutG2shard (a_g2shard a) groupId;
               let a = a\<lparr>tplus := rest2, a_g2shard := gm_set groupId l (a_g2shard a)\<rparr>;
               shards \<leftarrow> go_set (a_Shards a) plusShard groupIdLess;
               let a = a\<lparr>a_Shards := shards,
                         a_g2shard := gm_set groupIdLess (shardsOf a groupIdLess @ [plusShard]) (a_g2shard a)\<rparr>;
               lessLoop share
                 (if length (shardsOf a groupIdLess) = share then a\<lparr>tless := rest\<rparr> else a) }))"
  by pat_completeness auto
termination
  by (relation "measure (\<lambda>(share, a). length (tplus a))") auto

declare lessLoop.simps [simp del]

text \<open>The order in which a \<open>range\<close> over \<open>g2shard\<close> visits the groups.\<close>

type_synonym iteration = "(int, int list) gomap \<Rightarrow> int list"

definition navieAssign :: "iteration \<Rightarrow> ShardMaster \<Rightarrow> ShardMaster option" where
  "navieAssign ord sm =
     (if length (g2shard sm) = 0 then Some sm
      else do {
        config \<leftarrow> getLastCfg sm;
        let shardToAssign = unassigned (c_Shards config);
        let share = NShards div length (g2shard sm);
        let a = classify share (ord (g2shard sm)) \<lparr>a_Shards = c_Shards config, a_g2shard = g2shard sm,
                  tless = [], tok = [], tplus = [], tmore = []\<rparr>;
        (a, shardToAssign) \<leftarrow> moreLoop share a shardToAssign;
        a \<leftarrow> assignLoop share shardToAssign a;
        a \<leftarrow> lessLoop share a;
        Some ((setLastCfg sm (config\<lparr>c_Shards := a_Shards a\<rparr>))\<lparr>g2shard := a_g2shard a\<rparr>) })"

section \<open>The operations in the log\<close>

text \<open>The loop of \<open>join\<close> over the joining groups; the flag is \<open>needToAssign\<close>.\<close>

fun joinLoop :: "(int, string list) gomap \<Rightarrow> Config \<Rightarrow> (int, int list) gomap \<Rightarrow> bool
    \<Rightarrow> Config \<times> (int, int list) gomap \<times> bool" where
  "joinLoop [] cfg g2s need = (cfg, g2s, need)"
| "joinLoop ((groupId, servers) # rest) cfg g2s need =
     (if gm_get g2s groupId = None
      then joinLoop rest (cfg\<lparr>c_Groups := gm_set groupId servers (c_Groups cfg)\<rparr>) (gm_set groupId [] g2s) True
      else joinLoop rest cfg g2s need)"

definition applyJoin :: "iteration \<Rightarrow> smop \<Rightarrow> ShardMaster \<Rightarrow> ShardMaster option" where
  "applyJoin ord op sm = do {
     sm \<leftarrow> addConfig sm;
     lastConfig \<leftarrow> getLastCfg sm;
     let (cfg, g2s, needToAssign) = joinLoop (so_Servers op) lastConfig (g2shard sm) False;
     let sm = (setLastCfg sm cfg)\<lparr>g2shard := g2s\<rparr>;
     if needToAssign then navieAssign ord sm else Some sm }"

text \<open>The inner loop of \<open>leave\<close>: the shards of a group become unassigned.\<close>

fun clearShards :: "int list \<Rightarrow> int list \<Rightarrow> int list option" where
  "clearShards [] shards = Some shards"
| "clearShards (s # ss) shards = do { shards \<leftarrow> go_set shards s 0; clearShards ss shards }"

fun leaveLoop :: "int list \<Rightarrow> Config \<Rightarrow> (int, int list) gomap \<Rightarrow> bool
    \<Rightarrow> (Config \<times> (int, int list) gomap \<times> bool) option" where
  "leaveLoop [] cfg g2s need = Some (cfg, g2s, need)"
| "leaveLoop (groupId # rest) cfg g2s need =
     (case gm_get g2s groupId of None \<Rightarrow> leaveLoop rest cfg g2s need
      | Some l \<Rightarrow> do {
          shards \<leftarrow> clearShards l (c_Shards cfg);
          leaveLoop rest (cfg\<lparr>c_Shards := shards, c_Groups := gm_del groupId (c_Groups cfg)\<rparr>)
            (gm_del groupId g2s) True })"

definition applyLeave :: "iteration \<Rightarrow> smop \<Rightarrow> ShardMaster \<Rightarrow> ShardMaster option" where
  "applyLeave ord op sm = do {
     sm \<leftarrow> addConfig sm;
     lastConfig \<leftarrow> getLastCfg sm;
     (cfg, g2s, needToAssign) \<leftarrow> leaveLoop (so_GIDs op) lastConfig (g2shard sm) False;
     let sm = (setLastCfg sm cfg)\<lparr>g2shard := g2s\<rparr>;
     if needToAssign then navieAssign ord sm else Some sm }"

definition applyMove :: "smop \<Rightarrow> ShardMaster \<Rightarrow> ShardMaster option" where
  "applyMove op sm = do {
     sm \<leftarrow> addConfig sm;
     lastConfig \<leftarrow> getLastCfg sm;
     oldGroupId \<leftarrow> go_idx (c_Shards lastConfig) (so_Shard op);
     let old = gm_get0 [] (g2shard sm) oldGroupId;
     let g2s = (if so_Shard op \<in> set old
                then gm_set oldGroupId (remove1 (so_Shard op) old) (g2shard sm) else g2shard sm);
     gid \<leftarrow> go_idx (so_GIDs op) 0;
     shards \<leftarrow> go_set (c_Shards lastConfig) (so_Shard op) gid;
     Some ((setLastCfg sm (lastConfig\<lparr>c_Shards := shards\<rparr>))
             \<lparr>g2shard := gm_set gid (gm_get0 [] g2s gid @ [so_Shard op]) g2s\<rparr>) }"

definition sm_executed :: "ShardMaster \<Rightarrow> int \<Rightarrow> int \<Rightarrow> bool" where
  "sm_executed sm clerk index = (case sm_clerkLog sm clerk of None \<Rightarrow> False | Some ind \<Rightarrow> ind \<ge> index)"

definition sm_applyOp :: "iteration \<Rightarrow> smop \<Rightarrow> ShardMaster \<Rightarrow> ShardMaster option" where
  "sm_applyOp ord op sm =
     (if so_Operation op = ''join'' then applyJoin ord op sm
      else if so_Operation op = ''leave'' then applyLeave ord op sm
      else if so_Operation op = ''move'' then applyMove op sm
      else Some sm)"

text \<open>
  One message of the apply channel, once the mutex is held: the new state and the channel that is
  notified.  The branch for an executed command returns without unlocking.
\<close>

definition sm_run ::
    "iteration \<Rightarrow> ShardMaster \<Rightarrow> (smop, 's) applymsg \<Rightarrow> (ShardMaster \<times> nat option) option" where
  "sm_run ord sm msg =
     (case am_Command msg of
        IOp op \<Rightarrow>
          if sm_executed sm (so_Clerk op) (so_CmdIndex op) then Some (sm\<lparr>sm_mu := True\<rparr>, None)
          else do {
            sm \<leftarrow> sm_applyOp ord op sm;
            Some (sm, sm_msgCh sm (CommandIndex msg)) }
      | _ \<Rightarrow> None)"

section \<open>The RPC handlers\<close>

definition joinOp :: "JoinArgs \<Rightarrow> smop" where
  "joinOp args = \<lparr>so_Clerk = ja_Clerk args, so_CmdIndex = ja_Index args, so_Operation = ''join'',
     so_Servers = ja_Servers args, so_GIDs = [], so_Shard = 0, so_QueryNum = 0\<rparr>"

definition leaveOp :: "LeaveArgs \<Rightarrow> smop" where
  "leaveOp args = \<lparr>so_Clerk = la_Clerk args, so_CmdIndex = la_Index args, so_Operation = ''leave'',
     so_Servers = [], so_GIDs = la_GIDs args, so_Shard = 0, so_QueryNum = 0\<rparr>"

definition moveOp :: "MoveArgs \<Rightarrow> smop" where
  "moveOp args = \<lparr>so_Clerk = ma_Clerk args, so_CmdIndex = ma_Index args, so_Operation = ''move'',
     so_Servers = [], so_GIDs = [ma_GID args], so_Shard = ma_Shard args, so_QueryNum = 0\<rparr>"

definition queryOp :: "QueryArgs \<Rightarrow> smop" where
  "queryOp args = \<lparr>so_Clerk = qa_Clerk args, so_CmdIndex = qa_Index args, so_Operation = ''query'',
     so_Servers = [], so_GIDs = [], so_Shard = 0, so_QueryNum = qa_Num args\<rparr>"

text \<open>
  \<open>executeOp\<close>: its answer is \<open>WrongLeader\<close>.  First the check for an executed command, then (after
  \<open>rf.Start\<close>) the registration of the channel, then the answer for a time-out or a notification.
\<close>

definition executeOpCheck :: "ShardMaster \<Rightarrow> smop \<Rightarrow> bool option" where
  "executeOpCheck sm op = (if sm_executed sm (so_Clerk op) (so_CmdIndex op) then Some False else None)"

definition executeOpEnter ::
    "ShardMaster \<Rightarrow> int \<times> int \<times> bool \<Rightarrow> ShardMaster \<times> (int \<times> nat) option" where
  "executeOpEnter sm started =
     (let (index, _, isLeader) = started
      in if \<not> isLeader then (sm, None)
         else (sm\<lparr>sm_msgCh := (sm_msgCh sm)(index \<mapsto> sm_chans sm), sm_chans := sm_chans sm + 1\<rparr>,
               Some (index, sm_chans sm)))"

definition executeOpWake :: "bool \<Rightarrow> bool" where
  "executeOpWake notified = (\<not> notified)"

definition sm_Query :: "ShardMaster \<Rightarrow> smop \<Rightarrow> bool \<Rightarrow> Config option option" where
  "sm_Query sm op WrongLeader =
     (if WrongLeader then Some None
      else do {
        l \<leftarrow> getLastCfg sm;
        if so_QueryNum op = -1 \<or> so_QueryNum op > c_Num l then Some (Some l)
        else map_option Some (go_idx (configs sm) (so_QueryNum op)) })"

definition sm_closeCh :: "ShardMaster \<Rightarrow> int \<Rightarrow> ShardMaster option" where
  "sm_closeCh sm index =
     (case sm_msgCh sm index of None \<Rightarrow> None
      | Some ch \<Rightarrow> Some (sm\<lparr>sm_msgCh := (sm_msgCh sm)(index := None)\<rparr>))"

definition sm_Kill :: "(smop, 's) raft \<Rightarrow> (smop, 's) raft option" where
  "sm_Kill rf = Kill rf"

definition sm_StartServer ::
    "nat \<Rightarrow> nat \<Rightarrow> ((smop, 's) rval, 's) persister \<Rightarrow> (ShardMaster \<times> (smop, 's) raft) option" where
  "sm_StartServer n self ps = do {
     rf \<leftarrow> Make n self ps;
     Some (\<lparr>sm_mu = False, sm_me = self,
            configs = [\<lparr>c_Num = 0, c_Shards = replicate NShards 0, c_Groups = []\<rparr>],
            g2shard = [], sm_clerkLog = Map.empty, sm_msgCh = Map.empty, sm_chans = 0\<rparr>, rf) }"

section \<open>The clerk\<close>

record smClerk =
  sc_servers :: nat
  sc_me :: int
  sc_cmdIndex :: int

definition sm_MakeClerk :: "nat \<Rightarrow> int \<Rightarrow> smClerk" where
  "sm_MakeClerk n nrand = \<lparr>sc_servers = n, sc_me = nrand, sc_cmdIndex = 0\<rparr>"

text \<open>
  One round of a clerk's endless loop asks every server in turn until one answers as leader; a round
  is given by what \<open>Call\<close> yields for each server (\<open>None\<close>: no reply).
\<close>

fun askServers :: "nat list \<Rightarrow> (nat \<Rightarrow> 'r option) \<Rightarrow> ('r \<Rightarrow> bool) \<Rightarrow> 'r option" where
  "askServers [] call wrongLeader = None"
| "askServers (srv # srvs) call wrongLeader =
     (case call srv of
        Some reply \<Rightarrow> if \<not> wrongLeader reply then Some reply else askServers srvs call wrongLeader
      | None \<Rightarrow> askServers srvs call wrongLeader)"

fun askLoop :: "nat \<Rightarrow> (nat \<Rightarrow> 'r option) list \<Rightarrow> ('r \<Rightarrow> bool) \<Rightarrow> 'r option" where
  "askLoop n [] wrongLeader = None"
| "askLoop n (call # calls) wrongLeader =
     (case askServers [0..<n] call wrongLeader of
        Some reply \<Rightarrow> Some reply
      | None \<Rightarrow> askLoop n calls wrongLeader)"

definition sm_ClerkQuery ::
    "smClerk \<Rightarrow> int \<Rightarrow> (QueryArgs \<Rightarrow> (nat \<Rightarrow> QueryReply option) list) \<Rightarrow> (smClerk \<times> Config) option" where
  "sm_ClerkQuery ck num net =
     (let ck = ck\<lparr>sc_cmdIndex := sc_cmdIndex ck + 1\<rparr>;
          args = \<lparr>qa_Num = num, qa_Clerk = sc_me ck, qa_Index = sc_cmdIndex ck\<rparr>
      in map_option (\<lambda>reply. (ck, qr_Config reply)) (askLoop (sc_servers ck) (net args) qr_WrongLeader))"

text \<open>The replies to the other calls carry \<open>WrongLeader\<close> only.\<close>

definition sm_ClerkJoin ::
    "smClerk \<Rightarrow> (int, string list) gomap \<Rightarrow> (JoinArgs \<Rightarrow> (nat \<Rightarrow> bool option) list) \<Rightarrow> smClerk option" where
  "sm_ClerkJoin ck servers net =
     (let ck = ck\<lparr>sc_cmdIndex := sc_cmdIndex ck + 1\<rparr>;
          args = \<lparr>ja_Servers = servers, ja_Clerk = sc_me ck, ja_Index = sc_cmdIndex ck\<rparr>
      in map_option (\<lambda>_. ck) (askLoop (sc_servers ck) (net args) (\<lambda>w. w)))"

definition sm_ClerkLeave ::
    "smClerk \<Rightarrow> int list \<Rightarrow> (LeaveArgs \<Rightarrow> (nat \<Rightarrow> bool option) list) \<Rightarrow> smClerk option" where
  "sm_ClerkLeave ck gids net =
     (let ck = ck\<lparr>sc_cmdIndex := sc_cmdIndex ck + 1\<rparr>;
          args = \<lparr>la_GIDs = gids, la_Clerk = sc_me ck, la_Index = sc_cmdIndex ck\<rparr>
      in map_option (\<lambda>_. ck) (askLoop (sc_servers ck) (net args) (\<lambda>w. w)))"

definition sm_ClerkMove ::
    "smClerk \<Rightarrow> int \<Rightarrow> int \<Rightarrow> (MoveArgs \<Rightarrow> (nat \<Rightarrow> bool option) list) \<Rightarrow> smClerk option" where
  "sm_ClerkMove ck shard gid net =
     (let ck = ck\<lparr>sc_cmdIndex := sc_cmdIndex ck + 1\<rparr>;
          args = \<lparr>ma_Shard = shard, ma_GID = gid, ma_Clerk = sc_me ck, ma_Index = sc_cmdIndex ck\<rparr>
      in map_option (\<lambda>_. ck) (askLoop (sc_servers ck) (net args) (\<lambda>w. w)))"

end
