(* ===== verification/ShardKV.thy ===== *)
theory ShardKV
  imports ShardMaster KVRaft
begin

text \<open>
  The sharded key/value server and its clerk, \<^verbatim>\<open>src/src/shardkv\<close> (\<^verbatim>\<open>server.go\<close>, \<^verbatim>\<open>client.go\<close>,
  \<^verbatim>\<open>common.go\<close>).

  \<open>skvDB\<close> and \<open>sClerkLog\<close> map shards to the data of a shard and are Go maps (\<open>gomap\<close>), because
  \<open>parseCfg\<close> ranges over them and counts; the maps inside are HOL maps.  \<open>skv_shards\<close> is the key set of the Go
  map \<open>shards\<close>.  The order of \<open>shardToSend\<close> only decides in which order goroutines are started.  A
  handler is split where it releases the lock or waits; \<open>None\<close> is a panic (a write to a nil map, a
  failed type assertion, an index out of range).
\<close>

section \<open>Data\<close>

definition ErrWrongGroup :: string where
  "ErrWrongGroup = ''ErrWrongGroup''"

definition ErrWrongLeader :: string where
  "ErrWrongLeader = ''ErrWrongLeader''"

record skvop =
  x_Type :: string
  x_Shard :: int
  x_Operation :: string
  x_Key :: string
  x_Value :: string
  x_Clerk :: int
  x_CmdIndex :: int
  x_Cfg :: Config
  x_ShardDB :: "string \<rightharpoonup> string"
  x_ClerkLog :: "int \<rightharpoonup> int"

record msgInCh =
  isOk :: bool
  in_op :: skvop

record skvPutAppendArgs =
  spa_Key :: string
  spa_Value :: string
  spa_Op :: string
  spa_Clerk :: int
  spa_CmdIndex :: int
  spa_Shard :: int

record skvGetArgs =
  sga_Key :: string
  sga_Clerk :: int
  sga_CmdIndex :: int
  sga_Shard :: int

record PushShardArgs =
  ps_CfgNum :: int
  ps_Shard :: int
  ps_ShardDB :: "string \<rightharpoonup> string"
  ps_ClerkLog :: "int \<rightharpoonup> int"
  ps_GID :: int

text \<open>What a snapshot consists of.\<close>

datatype skvval = SDB "(int, string \<rightharpoonup> string) gomap" | SClerk "(int, int \<rightharpoonup> int) gomap" | SCfg Config

fun as_sdb :: "skvval \<Rightarrow> (int, string \<rightharpoonup> string) gomap option" where
  "as_sdb (SDB m) = Some m"
| "as_sdb _ = None"

fun as_sclerk :: "skvval \<Rightarrow> (int, int \<rightharpoonup> int) gomap option" where
  "as_sclerk (SClerk m) = Some m"
| "as_sclerk _ = None"

fun as_scfg :: "skvval \<Rightarrow> Config option" where
  "as_scfg (SCfg c) = Some c"
| "as_scfg _ = None"

type_synonym skvraft = "(skvop, skvval) raft"
type_synonym skvpersister = "((skvop, skvval) rval, skvval) persister"

definition zeroCfg :: Config where
  "zeroCfg = \<lparr>c_Num = 0, c_Shards = replicate NShards 0, c_Groups = []\<rparr>"

record ShardKV =
  skv_me :: nat
  skv_gid :: int
  skv_maxraftstate :: int
  skv_msgCh :: "int \<rightharpoonup> nat"
  skv_chans :: nat
  sClerkLog :: "(int, int \<rightharpoonup> int) gomap"
  skvDB :: "(int, string \<rightharpoonup> string) gomap"
  skv_shards :: "int list"
  shardToSend :: "int list"
  skv_cfg :: Config
  skv_leader :: bool
  waitUntilMoveDone :: int
  skv_exitCh :: nat

section \<open>Helpers\<close>

definition skv_equal :: "skvop \<Rightarrow> skvop \<Rightarrow> bool" where
  "skv_equal begun done \<longleftrightarrow> x_Type begun = x_Type done \<and> x_Shard begun = x_Shard done
     \<and> x_Clerk begun = x_Clerk done \<and> x_CmdIndex begun = x_CmdIndex done"

definition haveShard :: "ShardKV \<Rightarrow> int \<Rightarrow> bool" where
  "haveShard kv shard \<longleftrightarrow> shard \<in> set (skv_shards kv)"

definition shardInDB :: "ShardKV \<Rightarrow> int \<Rightarrow> bool" where
  "shardInDB kv shard \<longleftrightarrow> gm_get (skvDB kv) shard \<noteq> None"

definition needShard :: "ShardKV \<Rightarrow> int list" where
  "needShard kv = filter (\<lambda>shard. \<not> shardInDB kv shard) (skv_shards kv)"

definition skv_closeCh :: "ShardKV \<Rightarrow> int \<Rightarrow> ShardKV option" where
  "skv_closeCh kv index =
     (case skv_msgCh kv index of None \<Rightarrow> None
      | Some ch \<Rightarrow> Some (kv\<lparr>skv_msgCh := (skv_msgCh kv)(index := None)\<rparr>))"

text \<open>\<open>copyDB\<close> and \<open>copyCL\<close>: every binding of the source goes into the destination.\<close>

definition copyInto :: "('k \<rightharpoonup> 'v) \<Rightarrow> ('k \<rightharpoonup> 'v) \<Rightarrow> ('k \<rightharpoonup> 'v)" where
  "copyInto src des = des ++ src"

text \<open>\<open>ind, ok := kv.sClerkLog[shard][clerk]; ok && ind >= index\<close>; a missing shard gives a nil map.\<close>

definition skv_done :: "ShardKV \<Rightarrow> int \<Rightarrow> int \<Rightarrow> int \<Rightarrow> bool" where
  "skv_done kv shard clerk index =
     (case gm_get0 Map.empty (sClerkLog kv) shard clerk of None \<Rightarrow> False | Some ind \<Rightarrow> ind \<ge> index)"

section \<open>Configurations\<close>

definition parseCfg :: "ShardKV \<Rightarrow> ShardKV" where
  "parseCfg kv =
     (let shards = map int (filter (\<lambda>s. c_Shards (skv_cfg kv) ! s = skv_gid kv) [0..<length (c_Shards (skv_cfg kv))]);
          newAdd = filter (\<lambda>shard. \<not> shardInDB kv shard) shards;
          kv = kv\<lparr>skv_shards := shards\<rparr>;
          toSend = filter (\<lambda>shard. \<not> haveShard kv shard) (map fst (skvDB kv))
      in kv\<lparr>shardToSend := toSend, waitUntilMoveDone := int (length toSend) + int (length newAdd)\<rparr>)"

section \<open>Applying\<close>

text \<open>The loop of the first configuration: every shard of the group starts empty.\<close>

fun initShards :: "int list \<Rightarrow> ShardKV \<Rightarrow> ShardKV" where
  "initShards [] kv = kv"
| "initShards (shard # rest) kv =
     initShards rest (kv\<lparr>skvDB := gm_set shard Map.empty (skvDB kv), sClerkLog := gm_set shard Map.empty (sClerkLog kv)\<rparr>)"

text \<open>\<open>kv.sClerkLog[shard][clerk] = index\<close> and \<open>kv.skvDB[shard][key] = value\<close>; both panic on a nil map.\<close>

definition setClerk :: "ShardKV \<Rightarrow> int \<Rightarrow> int \<Rightarrow> int \<Rightarrow> ShardKV option" where
  "setClerk kv shard clerk index =
     (case gm_get (sClerkLog kv) shard of None \<Rightarrow> None
      | Some cl \<Rightarrow> Some (kv\<lparr>sClerkLog := gm_set shard (cl(clerk \<mapsto> index)) (sClerkLog kv)\<rparr>))"

definition setKey :: "ShardKV \<Rightarrow> int \<Rightarrow> string \<Rightarrow> string \<Rightarrow> ShardKV option" where
  "setKey kv shard key value =
     (case gm_get (skvDB kv) shard of None \<Rightarrow> None
      | Some db \<Rightarrow> Some (kv\<lparr>skvDB := gm_set shard (db(key \<mapsto> value)) (skvDB kv)\<rparr>))"

definition skv_request :: "ShardKV \<Rightarrow> skvop \<Rightarrow> (ShardKV \<times> bool) option" where
  "skv_request kv op =
     (if skv_done kv (x_Shard op) (x_Clerk op) (x_CmdIndex op) then Some (kv, True)
      else if \<not> haveShard kv (x_Shard op) \<or> \<not> shardInDB kv (x_Shard op) then Some (kv, False)
      else do {
        kv \<leftarrow> setClerk kv (x_Shard op) (x_Clerk op) (x_CmdIndex op);
        kv \<leftarrow> (if x_Operation op = ''put'' then setKey kv (x_Shard op) (x_Key op) (x_Value op)
              else if x_Operation op = ''append'' then
                (case gm_get0 Map.empty (skvDB kv) (x_Shard op) (x_Key op) of
                   Some v \<Rightarrow> setKey kv (x_Shard op) (x_Key op) (v @ x_Value op)
                 | None \<Rightarrow> setKey kv (x_Shard op) (x_Key op) (x_Value op))
              else Some kv);
        Some (kv, True) })"

definition skv_newSend :: "ShardKV \<Rightarrow> skvop \<Rightarrow> ShardKV" where
  "skv_newSend kv op =
     (if \<not> haveShard kv (x_Shard op) \<and> shardInDB kv (x_Shard op)
      then kv\<lparr>skvDB := gm_del (x_Shard op) (skvDB kv), sClerkLog := gm_del (x_Shard op) (sClerkLog kv),
              waitUntilMoveDone := waitUntilMoveDone kv - 1\<rparr>
      else kv)"

definition skv_newConfig :: "ShardKV \<Rightarrow> skvop \<Rightarrow> ShardKV" where
  "skv_newConfig kv op =
     (if c_Num (x_Cfg op) > c_Num (skv_cfg kv) then
        let kv = parseCfg (kv\<lparr>skv_cfg := x_Cfg op\<rparr>)
        in if c_Num (x_Cfg op) = 1 then initShards (skv_shards kv) (kv\<lparr>waitUntilMoveDone := 0\<rparr>) else kv
      else kv)"

definition skv_newShard :: "ShardKV \<Rightarrow> skvop \<Rightarrow> ShardKV \<times> bool" where
  "skv_newShard kv op =
     (if \<not> haveShard kv (x_Shard op) then (kv, False)
      else if \<not> shardInDB kv (x_Shard op) then
        (kv\<lparr>skvDB := gm_set (x_Shard op) (copyInto (x_ShardDB op) Map.empty) (skvDB kv),
            sClerkLog := gm_set (x_Shard op) (copyInto (x_ClerkLog op) Map.empty) (sClerkLog kv),
            waitUntilMoveDone := waitUntilMoveDone kv - 1\<rparr>, True)
      else (kv, True))"

text \<open>The \<open>switch\<close> of \<open>run\<close>: the new state and \<open>msgToChan\<close>.\<close>

definition skv_apply :: "ShardKV \<Rightarrow> skvop \<Rightarrow> (ShardKV \<times> bool) option" where
  "skv_apply kv op =
     (if x_Type op = ''newsend'' then Some (skv_newSend kv op, True)
      else if x_Type op = ''newConfig'' then Some (skv_newConfig kv op, True)
      else if x_Type op = ''newShard'' then Some (skv_newShard kv op)
      else if x_Type op = ''request'' then skv_request kv op
      else Some (kv, True))"

section \<open>Snapshots\<close>

definition skv_encodeSnapshot :: "ShardKV \<Rightarrow> skvval list" where
  "skv_encodeSnapshot kv =
     gob_put (gob_put (gob_put [] (SDB (skvDB kv))) (SClerk (sClerkLog kv))) (SCfg (skv_cfg kv))"

definition skv_decode ::
    "skvval list \<Rightarrow> ((int, string \<rightharpoonup> string) gomap \<times> (int, int \<rightharpoonup> int) gomap \<times> Config) option" where
  "skv_decode data = do {
     (db, r) \<leftarrow> gob_take as_sdb data;
     (cl, r) \<leftarrow> gob_take as_sclerk r;
     (cfg, r) \<leftarrow> gob_take as_scfg r;
     Some (db, cl, cfg) }"

definition skv_decodedSnapshot :: "ShardKV \<Rightarrow> skvval list \<Rightarrow> ShardKV" where
  "skv_decodedSnapshot kv data =
     (case skv_decode data of None \<Rightarrow> kv
      | Some (db, cl, cfg) \<Rightarrow> kv\<lparr>skvDB := db, sClerkLog := cl, skv_cfg := cfg\<rparr>)"

definition skv_loadSnapshot :: "ShardKV \<Rightarrow> skvpersister \<Rightarrow> ShardKV" where
  "skv_loadSnapshot kv ps = (let data = ReadSnapshot ps in if data = [] then kv else skv_decodedSnapshot kv data)"

definition skv_checkState ::
    "((skvop, skvval) rval list \<Rightarrow> nat) \<Rightarrow> ShardKV \<Rightarrow> skvpersister \<Rightarrow> int \<Rightarrow> int
      \<Rightarrow> (skvval list \<times> int \<times> int) option" where
  "skv_checkState sz kv ps index term =
     (if skv_maxraftstate kv = -1 then None
      else if RaftStateSize sz ps < go_div (skv_maxraftstate kv * 3) 4 then None
      else Some (skv_encodeSnapshot kv, index, term))"

text \<open>One message of the apply channel: new state, notification, snapshot to take.\<close>

definition skv_run ::
    "((skvop, skvval) rval list \<Rightarrow> nat) \<Rightarrow> ShardKV \<Rightarrow> skvpersister \<Rightarrow> (skvop, skvval) applymsg
      \<Rightarrow> (ShardKV \<times> (nat \<times> msgInCh) option \<times> (skvval list \<times> int \<times> int) option) option" where
  "skv_run sz kv ps msg =
     (let index = CommandIndex msg; term = CommitTerm msg
      in if \<not> CommandValid msg then
           (case am_Command msg of
              IBytes data \<Rightarrow> Some (parseCfg (skv_decodedSnapshot kv data), None, None) | _ \<Rightarrow> None)
         else
           (case am_Command msg of
              IOp op \<Rightarrow> do {
                (kv, msgToChan) \<leftarrow> skv_apply kv op;
                Some (kv, map_option (\<lambda>ch. (ch, \<lparr>isOk = msgToChan, in_op = op\<rparr>)) (skv_msgCh kv index),
                      skv_checkState sz kv ps index term) }
            | _ \<Rightarrow> None))"

section \<open>executeOp and leadership\<close>

text \<open>
  \<open>executeOp\<close> returns \<open>(wrongLeader, wrongGroup)\<close>.  First part: the check of a client request at a
  leader; \<open>None\<close> means that the operation goes on to \<open>rf.Start\<close>.
\<close>

definition executeOpFilter :: "ShardKV \<Rightarrow> skvop \<Rightarrow> (bool \<times> bool) option" where
  "executeOpFilter kv op =
     (if x_Type op = ''request'' \<and> skv_leader kv then
        if \<not> haveShard kv (x_Shard op) \<or> \<not> shardInDB kv (x_Shard op) then Some (True, True)
        else if skv_done kv (x_Shard op) (x_Clerk op) (x_CmdIndex op) then Some (False, False)
        else None
      else None)"

text \<open>
  \<open>convertToLeader\<close> up to the point where it releases the lock to run a \<open>newLeader\<close> operation (second
  component), and the rest of it, which gets that operation's result.
\<close>

definition convertToLeader :: "ShardKV \<Rightarrow> bool \<Rightarrow> ShardKV \<times> bool" where
  "convertToLeader kv isleader =
     (let oldleader = skv_leader kv; kv = kv\<lparr>skv_leader := isleader\<rparr>
      in (kv, skv_leader kv \<noteq> oldleader \<and> skv_leader kv))"

definition newLeaderOp :: "ShardKV \<Rightarrow> skvop" where
  "newLeaderOp kv = \<lparr>x_Type = ''newLeader'', x_Shard = 1, x_Operation = '''', x_Key = '''', x_Value = '''',
     x_Clerk = -1, x_CmdIndex = int (skv_me kv), x_Cfg = zeroCfg, x_ShardDB = Map.empty, x_ClerkLog = Map.empty\<rparr>"

text \<open>\<open>broadShard\<close> starts one \<open>sendShard\<close> goroutine per shard to send.\<close>

definition broadShard :: "ShardKV \<Rightarrow> (int \<times> int) list" where
  "broadShard kv = map (\<lambda>shard. (shard, c_Num (skv_cfg kv))) (shardToSend kv)"

definition convertToLeaderRest :: "ShardKV \<Rightarrow> bool \<times> bool \<Rightarrow> ShardKV \<times> (int \<times> int) list" where
  "convertToLeaderRest kv result =
     (let (wl, wg) = result
      in if wl \<or> wg then (kv\<lparr>skv_leader := False\<rparr>, [])
         else let kv = parseCfg kv in (kv, broadShard kv))"

text \<open>After \<open>convertToLeader\<close>: give up, or wait on a fresh channel.\<close>

definition executeOpRegister :: "ShardKV \<Rightarrow> int \<Rightarrow> bool \<Rightarrow> ShardKV \<times> (bool \<times> bool) pending" where
  "executeOpRegister kv index isleader =
     (if \<not> isleader then (kv, Answer (True, False))
      else (kv\<lparr>skv_msgCh := (skv_msgCh kv)(index \<mapsto> skv_chans kv), skv_chans := skv_chans kv + 1\<rparr>,
            Wait index 0 (skv_chans kv)))"

definition executeOpResult :: "skvop \<Rightarrow> msgInCh option \<Rightarrow> bool \<times> bool" where
  "executeOpResult op w =
     (case w of None \<Rightarrow> (True, False)
      | Some res \<Rightarrow> if \<not> isOk res then (False, True)
                    else if \<not> skv_equal (in_op res) op then (True, False)
                    else (False, False))"

section \<open>The RPC handlers\<close>

definition requestOp :: "int \<Rightarrow> string \<Rightarrow> string \<Rightarrow> string \<Rightarrow> int \<Rightarrow> int \<Rightarrow> skvop" where
  "requestOp shard oper key value clerk index =
     \<lparr>x_Type = ''request'', x_Shard = shard, x_Operation = oper, x_Key = key, x_Value = value,
      x_Clerk = clerk, x_CmdIndex = index, x_Cfg = zeroCfg, x_ShardDB = Map.empty, x_ClerkLog = Map.empty\<rparr>"

definition skv_GetOp :: "skvGetArgs \<Rightarrow> skvop" where
  "skv_GetOp args = requestOp (sga_Shard args) ''get'' (sga_Key args) '''' (sga_Clerk args) (sga_CmdIndex args)"

text \<open>The reply of \<open>Get\<close>, from the result of \<open>executeOp\<close> and the state after it.\<close>

definition skv_GetReply :: "ShardKV \<Rightarrow> skvGetArgs \<Rightarrow> bool \<times> bool \<Rightarrow> GetReply" where
  "skv_GetReply kv args result =
     (let (wrongLeader, wrongGroup) = result
      in if wrongGroup then \<lparr>gr_WrongLeader = wrongLeader, gr_Err = ErrWrongGroup, gr_Value = ''''\<rparr>
         else if wrongLeader then \<lparr>gr_WrongLeader = wrongLeader, gr_Err = '''', gr_Value = ''''\<rparr>
         else (case gm_get0 Map.empty (skvDB kv) (sga_Shard args) (sga_Key args) of
                 Some val \<Rightarrow> \<lparr>gr_WrongLeader = wrongLeader, gr_Err = OK, gr_Value = val\<rparr>
               | None \<Rightarrow> \<lparr>gr_WrongLeader = wrongLeader, gr_Err = ErrNoKey, gr_Value = ''''\<rparr>))"

definition skv_PutAppendOp :: "skvPutAppendArgs \<Rightarrow> skvop" where
  "skv_PutAppendOp args = requestOp (spa_Shard args) (if spa_Op args = ''Put'' then ''put'' else ''append'')
     (spa_Key args) (spa_Value args) (spa_Clerk args) (spa_CmdIndex args)"

definition skv_PutAppendReply :: "bool \<times> bool \<Rightarrow> PutAppendReply" where
  "skv_PutAppendReply result =
     (let (wrongLeader, wrongGroup) = result
      in \<lparr>pr_WrongLeader = wrongLeader, pr_Err = (if wrongGroup then ErrWrongGroup else OK)\<rparr>)"

text \<open>\<open>PushShard\<close>: its answer is \<open>WrongLeader\<close>.  \<open>None\<close>: the shard goes through the log.\<close>

definition PushShardCheck :: "ShardKV \<Rightarrow> PushShardArgs \<Rightarrow> bool option" where
  "PushShardCheck kv args =
     (if skv_leader kv \<and> ps_CfgNum args < c_Num (skv_cfg kv) then Some False
      else if \<not> skv_leader kv \<or> ps_CfgNum args > c_Num (skv_cfg kv) \<or> \<not> haveShard kv (ps_Shard args) then Some True
      else if shardInDB kv (ps_Shard args) then Some False
      else None)"

definition pushShardOp :: "PushShardArgs \<Rightarrow> skvop" where
  "pushShardOp args = \<lparr>x_Type = ''newShard'', x_Shard = ps_Shard args, x_Operation = '''', x_Key = '''', x_Value = '''',
     x_Clerk = -1, x_CmdIndex = -1, x_Cfg = zeroCfg, x_ShardDB = ps_ShardDB args, x_ClerkLog = ps_ClerkLog args\<rparr>"

definition PushShardReply :: "bool \<times> bool \<Rightarrow> bool" where
  "PushShardReply result = (let (wrongLeader, wrongGroup) = result in \<not> (\<not> wrongLeader \<and> \<not> wrongGroup))"

section \<open>Sending shards and following configurations\<close>

text \<open>
  One iteration of \<open>sendShard\<close>: stop, or the arguments and the servers to try in turn (none if the
  target group is unknown).
\<close>

datatype sendRound = SendStop | SendRound PushShardArgs "string list"

definition sendShardRound :: "ShardKV \<Rightarrow> int \<Rightarrow> int \<Rightarrow> sendRound option" where
  "sendShardRound kv shard cfg =
     (if \<not> skv_leader kv \<or> \<not> shardInDB kv shard \<or> c_Num (skv_cfg kv) > cfg then Some SendStop
      else do {
        gid \<leftarrow> go_idx (c_Shards (skv_cfg kv)) shard;
        let args = \<lparr>ps_CfgNum = cfg, ps_Shard = shard,
                    ps_ShardDB = copyInto (gm_get0 Map.empty (skvDB kv) shard) Map.empty,
                    ps_ClerkLog = copyInto (gm_get0 Map.empty (sClerkLog kv) shard) Map.empty,
                    ps_GID = skv_gid kv\<rparr>;
        Some (SendRound args (gm_get0 [] (c_Groups (skv_cfg kv)) gid)) })"

text \<open>After a server answered: stop, tell the group that the shard is gone, or try the next server.\<close>

datatype sendNext = NextStop | NextCommit skvop | NextServer

definition newSendOp :: "int \<Rightarrow> skvop" where
  "newSendOp shard = \<lparr>x_Type = ''newsend'', x_Shard = shard, x_Operation = '''', x_Key = '''', x_Value = '''',
     x_Clerk = -1, x_CmdIndex = -1, x_Cfg = zeroCfg, x_ShardDB = Map.empty, x_ClerkLog = Map.empty\<rparr>"

definition sendShardAnswer :: "ShardKV \<Rightarrow> int \<Rightarrow> bool option \<Rightarrow> sendNext" where
  "sendShardAnswer kv shard reply =
     (if \<not> skv_leader kv then NextStop
      else if reply = Some False then NextCommit (newSendOp shard)
      else NextServer)"

text \<open>After the \<open>newsend\<close> operation: \<open>True\<close> if the goroutine goes round again.\<close>

definition sendShardAgain :: "bool \<times> bool \<Rightarrow> bool" where
  "sendShardAgain result = (let (wl, wg) = result in \<not> wl \<and> wg)"

definition newConfigOp :: "Config \<Rightarrow> skvop" where
  "newConfigOp cfg = \<lparr>x_Type = ''newConfig'', x_Shard = 1, x_Operation = '''', x_Key = '''', x_Value = '''',
     x_Clerk = 1, x_CmdIndex = 1, x_Cfg = cfg, x_ShardDB = Map.empty, x_ClerkLog = Map.empty\<rparr>"

text \<open>The guard of \<open>checkCfg\<close> and the number it asks the shard master for.\<close>

definition checkCfg :: "ShardKV \<Rightarrow> int option" where
  "checkCfg kv = (if skv_leader kv \<and> waitUntilMoveDone kv = 0 then Some (c_Num (skv_cfg kv) + 1) else None)"

text \<open>One iteration of \<open>getCfg\<close> with the answer \<open>cfg\<close> of the shard master: the operation to run, if any;
  and what follows its result (\<open>None\<close>: the loop goes round again).\<close>

definition getCfg :: "ShardKV \<Rightarrow> Config \<Rightarrow> skvop option" where
  "getCfg kv cfg = (if \<not> skv_leader kv \<or> c_Num cfg \<le> c_Num (skv_cfg kv) then None else Some (newConfigOp cfg))"

definition getCfgResult :: "ShardKV \<Rightarrow> bool \<times> bool \<Rightarrow> (int \<times> int) list option" where
  "getCfgResult kv result = (let (wl, wg) = result in if \<not> wl \<and> \<not> wg then Some (broadShard kv) else None)"

section \<open>Starting and stopping\<close>

definition skv_StartServer ::
    "nat \<Rightarrow> nat \<Rightarrow> skvpersister \<Rightarrow> int \<Rightarrow> int \<Rightarrow> (ShardKV \<times> skvraft) option" where
  "skv_StartServer n self ps maxraftstate gid = do {
     rf \<leftarrow> Make n self ps;
     let kv = \<lparr>skv_me = self, skv_gid = gid, skv_maxraftstate = maxraftstate, skv_msgCh = Map.empty,
               skv_chans = 0, sClerkLog = [], skvDB = [], skv_shards = [], shardToSend = [],
               skv_cfg = zeroCfg, skv_leader = False, waitUntilMoveDone = 0, skv_exitCh = 0\<rparr>;
     let kv = skv_loadSnapshot kv ps;
     Some (if ReadSnapshot ps \<noteq> [] then parseCfg kv else kv, rf) }"

text \<open>The exit channel has two slots; a send to a full one blocks.\<close>

definition skv_Kill :: "ShardKV \<Rightarrow> skvraft \<Rightarrow> (ShardKV \<times> skvraft) option" where
  "skv_Kill kv rf = do {
     rf \<leftarrow> Kill rf;
     if skv_exitCh kv = 0 then Some (kv\<lparr>skv_exitCh := 2\<rparr>, rf) else None }"

section \<open>The clerk\<close>

text \<open>The shard of a key: its first byte modulo the number of shards.\<close>

definition key2shard :: "string \<Rightarrow> int" where
  "key2shard key = go_mod (case key of [] \<Rightarrow> 0 | c # _ \<Rightarrow> int (of_char c)) (int NShards)"

record skvClerk =
  sk_config :: Config
  sk_me :: int
  sk_cmdIndex :: int

definition skv_MakeClerk :: "int \<Rightarrow> skvClerk" where
  "skv_MakeClerk nrand = \<lparr>sk_config = zeroCfg, sk_me = nrand, sk_cmdIndex = 0\<rparr>"

text \<open>The inner loop: the servers of the group in turn, until one answers or refuses the shard.\<close>

fun tryGroup :: "(string \<Rightarrow> 'r option) \<Rightarrow> ('r \<Rightarrow> bool) \<Rightarrow> ('r \<Rightarrow> bool) \<Rightarrow> string list \<Rightarrow> 'r option" where
  "tryGroup call good wrongGroup [] = None"
| "tryGroup call good wrongGroup (srv # srvs) =
     (case call srv of
        None \<Rightarrow> tryGroup call good wrongGroup srvs
      | Some reply \<Rightarrow> if good reply then Some reply
                      else if wrongGroup reply then None
                      else tryGroup call good wrongGroup srvs)"

text \<open>
  The outer loop.  A round consists of the network's answers and the configuration that the shard
  master returns afterwards; \<open>None\<close> inside the option: no round succeeded yet.
\<close>

fun clerkRounds :: "skvClerk \<Rightarrow> int \<Rightarrow> ((string \<Rightarrow> 'r option) \<times> Config) list \<Rightarrow> ('r \<Rightarrow> bool) \<Rightarrow> ('r \<Rightarrow> bool)
    \<Rightarrow> (skvClerk \<times> 'r option) option" where
  "clerkRounds ck shard [] good wrongGroup = Some (ck, None)"
| "clerkRounds ck shard ((call, latest) # rounds) good wrongGroup = do {
     gid \<leftarrow> go_idx (c_Shards (sk_config ck)) shard;
     case tryGroup call good wrongGroup (gm_get0 [] (c_Groups (sk_config ck)) gid) of
       Some reply \<Rightarrow> Some (ck, Some reply)
     | None \<Rightarrow> clerkRounds (ck\<lparr>sk_config := latest\<rparr>) shard rounds good wrongGroup }"

definition skv_ClerkGet ::
    "skvClerk \<Rightarrow> string \<Rightarrow> (skvGetArgs \<Rightarrow> ((string \<Rightarrow> GetReply option) \<times> Config) list)
      \<Rightarrow> (skvClerk \<times> string option) option" where
  "skv_ClerkGet ck key net =
     (let ck = ck\<lparr>sk_cmdIndex := sk_cmdIndex ck + 1\<rparr>;
          args = \<lparr>sga_Key = key, sga_Clerk = sk_me ck, sga_CmdIndex = sk_cmdIndex ck, sga_Shard = key2shard key\<rparr>
      in map_option (\<lambda>(ck, r). (ck, map_option gr_Value r))
           (clerkRounds ck (key2shard key) (net args)
              (\<lambda>r. \<not> gr_WrongLeader r \<and> (gr_Err r = OK \<or> gr_Err r = ErrNoKey)) (\<lambda>r. gr_Err r = ErrWrongGroup)))"

definition skv_ClerkPutAppend ::
    "skvClerk \<Rightarrow> string \<Rightarrow> string \<Rightarrow> string \<Rightarrow> (skvPutAppendArgs \<Rightarrow> ((string \<Rightarrow> PutAppendReply option) \<times> Config) list)
      \<Rightarrow> (skvClerk \<times> PutAppendReply option) option" where
  "skv_ClerkPutAppend ck key value oper net =
     (let ck = ck\<lparr>sk_cmdIndex := sk_cmdIndex ck + 1\<rparr>;
          args = \<lparr>spa_Key = key, spa_Value = value, spa_Op = oper, spa_Clerk = sk_me ck,
                  spa_CmdIndex = sk_cmdIndex ck, spa_Shard = key2shard key\<rparr>
      in clerkRounds ck (key2shard key) (net args)
           (\<lambda>r. \<not> pr_WrongLeader r \<and> pr_Err r = OK) (\<lambda>r. pr_Err r = ErrWrongGroup))"

end
