(* ===== verification/ShardMaster_Balance.thy ===== *)
theory ShardMaster_Balance
  imports ShardMaster
begin

text \<open>
  The rebalancing of shards, \<open>navieAssign\<close> of \<^verbatim>\<open>src/src/shardmaster/server.go\<close>: it never panics on
  a consistent state, whatever the iteration order of the Go map, and leaves every shard with a group
  and every group with the share or one more.
\<close>

section \<open>Where the shards are\<close>

text \<open>
  \<open>placed L K Sh todo\<close>: the groups \<open>K\<close> hold the disjoint lists \<open>L\<close>, as the array \<open>Sh\<close> says, and the
  remaining shards are in \<open>todo\<close>.
\<close>

definition placed :: "(int \<Rightarrow> int list) \<Rightarrow> int set \<Rightarrow> int list \<Rightarrow> int list \<Rightarrow> bool" where
  "placed L K Sh todo \<longleftrightarrow> length Sh = NShards \<and> finite K
     \<and> (\<forall>g \<in> K. distinct (L g) \<and> (\<forall>s \<in> set (L g). 0 \<le> s \<and> s < int NShards \<and> Sh ! nat s = g \<and> s \<notin> set todo))
     \<and> distinct todo \<and> (\<Union>g \<in> K. set (L g)) \<union> set todo = {0..<int NShards}"

lemma UN_at: "g \<in> K \<Longrightarrow> (\<Union>h \<in> K. set (F h)) = set (F g) \<union> (\<Union>h \<in> K - {g}. set (F h))"
  by auto

lemma placed_at:
  assumes "placed L K Sh todo" and "g \<in> K" and "s \<in> set (L g)"
  shows "0 \<le> s" "s < int NShards" "Sh ! nat s = g" "s \<notin> set todo"
  using assms unfolding placed_def by blast+

lemma placed_disjoint:
  assumes "placed L K Sh todo" and "g \<in> K" "h \<in> K" and "g \<noteq> h"
  shows "set (L g) \<inter> set (L h) = {}"
  using placed_at(3) [OF assms(1)] assms(2-4) by blast

lemma placed_count:
  assumes "placed L K Sh todo"
  shows "(\<Sum>g \<in> K. length (L g)) + length todo = NShards"
proof -
  let ?U = "\<Union>g \<in> K. set (L g)"
  have fin: "finite K" and d: "\<And>g. g \<in> K \<Longrightarrow> distinct (L g)" and dt: "distinct todo"
    and U: "?U \<union> set todo = {0..<int NShards}" and disj: "?U \<inter> set todo = {}"
    using assms by (auto simp: placed_def)
  have "card ?U = (\<Sum>g \<in> K. card (set (L g)))"
  proof (rule card_UN_disjoint [OF fin])
    show "\<forall>g \<in> K. \<forall>h \<in> K. g \<noteq> h \<longrightarrow> set (L g) \<inter> set (L h) = {}"
      using placed_disjoint [OF assms] by blast
  qed simp
  also have "\<dots> = (\<Sum>g \<in> K. length (L g))" using d by (intro sum.cong) (auto simp: distinct_card)
  finally have c: "card ?U = (\<Sum>g \<in> K. length (L g))" .
  have "finite ?U" using fin by simp
  from card_Un_disjoint [OF this _ disj] U c dt show ?thesis by (simp add: distinct_card)
qed

lemma placed_take:
  assumes "placed L K Sh todo" and "g \<in> K" and "L g \<noteq> []"
  shows "placed (L(g := butlast (L g))) K Sh (todo @ [last (L g)])"
proof -
  from assms(3) obtain l s where l: "L g = l @ [s]" by (cases "L g" rule: rev_cases) auto
  have "distinct (L g)" using assms unfolding placed_def by blast
  then have "s \<notin> set l" by (simp add: l)
  moreover have "s \<notin> set todo" using placed_at(4) [OF assms(1,2)] l by simp
  moreover have "s \<notin> set (L h)" if "h \<in> K" "h \<noteq> g" for h
    using placed_disjoint [OF assms(1,2) that(1)] that(2) l by auto
  moreover have "(\<Union>h \<in> K. set ((L(g := l)) h)) \<union> insert s (set todo) = (\<Union>h \<in> K. set (L h)) \<union> set todo"
    using UN_at [OF assms(2), of L] UN_at [OF assms(2), of "L(g := l)"] l by auto
  ultimately show ?thesis
    using assms l unfolding placed_def by (auto split: if_splits)
qed

lemma placed_give:
  assumes "placed L K Sh (s # todo)" and "g \<in> K"
  shows "placed (L(g := L g @ [s])) K (Sh[nat s := g]) todo"
proof -
  have s: "0 \<le> s" "s < int NShards" "s \<notin> set todo" and len: "length Sh = NShards"
    and other: "\<And>h. h \<in> K \<Longrightarrow> s \<notin> set (L h)"
    using assms unfolding placed_def by (auto simp: set_eq_iff)
  have upd: "Sh[nat s := g] ! nat x = (if x = s then g else Sh ! nat x)" if "0 \<le> x" for x
    using that s len by (auto simp: nth_list_update nat_eq_iff)
  have "(\<Union>h \<in> K. set ((L(g := L g @ [s])) h)) \<union> set todo = (\<Union>h \<in> K. set (L h)) \<union> set (s # todo)"
    using assms(2) by (auto split: if_splits)
  then show ?thesis
    using assms s len other upd unfolding placed_def by (auto split: if_splits)
qed

text \<open>A group joins, a group leaves, a single shard is taken from its group.\<close>

lemma placed_new:
  assumes "placed L K Sh todo" and "g \<notin> K"
  shows "placed (L(g := [])) (insert g K) Sh todo"
proof -
  have "(\<Union>h \<in> insert g K. set ((L(g := [])) h)) = (\<Union>h \<in> K. set (L h))"
    using assms(2) by (auto split: if_splits)
  then show ?thesis using assms unfolding placed_def by auto
qed

lemma placed_perm:
  "placed L K Sh todo \<Longrightarrow> set todo' = set todo \<Longrightarrow> distinct todo' \<Longrightarrow> placed L K Sh todo'"
  by (simp add: placed_def)

lemma placed_drop:
  assumes "placed L K Sh todo" and "g \<in> K" and "length Sh' = NShards"
    and "\<And>s. 0 \<le> s \<Longrightarrow> s < int NShards \<Longrightarrow> s \<notin> set (L g) \<Longrightarrow> Sh' ! nat s = Sh ! nat s"
    and "set todo' = set todo \<union> set (L g)" and "distinct todo'"
  shows "placed (L(g := [])) (K - {g}) Sh' todo'"
proof -
  have U: "(\<Union>h \<in> K - {g}. set ((L(g := [])) h)) \<union> set todo' = (\<Union>h \<in> K. set (L h)) \<union> set todo"
    using UN_at [OF assms(2), of L] assms(5) by auto
  have at: "0 \<le> s \<and> s < int NShards \<and> Sh' ! nat s = h \<and> s \<notin> set todo'"
    if "h \<in> K - {g}" "s \<in> set (L h)" for h s
  proof -
    have "s \<notin> set (L g)" using placed_disjoint [OF assms(1,2), of h] that by auto
    then show ?thesis using placed_at [OF assms(1), of h s] that assms(4) [of s] assms(5) by auto
  qed
  show ?thesis
    using assms(1,3,6) U at unfolding placed_def by auto
qed

lemma placed_remove:
  assumes "placed L K Sh todo" and "g \<in> K" and "s \<in> set (L g)"
  shows "placed (L(g := remove1 s (L g))) K Sh (s # todo)"
proof -
  have d: "distinct (L g)" using assms(1,2) unfolding placed_def by blast
  have set: "set (remove1 s (L g)) = set (L g) - {s}" using d by simp
  have U: "(\<Union>h \<in> K. set ((L(g := remove1 s (L g))) h)) \<union> set (s # todo) = (\<Union>h \<in> K. set (L h)) \<union> set todo"
    using UN_at [OF assms(2), of L] UN_at [OF assms(2), of "L(g := remove1 s (L g))"] set assms(3) by auto
  have other: "s \<notin> set (L h)" if "h \<in> K" "h \<noteq> g" for h
    using placed_disjoint [OF assms(1,2) that(1)] that(2) assms(3) by auto
  have "s \<notin> set todo" using placed_at(4) [OF assms] .
  then show ?thesis
    using assms(1) U d set other unfolding placed_def by auto
qed

section \<open>The classes of groups\<close>

definition groups ::
    "nat \<Rightarrow> (int \<Rightarrow> int list) \<Rightarrow> int set \<Rightarrow> int list \<Rightarrow> int list \<Rightarrow> int list \<Rightarrow> int list \<Rightarrow> bool" where
  "groups share L K le ok pl mo \<longleftrightarrow> distinct (le @ ok @ pl @ mo) \<and> set (le @ ok @ pl @ mo) = K
     \<and> (\<forall>g \<in> set le. length (L g) < share) \<and> (\<forall>g \<in> set ok. length (L g) = share)
     \<and> (\<forall>g \<in> set pl. length (L g) = share + 1) \<and> (\<forall>g \<in> set mo. length (L g) > share + 1)"

lemma classify_spec:
  assumes "groups share (shardsOf a) K (tless a) (tok a) (tplus a) (tmore a)"
    and "distinct ord" and "set ord \<inter> K = {}"
  shows "let a' = classify share ord a in groups share (shardsOf a') (K \<union> set ord) (tless a') (tok a') (tplus a') (tmore a')
     \<and> a_g2shard a' = a_g2shard a \<and> a_Shards a' = a_Shards a"
  using assms
proof (induction share ord a arbitrary: K rule: classify.induct)
  case (2 share gid ord a)
  let ?n = "length (shardsOf a gid)"
  let ?a = "if ?n = share then a\<lparr>tok := tok a @ [gid]\<rparr> else if ?n = share + 1 then a\<lparr>tplus := tplus a @ [gid]\<rparr>
    else if ?n < share then a\<lparr>tless := tless a @ [gid]\<rparr> else a\<lparr>tmore := tmore a @ [gid]\<rparr>"
  have "groups share (shardsOf ?a) (insert gid K) (tless ?a) (tok ?a) (tplus ?a) (tmore ?a)"
    using 2(2,4) by (auto simp: groups_def)
  from "2.IH" [OF refl this] 2(3,4) have
    "let a' = classify share ord ?a in groups share (shardsOf a') (insert gid K \<union> set ord) (tless a') (tok a') (tplus a') (tmore a')
     \<and> a_g2shard a' = a_g2shard ?a \<and> a_Shards a' = a_Shards ?a" by simp
  then show ?case by (auto simp: Let_def)
qed simp

text \<open>The counting facts that exclude the panics.\<close>

lemma share_bounds:
  assumes "0 < card K"
  shows "card K * (NShards div card K) \<le> NShards" and "NShards < card K * (NShards div card K + 1)"
  using assms by (simp_all add: NShards_def dividend_less_times_div)

lemma ok_available:
  assumes "placed L K Sh (s # todo)" and "groups share L K [] ok pl []" and "K \<noteq> {}"
    and "share = NShards div card K"
  shows "ok \<noteq> []"
proof
  assume "ok = []"
  with assms(2) have "\<forall>g \<in> K. length (L g) = share + 1" by (auto simp: groups_def)
  then have "(\<Sum>g \<in> K. length (L g)) = card K * (share + 1)" by simp
  moreover have "0 < card K" using assms(1,3) by (simp add: placed_def card_gt_0_iff)
  ultimately show False
    using placed_count [OF assms(1)] share_bounds(2) [of K] unfolding assms(4) by auto
qed

lemma plus_available:
  assumes "placed L K Sh []" and "groups share L K (g # le) ok pl []" and "share = NShards div card K"
  shows "pl \<noteq> []"
proof
  assume "pl = []"
  with assms(2) have le: "\<forall>h \<in> K. length (L h) \<le> share" and g: "g \<in> K" "length (L g) < share"
    by (auto simp: groups_def)
  have fin: "finite K" using assms(1) by (simp add: placed_def)
  have "(\<Sum>h \<in> K. length (L h)) < (\<Sum>h \<in> K. share)"
    by (rule sum_strict_mono_ex1 [OF fin]) (use le g in auto)
  moreover have "0 < card K" using fin g by (auto simp: card_gt_0_iff)
  then have "card K * share \<le> NShards" using share_bounds(1) [of K] unfolding assms(3) by blast
  moreover have "(\<Sum>h \<in> K. length (L h)) = NShards" using placed_count [OF assms(1)] by simp
  moreover have "(\<Sum>h \<in> K. share) = card K * share" by simp
  ultimately show False by linarith
qed

section \<open>The loops\<close>

definition asg :: "nat \<Rightarrow> int set \<Rightarrow> assigning \<Rightarrow> int list \<Rightarrow> int list \<Rightarrow> bool" where
  "asg share K a todo ok \<longleftrightarrow> gm_wf (a_g2shard a) \<and> gm_keys (a_g2shard a) = K
     \<and> placed (shardsOf a) K (a_Shards a) todo
     \<and> groups share (shardsOf a) K (tless a) ok (tplus a) (tmore a)"

lemma shardsOf_set [simp]: "gm_get0 [] (gm_set k l m) = (gm_get0 [] m)(k := l)"
  by (auto simp: gm_get0_def)

lemma asg_more_step:
  assumes "asg share K a todo (tok a)" and "tmore a = gid # rest"
  defines "l \<equiv> shardsOf a gid"
  defines "a1 \<equiv> a\<lparr>a_g2shard := gm_set gid (butlast l) (a_g2shard a)\<rparr>"
  shows "gid \<in> K" and "l \<noteq> []"
    and "length l = share + 2 \<Longrightarrow> asg share K (a1\<lparr>tplus := tplus a1 @ [gid], tmore := rest\<rparr>) (todo @ [last l]) (tok a)"
    and "length l \<noteq> share + 2 \<Longrightarrow> asg share K a1 (todo @ [last l]) (tok a)"
proof -
  have len: "length l > share + 1" and K: "gid \<in> K"
    using assms(1,2) unfolding asg_def groups_def l_def by auto
  show K': "gid \<in> K" by (rule K)
  show ne: "l \<noteq> []" using len by auto
  have p: "placed (shardsOf a1) K (a_Shards a1) (todo @ [last l])"
    using placed_take [of "shardsOf a" K "a_Shards a" todo gid] assms(1) K ne
    by (simp add: a1_def l_def asg_def)
  have m: "gm_wf (a_g2shard a1)" "gm_keys (a_g2shard a1) = K"
    using assms(1) K by (auto simp: a1_def asg_def)
  have g: "groups share (shardsOf a) K (tless a) (tok a) (tplus a) (gid # rest)"
    using assms(1,2) by (simp add: asg_def)
  show "asg share K (a1\<lparr>tplus := tplus a1 @ [gid], tmore := rest\<rparr>) (todo @ [last l]) (tok a)"
    if "length l = share + 2"
    using p m g that unfolding asg_def groups_def a1_def l_def by auto
  show "asg share K a1 (todo @ [last l]) (tok a)" if "length l \<noteq> share + 2"
    using p m g that len assms(2) unfolding asg_def groups_def a1_def l_def by auto
qed

lemma moreLoop_spec:
  assumes "asg share K a todo (tok a)"
  shows "\<exists>a' todo'. moreLoop share a todo = Some (a', todo') \<and> asg share K a' todo' (tok a') \<and> tmore a' = []"
  using assms
proof (induction share a todo rule: moreLoop.induct)
  case (1 share a todo)
  show ?case
  proof (cases "tmore a")
    case Nil
    with 1 show ?thesis by (simp add: moreLoop.simps [of share a])
  next
    case (Cons gid rest)
    let ?l = "shardsOf a gid"
    let ?a1 = "a\<lparr>a_g2shard := gm_set gid (butlast ?l) (a_g2shard a)\<rparr>"
    note step = asg_more_step [OF "1.prems" Cons]
    have gl: "getLastShard (a_g2shard a) gid = Some (last ?l)" "cutG2shard (a_g2shard a) gid = Some (butlast ?l)"
      using step(2) by (simp_all add: getLastShard_eq cutG2shard_eq Let_def)
    have run: "moreLoop share a todo =
       (if length ?l = share + 2 then moreLoop share (?a1\<lparr>tplus := tplus ?a1 @ [gid], tmore := rest\<rparr>) (todo @ [last ?l])
        else moreLoop share ?a1 (todo @ [last ?l]))"
      using step(2) by (simp add: moreLoop.simps [of share a] Cons gl Let_def) arith
    show ?thesis
    proof (cases "length ?l = share + 2")
      case True
      then show ?thesis
        using "1.IH"(1) [OF Cons _ gl(1) gl(2) refl refl] step(2) step(3) [OF True] gl
        by (simp add: run)
    next
      case False
      then show ?thesis
        using "1.IH"(2) [OF Cons _ gl(1) gl(2) refl refl] step(2) step(4) [OF False] gl
        by (simp add: run) 
    qed
  qed
qed

lemma asg_give:
  assumes "asg share K a (s # todo) ok" and "gid \<in> K"
  defines "a1 \<equiv> a\<lparr>a_Shards := (a_Shards a)[nat s := gid],
     a_g2shard := gm_set gid (shardsOf a gid @ [s]) (a_g2shard a)\<rparr>"
  shows "go_set (a_Shards a) s gid = Some (a_Shards a1)"
    and "placed (shardsOf a1) K (a_Shards a1) todo"
    and "gm_wf (a_g2shard a1)" and "gm_keys (a_g2shard a1) = K"
proof -
  have p: "placed (shardsOf a) K (a_Shards a) (s # todo)" using assms(1) by (simp add: asg_def)
  then have "0 \<le> s" "s < int NShards" "length (a_Shards a) = NShards"
    unfolding placed_def by (auto simp: set_eq_iff)
  then show "go_set (a_Shards a) s gid = Some (a_Shards a1)" by (simp add: go_set_def a1_def)
  show "placed (shardsOf a1) K (a_Shards a1) todo"
    using placed_give [OF p assms(2)] by (simp add: a1_def)
  show "gm_wf (a_g2shard a1)" "gm_keys (a_g2shard a1) = K"
    using assms(1,2) by (auto simp: a1_def asg_def)
qed

lemma groups_give:
  assumes "groups share L K (g # le) ok pl []"
  shows "if length (L g @ [s]) = share then groups share (L(g := L g @ [s])) K le (ok @ [g]) pl []
    else groups share (L(g := L g @ [s])) K (g # le) ok pl []"
  using assms unfolding groups_def by auto

lemma assignLoop_spec:
  assumes "asg share K a todo (tok a)" and "tmore a = []" and "K \<noteq> {}" and "share = NShards div card K"
  shows "\<exists>a'. assignLoop share todo a = Some a' \<and> asg share K a' [] (tok a') \<and> tmore a' = []"
  using assms(1,2)
proof (induction todo arbitrary: a)
  case Nil
  then show ?case by simp
next
  case (Cons s todo)
  have g: "groups share (shardsOf a) K (tless a) (tok a) (tplus a) []"
    using Cons.prems by (simp add: asg_def)
  show ?case
  proof (cases "tless a")
    case (Cons gid rest)
    then have K: "gid \<in> K" using g by (auto simp: groups_def)
    note give = asg_give [OF Cons.prems(1) K]
    let ?a1 = "a\<lparr>a_Shards := (a_Shards a)[nat s := gid],
       a_g2shard := gm_set gid (shardsOf a gid @ [s]) (a_g2shard a)\<rparr>"
    let ?a2 = "if length (shardsOf ?a1 gid) = share then ?a1\<lparr>tok := tok ?a1 @ [gid], tless := rest\<rparr> else ?a1"
    have "asg share K ?a2 todo (tok ?a2)" "tmore ?a2 = []"
      using give g Cons Cons.prems(2) by (auto simp: asg_def groups_def)
    from Cons.IH [OF this] show ?thesis using give(1) Cons by (simp add: Let_def)
  next
    case Nil
    have "tok a \<noteq> []"
      using ok_available [of "shardsOf a" K "a_Shards a" s todo share "tok a" "tplus a"] Cons.prems g Nil assms(3,4)
      by (simp add: asg_def)
    then obtain gid rest where ok: "tok a = gid # rest" by (cases "tok a") auto
    then have K: "gid \<in> K" using g by (auto simp: groups_def)
    note give = asg_give [OF Cons.prems(1) K]
    let ?a1 = "a\<lparr>a_Shards := (a_Shards a)[nat s := gid],
       a_g2shard := gm_set gid (shardsOf a gid @ [s]) (a_g2shard a)\<rparr>"
    let ?a2 = "?a1\<lparr>tok := tl (tok a), tplus := tplus a @ [gid]\<rparr>"
    have "asg share K ?a2 todo (tok ?a2)" "tmore ?a2 = []"
      using give g Nil ok Cons.prems(2) by (auto simp: asg_def groups_def)
    from Cons.IH [OF this] show ?thesis using give(1) Nil ok by (simp add: go_idx_def)
  qed
qed

lemma lessLoop_spec:
  assumes "asg share K a [] ok" and "tmore a = []" and "share = NShards div card K"
  shows "\<exists>a' ok'. lessLoop share a = Some a' \<and> asg share K a' [] ok' \<and> tless a' = [] \<and> tmore a' = []"
  using assms
proof (induction share a arbitrary: ok rule: lessLoop.induct)
  case (1 share a)
  have g: "groups share (shardsOf a) K (tless a) ok (tplus a) []"
    using "1.prems" by (simp add: asg_def)
  show ?case
  proof (cases "tless a")
    case Nil
    then have "lessLoop share a = Some a" by (simp add: lessLoop.simps [of share a])
    with Nil "1.prems" show ?thesis by blast
  next
    case (Cons gl rest)
    have "tplus a \<noteq> []"
      using plus_available [of "shardsOf a" K "a_Shards a" share gl rest ok "tplus a"] "1.prems" g Cons
      by (simp add: asg_def)
    then obtain gp others where pl: "tplus a = gp # others" by (cases "tplus a") auto
    let ?l = "shardsOf a gp"
    let ?a1 = "a\<lparr>tplus := others, a_g2shard := gm_set gp (butlast ?l) (a_g2shard a)\<rparr>"
    have K: "gp \<in> K" "gl \<in> K" and neq: "gp \<noteq> gl" and len: "length ?l = share + 1"
      using g Cons pl by (auto simp: groups_def)
    then have ne: "?l \<noteq> []" by auto
    have "placed (shardsOf ?a1) K (a_Shards ?a1) [last ?l]"
      using placed_take [of "shardsOf a" K "a_Shards a" "[]" gp] "1.prems"(1) K ne by (simp add: asg_def)
    then have a1: "asg share K ?a1 [last ?l] (ok @ [gp])"
      using g Cons pl len K "1.prems" by (auto simp: asg_def groups_def)
    note give = asg_give [OF a1 K(2)]
    let ?a2 = "?a1\<lparr>a_Shards := (a_Shards ?a1)[nat (last ?l) := gl],
       a_g2shard := gm_set gl (shardsOf ?a1 gl @ [last ?l]) (a_g2shard ?a1)\<rparr>"
    let ?a3 = "if length (shardsOf ?a2 gl) = share then ?a2\<lparr>tless := rest\<rparr> else ?a2"
    let ?ok = "if length (shardsOf ?a2 gl) = share then ok @ [gp, gl] else ok @ [gp]"
    have set1: "go_set (a_Shards ?a1) (last ?l) gl = Some ((a_Shards ?a1)[nat (last ?l) := gl])"
      using give(1) by simp
    have gs: "getLastShard (a_g2shard a) gp = Some (last ?l)" "cutG2shard (a_g2shard a) gp = Some (butlast ?l)"
      using ne by (simp_all add: getLastShard_eq cutG2shard_eq Let_def)
    have run: "lessLoop share a = lessLoop share ?a3"
      using give(1) by (simp add: lessLoop.simps [of share a] Cons pl gs Let_def)
    have m: "tmore ?a3 = []" using "1.prems"(2) by simp
    have g1: "groups share (shardsOf ?a1) K (gl # rest) (ok @ [gp]) others []"
      using a1 Cons "1.prems"(2) by (simp add: asg_def)
    have a3: "asg share K ?a3 [] ?ok"
    proof (cases "length (shardsOf ?a2 gl) = share")
      case True
      then show ?thesis using groups_give [OF g1, of "last ?l"] give(2-4) "1.prems"(2) by (simp add: asg_def)
    next
      case False
      then show ?thesis using groups_give [OF g1, of "last ?l"] give(2-4) "1.prems"(2) Cons by (simp add: asg_def)
    qed
    have "\<exists>a' ok'. lessLoop share ?a3 = Some a' \<and> asg share K a' [] ok' \<and> tless a' = [] \<and> tmore a' = []"
      by (rule "1.IH" [OF Cons pl gs(1) gs(2) refl set1 refl a3 m "1.prems"(3)])
    then show ?thesis by (simp only: run)
  qed
qed

section \<open>The whole assignment\<close>

definition balanced :: "(int, int list) gomap \<Rightarrow> bool" where
  "balanced g2s \<longleftrightarrow> (\<forall>g \<in> gm_keys g2s. length (gm_get0 [] g2s g) = NShards div length g2s
     \<or> length (gm_get0 [] g2s g) = NShards div length g2s + 1)"

text \<open>What a shard master keeps true of its last configuration and of \<open>g2shard\<close>.\<close>

definition cfg_ok :: "Config \<Rightarrow> (int, int list) gomap \<Rightarrow> bool" where
  "cfg_ok cfg g2s \<longleftrightarrow> gm_wf g2s \<and> 0 \<notin> gm_keys g2s
     \<and> placed (gm_get0 [] g2s) (gm_keys g2s) (c_Shards cfg) (unassigned (c_Shards cfg))
     \<and> gm_wf (c_Groups cfg) \<and> gm_keys (c_Groups cfg) \<subseteq> gm_keys g2s"

lemma set_unassigned:
  "set (unassigned sh) = {s. 0 \<le> s \<and> s < int (length sh) \<and> sh ! nat s = 0}"
proof -
  have "\<exists>k < length sh. sh ! k = 0 \<and> x = int k" if "0 \<le> x" "x < int (length sh)" "sh ! nat x = 0" for x
    using that by (intro exI [of _ "nat x"]) auto
  then show ?thesis unfolding unassigned_def by (auto simp: image_iff)
qed

lemma distinct_unassigned [simp]: "distinct (unassigned sh)"
  by (simp add: unassigned_def distinct_map inj_on_def)

text \<open>All shards have a group: none is unassigned.\<close>

lemma placed_all:
  assumes "placed L K Sh []" and "0 \<notin> K"
  shows "unassigned Sh = []" and "\<And>s. s < NShards \<Longrightarrow> Sh ! s \<in> K \<and> int s \<in> set (L (Sh ! s))"
proof -
  have at: "Sh ! s \<in> K \<and> int s \<in> set (L (Sh ! s))" if "s < NShards" for s
  proof -
    have "int s \<in> (\<Union>g \<in> K. set (L g))" using assms(1) that by (simp add: placed_def)
    then obtain g where "g \<in> K" "int s \<in> set (L g)" by blast
    with placed_at(3) [OF assms(1) this] show ?thesis by simp
  qed
  then show "\<And>s. s < NShards \<Longrightarrow> Sh ! s \<in> K \<and> int s \<in> set (L (Sh ! s))" .
  have "length Sh = NShards" using assms(1) by (simp add: placed_def)
  with at assms(2) show "unassigned Sh = []"
    unfolding unassigned_def by (auto simp: filter_empty_conv) metis
qed

lemma navieAssign_spec:
  assumes cfg: "getLastCfg sm = Some cfg" and ok: "cfg_ok cfg (g2shard sm)"
    and ord: "range_order (ord (g2shard sm)) (g2shard sm)" and ne: "g2shard sm \<noteq> []"
  obtains sh g2s where
    "navieAssign ord sm = Some ((setLastCfg sm (cfg\<lparr>c_Shards := sh\<rparr>))\<lparr>g2shard := g2s\<rparr>)"
    "placed (gm_get0 [] g2s) (gm_keys g2s) sh []" "gm_wf g2s" "gm_keys g2s = gm_keys (g2shard sm)" "balanced g2s"
proof -
  let ?K = "gm_keys (g2shard sm)" and ?share = "NShards div length (g2shard sm)"
  let ?a = "\<lparr>a_Shards = c_Shards cfg, a_g2shard = g2shard sm, tless = [], tok = [], tplus = [], tmore = []\<rparr>"
  let ?c = "classify ?share (ord (g2shard sm)) ?a"
  have wf: "gm_wf (g2shard sm)" using ok by (simp add: cfg_ok_def)
  have K: "?K \<noteq> {}" using ne by simp
  have card: "card ?K = length (g2shard sm)" using gm_len [OF wf] by simp
  have ordK: "set (ord (g2shard sm)) = ?K" "distinct (ord (g2shard sm))" using ord by (auto simp: range_order_def)
  have "let a' = ?c in groups ?share (shardsOf a') ({} \<union> set (ord (g2shard sm))) (tless a') (tok a') (tplus a') (tmore a')
     \<and> a_g2shard a' = a_g2shard ?a \<and> a_Shards a' = a_Shards ?a"
    by (rule classify_spec) (simp_all add: groups_def ordK)
  then have "asg ?share ?K ?c (unassigned (c_Shards cfg)) (tok ?c)"
    using ok ordK by (auto simp: asg_def cfg_ok_def Let_def)
  from moreLoop_spec [OF this] obtain a1 todo where
    m: "moreLoop ?share ?c (unassigned (c_Shards cfg)) = Some (a1, todo)" "asg ?share ?K a1 todo (tok a1)" "tmore a1 = []"
    by blast
  from assignLoop_spec [OF m(2,3) K] card obtain a2 where
    a: "assignLoop ?share todo a1 = Some a2" "asg ?share ?K a2 [] (tok a2)" "tmore a2 = []" by auto
  from lessLoop_spec [OF a(2,3)] card obtain a3 ok3 where
    l: "lessLoop ?share a2 = Some a3" "asg ?share ?K a3 [] ok3" "tless a3 = []" "tmore a3 = []" by auto
  have run: "navieAssign ord sm = Some ((setLastCfg sm (cfg\<lparr>c_Shards := a_Shards a3\<rparr>))\<lparr>g2shard := a_g2shard a3\<rparr>)"
    using ne by (simp add: navieAssign_def cfg Let_def m(1) a(1) l(1))
  have keys: "gm_keys (a_g2shard a3) = ?K" and wf3: "gm_wf (a_g2shard a3)" using l(2) by (auto simp: asg_def)
  have "length (a_g2shard a3) = length (g2shard sm)" using gm_len [OF wf3] keys card by simp
  then have "balanced (a_g2shard a3)"
    using l(2-4) keys by (auto simp: balanced_def asg_def groups_def)
  with run keys wf3 l(2) show ?thesis by (intro that [OF run]) (auto simp: asg_def)
qed

end
