(* ===== verification/ShardMaster_Service.thy ===== *)
theory ShardMaster_Service
  imports ShardMaster_Balance
begin

text \<open>
  The shard master as a state machine: its invariant, that every command in the log keeps it and
  never panics, what the configurations look like after each command, and two defects, the lost
  de-duplication and the dependence on the iteration order of a Go map.
\<close>

section \<open>The invariant\<close>

definition sm_inv :: "ShardMaster \<Rightarrow> bool" where
  "sm_inv sm \<longleftrightarrow> configs sm \<noteq> [] \<and> (\<forall>k < length (configs sm). c_Num (configs sm ! k) = int k)
     \<and> cfg_ok (last (configs sm)) (g2shard sm) \<and> sm_clerkLog sm = Map.empty \<and> \<not> sm_mu sm"

text \<open>
  The commands the service is meant for: group 0 stands for no group, so it neither joins nor gets a shard,
  and a move names one of the \<open>NShards\<close> shards.  No handler checks this.
\<close>

definition smop_ok :: "smop \<Rightarrow> bool" where
  "smop_ok op \<longleftrightarrow> (so_Operation op = ''join'' \<longrightarrow> 0 \<notin> gm_keys (so_Servers op))
     \<and> (so_Operation op = ''move'' \<longrightarrow> 0 \<le> so_Shard op \<and> so_Shard op < int NShards
          \<and> so_GIDs op \<noteq> [] \<and> hd (so_GIDs op) \<noteq> 0)"

definition orders :: "iteration \<Rightarrow> bool" where
  "orders ord \<longleftrightarrow> (\<forall>m. gm_wf m \<longrightarrow> range_order (ord m) m)"

lemma orders_self: "orders (map fst)"
  by (simp add: orders_def range_order_self)

lemma getLastCfg_last: "configs sm \<noteq> [] \<Longrightarrow> getLastCfg sm = Some (last (configs sm))"
  by (cases "configs sm" rule: rev_cases) (auto simp: getLastCfg_def go_idx_def nth_append)

definition nextCfg :: "ShardMaster \<Rightarrow> Config" where
  "nextCfg sm = (last (configs sm))\<lparr>c_Num := c_Num (last (configs sm)) + 1\<rparr>"

lemma addConfig_eq:
  "configs sm \<noteq> [] \<Longrightarrow> addConfig sm = Some (sm\<lparr>configs := configs sm @ [nextCfg sm]\<rparr>)"
  by (simp add: addConfig_def getLastCfg_last nextCfg_def)

lemma setLastCfg_snoc [simp]: "setLastCfg (sm\<lparr>configs := cs @ [c]\<rparr>) c' = sm\<lparr>configs := cs @ [c']\<rparr>"
  by (simp add: setLastCfg_def)

lemma cfg_ok_cong:
  "c_Shards c = c_Shards c' \<Longrightarrow> c_Groups c = c_Groups c' \<Longrightarrow> cfg_ok c g2s = cfg_ok c' g2s"
  by (simp add: cfg_ok_def)

lemma nextCfg_ok: "sm_inv sm \<Longrightarrow> cfg_ok (nextCfg sm) (g2shard sm)"
  using cfg_ok_cong [of "nextCfg sm" "last (configs sm)"] by (simp add: sm_inv_def nextCfg_def)

text \<open>A new configuration with the next number keeps the invariant.\<close>

lemma sm_inv_snoc:
  assumes "sm_inv sm" and "cfg_ok cfg g2s" and "c_Num cfg = c_Num (last (configs sm)) + 1"
  shows "sm_inv (sm\<lparr>configs := configs sm @ [cfg], g2shard := g2s\<rparr>)"
proof -
  have "c_Num (last (configs sm)) = int (length (configs sm)) - 1"
    using assms(1) by (cases "configs sm" rule: rev_cases) (auto simp: sm_inv_def)
  then show ?thesis using assms by (auto simp: sm_inv_def nth_append less_Suc_eq)
qed

section \<open>Join\<close>

lemma cfg_ok_join:
  assumes "cfg_ok cfg g2s" and "gm_get g2s g = None" and "g \<noteq> 0"
  shows "cfg_ok (cfg\<lparr>c_Groups := gm_set g servers (c_Groups cfg)\<rparr>) (gm_set g [] g2s)"
proof -
  have "g \<notin> gm_keys g2s" using assms(2) by (simp add: gm_keys_dom domIff)
  then have "placed ((gm_get0 [] g2s)(g := [])) (insert g (gm_keys g2s)) (c_Shards cfg) (unassigned (c_Shards cfg))"
    using assms(1) by (intro placed_new) (auto simp: cfg_ok_def)
  then show ?thesis using assms by (auto simp: cfg_ok_def)
qed

lemma joinLoop_spec:
  assumes "cfg_ok cfg g2s" and "0 \<notin> gm_keys ss" and "joinLoop ss cfg g2s need = (cfg', g2s', need')"
  shows "cfg_ok cfg' g2s' \<and> gm_keys g2s' = gm_keys g2s \<union> gm_keys ss \<and> c_Num cfg' = c_Num cfg
    \<and> c_Shards cfg' = c_Shards cfg \<and> (\<not> need' \<longrightarrow> g2s' = g2s \<and> cfg' = cfg) \<and> (need' \<longrightarrow> need \<or> g2s' \<noteq> []) \<and> (need \<longrightarrow> need')"
  using assms
proof (induction ss cfg g2s need rule: joinLoop.induct)
  case (2 groupId servers rest cfg g2s need)
  show ?case
  proof (cases "gm_get g2s groupId")
    case None
    have "gm_keys g2s' \<noteq> {}"
      using "2.IH"(1) [OF None cfg_ok_join [OF "2.prems"(1) None]] "2.prems" None by auto
    then show ?thesis
      using "2.IH"(1) [OF None cfg_ok_join [OF "2.prems"(1) None]] "2.prems" None by auto
  next
    case (Some l)
    then have "groupId \<in> gm_keys g2s" by (simp add: gm_keys_dom domI)
    then show ?thesis using "2.IH"(2) "2.prems" Some by auto
  qed
qed auto

text \<open>Rebalancing keeps the configuration well-formed.\<close>

lemma navieAssign_keeps:
  assumes cs: "cfg_ok cfg g2s" and ord: "orders ord" and ne: "g2s \<noteq> []"
  obtains sh g2s' where
    "navieAssign ord (sm\<lparr>configs := cs @ [cfg], g2shard := g2s\<rparr>)
       = Some (sm\<lparr>configs := cs @ [cfg\<lparr>c_Shards := sh\<rparr>], g2shard := g2s'\<rparr>)"
    "cfg_ok (cfg\<lparr>c_Shards := sh\<rparr>) g2s'" "balanced g2s'" "gm_keys g2s' = gm_keys g2s" "unassigned sh = []"
proof -
  let ?sm = "sm\<lparr>configs := cs @ [cfg], g2shard := g2s\<rparr>"
  have wf: "gm_wf g2s" "0 \<notin> gm_keys g2s" using cs by (auto simp: cfg_ok_def)
  have 1: "getLastCfg ?sm = Some cfg" by (simp add: getLastCfg_last)
  have 2: "cfg_ok cfg (g2shard ?sm)" "g2shard ?sm \<noteq> []" using cs ne by simp_all
  have 3: "range_order (ord (g2shard ?sm)) (g2shard ?sm)" using ord wf by (simp add: orders_def)
  obtain sh g2s' where
    r: "navieAssign ord ?sm = Some ((setLastCfg ?sm (cfg\<lparr>c_Shards := sh\<rparr>))\<lparr>g2shard := g2s'\<rparr>)"
    "placed (gm_get0 [] g2s') (gm_keys g2s') sh []" "gm_wf g2s'" "gm_keys g2s' = gm_keys (g2shard ?sm)" "balanced g2s'"
    by (rule navieAssign_spec [where ord = ord, OF 1 2(1) 3 2(2)])
  have u: "unassigned sh = []" using placed_all(1) [OF r(2)] r(4) wf by simp
  have "cfg_ok (cfg\<lparr>c_Shards := sh\<rparr>) g2s'" using cs r u by (simp add: cfg_ok_def)
  moreover have R: "navieAssign ord ?sm = Some (sm\<lparr>configs := cs @ [cfg\<lparr>c_Shards := sh\<rparr>], g2shard := g2s'\<rparr>)"
    using r(1) by (simp add: setLastCfg_def)
  ultimately show ?thesis using r u by (intro that [OF R]) auto
qed

lemma applyJoin_spec:
  assumes inv: "sm_inv sm" and ok: "0 \<notin> gm_keys (so_Servers op)" and ord: "orders ord"
  obtains cfg g2s where "applyJoin ord op sm = Some (sm\<lparr>configs := configs sm @ [cfg], g2shard := g2s\<rparr>)"
    "cfg_ok cfg g2s" "c_Num cfg = c_Num (last (configs sm)) + 1"
    "gm_keys g2s = gm_keys (g2shard sm) \<union> gm_keys (so_Servers op)"
    "\<not> gm_keys (so_Servers op) \<subseteq> gm_keys (g2shard sm) \<longrightarrow> balanced g2s \<and> unassigned (c_Shards cfg) = []"
proof -
  have ne: "configs sm \<noteq> []" using inv by (simp add: sm_inv_def)
  obtain cfg1 g2s1 need where j: "joinLoop (so_Servers op) (nextCfg sm) (g2shard sm) False = (cfg1, g2s1, need)"
    by (metis prod_cases3)
  note js = joinLoop_spec [OF nextCfg_ok [OF inv] ok j]
  have run: "applyJoin ord op sm = (if need then navieAssign ord (sm\<lparr>configs := configs sm @ [cfg1], g2shard := g2s1\<rparr>)
      else Some (sm\<lparr>configs := configs sm @ [cfg1], g2shard := g2s1\<rparr>))"
    using ne j by (simp add: applyJoin_def addConfig_eq getLastCfg_last)
  show ?thesis
  proof (cases need)
    case True
    then have c: "cfg_ok cfg1 g2s1" "g2s1 \<noteq> []" using js by auto
    obtain sh g2s' where
      r: "navieAssign ord (sm\<lparr>configs := configs sm @ [cfg1], g2shard := g2s1\<rparr>)
         = Some (sm\<lparr>configs := configs sm @ [cfg1\<lparr>c_Shards := sh\<rparr>], g2shard := g2s'\<rparr>)"
      "cfg_ok (cfg1\<lparr>c_Shards := sh\<rparr>) g2s'" "balanced g2s'" "gm_keys g2s' = gm_keys g2s1" "unassigned sh = []"
      by (rule navieAssign_keeps [OF c(1) ord c(2), where sm = sm and cs = "configs sm"])
    then have R: "applyJoin ord op sm = Some (sm\<lparr>configs := configs sm @ [cfg1\<lparr>c_Shards := sh\<rparr>], g2shard := g2s'\<rparr>)"
      using run True by simp
    show ?thesis using r js by (intro that [OF R]) (auto simp: nextCfg_def)
  next
    case False
    then have R: "applyJoin ord op sm = Some (sm\<lparr>configs := configs sm @ [cfg1], g2shard := g2s1\<rparr>)"
      using run by simp
    show ?thesis using False js by (intro that [OF R]) (auto simp: nextCfg_def)
  qed
qed

section \<open>Leave\<close>

lemma clearShards_spec:
  "(\<And>s. s \<in> set l \<Longrightarrow> 0 \<le> s \<and> s < int (length sh)) \<Longrightarrow>
     \<exists>sh'. clearShards l sh = Some sh' \<and> length sh' = length sh
       \<and> (\<forall>s. 0 \<le> s \<longrightarrow> s < int (length sh) \<longrightarrow> sh' ! nat s = (if s \<in> set l then 0 else sh ! nat s))"
proof (induction l arbitrary: sh)
  case (Cons s l)
  have s: "0 \<le> s" "s < int (length sh)" using Cons.prems by auto
  then obtain sh' where sh': "clearShards l (sh[nat s := 0]) = Some sh'" "length sh' = length sh"
    "\<forall>x. 0 \<le> x \<longrightarrow> x < int (length sh) \<longrightarrow> sh' ! nat x = (if x \<in> set l then 0 else sh[nat s := 0] ! nat x)"
    using Cons.IH [of "sh[nat s := 0]"] Cons.prems by auto
  have "clearShards (s # l) sh = Some sh'" using s sh'(1) by (simp add: go_set_def)
  moreover have "sh' ! nat x = (if x \<in> set (s # l) then 0 else sh ! nat x)" if "0 \<le> x" "x < int (length sh)" for x
    using sh'(3) that s by (cases "x = s") (auto simp: nat_eq_iff)
  ultimately show ?case using sh'(2) by blast
qed simp

lemma cfg_ok_leave:
  assumes ok: "cfg_ok cfg g2s" and l: "gm_get g2s g = Some l"
  obtains sh where "clearShards l (c_Shards cfg) = Some sh"
    "cfg_ok (cfg\<lparr>c_Shards := sh, c_Groups := gm_del g (c_Groups cfg)\<rparr>) (gm_del g g2s)"
proof -
  let ?L = "gm_get0 [] g2s" and ?K = "gm_keys g2s" and ?Sh = "c_Shards cfg"
  have p: "placed ?L ?K ?Sh (unassigned ?Sh)" using ok by (simp add: cfg_ok_def)
  have len: "length ?Sh = NShards" using p by (simp add: placed_def)
  have g: "g \<in> ?K" "?L g = l" using l by (auto simp: gm_keys_dom gm_get0_def)
  have mem: "0 \<le> s \<and> s < int NShards \<and> ?Sh ! nat s = g" if "s \<in> set l" for s
    using placed_at [OF p g(1), of s] that g(2) by simp
  then obtain sh where sh: "clearShards l ?Sh = Some sh" "length sh = NShards"
    "\<forall>s. 0 \<le> s \<longrightarrow> s < int NShards \<longrightarrow> sh ! nat s = (if s \<in> set l then 0 else ?Sh ! nat s)"
    using clearShards_spec [of l ?Sh] len by auto
  have u: "set (unassigned sh) = set (unassigned ?Sh) \<union> set (?L g)"
    using sh len mem by (auto simp: set_unassigned g(2))
  have "placed (?L(g := [])) (?K - {g}) sh (unassigned sh)"
    by (rule placed_drop [OF p g(1) sh(2) _ u]) (use sh(3) g(2) in auto)
  moreover have "gm_get0 [] (gm_del g g2s) = ?L(g := [])" by (auto simp: gm_get0_def)
  ultimately have "cfg_ok (cfg\<lparr>c_Shards := sh, c_Groups := gm_del g (c_Groups cfg)\<rparr>) (gm_del g g2s)"
    using ok by (auto simp: cfg_ok_def)
  with sh(1) show ?thesis by (rule that)
qed

lemma leaveLoop_spec:
  assumes "cfg_ok cfg g2s"
  shows "\<exists>cfg' g2s' need'. leaveLoop gids cfg g2s need = Some (cfg', g2s', need') \<and> cfg_ok cfg' g2s'
    \<and> gm_keys g2s' = gm_keys g2s - set gids \<and> c_Num cfg' = c_Num cfg
    \<and> (need \<longrightarrow> need') \<and> (\<not> need' \<longrightarrow> g2s' = g2s \<and> cfg' = cfg)"
  using assms
proof (induction gids arbitrary: cfg g2s need)
  case (Cons g gids)
  show ?case
  proof (cases "gm_get g2s g")
    case None
    then have "g \<notin> gm_keys g2s" by (simp add: gm_keys_dom domIff)
    then show ?thesis using Cons.IH [OF Cons.prems, of need] None by auto
  next
    case (Some l)
    obtain sh where sh: "clearShards l (c_Shards cfg) = Some sh"
      "cfg_ok (cfg\<lparr>c_Shards := sh, c_Groups := gm_del g (c_Groups cfg)\<rparr>) (gm_del g g2s)"
      by (rule cfg_ok_leave [OF Cons.prems Some])
    from Cons.IH [OF sh(2), of True] obtain cfg' g2s' where
      "leaveLoop gids (cfg\<lparr>c_Shards := sh, c_Groups := gm_del g (c_Groups cfg)\<rparr>) (gm_del g g2s) True
         = Some (cfg', g2s', True)" "cfg_ok cfg' g2s'" "gm_keys g2s' = gm_keys (gm_del g g2s) - set gids"
      "c_Num cfg' = c_Num cfg" by auto
    then show ?thesis using Some sh(1) by (intro exI [of _ cfg'] exI [of _ g2s'] exI [of _ True]) auto
  qed
qed simp

lemma applyLeave_spec:
  assumes inv: "sm_inv sm" and ord: "orders ord"
  obtains cfg g2s where "applyLeave ord op sm = Some (sm\<lparr>configs := configs sm @ [cfg], g2shard := g2s\<rparr>)"
    "cfg_ok cfg g2s" "c_Num cfg = c_Num (last (configs sm)) + 1"
    "gm_keys g2s = gm_keys (g2shard sm) - set (so_GIDs op)"
    "gm_keys (g2shard sm) \<inter> set (so_GIDs op) \<noteq> {} \<and> g2s \<noteq> [] \<longrightarrow> balanced g2s \<and> unassigned (c_Shards cfg) = []"
proof -
  have ne: "configs sm \<noteq> []" using inv by (simp add: sm_inv_def)
  obtain cfg1 g2s1 need where l: "leaveLoop (so_GIDs op) (nextCfg sm) (g2shard sm) False = Some (cfg1, g2s1, need)"
    and ls: "cfg_ok cfg1 g2s1" "gm_keys g2s1 = gm_keys (g2shard sm) - set (so_GIDs op)"
      "c_Num cfg1 = c_Num (nextCfg sm)" "\<not> need \<longrightarrow> g2s1 = g2shard sm \<and> cfg1 = nextCfg sm"
    using leaveLoop_spec [OF nextCfg_ok [OF inv], of "so_GIDs op" False] by blast
  have run: "applyLeave ord op sm = (if need then navieAssign ord (sm\<lparr>configs := configs sm @ [cfg1], g2shard := g2s1\<rparr>)
      else Some (sm\<lparr>configs := configs sm @ [cfg1], g2shard := g2s1\<rparr>))"
    using ne l by (simp add: applyLeave_def addConfig_eq getLastCfg_last)
  show ?thesis
  proof (cases "need \<and> g2s1 \<noteq> []")
    case True
    obtain sh g2s' where
      r: "navieAssign ord (sm\<lparr>configs := configs sm @ [cfg1], g2shard := g2s1\<rparr>)
         = Some (sm\<lparr>configs := configs sm @ [cfg1\<lparr>c_Shards := sh\<rparr>], g2shard := g2s'\<rparr>)"
      "cfg_ok (cfg1\<lparr>c_Shards := sh\<rparr>) g2s'" "balanced g2s'" "gm_keys g2s' = gm_keys g2s1" "unassigned sh = []"
      by (rule navieAssign_keeps [OF ls(1) ord, where sm = sm and cs = "configs sm"]) (use True in auto)
    then have R: "applyLeave ord op sm = Some (sm\<lparr>configs := configs sm @ [cfg1\<lparr>c_Shards := sh\<rparr>], g2shard := g2s'\<rparr>)"
      using run True by simp
    show ?thesis using r ls by (intro that [OF R]) (auto simp: nextCfg_def)
  next
    case False
    then have R: "applyLeave ord op sm = Some (sm\<lparr>configs := configs sm @ [cfg1], g2shard := g2s1\<rparr>)"
      using run by (auto simp: navieAssign_def)
    have quiet: False if "gm_keys (g2shard sm) \<inter> set (so_GIDs op) \<noteq> {}" "g2s1 \<noteq> []"
      using that False ls(2,4) by auto
    show ?thesis using ls quiet by (intro that [OF R]) (auto simp: nextCfg_def)
  qed
qed

section \<open>Move\<close>

lemma applyMove_spec:
  assumes inv: "sm_inv sm" and op: "0 \<le> so_Shard op" "so_Shard op < int NShards" "so_GIDs op = gid # gids" "gid \<noteq> 0"
  obtains cfg g2s where "applyMove op sm = Some (sm\<lparr>configs := configs sm @ [cfg], g2shard := g2s\<rparr>)"
    "cfg_ok cfg g2s" "c_Num cfg = c_Num (last (configs sm)) + 1"
    "c_Shards cfg = (c_Shards (last (configs sm)))[nat (so_Shard op) := gid]"
    "c_Groups cfg = c_Groups (last (configs sm))"
proof -
  let ?c = "nextCfg sm" and ?g = "g2shard sm" and ?s = "so_Shard op"
  let ?Sh = "c_Shards ?c" and ?L = "gm_get0 [] ?g" and ?K = "gm_keys ?g"
  let ?old = "?Sh ! nat ?s"
  define g1 where "g1 = (if ?s \<in> set (?L ?old) then gm_set ?old (remove1 ?s (?L ?old)) ?g else ?g)"
  let ?g2 = "gm_set gid (gm_get0 [] g1 gid @ [?s]) g1"
  let ?cfg = "?c\<lparr>c_Shards := ?Sh[nat ?s := gid]\<rparr>"
  have ok: "cfg_ok ?c ?g" by (rule nextCfg_ok [OF inv])
  have p: "placed ?L ?K ?Sh (unassigned ?Sh)" and wf: "gm_wf ?g" "0 \<notin> ?K" using ok by (auto simp: cfg_ok_def)
  have len: "length ?Sh = NShards" using p by (simp add: placed_def)
  let ?rest = "filter (\<lambda>x. x \<noteq> ?s) (unassigned ?Sh)"
  have wf1: "gm_wf g1" using wf(1) by (simp add: g1_def)
  have "placed (gm_get0 [] g1) ?K ?Sh (?s # ?rest) \<and> gm_keys g1 = ?K"
  proof (cases "?s \<in> set (unassigned ?Sh)")
    case True
    then have zero: "?old = 0" by (simp add: set_unassigned)
    have "?L 0 = []" using wf(2) by (auto simp: gm_get0_def gm_keys_dom split: option.splits)
    then show ?thesis using placed_perm [OF p, of "?s # ?rest"] True zero by (auto simp: g1_def)
  next
    case False
    have "?s \<in> (\<Union>g \<in> ?K. set (?L g)) \<union> set (unassigned ?Sh)" using p op unfolding placed_def by auto
    then obtain g where g: "g \<in> ?K" "?s \<in> set (?L g)" using False by blast
    then have old: "?old = g" using placed_at(3) [OF p g] by simp
    have "?rest = unassigned ?Sh" using False by (auto simp: filter_id_conv)
    moreover have "gm_keys g1 = ?K" using g by (simp add: g1_def old insert_absorb)
    ultimately show ?thesis using placed_remove [OF p g] g(2) by (simp add: g1_def old)
  qed
  then have taken: "placed (gm_get0 [] g1) ?K ?Sh (?s # ?rest)" and keys1: "gm_keys g1 = ?K" by blast+
  have new: "placed (gm_get0 [] g1) (insert gid ?K) ?Sh (?s # ?rest)"
  proof (cases "gid \<in> ?K")
    case True
    then show ?thesis using taken by (simp add: insert_absorb)
  next
    case False
    then have "gm_get0 [] g1 gid = []" using keys1 by (auto simp: gm_get0_def gm_keys_dom split: option.splits)
    then have "(gm_get0 [] g1)(gid := []) = gm_get0 [] g1" by auto
    then show ?thesis using placed_new [of "gm_get0 [] g1" ?K ?Sh "?s # ?rest" gid] taken False by simp
  qed
  have "placed (gm_get0 [] ?g2) (insert gid ?K) (?Sh[nat ?s := gid]) ?rest"
    using placed_give [OF new, of gid] by simp
  moreover have "set (unassigned (?Sh[nat ?s := gid])) = set ?rest"
    using op len by (auto simp: set_unassigned nth_list_update nat_eq_iff)
  ultimately have p2: "placed (gm_get0 [] ?g2) (insert gid ?K) (?Sh[nat ?s := gid]) (unassigned (?Sh[nat ?s := gid]))"
    by (rule placed_perm) simp
  have keys: "gm_keys ?g2 = insert gid ?K" "gm_wf ?g2" using keys1 wf1 by auto
  have ok2: "cfg_ok ?cfg ?g2" using ok p2 keys op(4) by (auto simp: cfg_ok_def)
  have "applyMove op sm = Some (sm\<lparr>configs := configs sm @ [?cfg], g2shard := ?g2\<rparr>)"
    using inv op len
    by (simp add: applyMove_def sm_inv_def addConfig_eq getLastCfg_last go_idx_def go_set_def Let_def g1_def)
  from that [OF this ok2] show ?thesis by (simp add: nextCfg_def)
qed

section \<open>The state machine\<close>

text \<open>A command with an effect adds one configuration and keeps the invariant.\<close>

lemma sm_applyOp_spec:
  assumes inv: "sm_inv sm" and op: "smop_ok op" and ord: "orders ord"
  shows "\<exists>cs g2s. sm_applyOp ord op sm = Some (sm\<lparr>configs := configs sm @ cs, g2shard := g2s\<rparr>)
     \<and> sm_inv (sm\<lparr>configs := configs sm @ cs, g2shard := g2s\<rparr>)
     \<and> length cs = (if so_Operation op \<in> {''join'', ''leave'', ''move''} then 1 else 0)"
proof -
  consider (j) "so_Operation op = ''join''" | (l) "so_Operation op = ''leave''" | (m) "so_Operation op = ''move''"
    | (q) "so_Operation op \<notin> {''join'', ''leave'', ''move''}" by auto
  then show ?thesis
  proof cases
    case j
    then have "0 \<notin> gm_keys (so_Servers op)" using op by (simp add: smop_ok_def)
    then obtain cfg g2s where "applyJoin ord op sm = Some (sm\<lparr>configs := configs sm @ [cfg], g2shard := g2s\<rparr>)"
      "cfg_ok cfg g2s" "c_Num cfg = c_Num (last (configs sm)) + 1" by (rule applyJoin_spec [OF inv _ ord])
    with j sm_inv_snoc [OF inv] show ?thesis
      by (intro exI [of _ "[cfg]"] exI [of _ g2s]) (simp add: sm_applyOp_def)
  next
    case l
    obtain cfg g2s where "applyLeave ord op sm = Some (sm\<lparr>configs := configs sm @ [cfg], g2shard := g2s\<rparr>)"
      "cfg_ok cfg g2s" "c_Num cfg = c_Num (last (configs sm)) + 1" by (rule applyLeave_spec [OF inv ord])
    with l sm_inv_snoc [OF inv] show ?thesis
      by (intro exI [of _ "[cfg]"] exI [of _ g2s]) (simp add: sm_applyOp_def)
  next
    case m
    then obtain gid gids where g: "0 \<le> so_Shard op" "so_Shard op < int NShards" "so_GIDs op = gid # gids" "gid \<noteq> 0"
      using op by (cases "so_GIDs op") (auto simp: smop_ok_def)
    obtain cfg g2s where "applyMove op sm = Some (sm\<lparr>configs := configs sm @ [cfg], g2shard := g2s\<rparr>)"
      "cfg_ok cfg g2s" "c_Num cfg = c_Num (last (configs sm)) + 1" by (rule applyMove_spec [OF inv g])
    with m sm_inv_snoc [OF inv] show ?thesis
      by (intro exI [of _ "[cfg]"] exI [of _ g2s]) (simp add: sm_applyOp_def)
  next
    case q
    then show ?thesis using inv
      by (intro exI [of _ "[]"] exI [of _ "g2shard sm"]) (simp add: sm_applyOp_def)
  qed
qed

lemma sm_not_executed: "sm_inv sm \<Longrightarrow> \<not> sm_executed sm c i"
  by (simp add: sm_inv_def sm_executed_def)

text \<open>The machine consumes messages, each with the iteration order its \<open>range\<close> happens to use.\<close>

definition sm_step :: "ShardMaster \<Rightarrow> iteration \<times> (smop, 's) applymsg \<Rightarrow> ShardMaster option" where
  "sm_step sm = (\<lambda>(ord, msg). map_option fst (sm_run ord sm msg))"

definition sm_msg_ok :: "iteration \<times> (smop, 's) applymsg \<Rightarrow> bool" where
  "sm_msg_ok = (\<lambda>(ord, msg). orders ord \<and> (case am_Command msg of IOp op \<Rightarrow> smop_ok op | _ \<Rightarrow> False))"

lemma sm_step_spec:
  assumes "sm_inv sm" and "orders ord" and "am_Command msg = IOp op" and "smop_ok op"
  obtains cs g2s where "sm_step sm (ord, msg) = Some (sm\<lparr>configs := configs sm @ cs, g2shard := g2s\<rparr>)"
    "sm_inv (sm\<lparr>configs := configs sm @ cs, g2shard := g2s\<rparr>)"
    "length cs = (if so_Operation op \<in> {''join'', ''leave'', ''move''} then 1 else 0)"
  using sm_applyOp_spec [OF assms(1,4,2)] sm_not_executed [OF assms(1)] assms(3)
  by (auto simp: sm_step_def sm_run_def)

interpretation smr: replicated_sm sm_step sm_inv "\<lambda>sm. sm_msg_ok"
proof
  fix sm :: ShardMaster and m :: "iteration \<times> (smop, 's) applymsg"
  assume inv: "sm_inv sm" and ok: "sm_msg_ok m"
  obtain ord msg where m: "m = (ord, msg)" by (cases m)
  with ok obtain op where "orders ord" "am_Command msg = IOp op" "smop_ok op"
    by (auto simp: sm_msg_ok_def split: iface.splits)
  from sm_step_spec [OF inv this] show "\<exists>sm'. sm_step sm m = Some sm' \<and> sm_inv sm'" unfolding m by blast
qed

definition sm_initial :: "nat \<Rightarrow> ShardMaster" where
  "sm_initial self = \<lparr>sm_mu = False, sm_me = self,
     configs = [\<lparr>c_Num = 0, c_Shards = replicate NShards 0, c_Groups = []\<rparr>],
     g2shard = [], sm_clerkLog = Map.empty, sm_msgCh = Map.empty, sm_chans = 0\<rparr>"

lemma sm_initial_inv: "sm_inv (sm_initial self)"
proof -
  have "set (unassigned (replicate NShards 0)) = {0..<int NShards}" by (auto simp: set_unassigned)
  then show ?thesis by (simp add: sm_inv_def sm_initial_def cfg_ok_def placed_def)
qed

text \<open>The array and the group lists say the same.\<close>

lemma placed_owner:
  assumes p: "placed L K Sh (unassigned Sh)" and s: "s < NShards" and g: "g \<noteq> 0"
  shows "Sh ! s = g \<longleftrightarrow> g \<in> K \<and> int s \<in> set (L g)"
proof -
  have "int s \<in> (\<Union>h \<in> K. set (L h)) \<union> set (unassigned Sh)"
    using p s unfolding placed_def by auto
  then consider h where "h \<in> K" "int s \<in> set (L h)" | "Sh ! s = 0"
    by (auto simp: set_unassigned)
  moreover have own: "Sh ! s = h" if "h \<in> K" "int s \<in> set (L h)" for h
    using placed_at(3) [OF p that] by simp
  ultimately show ?thesis using g by cases blast+
qed

lemma cfg_ok_owner:
  assumes "cfg_ok cfg g2s" and "s < NShards" and "g \<noteq> 0"
  shows "c_Shards cfg ! s = g \<longleftrightarrow> g \<in> gm_keys g2s \<and> int s \<in> set (gm_get0 [] g2s g)"
  using assms by (intro placed_owner) (simp_all add: cfg_ok_def)

lemma cfg_ok_count:
  assumes "cfg_ok cfg g2s" and "g \<in> gm_keys g2s"
  shows "card {s. s < NShards \<and> c_Shards cfg ! s = g} = length (gm_get0 [] g2s g)"
proof -
  have p: "placed (gm_get0 [] g2s) (gm_keys g2s) (c_Shards cfg) (unassigned (c_Shards cfg))"
    using assms(1) by (simp add: cfg_ok_def)
  have g: "g \<noteq> 0" using assms by (auto simp: cfg_ok_def)
  have "set (gm_get0 [] g2s g) = int ` {s. s < NShards \<and> c_Shards cfg ! s = g}"
  proof (intro set_eqI iffI)
    fix x assume x: "x \<in> set (gm_get0 [] g2s g)"
    then show "x \<in> int ` {s. s < NShards \<and> c_Shards cfg ! s = g}"
      using placed_at [OF p assms(2) x] by (intro image_eqI [of _ _ "nat x"]) auto
  qed (use cfg_ok_owner [OF assms(1) _ g] in auto)
  then have "card {s. s < NShards \<and> c_Shards cfg ! s = g} = card (set (gm_get0 [] g2s g))"
    by (simp add: card_image inj_on_def)
  also have "\<dots> = length (gm_get0 [] g2s g)"
    using p assms(2) unfolding placed_def by (blast intro: distinct_card)
  finally show ?thesis .
qed

text \<open>A move of a shard that does not exist panics at the index expression.\<close>

lemma move_out_of_range:
  assumes inv: "sm_inv sm" and op: "am_Command msg = IOp op" "so_Operation op = ''move''"
    and out: "\<not> (0 \<le> so_Shard op \<and> so_Shard op < int NShards)"
  shows "sm_step sm (ord, msg) = None"
proof -
  have "configs sm \<noteq> []" "length (c_Shards (nextCfg sm)) = NShards"
    using inv by (auto simp: sm_inv_def cfg_ok_def placed_def nextCfg_def)
  then have "applyMove op sm = None"
    using out by (auto simp: applyMove_def addConfig_eq getLastCfg_last go_idx_def)
  then show ?thesis using sm_not_executed [OF inv] op by (simp add: sm_step_def sm_run_def sm_applyOp_def)
qed

text \<open>
  C17. When the shard master panics.  From the state \<open>StartServer\<close> creates, for every sequence of commands in
  which moves name one of the \<open>NShards\<close> shards and group 0 (no group) neither joins nor receives a shard, and
  whatever order Go's map iteration takes each time, the server runs through; the configuration
  numbers are their positions; and in the last configuration a shard belongs to a group exactly when
  that group's list in \<open>g2shard\<close> holds it.  The code does not check the shard number: a \<open>move\<close> of a shard
  outside the range, once committed, makes every replica panic, whatever its state.
\<close>

theorem shardmaster_safe:
  assumes "\<forall>m \<in> set ms. sm_msg_ok m"
  shows "\<exists>sm. run_steps sm_step (sm_initial self) ms = Some sm
     \<and> (\<forall>k < length (configs sm). c_Num (configs sm ! k) = int k)
     \<and> length (c_Shards (last (configs sm))) = NShards
     \<and> (\<forall>s < NShards. \<forall>g. g \<noteq> 0 \<longrightarrow>
          (c_Shards (last (configs sm)) ! s = g \<longleftrightarrow> g \<in> gm_keys (g2shard sm) \<and> int s \<in> set (gm_get0 [] (g2shard sm) g)))
     \<and> (\<forall>ord msg op. am_Command msg = IOp op \<and> so_Operation op = ''move''
          \<and> \<not> (0 \<le> so_Shard op \<and> so_Shard op < int NShards) \<longrightarrow> sm_step sm (ord, msg :: (smop, 's) applymsg) = None)"
proof -
  from smr.run_inv [OF sm_initial_inv assms] obtain sm
    where sm: "run_steps sm_step (sm_initial self) ms = Some sm" "sm_inv sm" by blast
  then have "cfg_ok (last (configs sm)) (g2shard sm)" by (simp add: sm_inv_def)
  with sm move_out_of_range [OF sm(2)] show ?thesis
    using cfg_ok_owner [of "last (configs sm)" "g2shard sm"] by (auto simp: sm_inv_def cfg_ok_def placed_def)
qed

definition smMsg :: "int \<Rightarrow> smop \<Rightarrow> (smop, nat) applymsg" where
  "smMsg i op = \<lparr>CommandValid = True, am_Command = IOp op, CommandIndex = i, CommitTerm = 1, am_Role = Leader\<rparr>"

definition ex_join :: smop where
  "ex_join = joinOp \<lparr>ja_Servers = [(1, [''a'']), (2, [''b''])], ja_Clerk = 7, ja_Index = 1\<rparr>"

definition ex_move :: smop where
  "ex_move = moveOp \<lparr>ma_Shard = 0, ma_GID = 2, ma_Clerk = 7, ma_Index = 2\<rparr>"

definition ex_leave :: smop where
  "ex_leave = leaveOp \<lparr>la_GIDs = [1], la_Clerk = 7, la_Index = 3\<rparr>"

lemmas ex_sm_defs = ex_join_def joinOp_def ex_move_def moveOp_def ex_leave_def leaveOp_def

lemma ex_sm_ok: "smop_ok ex_join" "smop_ok ex_move" "smop_ok ex_leave"
  by (simp_all add: ex_sm_defs smop_ok_def NShards_def)

theorem shardmaster_safe_witness:
  "\<exists>sm. run_steps sm_step (sm_initial 0) [(map fst, smMsg 1 ex_join), (map fst, smMsg 2 ex_move), (map fst, smMsg 3 ex_leave)] = Some sm
     \<and> length (c_Shards (last (configs sm))) = NShards
     \<and> sm_step sm (map fst, smMsg 4 (moveOp \<lparr>ma_Shard = 10, ma_GID = 2, ma_Clerk = 7, ma_Index = 4\<rparr>)) = None"
proof -
  have "\<forall>m \<in> set [(map fst, smMsg 1 ex_join), (map fst, smMsg 2 ex_move), (map fst, smMsg 3 ex_leave)]. sm_msg_ok m"
    by (simp add: sm_msg_ok_def smMsg_def orders_self ex_sm_ok)
  from shardmaster_safe [OF this, of 0, where 's = nat] obtain sm where
    sm: "run_steps sm_step (sm_initial 0) [(map fst, smMsg 1 ex_join), (map fst, smMsg 2 ex_move), (map fst, smMsg 3 ex_leave)] = Some sm"
      "length (c_Shards (last (configs sm))) = NShards"
    and out: "\<And>ord msg op. am_Command msg = IOp op \<Longrightarrow> so_Operation op = ''move'' \<Longrightarrow> \<not> so_Shard op < int NShards
        \<Longrightarrow> sm_step sm (ord, msg :: (smop, nat) applymsg) = None" by blast
  have "sm_step sm (map fst, smMsg 4 (moveOp \<lparr>ma_Shard = 10, ma_GID = 2, ma_Clerk = 7, ma_Index = 4\<rparr>)) = None"
    by (rule out [where op = "moveOp \<lparr>ma_Shard = 10, ma_GID = 2, ma_Clerk = 7, ma_Index = 4\<rparr>"]) (simp_all add: smMsg_def moveOp_def NShards_def)
  with sm show ?thesis by blast
qed

section \<open>What each command does\<close>

text \<open>A configuration is balanced over a set of groups.\<close>

definition fair :: "Config \<Rightarrow> int set \<Rightarrow> bool" where
  "fair cfg K \<longleftrightarrow> (\<forall>s < NShards. c_Shards cfg ! s \<in> K)
     \<and> (\<forall>g \<in> K. card {s. s < NShards \<and> c_Shards cfg ! s = g} \<in> {NShards div card K, NShards div card K + 1})"

lemma fair_balanced:
  assumes ok: "cfg_ok cfg g2s" and "balanced g2s" and u: "unassigned (c_Shards cfg) = []"
  shows "fair cfg (gm_keys g2s)"
proof -
  have p: "placed (gm_get0 [] g2s) (gm_keys g2s) (c_Shards cfg) []" and z: "0 \<notin> gm_keys g2s"
    and len: "length g2s = card (gm_keys g2s)"
    using ok u gm_len [of g2s] by (auto simp: cfg_ok_def)
  have "c_Shards cfg ! s \<in> gm_keys g2s" if "s < NShards" for s
    using placed_all(2) [OF p z that] by blast
  moreover have "card {s. s < NShards \<and> c_Shards cfg ! s = g} \<in> {NShards div card (gm_keys g2s), NShards div card (gm_keys g2s) + 1}"
    if "g \<in> gm_keys g2s" for g
    using cfg_ok_count [OF ok that] assms(2) that len unfolding balanced_def by auto
  ultimately show ?thesis unfolding fair_def by blast
qed

text \<open>
  C18. Join and Leave rebalance.  When a \<open>join\<close> brings in a new group, or a \<open>leave\<close> removes one and some
  group remains, the new configuration gives every shard to one of the remaining groups, and each of
  them has \<open>NShards / n\<close> or one more, for every iteration order of the Go map.
\<close>

theorem rebalance_fair:
  assumes "sm_inv sm" and "smop_ok op" and "orders ord"
    and "so_Operation op = ''join'' \<and> \<not> gm_keys (so_Servers op) \<subseteq> gm_keys (g2shard sm)
      \<or> so_Operation op = ''leave'' \<and> gm_keys (g2shard sm) \<inter> set (so_GIDs op) \<noteq> {}
          \<and> \<not> gm_keys (g2shard sm) \<subseteq> set (so_GIDs op)"
  shows "\<exists>sm'. sm_applyOp ord op sm = Some sm'
     \<and> gm_keys (g2shard sm') = (if so_Operation op = ''join'' then gm_keys (g2shard sm) \<union> gm_keys (so_Servers op)
          else gm_keys (g2shard sm) - set (so_GIDs op))
     \<and> fair (last (configs sm')) (gm_keys (g2shard sm'))"
  using assms(4)
proof
  assume j: "so_Operation op = ''join'' \<and> \<not> gm_keys (so_Servers op) \<subseteq> gm_keys (g2shard sm)"
  then have "0 \<notin> gm_keys (so_Servers op)" using assms(2) by (simp add: smop_ok_def)
  then obtain cfg g2s where r: "applyJoin ord op sm = Some (sm\<lparr>configs := configs sm @ [cfg], g2shard := g2s\<rparr>)"
    "cfg_ok cfg g2s" "gm_keys g2s = gm_keys (g2shard sm) \<union> gm_keys (so_Servers op)"
    "\<not> gm_keys (so_Servers op) \<subseteq> gm_keys (g2shard sm) \<longrightarrow> balanced g2s \<and> unassigned (c_Shards cfg) = []"
    by (rule applyJoin_spec [OF assms(1) _ assms(3)])
  with j have "fair cfg (gm_keys g2s)" by (intro fair_balanced) auto
  then show ?thesis
    using j r by (intro exI [of _ "sm\<lparr>configs := configs sm @ [cfg], g2shard := g2s\<rparr>"]) (simp add: sm_applyOp_def)
next
  assume l: "so_Operation op = ''leave'' \<and> gm_keys (g2shard sm) \<inter> set (so_GIDs op) \<noteq> {}
    \<and> \<not> gm_keys (g2shard sm) \<subseteq> set (so_GIDs op)"
  obtain cfg g2s where r: "applyLeave ord op sm = Some (sm\<lparr>configs := configs sm @ [cfg], g2shard := g2s\<rparr>)"
    "cfg_ok cfg g2s" "gm_keys g2s = gm_keys (g2shard sm) - set (so_GIDs op)"
    "gm_keys (g2shard sm) \<inter> set (so_GIDs op) \<noteq> {} \<and> g2s \<noteq> [] \<longrightarrow> balanced g2s \<and> unassigned (c_Shards cfg) = []"
    by (rule applyLeave_spec [OF assms(1,3)])
  have "g2s \<noteq> []" using r(3) l by auto
  with l r have "fair cfg (gm_keys g2s)" by (intro fair_balanced) auto
  then show ?thesis
    using l r by (intro exI [of _ "sm\<lparr>configs := configs sm @ [cfg], g2shard := g2s\<rparr>"]) (simp add: sm_applyOp_def)
qed

theorem rebalance_fair_witness:
  "\<exists>sm'. sm_applyOp (map fst) ex_join (sm_initial 0) = Some sm' \<and> gm_keys (g2shard sm') = {1, 2}
     \<and> fair (last (configs sm')) {1, 2}"
proof -
  have k: "so_Operation ex_join = ''join''" "gm_keys (so_Servers ex_join) = {1, 2}" "gm_keys (g2shard (sm_initial 0)) = {}"
    by (simp_all add: ex_sm_defs sm_initial_def)
  show ?thesis
    using rebalance_fair [OF sm_initial_inv ex_sm_ok(1) orders_self, of 0] by (auto simp: k)
qed

text \<open>
  Configurations are history.  Every command only appends to the list of configurations: one for a
  \<open>join\<close>, \<open>leave\<close> or \<open>move\<close>, none for a \<open>query\<close>; so a configuration that was once answered for a number
  is answered for that number for ever, and a \<open>move\<close> changes the owner of its one shard only.
\<close>

theorem configs_append_only:
  assumes "sm_inv sm" and "smop_ok op" and "orders ord"
  shows "\<exists>sm' cs. sm_applyOp ord op sm = Some sm' \<and> configs sm' = configs sm @ cs
     \<and> length cs = (if so_Operation op \<in> {''join'', ''leave'', ''move''} then 1 else 0)
     \<and> (so_Operation op = ''move'' \<longrightarrow> c_Shards (last (configs sm'))
          = (c_Shards (last (configs sm)))[nat (so_Shard op) := hd (so_GIDs op)])
     \<and> (\<forall>q. 0 \<le> so_QueryNum q \<and> so_QueryNum q < int (length (configs sm)) \<longrightarrow>
          sm_Query sm' q False = Some (Some (configs sm ! nat (so_QueryNum q))))"
proof -
  obtain cs g2s where r: "sm_applyOp ord op sm = Some (sm\<lparr>configs := configs sm @ cs, g2shard := g2s\<rparr>)"
    "sm_inv (sm\<lparr>configs := configs sm @ cs, g2shard := g2s\<rparr>)"
    "length cs = (if so_Operation op \<in> {''join'', ''leave'', ''move''} then 1 else 0)"
    using sm_applyOp_spec [OF assms] by blast
  let ?sm = "sm\<lparr>configs := configs sm @ cs, g2shard := g2s\<rparr>"
  have ne: "configs sm @ cs \<noteq> []" using assms(1) by (simp add: sm_inv_def)
  have num: "c_Num (last (configs sm @ cs)) = int (length (configs sm @ cs)) - 1"
    using r(2) ne by (cases "configs sm @ cs" rule: rev_cases) (auto simp: sm_inv_def)
  have "sm_Query ?sm q False = Some (Some (configs sm ! nat (so_QueryNum q)))"
    if "0 \<le> so_QueryNum q" "so_QueryNum q < int (length (configs sm))" for q
    using that ne num by (simp add: sm_Query_def getLastCfg_last go_idx_def nth_append)
  moreover have "c_Shards (last (configs ?sm)) = (c_Shards (last (configs sm)))[nat (so_Shard op) := hd (so_GIDs op)]"
    if m: "so_Operation op = ''move''"
  proof -
    obtain gid gids where g: "0 \<le> so_Shard op" "so_Shard op < int NShards" "so_GIDs op = gid # gids" "gid \<noteq> 0"
      using assms(2) m by (cases "so_GIDs op") (auto simp: smop_ok_def)
    obtain cfg g2s' where a: "applyMove op sm = Some (sm\<lparr>configs := configs sm @ [cfg], g2shard := g2s'\<rparr>)"
      "c_Shards cfg = (c_Shards (last (configs sm)))[nat (so_Shard op) := gid]" by (rule applyMove_spec [OF assms(1) g])
    have "?sm = sm\<lparr>configs := configs sm @ [cfg], g2shard := g2s'\<rparr>" using r(1) a(1) m by (simp add: sm_applyOp_def)
    from arg_cong [OF this, of configs] have "configs ?sm = configs sm @ [cfg]" by simp
    then show ?thesis using a(2) g(3) by simp
  qed
  ultimately show ?thesis using r by (intro exI [of _ ?sm] exI [of _ cs]) auto
qed

theorem configs_append_only_witness:
  "\<exists>sm' cs. sm_applyOp (map fst) ex_move (sm_initial 0) = Some sm' \<and> configs sm' = configs (sm_initial 0) @ cs \<and> length cs = 1
     \<and> c_Shards (last (configs sm')) = (replicate NShards 0)[0 := 2]"
  using configs_append_only [OF sm_initial_inv ex_sm_ok(2) orders_self, of 0]
  by (auto simp: ex_sm_defs sm_initial_def)

section \<open>Defects\<close>

text \<open>
  C19. A retried command is executed again.  \<open>run\<close> never writes \<open>clerkLog\<close>, so its check for executed
  commands never succeeds: delivering the same \<open>join\<close>, \<open>leave\<close> or \<open>move\<close> twice creates two configurations.
\<close>

theorem sm_retry_reexecuted:
  assumes "sm_inv sm" and "smop_ok op" and "orders ord"
    and "so_Operation op \<in> {''join'', ''leave'', ''move''}" and "am_Command msg = IOp op"
  shows "\<exists>sm'. run_steps sm_step sm [(ord, msg), (ord, msg)] = Some sm'
     \<and> length (configs sm') = length (configs sm) + 2 \<and> sm_clerkLog sm' (so_Clerk op) = None"
proof -
  obtain cs g2s where 1: "sm_step sm (ord, msg) = Some (sm\<lparr>configs := configs sm @ cs, g2shard := g2s\<rparr>)"
    "sm_inv (sm\<lparr>configs := configs sm @ cs, g2shard := g2s\<rparr>)" "length cs = 1"
    using sm_step_spec [OF assms(1,3,5,2)] assms(4) by metis
  let ?sm = "sm\<lparr>configs := configs sm @ cs, g2shard := g2s\<rparr>"
  obtain cs' g2s' where 2: "sm_step ?sm (ord, msg) = Some (?sm\<lparr>configs := configs ?sm @ cs', g2shard := g2s'\<rparr>)"
    "length cs' = 1" using sm_step_spec [OF 1(2) assms(3,5,2)] assms(4) by metis
  have "sm_clerkLog sm = Map.empty" using assms(1) by (simp add: sm_inv_def)
  with 1 2 show ?thesis by simp
qed

theorem sm_retry_reexecuted_witness:
  "\<exists>sm'. run_steps sm_step (sm_initial 0) [(map fst, smMsg 1 ex_move), (map fst, smMsg 1 ex_move)] = Some sm'
     \<and> length (configs sm') = 3"
proof -
  have "so_Operation ex_move \<in> {''join'', ''leave'', ''move''}" "am_Command (smMsg 1 ex_move) = IOp ex_move"
    "length (configs (sm_initial 0)) = 1"
    by (simp_all add: ex_sm_defs smMsg_def sm_initial_def)
  then show ?thesis
    using sm_retry_reexecuted [OF sm_initial_inv ex_sm_ok(2) orders_self, of "smMsg 1 ex_move" 0] by auto
qed

text \<open>
  C20. Replicas can diverge.  Two shard masters that apply the same \<open>join\<close> can compute different
  configurations with the same number, because the assignment follows the iteration order of a Go map.
\<close>

theorem sm_replicas_diverge:
  "orders (map fst) \<and> orders (\<lambda>m. rev (map fst m))
   \<and> map_option (\<lambda>sm. map c_Shards (configs sm)) (sm_applyOp (map fst) ex_join (sm_initial 0))
       = Some [replicate 10 0, [1, 1, 1, 1, 1, 2, 2, 2, 2, 2]]
   \<and> map_option (\<lambda>sm. map c_Shards (configs sm)) (sm_applyOp (\<lambda>m. rev (map fst m)) ex_join (sm_initial 0))
       = Some [replicate 10 0, [2, 2, 2, 2, 2, 1, 1, 1, 1, 1]]"
proof (intro conjI)
  show "orders (map fst)" by (rule orders_self)
  show "orders (\<lambda>m. rev (map fst m))" by (simp add: orders_def range_order_def gm_wf_def)
  show "map_option (\<lambda>sm. map c_Shards (configs sm)) (sm_applyOp (map fst) ex_join (sm_initial 0))
       = Some [replicate 10 0, [1, 1, 1, 1, 1, 2, 2, 2, 2, 2]]" by code_simp
  show "map_option (\<lambda>sm. map c_Shards (configs sm)) (sm_applyOp (\<lambda>m. rev (map fst m)) ex_join (sm_initial 0))
       = Some [replicate 10 0, [2, 2, 2, 2, 2, 1, 1, 1, 1, 1]]" by code_simp
qed

end
