(* ===== verification/ShardKV_Service.thy ===== *)
theory ShardKV_Service
  imports ShardKV ShardMaster_Service
begin

text \<open>
  Properties of the sharded server: its invariant (which ties the counter \<open>waitUntilMoveDone\<close> to the
  shards still to send and to receive), that no message makes it panic, when it may move to the next
  configuration, that a migrated shard keeps its data and its record of executed commands, and that
  snapshots restore everything.
\<close>

section \<open>The invariant\<close>

definition owned :: "ShardKV \<Rightarrow> int set" where
  "owned kv = {s. 0 \<le> s \<and> s < int NShards \<and> c_Shards (skv_cfg kv) ! nat s = skv_gid kv}"

text \<open>What must hold of the data and the configuration, and of the fields that \<open>parseCfg\<close> derives.\<close>

definition skv_base :: "ShardKV \<Rightarrow> bool" where
  "skv_base kv \<longleftrightarrow> skv_gid kv \<noteq> 0 \<and> length (c_Shards (skv_cfg kv)) = NShards
     \<and> gm_wf (skvDB kv) \<and> gm_wf (sClerkLog kv) \<and> gm_keys (sClerkLog kv) = gm_keys (skvDB kv)
     \<and> 0 \<le> c_Num (skv_cfg kv) \<and> (c_Num (skv_cfg kv) = 0 \<longrightarrow> skvDB kv = [] \<and> owned kv = {})"

definition moves :: "int set \<Rightarrow> int set \<Rightarrow> int" where
  "moves db own = int (card (db - own)) + int (card (own - db))"

definition skv_inv :: "ShardKV \<Rightarrow> bool" where
  "skv_inv kv \<longleftrightarrow> skv_base kv \<and> distinct (skv_shards kv) \<and> set (skv_shards kv) = owned kv
     \<and> waitUntilMoveDone kv = moves (gm_keys (skvDB kv)) (owned kv)"

lemma shardInDB_iff: "shardInDB kv s \<longleftrightarrow> s \<in> gm_keys (skvDB kv)"
  by (simp add: shardInDB_def gm_key_get)

lemma finite_owned [simp]: "finite (owned kv)"
  by (rule finite_subset [of _ "{0..<int NShards}"]) (auto simp: owned_def)

lemma owned_list:
  assumes "length (c_Shards (skv_cfg kv)) = NShards"
  shows "set (map int (filter (\<lambda>s. c_Shards (skv_cfg kv) ! s = skv_gid kv) [0..<NShards])) = owned kv"
proof -
  have "\<exists>k < NShards. c_Shards (skv_cfg kv) ! k = skv_gid kv \<and> x = int k"
    if "0 \<le> x" "x < int NShards" "c_Shards (skv_cfg kv) ! nat x = skv_gid kv" for x
    using that by (intro exI [of _ "nat x"]) auto
  then show ?thesis by (auto simp: owned_def image_iff)
qed

lemma parseCfg_frame [simp]:
  "skvDB (parseCfg kv) = skvDB kv" "sClerkLog (parseCfg kv) = sClerkLog kv" "skv_cfg (parseCfg kv) = skv_cfg kv"
  "skv_gid (parseCfg kv) = skv_gid kv" "skv_leader (parseCfg kv) = skv_leader kv"
  "skv_msgCh (parseCfg kv) = skv_msgCh kv"
  by (simp_all add: parseCfg_def Let_def)

lemma parseCfg_owned [simp]: "owned (parseCfg kv) = owned kv"
  by (simp add: owned_def)

lemma parseCfg_base [simp]: "skv_base (parseCfg kv) = skv_base kv"
  by (simp add: skv_base_def)

text \<open>\<open>parseCfg\<close> establishes the derived part.\<close>

lemma parseCfg_inv:
  assumes b: "skv_base kv"
  shows "skv_inv (parseCfg kv)"
proof -
  have len: "length (c_Shards (skv_cfg kv)) = NShards" and wf: "gm_wf (skvDB kv)"
    using b by (auto simp: skv_base_def)
  let ?sh = "map int (filter (\<lambda>s. c_Shards (skv_cfg kv) ! s = skv_gid kv) [0..<NShards])"
  have sh: "skv_shards (parseCfg kv) = ?sh" by (simp add: parseCfg_def Let_def len)
  have d: "distinct ?sh" by (simp add: distinct_map inj_on_def)
  have own: "set ?sh = owned kv" by (rule owned_list [OF len])
  let ?send = "filter (\<lambda>s. s \<notin> owned kv) (map fst (skvDB kv))"
  let ?add = "filter (\<lambda>s. \<not> shardInDB kv s) ?sh"
  have "waitUntilMoveDone (parseCfg kv) = int (length ?send) + int (length ?add)"
    unfolding own [symmetric] by (simp add: parseCfg_def Let_def haveShard_def len)
  moreover have "length ?send = card (gm_keys (skvDB kv) - owned kv)"
  proof -
    have "distinct ?send" using wf by (simp add: gm_wf_def)
    moreover have "set ?send = gm_keys (skvDB kv) - owned kv" by auto
    ultimately show ?thesis using distinct_card by fastforce
  qed
  moreover have "length ?add = card (owned kv - gm_keys (skvDB kv))"
  proof -
    have "set ?add = set ?sh - gm_keys (skvDB kv)" by (auto simp: shardInDB_iff)
    then show ?thesis using distinct_card [of ?add] d own by simp
  qed
  ultimately show ?thesis using b d own by (simp add: skv_inv_def sh moves_def)
qed

lemma moves_receive: "finite own \<Longrightarrow> s \<in> own \<Longrightarrow> s \<notin> db \<Longrightarrow> moves (insert s db) own = moves db own - 1"
proof -
  assume h: "finite own" "s \<in> own" "s \<notin> db"
  then have "insert s db - own = db - own" "own - insert s db = (own - db) - {s}" by auto
  moreover have "s \<in> own - db" "finite (own - db)" using h by auto
  then have "card (own - db - {s}) = card (own - db) - 1" "0 < card (own - db)"
    by (auto simp: card_gt_0_iff)
  ultimately show ?thesis by (simp add: moves_def)
qed

lemma moves_send: "finite db \<Longrightarrow> s \<in> db \<Longrightarrow> s \<notin> own \<Longrightarrow> moves (db - {s}) own = moves db own - 1"
proof -
  assume h: "finite db" "s \<in> db" "s \<notin> own"
  then have "db - {s} - own = (db - own) - {s}" "own - (db - {s}) = own - db" by auto
  moreover have "s \<in> db - own" "finite (db - own)" using h by auto
  then have "card (db - own - {s}) = card (db - own) - 1" "0 < card (db - own)"
    by (auto simp: card_gt_0_iff)
  ultimately show ?thesis by (simp add: moves_def)
qed

lemma moves_zero: "finite db \<Longrightarrow> finite own \<Longrightarrow> moves db own = 0 \<longleftrightarrow> db = own"
proof -
  assume "finite db" "finite own"
  then have "moves db own = 0 \<longleftrightarrow> db - own = {} \<and> own - db = {}"
    by (simp add: moves_def add_nonneg_eq_0_iff)
  then show ?thesis by auto
qed

section \<open>Every message keeps the invariant\<close>

lemma finite_db [simp]: "finite (gm_keys (skvDB kv))"
  by simp

lemma skv_inv_cong:
  assumes "skv_inv kv" and "skvDB kv' = skvDB kv" "sClerkLog kv' = sClerkLog kv" "skv_cfg kv' = skv_cfg kv"
    "skv_gid kv' = skv_gid kv" "skv_shards kv' = skv_shards kv" "waitUntilMoveDone kv' = waitUntilMoveDone kv"
  shows "skv_inv kv'"
  using assms by (simp add: skv_inv_def skv_base_def owned_def)

lemma newSend_inv:
  assumes "skv_inv kv"
  shows "skv_inv (skv_newSend kv op)"
proof (cases "\<not> haveShard kv (x_Shard op) \<and> shardInDB kv (x_Shard op)")
  case True
  then have s: "x_Shard op \<notin> owned kv" "x_Shard op \<in> gm_keys (skvDB kv)"
    using assms by (auto simp: haveShard_def shardInDB_iff skv_inv_def)
  have own: "owned (skv_newSend kv op) = owned kv" using True by (simp add: skv_newSend_def owned_def)
  have "moves (gm_keys (skvDB kv) - {x_Shard op}) (owned kv) = moves (gm_keys (skvDB kv)) (owned kv) - 1"
    by (rule moves_send) (use s in auto)
  moreover have "c_Num (skv_cfg kv) \<noteq> 0" using assms s by (auto simp: skv_inv_def skv_base_def)
  ultimately show ?thesis
    using assms True own by (simp add: skv_inv_def skv_base_def) (simp add: skv_newSend_def)
next
  case False
  then show ?thesis using assms by (auto simp: skv_newSend_def)
qed

lemma newShard_inv:
  assumes "skv_inv kv"
  shows "skv_inv (fst (skv_newShard kv op))"
proof (cases "haveShard kv (x_Shard op) \<and> \<not> shardInDB kv (x_Shard op)")
  case True
  then have s: "x_Shard op \<in> owned kv" "x_Shard op \<notin> gm_keys (skvDB kv)"
    using assms by (auto simp: haveShard_def shardInDB_iff skv_inv_def)
  have own: "owned (fst (skv_newShard kv op)) = owned kv" using True by (simp add: skv_newShard_def owned_def)
  have "moves (insert (x_Shard op) (gm_keys (skvDB kv))) (owned kv) = moves (gm_keys (skvDB kv)) (owned kv) - 1"
    by (rule moves_receive) (use s in auto)
  moreover have "c_Num (skv_cfg kv) \<noteq> 0" using assms s by (auto simp: skv_inv_def skv_base_def)
  ultimately show ?thesis
    using assms True own by (simp add: skv_inv_def skv_base_def) (simp add: skv_newShard_def)
next
  case False
  then show ?thesis using assms by (auto simp: skv_newShard_def)
qed

lemma initShards_eq:
  "initShards l kv = kv\<lparr>skvDB := fold (\<lambda>s. gm_set s Map.empty) l (skvDB kv),
     sClerkLog := fold (\<lambda>s. gm_set s Map.empty) l (sClerkLog kv)\<rparr>"
  by (induction l arbitrary: kv) simp_all

lemma fold_gm_set:
  "gm_keys (fold (\<lambda>s. gm_set s v) l m) = set l \<union> gm_keys m"
  "gm_wf m \<Longrightarrow> gm_wf (fold (\<lambda>s. gm_set s v) l m)"
proof -
  show "gm_keys (fold (\<lambda>s. gm_set s v) l m) = set l \<union> gm_keys m"
    by (induction l arbitrary: m) (auto simp del: image_eqI)
  show "gm_wf m \<Longrightarrow> gm_wf (fold (\<lambda>s. gm_set s v) l m)"
    by (induction l arbitrary: m) auto
qed

lemma newConfig_inv:
  assumes inv: "skv_inv kv" and len: "length (c_Shards (x_Cfg op)) = NShards"
  shows "skv_inv (skv_newConfig kv op)"
proof (cases "c_Num (x_Cfg op) > c_Num (skv_cfg kv)")
  case True
  let ?p = "parseCfg (kv\<lparr>skv_cfg := x_Cfg op\<rparr>)"
  have "skv_base (kv\<lparr>skv_cfg := x_Cfg op\<rparr>)"
    using inv len True by (auto simp: skv_inv_def skv_base_def)
  then have p: "skv_inv ?p" by (rule parseCfg_inv)
  show ?thesis
  proof (cases "c_Num (x_Cfg op) = 1")
    case one: True
    let ?q = "initShards (skv_shards ?p) (?p\<lparr>waitUntilMoveDone := 0\<rparr>)"
    have empty: "skvDB kv = []" "sClerkLog kv = []"
      using inv True one by (auto simp: skv_inv_def skv_base_def)
    have keys: "gm_keys (skvDB ?q) = owned ?p" "gm_keys (sClerkLog ?q) = owned ?p"
      using p empty by (simp_all add: initShards_eq skv_inv_def fold_gm_set(1))
    have own: "owned ?q = owned ?p" by (simp add: initShards_eq owned_def)
    have "skv_inv ?q"
      using p one keys own empty moves_zero [of "owned ?p" "owned ?p"]
      by (simp add: skv_inv_def skv_base_def initShards_eq fold_gm_set(2))
    then show ?thesis using True one by (simp add: skv_newConfig_def Let_def)
  next
    case False
    then show ?thesis using True p by (simp add: skv_newConfig_def Let_def)
  qed
next
  case False
  then show ?thesis using inv by (simp add: skv_newConfig_def)
qed

text \<open>A client request: the three branches of the code.\<close>

definition skv_spec :: "skvop \<Rightarrow> (string \<rightharpoonup> string) \<Rightarrow> (string \<rightharpoonup> string)" where
  "skv_spec op m =
     (if x_Operation op = ''put'' then m(x_Key op \<mapsto> x_Value op)
      else if x_Operation op = ''append'' then m(x_Key op \<mapsto> (case m (x_Key op) of None \<Rightarrow> [] | Some v \<Rightarrow> v) @ x_Value op)
      else m)"

lemma request_executes:
  assumes "skv_inv kv" and "\<not> skv_done kv (x_Shard op) (x_Clerk op) (x_CmdIndex op)"
    and "haveShard kv (x_Shard op)" and "shardInDB kv (x_Shard op)"
  obtains db cl where "gm_get (skvDB kv) (x_Shard op) = Some db" "gm_get (sClerkLog kv) (x_Shard op) = Some cl"
    "skv_request kv op = Some (kv\<lparr>sClerkLog := gm_set (x_Shard op) (cl(x_Clerk op \<mapsto> x_CmdIndex op)) (sClerkLog kv),
       skvDB := (if x_Operation op \<in> {''put'', ''append''} then gm_set (x_Shard op) (skv_spec op db) (skvDB kv) else skvDB kv)\<rparr>, True)"
proof -
  obtain db where db: "gm_get (skvDB kv) (x_Shard op) = Some db" using assms(4) by (auto simp: shardInDB_def)
  have "x_Shard op \<in> gm_keys (sClerkLog kv)"
    using assms(1,4) by (simp add: shardInDB_iff skv_inv_def skv_base_def)
  then obtain cl where cl: "gm_get (sClerkLog kv) (x_Shard op) = Some cl" by (auto simp: gm_keys_dom)
  have "skv_request kv op = Some (kv\<lparr>sClerkLog := gm_set (x_Shard op) (cl(x_Clerk op \<mapsto> x_CmdIndex op)) (sClerkLog kv),
       skvDB := (if x_Operation op \<in> {''put'', ''append''} then gm_set (x_Shard op) (skv_spec op db) (skvDB kv) else skvDB kv)\<rparr>, True)"
    using assms(2-4) db cl
    by (auto simp: skv_request_def setClerk_def setKey_def skv_spec_def gm_get0_def split: option.splits)
  from that [OF db cl this] show ?thesis .
qed

lemma request_inv:
  assumes "skv_inv kv"
  shows "\<exists>kv' b. skv_request kv op = Some (kv', b) \<and> skv_inv kv'"
proof (cases "skv_done kv (x_Shard op) (x_Clerk op) (x_CmdIndex op) \<or> \<not> haveShard kv (x_Shard op) \<or> \<not> shardInDB kv (x_Shard op)")
  case True
  then show ?thesis using assms by (auto simp: skv_request_def)
next
  case False
  then have h: "\<not> skv_done kv (x_Shard op) (x_Clerk op) (x_CmdIndex op)" "haveShard kv (x_Shard op)" "shardInDB kv (x_Shard op)"
    by auto
  obtain db cl where
    "skv_request kv op = Some (kv\<lparr>sClerkLog := gm_set (x_Shard op) (cl(x_Clerk op \<mapsto> x_CmdIndex op)) (sClerkLog kv),
       skvDB := (if x_Operation op \<in> {''put'', ''append''} then gm_set (x_Shard op) (skv_spec op db) (skvDB kv) else skvDB kv)\<rparr>, True)"
    by (rule request_executes [OF assms h])
  moreover have "insert (x_Shard op) (gm_keys (skvDB kv)) = gm_keys (skvDB kv)"
    using h(3) by (auto simp: shardInDB_iff)
  moreover have "c_Num (skv_cfg kv) \<noteq> 0" using h(3) assms by (auto simp: skv_inv_def skv_base_def shardInDB_iff)
  ultimately show ?thesis using assms by (auto simp: skv_inv_def skv_base_def owned_def)
qed

definition skvop_ok :: "skvop \<Rightarrow> bool" where
  "skvop_ok op \<longleftrightarrow> (x_Type op = ''newConfig'' \<longrightarrow> length (c_Shards (x_Cfg op)) = NShards)"

lemma skv_apply_inv:
  assumes "skv_inv kv" and "skvop_ok op"
  shows "\<exists>kv' b. skv_apply kv op = Some (kv', b) \<and> skv_inv kv'"
  using assms newSend_inv [OF assms(1), of op] newShard_inv [OF assms(1), of op] newConfig_inv [OF assms(1), of op]
    request_inv [OF assms(1), of op]
  by (cases "skv_newShard kv op") (auto simp: skv_apply_def skvop_ok_def)

section \<open>Snapshots\<close>

definition skv_encodeMaps where
  "skv_encodeMaps = (\<lambda>(db, cl, cfg). [SDB db, SClerk cl, SCfg cfg])"

interpretation skvs: codec skv_encodeMaps skv_decode
  by unfold_locales (auto simp: skv_encodeMaps_def skv_decode_def gob_take_def split: prod.splits)

lemma skv_encodeSnapshot_maps: "skv_encodeSnapshot kv = skv_encodeMaps (skvDB kv, sClerkLog kv, skv_cfg kv)"
  by (simp add: skv_encodeSnapshot_def skv_encodeMaps_def gob_put_def)

lemma skv_decoded:
  "skv_decodedSnapshot kv (skv_encodeSnapshot a)
     = kv\<lparr>skvDB := skvDB a, sClerkLog := sClerkLog a, skv_cfg := skv_cfg a\<rparr>"
  by (simp add: skv_decodedSnapshot_def skv_encodeSnapshot_maps skvs.decode_encode)

lemma skv_restore_inv:
  assumes "skv_inv a" and "skv_gid a = skv_gid kv"
  shows "skv_inv (parseCfg (skv_decodedSnapshot kv (skv_encodeSnapshot a)))"
proof (rule parseCfg_inv)
  show "skv_base (skv_decodedSnapshot kv (skv_encodeSnapshot a))"
    using assms by (auto simp: skv_decoded skv_inv_def skv_base_def owned_def)
qed

section \<open>The state machine\<close>

definition skv_step ::
    "((skvop, skvval) rval list \<Rightarrow> nat) \<Rightarrow> skvpersister \<Rightarrow> ShardKV \<Rightarrow> (skvop, skvval) applymsg \<Rightarrow> ShardKV option" where
  "skv_step sz ps kv msg = map_option fst (skv_run sz kv ps msg)"

text \<open>The messages a group's servers get: commands, and snapshots of servers of the same group.\<close>

definition skv_msg_ok :: "ShardKV \<Rightarrow> (skvop, skvval) applymsg \<Rightarrow> bool" where
  "skv_msg_ok kv msg \<longleftrightarrow>
     (if CommandValid msg then \<exists>op. am_Command msg = IOp op \<and> skvop_ok op
      else \<exists>a. am_Command msg = IBytes (skv_encodeSnapshot a) \<and> skv_inv a \<and> skv_gid a = skv_gid kv)"

lemma skv_apply_gid: "skv_apply kv op = Some (kv', b) \<Longrightarrow> skv_gid kv' = skv_gid kv"
  by (auto simp: skv_apply_def skv_newSend_def skv_newConfig_def skv_newShard_def skv_request_def
      setClerk_def setKey_def initShards_eq Let_def split: if_splits option.splits Option.bind_splits)

lemma skv_step_cmd:
  "CommandValid m \<Longrightarrow> am_Command m = IOp op \<Longrightarrow> skv_step sz ps kv m = map_option fst (skv_apply kv op)"
  by (cases "skv_apply kv op") (auto simp: skv_step_def skv_run_def Let_def)

lemma skv_step_snap:
  "\<not> CommandValid m \<Longrightarrow> am_Command m = IBytes d \<Longrightarrow> skv_step sz ps kv m = Some (parseCfg (skv_decodedSnapshot kv d))"
  by (simp add: skv_step_def skv_run_def Let_def)

interpretation skvr: replicated_sm "skv_step sz ps" skv_inv skv_msg_ok for sz ps
proof
  fix kv m assume inv: "skv_inv kv" and ok: "skv_msg_ok kv m"
  show "\<exists>kv'. skv_step sz ps kv m = Some kv' \<and> skv_inv kv'"
  proof (cases "CommandValid m")
    case True
    with ok obtain op where "am_Command m = IOp op" "skvop_ok op" by (auto simp: skv_msg_ok_def)
    with True skv_apply_inv [OF inv] show ?thesis by (fastforce simp: skv_step_cmd)
  next
    case False
    with ok obtain a where "am_Command m = IBytes (skv_encodeSnapshot a)" "skv_inv a" "skv_gid a = skv_gid kv"
      by (auto simp: skv_msg_ok_def)
    with False skv_restore_inv show ?thesis by (simp add: skv_step_snap)
  qed
next
  fix kv m kv' m' assume inv: "skv_inv kv" and st: "skv_step sz ps kv m = Some kv'" and ok: "skv_msg_ok kv m'"
  have "skv_gid kv' = skv_gid kv"
    using st by (auto simp: skv_step_def skv_run_def Let_def skv_decodedSnapshot_def dest: skv_apply_gid
      split: if_splits iface.splits option.splits Option.bind_splits)
  with ok show "skv_msg_ok kv' m'" by (simp add: skv_msg_ok_def)
qed

definition skv_initial :: "nat \<Rightarrow> int \<Rightarrow> int \<Rightarrow> ShardKV" where
  "skv_initial self maxraftstate gid =
     \<lparr>skv_me = self, skv_gid = gid, skv_maxraftstate = maxraftstate, skv_msgCh = Map.empty,
      skv_chans = 0, sClerkLog = [], skvDB = [], skv_shards = [], shardToSend = [],
      skv_cfg = zeroCfg, skv_leader = False, waitUntilMoveDone = 0, skv_exitCh = 0\<rparr>"

lemma skv_initial_inv: "gid \<noteq> 0 \<Longrightarrow> skv_inv (skv_initial self maxraftstate gid)"
proof -
  assume "gid \<noteq> 0"
  then have "owned (skv_initial self maxraftstate gid) = {}"
    by (auto simp: owned_def skv_initial_def zeroCfg_def)
  then show ?thesis
    using \<open>gid \<noteq> 0\<close> by (simp add: skv_inv_def skv_base_def moves_def) (simp add: skv_initial_def zeroCfg_def)
qed

text \<open>
  C21. A sharded server never panics and counts its moves exactly.  Whatever sequence of commands and
  snapshots of its own group it is given, it runs through; the shards it is responsible for are those
  its configuration assigns to its group; data and record of executed commands exist for the same
  shards; and \<open>waitUntilMoveDone\<close> is the number of shards still to be sent plus those still to arrive.
\<close>

theorem shardkv_safe:
  assumes "gid \<noteq> 0" and "\<forall>m \<in> set ms. skv_msg_ok (skv_initial self maxraftstate gid) m"
  shows "\<exists>kv. run_steps (skv_step sz ps) (skv_initial self maxraftstate gid) ms = Some kv
     \<and> set (skv_shards kv) = owned kv \<and> gm_keys (sClerkLog kv) = gm_keys (skvDB kv)
     \<and> waitUntilMoveDone kv = int (card (gm_keys (skvDB kv) - owned kv)) + int (card (owned kv - gm_keys (skvDB kv)))"
  using skvr.run_inv [OF skv_initial_inv [OF assms(1)] assms(2), of sz ps]
  by (auto simp: skv_inv_def skv_base_def moves_def)

definition ex_cfg :: "int \<Rightarrow> int list \<Rightarrow> Config" where
  "ex_cfg num sh = \<lparr>c_Num = num, c_Shards = sh, c_Groups = [(100, [''a'']), (101, [''b''])]\<rparr>"

definition skvMsg :: "int \<Rightarrow> skvop \<Rightarrow> (skvop, skvval) applymsg" where
  "skvMsg i op = \<lparr>CommandValid = True, am_Command = IOp op, CommandIndex = i, CommitTerm = 1, am_Role = Leader\<rparr>"

definition ex_skvlog :: "(skvop, skvval) applymsg list" where
  "ex_skvlog = [skvMsg 1 (newConfigOp (ex_cfg 1 (replicate 10 100))),
     skvMsg 2 (requestOp 7 ''put'' ''a'' ''x'' 5 1), skvMsg 3 (newConfigOp (ex_cfg 2 (replicate 10 101)))]"

theorem shardkv_safe_witness:
  "\<exists>kv. run_steps (skv_step length MakePersister) (skv_initial 0 (-1) 100) ex_skvlog = Some kv
     \<and> waitUntilMoveDone kv = int (card (gm_keys (skvDB kv) - owned kv)) + int (card (owned kv - gm_keys (skvDB kv)))"
proof -
  have "\<forall>m \<in> set ex_skvlog. skv_msg_ok (skv_initial 0 (-1) 100) m"
    by (simp add: ex_skvlog_def skvMsg_def skv_msg_ok_def skvop_ok_def newConfigOp_def requestOp_def ex_cfg_def NShards_def)
  from shardkv_safe [OF _ this, of length MakePersister] show ?thesis by auto
qed

section \<open>Reconfiguration\<close>

text \<open>
  A group moves to the next configuration only when all moves of the current one are done.  A
  leader asks the shard master for configuration \<open>Num + 1\<close> exactly when the shards in its database
  are the shards its configuration assigns to it.
\<close>

theorem checkCfg_exact:
  assumes "skv_inv kv"
  shows "checkCfg kv = (if skv_leader kv \<and> gm_keys (skvDB kv) = owned kv then Some (c_Num (skv_cfg kv) + 1) else None)"
  using assms moves_zero [of "gm_keys (skvDB kv)" "owned kv"] by (auto simp: checkCfg_def skv_inv_def)

text \<open>A configured group with one executed command, and the receiving group.\<close>

definition ex_source :: ShardKV where
  "ex_source = (the (run_steps (skv_step length MakePersister) (skv_initial 0 (-1) 100) ex_skvlog))\<lparr>skv_leader := True\<rparr>"

definition ex_target :: ShardKV where
  "ex_target = (the (run_steps (skv_step length MakePersister) (skv_initial 0 (-1) 101)
     [skvMsg 1 (newConfigOp (ex_cfg 1 (replicate 10 100))), skvMsg 2 (newConfigOp (ex_cfg 2 (replicate 10 101)))]))\<lparr>skv_leader := True\<rparr>"

lemma ex_skv_inv: "skv_inv ex_source" "skv_inv ex_target"
proof -
  have "\<exists>kv. run_steps (skv_step length MakePersister) (skv_initial 0 (-1) 100) ex_skvlog = Some kv \<and> skv_inv kv"
    by (rule skvr.run_inv [OF skv_initial_inv])
      (simp_all add: ex_skvlog_def skvMsg_def skv_msg_ok_def skvop_ok_def newConfigOp_def requestOp_def ex_cfg_def NShards_def)
  then show "skv_inv ex_source" unfolding ex_source_def by (auto intro: skv_inv_cong)
  have "\<exists>kv. run_steps (skv_step length MakePersister) (skv_initial 0 (-1) 101)
     [skvMsg 1 (newConfigOp (ex_cfg 1 (replicate 10 100))), skvMsg 2 (newConfigOp (ex_cfg 2 (replicate 10 101)))] = Some kv \<and> skv_inv kv"
    by (rule skvr.run_inv [OF skv_initial_inv])
      (simp_all add: skvMsg_def skv_msg_ok_def skvop_ok_def newConfigOp_def ex_cfg_def NShards_def)
  then show "skv_inv ex_target" unfolding ex_target_def by (auto intro: skv_inv_cong)
qed

theorem checkCfg_exact_witness:
  "skv_inv ex_source \<and> waitUntilMoveDone ex_source = 10 \<and> checkCfg ex_source = None"
proof -
  have "waitUntilMoveDone ex_source = 10" "skv_leader ex_source" by code_simp+
  moreover have "gm_keys (skvDB ex_source) \<noteq> owned ex_source"
    using calculation(1) ex_skv_inv(1) moves_zero [of "gm_keys (skvDB ex_source)" "owned ex_source"]
    by (auto simp: skv_inv_def)
  ultimately show ?thesis using checkCfg_exact [OF ex_skv_inv(1)] ex_skv_inv(1) by simp
qed

text \<open>What a push installs at the target.\<close>

lemma push_installs:
  assumes "sendShardRound src shard cfg = Some (SendRound args servers)"
    and "PushShardCheck dst args = None"
  shows "skv_apply dst (pushShardOp args) = Some (dst\<lparr>
     skvDB := gm_set shard (gm_get0 Map.empty (skvDB src) shard) (skvDB dst),
     sClerkLog := gm_set shard (gm_get0 Map.empty (sClerkLog src) shard) (sClerkLog dst),
     waitUntilMoveDone := waitUntilMoveDone dst - 1\<rparr>, True)"
proof -
  have a: "ps_Shard args = shard" "ps_ShardDB args = gm_get0 Map.empty (skvDB src) shard"
    "ps_ClerkLog args = gm_get0 Map.empty (sClerkLog src) shard"
    using assms(1) by (auto simp: sendShardRound_def copyInto_def Let_def split: if_splits Option.bind_splits)
  have "haveShard dst shard" "\<not> shardInDB dst shard"
    using assms(2) by (auto simp: PushShardCheck_def a split: if_splits)
  then show ?thesis by (simp add: skv_apply_def pushShardOp_def skv_newShard_def a copyInto_def)
qed

text \<open>
  C22. Migration preserves a shard.  When the leader of the old group sends a shard, the new group accepts
  it and both have applied their log entries, the new group has exactly the old group's data and
  record of executed commands for the shard and waits for one move less; the old group has dropped
  the shard and waits for one move less; no other shard changes on either side.
\<close>

theorem migration_preserves:
  assumes src: "skv_inv src" and "sendShardRound src shard cfg = Some (SendRound args servers)" and "\<not> haveShard src shard"
    and dst: "skv_inv dst" and "PushShardCheck dst args = None"
  shows "\<exists>dst' src'. skv_apply dst (pushShardOp args) = Some (dst', True)
     \<and> skv_apply src (newSendOp shard) = Some (src', True) \<and> skv_inv dst' \<and> skv_inv src'
     \<and> gm_get (skvDB dst') = (gm_get (skvDB dst))(shard := gm_get (skvDB src) shard)
     \<and> gm_get (sClerkLog dst') = (gm_get (sClerkLog dst))(shard := gm_get (sClerkLog src) shard)
     \<and> gm_get (skvDB src') = (gm_get (skvDB src))(shard := None)
     \<and> gm_get (sClerkLog src') = (gm_get (sClerkLog src))(shard := None)
     \<and> waitUntilMoveDone dst' = waitUntilMoveDone dst - 1 \<and> waitUntilMoveDone src' = waitUntilMoveDone src - 1"
proof -
  have db: "shardInDB src shard"
    using assms(2) by (auto simp: sendShardRound_def split: if_splits)
  then have "shard \<in> gm_keys (skvDB src)" "shard \<in> gm_keys (sClerkLog src)"
    using src by (simp_all add: shardInDB_iff skv_inv_def skv_base_def)
  then obtain d c where dc: "gm_get (skvDB src) shard = Some d" "gm_get (sClerkLog src) shard = Some c"
    by (auto simp: gm_keys_dom)
  let ?dst = "dst\<lparr>skvDB := gm_set shard d (skvDB dst), sClerkLog := gm_set shard c (sClerkLog dst),
     waitUntilMoveDone := waitUntilMoveDone dst - 1\<rparr>"
  let ?src = "src\<lparr>skvDB := gm_del shard (skvDB src), sClerkLog := gm_del shard (sClerkLog src),
     waitUntilMoveDone := waitUntilMoveDone src - 1\<rparr>"
  have 1: "skv_apply dst (pushShardOp args) = Some (?dst, True)"
    using push_installs [OF assms(2,5)] dc by (simp add: gm_get0_def)
  have 2: "skv_apply src (newSendOp shard) = Some (?src, True)"
    using assms(3) db by (simp add: skv_apply_def newSendOp_def skv_newSend_def)
  have "skv_inv ?dst" "skv_inv ?src"
    using skv_apply_inv [OF dst, of "pushShardOp args"] skv_apply_inv [OF src, of "newSendOp shard"] 1 2
    by (auto simp: skvop_ok_def pushShardOp_def newSendOp_def)
  with 1 2 dc show ?thesis by (intro exI [of _ ?dst] exI [of _ ?src]) simp
qed

theorem migration_preserves_witness:
  "\<exists>args servers dst' src'. sendShardRound ex_source 7 2 = Some (SendRound args servers) \<and> PushShardCheck ex_target args = None
     \<and> skv_apply ex_target (pushShardOp args) = Some (dst', True) \<and> skv_apply ex_source (newSendOp 7) = Some (src', True)
     \<and> gm_get0 Map.empty (skvDB dst') 7 ''a'' = Some ''x'' \<and> gm_get (skvDB src') 7 = None"
proof -
  have "case sendShardRound ex_source 7 2 of Some (SendRound a s) \<Rightarrow> PushShardCheck ex_target a = None | _ \<Rightarrow> False"
    by code_simp
  then obtain args servers where r: "sendShardRound ex_source 7 2 = Some (SendRound args servers)" "PushShardCheck ex_target args = None"
    by (auto split: option.splits sendRound.splits)
  have h: "\<not> haveShard ex_source 7" by code_simp
  have v: "gm_get0 Map.empty (skvDB ex_source) 7 ''a'' = Some ''x''" by code_simp
  from migration_preserves [OF ex_skv_inv(1) r(1) h ex_skv_inv(2) r(2)] obtain dst' src' where
    "skv_apply ex_target (pushShardOp args) = Some (dst', True)" "skv_apply ex_source (newSendOp 7) = Some (src', True)"
    "gm_get (skvDB dst') = (gm_get (skvDB ex_target))(7 := gm_get (skvDB ex_source) 7)"
    "gm_get (skvDB src') = (gm_get (skvDB ex_source))(7 := None)" by blast
  with r v show ?thesis by (auto simp: gm_get0_def)
qed

section \<open>Requests\<close>

text \<open>
  A client request is executed at most once, by the responsible group only, and touches one shard.
  A command of a clerk that was executed for the shard is answered without effect; one for a shard
  that is not assigned here or has not arrived yet is refused without effect; otherwise the data of
  the shard changes as the command says, no other shard changes, and the command counts as executed.
\<close>

theorem request_outcome:
  assumes "skv_inv kv" and "x_Type op = ''request''"
  shows "\<exists>kv' ok. skv_apply kv op = Some (kv', ok)
     \<and> (if skv_done kv (x_Shard op) (x_Clerk op) (x_CmdIndex op) then kv' = kv \<and> ok
        else if \<not> haveShard kv (x_Shard op) \<or> \<not> shardInDB kv (x_Shard op) then kv' = kv \<and> \<not> ok
        else ok \<and> skv_done kv' (x_Shard op) (x_Clerk op) (x_CmdIndex op)
          \<and> gm_get (skvDB kv') = (gm_get (skvDB kv))(x_Shard op := map_option (skv_spec op) (gm_get (skvDB kv) (x_Shard op)))
          \<and> (\<forall>s. s \<noteq> x_Shard op \<longrightarrow> gm_get (sClerkLog kv') s = gm_get (sClerkLog kv) s))"
proof -
  have a: "skv_apply kv op = skv_request kv op" using assms(2) by (simp add: skv_apply_def)
  show ?thesis
  proof (cases "skv_done kv (x_Shard op) (x_Clerk op) (x_CmdIndex op) \<or> \<not> haveShard kv (x_Shard op) \<or> \<not> shardInDB kv (x_Shard op)")
    case True
    then show ?thesis unfolding a by (auto simp: skv_request_def)
  next
    case False
    then have h: "\<not> skv_done kv (x_Shard op) (x_Clerk op) (x_CmdIndex op)" "haveShard kv (x_Shard op)" "shardInDB kv (x_Shard op)"
      by auto
    obtain db cl where r: "gm_get (skvDB kv) (x_Shard op) = Some db" "gm_get (sClerkLog kv) (x_Shard op) = Some cl"
      "skv_request kv op = Some (kv\<lparr>sClerkLog := gm_set (x_Shard op) (cl(x_Clerk op \<mapsto> x_CmdIndex op)) (sClerkLog kv),
         skvDB := (if x_Operation op \<in> {''put'', ''append''} then gm_set (x_Shard op) (skv_spec op db) (skvDB kv) else skvDB kv)\<rparr>, True)"
      by (rule request_executes [OF assms(1) h])
    have other: "x_Operation op \<notin> {''put'', ''append''} \<Longrightarrow> (gm_get (skvDB kv))(x_Shard op \<mapsto> skv_spec op db) = gm_get (skvDB kv)"
      using r(1) by (auto simp: skv_spec_def)
    show ?thesis
      unfolding a r(3) using h r(1,2) other by (auto simp: skv_done_def gm_get0_def)
  qed
qed

definition ex_owner :: ShardKV where
  "ex_owner = the (skv_step length MakePersister (skv_initial 0 (-1) 100) (skvMsg 1 (newConfigOp (ex_cfg 1 (replicate 10 100)))))"

lemma ex_owner_inv: "skv_inv ex_owner"
proof -
  have "\<exists>kv. run_steps (skv_step length MakePersister) (skv_initial 0 (-1) 100)
     [skvMsg 1 (newConfigOp (ex_cfg 1 (replicate 10 100)))] = Some kv \<and> skv_inv kv"
    by (rule skvr.run_inv [OF skv_initial_inv])
      (simp_all add: skvMsg_def skv_msg_ok_def skvop_ok_def newConfigOp_def ex_cfg_def NShards_def)
  then show ?thesis by (auto simp: ex_owner_def split: Option.bind_splits)
qed

theorem request_outcome_witness:
  "\<exists>kv'. skv_apply ex_owner (requestOp 7 ''append'' ''a'' ''x'' 5 1) = Some (kv', True)
     \<and> skv_done kv' 7 5 1 \<and> gm_get0 Map.empty (skvDB kv') 7 ''a'' = Some ''x''"
proof -
  let ?op = "requestOp 7 ''append'' ''a'' ''x'' 5 1"
  have o: "x_Type ?op = ''request''" "x_Shard ?op = 7" "x_Clerk ?op = 5" "x_CmdIndex ?op = 1"
    by (simp_all add: requestOp_def)
  have h: "\<not> skv_done ex_owner 7 5 1" "haveShard ex_owner 7" "shardInDB ex_owner 7" by code_simp+
  have g: "gm_get (skvDB ex_owner) 7 \<noteq> None" "gm_get0 Map.empty (skvDB ex_owner) 7 ''a'' = None"
    using h(3) by (simp add: shardInDB_def) code_simp
  from request_outcome [OF ex_owner_inv o(1)] h obtain kv' where
    "skv_apply ex_owner ?op = Some (kv', True)" "skv_done kv' 7 5 1"
    "gm_get (skvDB kv') = (gm_get (skvDB ex_owner))(7 := map_option (skv_spec ?op) (gm_get (skvDB ex_owner) 7))"
    by (auto simp: o)
  with g show ?thesis by (auto simp: gm_get0_def skv_spec_def requestOp_def)
qed

text \<open>
  C23. At most once across a migration.  A command that the old group has executed for a shard is not
  executed again by the group the shard has moved to: the retry leaves that group's state unchanged.
\<close>

theorem retry_after_migration:
  assumes "skv_done src shard (x_Clerk op) (x_CmdIndex op)"
    and "sendShardRound src shard cfg = Some (SendRound args servers)" and "PushShardCheck dst args = None"
    and "x_Type op = ''request''" and "x_Shard op = shard"
  shows "\<exists>dst'. skv_apply dst (pushShardOp args) = Some (dst', True) \<and> skv_apply dst' op = Some (dst', True)"
proof -
  let ?dst = "dst\<lparr>skvDB := gm_set shard (gm_get0 Map.empty (skvDB src) shard) (skvDB dst),
     sClerkLog := gm_set shard (gm_get0 Map.empty (sClerkLog src) shard) (sClerkLog dst),
     waitUntilMoveDone := waitUntilMoveDone dst - 1\<rparr>"
  have "skv_done ?dst shard (x_Clerk op) (x_CmdIndex op)"
    using assms(1) by (simp add: skv_done_def gm_get0_def)
  then have "skv_apply ?dst op = Some (?dst, True)"
    using assms(4,5) by (simp add: skv_apply_def skv_request_def)
  with push_installs [OF assms(2,3)] show ?thesis by blast
qed

theorem retry_after_migration_witness:
  "\<exists>args servers dst'. sendShardRound ex_source 7 2 = Some (SendRound args servers)
     \<and> skv_apply ex_target (pushShardOp args) = Some (dst', True)
     \<and> skv_apply dst' (requestOp 7 ''put'' ''a'' ''x'' 5 1) = Some (dst', True)"
proof -
  have "case sendShardRound ex_source 7 2 of Some (SendRound a s) \<Rightarrow> PushShardCheck ex_target a = None | _ \<Rightarrow> False"
    by code_simp
  then obtain args servers where r: "sendShardRound ex_source 7 2 = Some (SendRound args servers)" "PushShardCheck ex_target args = None"
    by (auto split: option.splits sendRound.splits)
  have d: "skv_done ex_source 7 5 1" by code_simp
  show ?thesis
    using retry_after_migration [of ex_source 7 "requestOp 7 ''put'' ''a'' ''x'' 5 1", OF _ r] d r(1)
    by (auto simp: requestOp_def)
qed

section \<open>Restoring a snapshot\<close>

text \<open>Two servers of a group agree on everything that is replicated.\<close>

definition skv_same :: "ShardKV \<Rightarrow> ShardKV \<Rightarrow> bool" where
  "skv_same a b \<longleftrightarrow> skvDB a = skvDB b \<and> sClerkLog a = sClerkLog b \<and> skv_cfg a = skv_cfg b \<and> skv_gid a = skv_gid b
     \<and> set (skv_shards a) = set (skv_shards b) \<and> waitUntilMoveDone a = waitUntilMoveDone b"

text \<open>
  C24. A snapshot restores a sharded server.  Decoding a snapshot of a server of the same group and
  re-deriving the fields from its configuration gives the same data, record of executed commands,
  configuration, responsible shards and outstanding moves as that server has, in any state of the
  restoring server; and later commands act on both alike.
\<close>

theorem skv_snapshot_restores:
  assumes "skv_inv a" and "skv_gid a = skv_gid kv"
  shows "skv_same (parseCfg (skv_decodedSnapshot kv (skv_encodeSnapshot a))) a"
proof -
  let ?r = "parseCfg (skv_decodedSnapshot kv (skv_encodeSnapshot a))"
  have r: "skv_inv ?r" by (rule skv_restore_inv [OF assms])
  have f: "skvDB ?r = skvDB a" "sClerkLog ?r = sClerkLog a" "skv_cfg ?r = skv_cfg a" "skv_gid ?r = skv_gid a"
    using assms(2) by (simp_all add: skv_decoded)
  have "owned ?r = owned a" unfolding owned_def f ..
  with r f assms(1) show ?thesis by (simp only: skv_same_def skv_inv_def)
qed

theorem skv_snapshot_restores_witness:
  "skv_same (parseCfg (skv_decodedSnapshot (skv_initial 2 (-1) 100) (skv_encodeSnapshot ex_source))) ex_source"
proof -
  have "skv_gid ex_source = skv_gid (skv_initial 2 (-1) 100)" by code_simp
  from skv_snapshot_restores [OF ex_skv_inv(1) this] show ?thesis .
qed

section \<open>The clerk\<close>

lemma key2shard_bounds: "0 \<le> key2shard key \<and> key2shard key < int NShards"
  by (cases key) (auto simp: key2shard_def go_mod_nonneg NShards_def)

text \<open>The master's configurations all have \<open>NShards\<close> slots.\<close>

definition rounds_ok :: "((string \<Rightarrow> 'r option) \<times> Config) list \<Rightarrow> bool" where
  "rounds_ok rounds = list_all (\<lambda>(call, cfg). length (c_Shards cfg) = NShards) rounds"

lemma clerkRounds_total:
  assumes "length (c_Shards (sk_config ck)) = NShards" and "rounds_ok rounds" and "0 \<le> shard" "shard < int NShards"
  shows "\<exists>ck' r. clerkRounds ck shard rounds good wg = Some (ck', r) \<and> sk_cmdIndex ck' = sk_cmdIndex ck \<and> sk_me ck' = sk_me ck
    \<and> (\<forall>reply. r = Some reply \<longrightarrow> good reply)"
  using assms
proof (induction rounds arbitrary: ck)
  case (Cons p rounds)
  obtain call latest where p: "p = (call, latest)" by (cases p)
  have good: "tryGroup call good wg srvs = Some reply \<Longrightarrow> good reply" for srvs reply
    by (induction srvs) (auto split: option.splits if_splits)
  obtain gid where gid: "go_idx (c_Shards (sk_config ck)) shard = Some gid"
    using Cons.prems by (auto simp: go_idx_def)
  show ?case
  proof (cases "tryGroup call good wg (gm_get0 [] (c_Groups (sk_config ck)) gid)")
    case None
    then show ?thesis
      using Cons.IH [of "ck\<lparr>sk_config := latest\<rparr>"] Cons.prems gid p by (simp add: rounds_ok_def)
  next
    case (Some reply)
    then show ?thesis using gid p good by simp
  qed
qed simp

text \<open>
  The clerk routes every key to a valid shard and accepts only positive answers.  For every key,
  also the empty one, the shard is within the configuration's array, so the clerk's loop never
  panics; it uses one new command number; and what it returns comes from a reply that is not
  \<open>WrongLeader\<close> with error \<open>OK\<close>.
\<close>

theorem skv_clerk_put_sound:
  assumes "length (c_Shards (sk_config ck)) = NShards" and "\<And>args. rounds_ok (net args)"
  shows "\<exists>ck' r. skv_ClerkPutAppend ck key value oper net = Some (ck', r) \<and> sk_cmdIndex ck' = sk_cmdIndex ck + 1
     \<and> 0 \<le> key2shard key \<and> key2shard key < int NShards
     \<and> (\<forall>reply. r = Some reply \<longrightarrow> \<not> pr_WrongLeader reply \<and> pr_Err reply = OK)"
  using clerkRounds_total [of "ck\<lparr>sk_cmdIndex := sk_cmdIndex ck + 1\<rparr>" _ "key2shard key"
      "\<lambda>r. \<not> pr_WrongLeader r \<and> pr_Err r = OK" "\<lambda>r. pr_Err r = ErrWrongGroup"]
    assms key2shard_bounds [of key]
  unfolding skv_ClerkPutAppend_def Let_def by fastforce

theorem skv_clerk_put_sound_witness:
  "\<exists>ck' r. skv_ClerkPutAppend (skv_MakeClerk 9) ''k'' ''v'' ''Put''
      (\<lambda>args. [(\<lambda>s. None, ex_cfg 1 (replicate 10 100)), (\<lambda>s. Some \<lparr>pr_WrongLeader = False, pr_Err = OK\<rparr>, ex_cfg 1 (replicate 10 100))])
      = Some (ck', r) \<and> sk_cmdIndex ck' = 1 \<and> key2shard ''k'' < 10"
  using skv_clerk_put_sound [of "skv_MakeClerk 9" "\<lambda>args. [(\<lambda>s. None, ex_cfg 1 (replicate 10 100)),
      (\<lambda>s. Some \<lparr>pr_WrongLeader = False, pr_Err = OK\<rparr>, ex_cfg 1 (replicate 10 100))]" "''k''" "''v''" "''Put''"]
  by (auto simp: skv_MakeClerk_def zeroCfg_def rounds_ok_def ex_cfg_def NShards_def)

end
