(* ===== verification/Bitset.thy ===== *)
theory Bitset
  imports Prelude "HOL-Library.Word"
begin

text \<open>
  The bit sets of the linearizability checker (\<^verbatim>\<open>src/src/linearizability/bitset.go\<close>): slices of
  64-bit words.  A position outside the slice panics (\<open>None\<close>).  \<open>bits\<close> is the set a slice stands for;
  the locale \<open>bit_store\<close> is what the checker relies on.  \<open>popcnt\<close> counts with the usual parallel
  additions inside a word and is proved to count the bits.
\<close>

unbundle bit_operations_syntax

section \<open>The operations\<close>

type_synonym bitset = "64 word list"

definition newBitset :: "nat \<Rightarrow> bitset" where
  "newBitset nbits =
     (let extra = (if nbits mod 64 \<noteq> 0 then 1 else 0); chunks = nbits div 64 + extra
      in replicate chunks 0)"

definition bs_clone :: "bitset \<Rightarrow> bitset" where
  "bs_clone b = take (length b) b"

definition bitsetIndex :: "nat \<Rightarrow> nat \<times> nat" where
  "bitsetIndex pos = (pos div 64, pos mod 64)"

definition bs_set :: "bitset \<Rightarrow> nat \<Rightarrow> bitset option" where
  "bs_set b pos = (let (major, minor) = bitsetIndex pos in do {
     w \<leftarrow> go_idx b (int major);
     go_set b (int major) (w OR push_bit minor 1) })"

definition bs_clear :: "bitset \<Rightarrow> nat \<Rightarrow> bitset option" where
  "bs_clear b pos = (let (major, minor) = bitsetIndex pos in do {
     w \<leftarrow> go_idx b (int major);
     go_set b (int major) (w AND NOT (push_bit minor 1)) })"

definition bs_get :: "bitset \<Rightarrow> nat \<Rightarrow> bool option" where
  "bs_get b pos = (let (major, minor) = bitsetIndex pos in do {
     w \<leftarrow> go_idx b (int major);
     Some (w AND push_bit minor 1 \<noteq> 0) })"

text \<open>The loop body of \<open>popcnt\<close>: the number of bits of one word.\<close>

definition wordCount :: "64 word \<Rightarrow> 64 word" where
  "wordCount v =
     (let v = (v AND 0x5555555555555555) + drop_bit 1 (v AND 0xAAAAAAAAAAAAAAAA);
          v = (v AND 0x3333333333333333) + drop_bit 2 (v AND 0xCCCCCCCCCCCCCCCC);
          v = (v AND 0x0F0F0F0F0F0F0F0F) + drop_bit 4 (v AND 0xF0F0F0F0F0F0F0F0);
          v = v * 0x0101010101010101
      in drop_bit 56 v AND 0xFF)"

definition bs_popcnt :: "bitset \<Rightarrow> 64 word" where
  "bs_popcnt b = fold (\<lambda>v total. total + wordCount v) b 0"

definition bs_hash :: "bitset \<Rightarrow> 64 word" where
  "bs_hash b = fold (\<lambda>v h. h XOR v) b (bs_popcnt b)"

definition bs_equals :: "bitset \<Rightarrow> bitset \<Rightarrow> bool" where
  "bs_equals b b2 =
     (if length b \<noteq> length b2 then False else list_all (\<lambda>i. b ! i = b2 ! i) [0..<length b])"

section \<open>Bit sets as sets\<close>

definition bits :: "bitset \<Rightarrow> nat set" where
  "bits b = {i. i < 64 * length b \<and> bit (b ! (i div 64)) (i mod 64)}"

lemma bs_clone_id [simp]: "bs_clone b = b"
  by (simp add: bs_clone_def)

lemma bs_equals_eq: "bs_equals b c \<longleftrightarrow> b = c"
  by (auto simp: bs_equals_def list_all_iff intro: nth_equalityI)

lemma bits_new [simp]: "bits (newBitset n) = {}"
  by (auto simp: bits_def newBitset_def Let_def)

lemma newBitset_length: "n \<le> 64 * length (newBitset n)"
  by (auto simp: newBitset_def Let_def)

lemma div_64_less: "(pos::nat) < 64 * k \<Longrightarrow> pos div 64 < k"
  by (simp add: less_mult_imp_div_less mult.commute)

lemma same_pos: "(i::nat) div 64 = j div 64 \<Longrightarrow> i mod 64 = j mod 64 \<Longrightarrow> i = j"
  by (metis mult_div_mod_eq)

lemma bs_set_spec:
  assumes "pos < 64 * length b"
  shows "\<exists>b'. bs_set b pos = Some b' \<and> length b' = length b \<and> bits b' = insert pos (bits b)"
proof -
  let ?w = "b ! (pos div 64) OR push_bit (pos mod 64) 1"
  have m: "pos div 64 < length b" by (rule div_64_less [OF assms])
  then have "bs_set b pos = Some (b[pos div 64 := ?w])"
    by (simp add: bs_set_def bitsetIndex_def go_idx_def go_set_def)
  moreover have "bits (b[pos div 64 := ?w]) = insert pos (bits b)"
    using assms m div_64_less [of _ "length b"]
    by (auto simp: bits_def nth_list_update bit_simps dest: same_pos)
  ultimately show ?thesis by simp
qed

lemma bs_clear_spec:
  assumes "pos < 64 * length b"
  shows "\<exists>b'. bs_clear b pos = Some b' \<and> length b' = length b \<and> bits b' = bits b - {pos}"
proof -
  let ?w = "b ! (pos div 64) AND NOT (push_bit (pos mod 64) 1)"
  have m: "pos div 64 < length b" by (rule div_64_less [OF assms])
  then have "bs_clear b pos = Some (b[pos div 64 := ?w])"
    by (simp add: bs_clear_def bitsetIndex_def go_idx_def go_set_def)
  moreover have "bits (b[pos div 64 := ?w]) = bits b - {pos}"
    using assms m div_64_less [of _ "length b"]
    by (auto simp: bits_def nth_list_update bit_simps dest: same_pos)
  ultimately show ?thesis by simp
qed

lemma bs_get_spec:
  assumes "pos < 64 * length b"
  shows "bs_get b pos = Some (pos \<in> bits b)"
proof -
  have m: "pos div 64 < length b" by (rule div_64_less [OF assms])
  have "(w AND push_bit k 1 \<noteq> 0) = bit w k" if "k < 64" for w :: "64 word" and k
  proof -
    have "bit (w AND push_bit k 1) n \<longleftrightarrow> n = k \<and> bit w k" for n
      using that by (auto simp: bit_simps)
    then show ?thesis by (metis bit_0_eq bot_apply bot_bool_def bit_word_eqI)
  qed
  with m assms show ?thesis by (simp add: bs_get_def bitsetIndex_def go_idx_def bits_def)
qed

text \<open>Slices of the same length with the same bits are equal.\<close>

lemma bits_inject:
  assumes "length b = length c" and "bits b = bits c"
  shows "b = c"
proof (rule nth_equalityI [OF assms(1)])
  fix k assume k: "k < length b"
  show "b ! k = c ! k"
  proof (rule bit_word_eqI)
    fix n assume n: "n < LENGTH(64)"
    then have "64 * k + n < 64 * length b" "(64 * k + n) div 64 = k" "(64 * k + n) mod 64 = n"
      using k by auto
    moreover have "64 * k + n \<in> bits b \<longleftrightarrow> 64 * k + n \<in> bits c" using assms(2) by simp
    ultimately show "bit (b ! k) n \<longleftrightarrow> bit (c ! k) n" using assms(1) by (simp add: bits_def)
  qed
qed

section \<open>What the checker relies on\<close>

locale bit_store =
  fixes ok :: "'b \<Rightarrow> bool" and members :: "'b \<Rightarrow> nat set" and cap :: nat
    and ins :: "'b \<Rightarrow> nat \<Rightarrow> 'b option" and del :: "'b \<Rightarrow> nat \<Rightarrow> 'b option" and eq :: "'b \<Rightarrow> 'b \<Rightarrow> bool"
  assumes ins_ok: "ok b \<Longrightarrow> i < cap \<Longrightarrow> \<exists>b'. ins b i = Some b' \<and> ok b' \<and> members b' = insert i (members b)"
    and del_ok: "ok b \<Longrightarrow> i < cap \<Longrightarrow> \<exists>b'. del b i = Some b' \<and> ok b' \<and> members b' = members b - {i}"
    and members_inject: "ok b \<Longrightarrow> ok c \<Longrightarrow> members b = members c \<Longrightarrow> b = c"
    and eq_eq: "eq b c \<longleftrightarrow> b = c"
begin

text \<open>Removing what was just inserted restores the store.\<close>

lemma del_ins:
  assumes "ok b" "i < cap" "i \<notin> members b" "ins b i = Some b'"
  shows "del b' i = Some b"
proof -
  from ins_ok [OF assms(1,2)] assms(4) have b': "ok b'" "members b' = insert i (members b)" by auto
  from del_ok [OF b'(1) assms(2)] obtain c where c: "del b' i = Some c" "ok c" "members c = members b' - {i}"
    by blast
  have "members c = members b" using c(3) b'(2) assms(3) by auto
  with members_inject [OF c(2) assms(1)] c(1) show ?thesis by simp
qed

lemma eq_members: "ok b \<Longrightarrow> ok c \<Longrightarrow> eq b c \<longleftrightarrow> members b = members c"
  using members_inject [of b c] by (auto simp: eq_eq)

end

interpretation bs: bit_store "\<lambda>b. length b = k" bits "64 * k" bs_set bs_clear bs_equals for k
proof unfold_locales
  fix b c :: bitset and i
  show "\<exists>b'. bs_set b i = Some b' \<and> length b' = k \<and> bits b' = insert i (bits b)"
    if "length b = k" "i < 64 * k" using bs_set_spec [of i b] that by simp
  show "\<exists>b'. bs_clear b i = Some b' \<and> length b' = k \<and> bits b' = bits b - {i}"
    if "length b = k" "i < 64 * k" using bs_clear_spec [of i b] that by simp
  show "b = c" if "length b = k" "length c = k" "bits b = bits c" using bits_inject that by simp
  show "bs_equals b c \<longleftrightarrow> b = c" by (rule bs_equals_eq)
qed

section \<open>Counting bits\<close>

text \<open>The sum of the first \<open>n\<close> digits of \<open>k\<close> bits.\<close>

fun digitSum :: "nat \<Rightarrow> nat \<Rightarrow> nat \<Rightarrow> nat" where
  "digitSum k 0 x = 0"
| "digitSum k (Suc n) x = x mod 2 ^ k + digitSum k n (x div 2 ^ k)"

text \<open>One parallel addition: neighbouring digits of \<open>k\<close> bits are added into digits of \<open>2 * k\<close> bits.\<close>

fun pairSum :: "nat \<Rightarrow> nat \<Rightarrow> nat \<Rightarrow> nat" where
  "pairSum k 0 x = 0"
| "pairSum k (Suc n) x = x mod 2 ^ k + x div 2 ^ k mod 2 ^ k + 2 ^ (2 * k) * pairSum k n (x div 2 ^ (2 * k))"

fun lowDigits :: "nat \<Rightarrow> nat \<Rightarrow> nat \<Rightarrow> nat" where
  "lowDigits k 0 x = 0"
| "lowDigits k (Suc n) x = x mod 2 ^ k + 2 ^ (2 * k) * lowDigits k n (x div 2 ^ (2 * k))"

fun lowMask :: "nat \<Rightarrow> nat \<Rightarrow> nat" where
  "lowMask k 0 = 0"
| "lowMask k (Suc n) = mask k + 2 ^ (2 * k) * lowMask k n"

lemma two_digits_bound:
  assumes "0 < k"
  shows "x mod 2 ^ k + y mod 2 ^ k < (2::nat) ^ (2 * k)"
proof -
  have "x mod 2 ^ k < 2 ^ k" "y mod 2 ^ k < (2::nat) ^ k" by simp_all
  then have "x mod 2 ^ k + y mod 2 ^ k + 2 \<le> 2 * 2 ^ k" by linarith
  also have "2 * 2 ^ k \<le> (2::nat) ^ (2 * k)" using assms by (simp flip: power_Suc)
  finally show ?thesis by linarith
qed

lemma div_div_pow: "x div 2 ^ k div 2 ^ k = x div (2::nat) ^ (2 * k)"
  by (simp add: div_mult2_eq mult_2 power_add)

lemma pairSum_low: "pairSum k n x = lowDigits k n x + lowDigits k n (x div 2 ^ k)"
proof (induction n arbitrary: x)
  case (Suc n)
  have "x div 2 ^ k div 2 ^ (2 * k) = x div 2 ^ (2 * k) div 2 ^ k"
    by (simp add: mult.commute flip: div_mult2_eq)
  with Suc show ?case by (simp add: algebra_simps)
qed simp

lemma pairSum_bound: "0 < k \<Longrightarrow> pairSum k n x < 2 ^ (2 * k * n)"
proof (induction n arbitrary: x)
  case (Suc n)
  let ?B = "(2::nat) ^ (2 * k)"
  have "pairSum k n (x div ?B) + 1 \<le> 2 ^ (2 * k * n)" using Suc by (simp add: Suc_leI)
  then have "?B * (pairSum k n (x div ?B) + 1) \<le> ?B * 2 ^ (2 * k * n)" by (rule mult_le_mono2)
  with two_digits_bound [OF Suc.prems, of x "x div 2 ^ k"] show ?case
    by (simp add: power_add algebra_simps)
qed simp

lemma digitSum_pairSum: "0 < k \<Longrightarrow> digitSum (2 * k) n (pairSum k n x) = digitSum k (2 * n) x"
proof (induction n arbitrary: x)
  case (Suc n)
  let ?B = "(2::nat) ^ (2 * k)"
  let ?d = "x mod 2 ^ k + x div 2 ^ k mod 2 ^ k"
  have d: "?d < ?B" by (rule two_digits_bound [OF Suc.prems])
  have "pairSum k (Suc n) x mod ?B = ?d" "pairSum k (Suc n) x div ?B = pairSum k n (x div ?B)"
    using d by simp_all
  then have "digitSum (2 * k) (Suc n) (pairSum k (Suc n) x) = ?d + digitSum k (2 * n) (x div ?B)"
    using Suc.IH [OF Suc.prems] by simp
  then show ?case by (simp add: div_div_pow)
qed simp

lemma and_lowMask: "x AND lowMask k n = lowDigits k n x"
proof (induction n arbitrary: x)
  case (Suc n)
  let ?m = "lowMask k (Suc n)"
  have "mask k < (2::nat) ^ (2 * k)"
  proof -
    have "mask k < (2::nat) ^ k" by (simp add: mask_eq_exp_minus_1)
    also have "\<dots> \<le> 2 ^ (2 * k)" by (simp add: power_increasing)
    finally show ?thesis .
  qed
  then have m: "take_bit (2 * k) ?m = mask k" "drop_bit (2 * k) ?m = lowMask k n"
    by (simp_all add: take_bit_eq_mod drop_bit_eq_div)
  have "x AND ?m = take_bit (2 * k) (x AND ?m) + push_bit (2 * k) (drop_bit (2 * k) (x AND ?m))"
    using bits_ident [of "2 * k" "x AND ?m"] by (simp only: add.commute)
  also have "take_bit (2 * k) (x AND ?m) = take_bit k x"
    unfolding take_bit_and m by (simp add: take_bit_eq_mask ac_simps)
       (simp add: min_def flip: take_bit_eq_mask)
  also have "push_bit (2 * k) (drop_bit (2 * k) (x AND ?m)) = 2 ^ (2 * k) * lowDigits k n (x div 2 ^ (2 * k))"
    unfolding drop_bit_and m using Suc.IH by (simp add: push_bit_eq_mult drop_bit_eq_div mult.commute)
  finally show ?case by (simp add: take_bit_eq_mod)
qed simp

lemma parallel_add:
  fixes v M N :: "64 word"
  assumes "unat M = lowMask k n" and "unat N = 2 ^ k * lowMask k n" and "0 < k" and "2 * k * n = 64"
  shows "unat ((v AND M) + drop_bit k (v AND N)) = pairSum k n (unat v)"
proof -
  have "unat (v AND M) = lowDigits k n (unat v)"
    by (simp add: unsigned_and_eq assms(1) and_lowMask)
  moreover have "unat (drop_bit k (v AND N)) = lowDigits k n (unat v div 2 ^ k)"
  proof -
    have "unat (drop_bit k (v AND N)) = drop_bit k (unat v AND unat N)"
      by (simp add: unat_drop_bit_eq unsigned_and_eq)
    also have "\<dots> = drop_bit k (unat v) AND lowMask k n"
      by (simp add: drop_bit_and assms(2)) (simp add: drop_bit_eq_div)
    finally show ?thesis by (simp add: and_lowMask drop_bit_eq_div)
  qed
  moreover have "pairSum k n (unat v) < 2 ^ 64" using pairSum_bound [OF assms(3), of n] assms(4) by simp
  ultimately show ?thesis by (simp add: unat_word_ariths pairSum_low)
qed

lemma digitSum_snoc: "digitSum k (Suc n) x = digitSum k n x + x div 2 ^ (k * n) mod 2 ^ k"
proof (induction n arbitrary: x)
  case (Suc n)
  have "x div 2 ^ k div 2 ^ (k * n) = x div 2 ^ (k * Suc n)"
    by (simp add: power_add flip: div_mult2_eq)
  with Suc show ?case by simp
qed simp

lemma digitSum_bits: "digitSum 1 n x = card {i. i < n \<and> bit x i}"
proof (induction n)
  case (Suc n)
  have "{i. i < Suc n \<and> bit x i} = {i. i < n \<and> bit x i} \<union> (if bit x n then {n} else {})"
    by (auto simp: less_Suc_eq)
  moreover have "x div 2 ^ n mod 2 = (if bit x n then 1 else 0)"
    by (simp add: bit_iff_odd odd_iff_mod_2_eq_one)
  ultimately show ?case using Suc by (simp add: digitSum_snoc del: digitSum.simps(2))
qed simp

text \<open>The final multiplication adds up the eight bytes in the top byte.\<close>

lemma split_byte:
  assumes "x < 256 ^ Suc n"
  obtains d y where "x = d + 256 * y" "y < 256 ^ n" "digitSum 8 (Suc n) x = d + digitSum 8 n y"
proof (rule that [of "x mod 256" "x div 256"])
  show "x div 256 < 256 ^ n" using assms by (simp add: less_mult_imp_div_less mult.commute)
qed simp_all

lemma bytes_multiply:
  assumes "x < 256 ^ 8" and "digitSum 8 8 x < 256"
  shows "x * 0x0101010101010101 mod 2 ^ 64 div 2 ^ 56 = digitSum 8 8 x"
proof -
  obtain d0 x1 where x0: "x = d0 + 256 * x1" "x1 < 256 ^ 7" "digitSum 8 8 x = d0 + digitSum 8 7 x1"
    by (rule split_byte [of x 7]) (use assms(1) in simp_all)
  obtain d1 x2 where x1: "x1 = d1 + 256 * x2" "x2 < 256 ^ 6" "digitSum 8 7 x1 = d1 + digitSum 8 6 x2"
    by (rule split_byte [of x1 6]) (use x0(2) in simp_all)
  obtain d2 x3 where x2: "x2 = d2 + 256 * x3" "x3 < 256 ^ 5" "digitSum 8 6 x2 = d2 + digitSum 8 5 x3"
    by (rule split_byte [of x2 5]) (use x1(2) in simp_all)
  obtain d3 x4 where x3: "x3 = d3 + 256 * x4" "x4 < 256 ^ 4" "digitSum 8 5 x3 = d3 + digitSum 8 4 x4"
    by (rule split_byte [of x3 4]) (use x2(2) in simp_all)
  obtain d4 x5 where x4: "x4 = d4 + 256 * x5" "x5 < 256 ^ 3" "digitSum 8 4 x4 = d4 + digitSum 8 3 x5"
    by (rule split_byte [of x4 3]) (use x3(2) in simp_all)
  obtain d5 x6 where x5: "x5 = d5 + 256 * x6" "x6 < 256 ^ 2" "digitSum 8 3 x5 = d5 + digitSum 8 2 x6"
    by (rule split_byte [of x5 2]) (use x4(2) in simp_all)
  obtain d6 x7 where x6: "x6 = d6 + 256 * x7" "x7 < 256 ^ 1" "digitSum 8 2 x6 = d6 + digitSum 8 1 x7"
    by (rule split_byte [of x6 1]) (use x5(2) in \<open>simp_all add: numeral_2_eq_2\<close>)
  have x7: "digitSum 8 1 x7 = x7" using x6(2) by simp
  note sums = x0(3) x1(3) x2(3) x3(3) x4(3) x5(3) x6(3) x7
  define lo where "lo = d0 + 256 * (d0 + d1) + 65536 * (d0 + d1 + d2) + 16777216 * (d0 + d1 + d2 + d3)
     + 4294967296 * (d0 + d1 + d2 + d3 + d4) + 1099511627776 * (d0 + d1 + d2 + d3 + d4 + d5)
     + 281474976710656 * (d0 + d1 + d2 + d3 + d4 + d5 + d6)"
  define s where "s = digitSum 8 8 x"
  have s: "s = d0 + d1 + d2 + d3 + d4 + d5 + d6 + x7" by (simp only: s_def sums add.assoc)
  have lo: "lo < 72057594037927936" using assms(2) s by (simp add: lo_def flip: s_def)
  obtain q where "x * 0x0101010101010101 = lo + 72057594037927936 * s + 18446744073709551616 * q"
  proof
    show "x * 0x0101010101010101 = lo + 72057594037927936 * s + 18446744073709551616 *
      ((d1 + d2 + d3 + d4 + d5 + d6 + x7) + 256 * (d2 + d3 + d4 + d5 + d6 + x7)
       + 65536 * (d3 + d4 + d5 + d6 + x7) + 16777216 * (d4 + d5 + d6 + x7)
       + 4294967296 * (d5 + d6 + x7) + 1099511627776 * (d6 + x7) + 281474976710656 * x7)"
      unfolding x0(1) x1(1) x2(1) x3(1) x4(1) x5(1) x6(1) s lo_def by (simp add: algebra_simps)
  qed
  moreover have "lo + 72057594037927936 * s < 18446744073709551616"
    using lo assms(2) by (simp flip: s_def)
  ultimately have "x * 0x0101010101010101 mod 2 ^ 64 = lo + 72057594037927936 * s" by simp
  with lo show ?thesis by (simp flip: s_def)
qed

definition wordBits :: "64 word \<Rightarrow> nat set" where
  "wordBits v = {i. i < 64 \<and> bit v i}"

lemma lowMask_numeral: "lowMask k (numeral v) = mask k + 2 ^ (2 * k) * lowMask k (pred_numeral v)"
  by (simp add: numeral_eq_Suc)

lemma lowMask_vals:
  "lowMask 1 32 = 0x5555555555555555" "lowMask 2 16 = 0x3333333333333333" "lowMask 4 8 = 0x0F0F0F0F0F0F0F0F"
  by (simp_all add: lowMask_numeral mask_eq_exp_minus_1)

lemma card_wordBits: "digitSum 1 64 (unat v) = card (wordBits v)" "card (wordBits v) \<le> 64"
proof -
  show "digitSum 1 64 (unat v) = card (wordBits v)"
    unfolding digitSum_bits wordBits_def by (simp add: bit_unsigned_iff)
  have "card (wordBits v) \<le> card {..<64::nat}" by (rule card_mono) (auto simp: wordBits_def)
  then show "card (wordBits v) \<le> 64" by simp
qed

lemma wordCount_card: "unat (wordCount v) = card (wordBits v)"
proof -
  define v1 where "v1 = (v AND 0x5555555555555555) + drop_bit 1 (v AND 0xAAAAAAAAAAAAAAAA)"
  define v2 where "v2 = (v1 AND 0x3333333333333333) + drop_bit 2 (v1 AND 0xCCCCCCCCCCCCCCCC)"
  define v3 where "v3 = (v2 AND 0x0F0F0F0F0F0F0F0F) + drop_bit 4 (v2 AND 0xF0F0F0F0F0F0F0F0)"
  have w: "wordCount v = drop_bit 56 (v3 * 0x0101010101010101) AND 0xFF"
    by (simp only: wordCount_def Let_def v1_def v2_def v3_def)
  have 1: "unat v1 = pairSum 1 32 (unat v)"
    unfolding v1_def by (rule parallel_add) (simp_all only: lowMask_vals, simp_all)
  have 2: "unat v2 = pairSum 2 16 (unat v1)"
    unfolding v2_def by (rule parallel_add) (simp_all only: lowMask_vals, simp_all)
  have 3: "unat v3 = pairSum 4 8 (unat v2)"
    unfolding v3_def by (rule parallel_add) (simp_all only: lowMask_vals, simp_all)
  have sum: "digitSum 8 8 (unat v3) = card (wordBits v)"
    using digitSum_pairSum [of 1 32 "unat v"] digitSum_pairSum [of 2 16 "unat v1"]
      digitSum_pairSum [of 4 8 "unat v2"] card_wordBits(1) [of v] 1 2 3 by simp
  have "unat v3 < 256 ^ 8" using unsigned_less [of v3] by simp
  note mult = bytes_multiply [OF this]
  have c: "card (wordBits v) < 256" using card_wordBits(2) [of v] by simp
  have "unat (drop_bit 56 (v3 * 0x0101010101010101)) = card (wordBits v)"
    using mult sum c by (simp add: unat_drop_bit_eq unat_word_ariths drop_bit_eq_div)
  moreover have "unat (u AND 0xFF) = unat u mod 256" for u :: "64 word"
  proof -
    have "unat (u AND 0xFF) = unat u AND mask 8" by (simp add: unsigned_and_eq mask_eq_exp_minus_1)
    then show ?thesis by (simp add: take_bit_eq_mod flip: take_bit_eq_mask)
  qed
  ultimately show ?thesis using c by (simp add: w)
qed

lemma bits_snoc: "bits (b @ [v]) = bits b \<union> (\<lambda>i. 64 * length b + i) ` wordBits v"
proof -
  have "i \<in> bits (b @ [v]) \<longleftrightarrow> i \<in> bits b \<or> (\<exists>j. i = 64 * length b + j \<and> j \<in> wordBits v)" for i
  proof (cases "i < 64 * length b")
    case True
    then show ?thesis using div_64_less [OF True] by (auto simp: bits_def nth_append)
  next
    case False
    then obtain j where j: "i = 64 * length b + j" by (metis le_Suc_ex not_less)
    show ?thesis
    proof (cases "j < 64")
      case True
      then have "i div 64 = length b" "i mod 64 = j" using j by auto
      with True j show ?thesis by (auto simp: bits_def wordBits_def nth_append)
    next
      case large: False
      then show ?thesis using j by (auto simp: bits_def wordBits_def)
    qed
  qed
  then show ?thesis by auto
qed

lemma finite_bits [simp]: "finite (bits b)"
  by (rule finite_subset [of _ "{..<64 * length b}"]) (auto simp: bits_def)

lemma card_bits_snoc: "card (bits (b @ [v])) = card (bits b) + card (wordBits v)"
proof -
  have "finite (wordBits v)" by (simp add: wordBits_def)
  moreover have "bits b \<inter> (\<lambda>i. 64 * length b + i) ` wordBits v = {}" by (auto simp: bits_def)
  ultimately show ?thesis unfolding bits_snoc by (simp add: card_Un_disjoint card_image inj_on_def)
qed

text \<open>C27. The population count by parallel additions inside a word is the number of elements of the
  set, for every slice that fits into memory.\<close>

theorem popcnt_counts:
  assumes "64 * length b < 2 ^ 64"
  shows "unat (bs_popcnt b) = card (bits b)"
  using assms
proof (induction b rule: rev_induct)
  case Nil
  then show ?case by (simp add: bs_popcnt_def bits_def)
next
  case (snoc v b)
  have "card (bits b) \<le> 64 * length b"
    using card_mono [of "{..<64 * length b}" "bits b"] by (force simp: bits_def)
  then have "card (bits b) + card (wordBits v) < 2 ^ 64" using card_wordBits(2) [of v] snoc.prems by simp
  moreover have "unat (bs_popcnt b) = card (bits b)" using snoc by simp
  ultimately show ?case
    by (simp add: bs_popcnt_def unat_word_ariths wordCount_card card_bits_snoc)
qed

theorem popcnt_counts_witness: "unat (bs_popcnt [0xFF00000000000001, 5]) = card (bits [0xFF00000000000001, 5])"
  using popcnt_counts [of "[0xFF00000000000001, 5]"] by simp

end
