(* ===== verification/Linearizability.thy ===== *)
theory Linearizability
  imports Bitset
begin

text \<open>
  The linearizability checker of \<^verbatim>\<open>src/src/linearizability\<close> (\<^verbatim>\<open>model.go\<close>, \<^verbatim>\<open>models.go\<close>,
  \<^verbatim>\<open>linearizability.go\<close>).

  The doubly linked list of call and return entries lives in a heap: a list of nodes whose positions
  are the addresses; a pointer is an optional address and \<open>None\<close> is nil.  Following nil panics
  (\<open>None\<close>).  A value of type \<open>interface{}\<close> is of the type \<open>'v\<close>; a model's \<open>Step\<close> may panic when it
  gets a value of the wrong dynamic type.  \<open>sort.Sort\<close> is not stable and leaves the order of equal
  elements open, so it is a parameter.  The search of \<open>checkSingle\<close> is run with fuel by \<open>loopn\<close>; the
  flag \<open>kill\<close>, which other goroutines set, is given for every round.  The goroutines' results arrive
  at the collecting loop in the order of a list.
\<close>

section \<open>Histories and models\<close>

record 'v operation =
  Input :: 'v
  Call :: int
  Output :: 'v
  Return :: int

datatype EventKind = CallEvent | ReturnEvent

record 'v event =
  ev_Kind :: EventKind
  ev_Value :: 'v
  ev_Id :: nat

record ('v, 's) model =
  Partition :: "('v operation list \<Rightarrow> 'v operation list list option) option"
  PartitionEvent :: "('v event list \<Rightarrow> 'v event list list option) option"
  Init :: 's
  Step :: "'s \<Rightarrow> 'v \<Rightarrow> 'v \<Rightarrow> (bool \<times> 's) option"
  Equal :: "('s \<Rightarrow> 's \<Rightarrow> bool) option"

definition NoPartition :: "'v operation list \<Rightarrow> 'v operation list list option" where
  "NoPartition history = Some [history]"

definition NoPartitionEvent :: "'v event list \<Rightarrow> 'v event list list option" where
  "NoPartitionEvent history = Some [history]"

text \<open>\<open>==\<close> on interface values, for states of a comparable type (on others Go panics).\<close>

definition ShallowEqual :: "'s \<Rightarrow> 's \<Rightarrow> bool" where
  "ShallowEqual state1 state2 \<longleftrightarrow> state1 = state2"

definition fillDefault :: "('v, 's) model \<Rightarrow> ('v, 's) model" where
  "fillDefault m =
     (let m = (if Partition m = None then m\<lparr>Partition := Some NoPartition\<rparr> else m);
          m = (if PartitionEvent m = None then m\<lparr>PartitionEvent := Some NoPartitionEvent\<rparr> else m)
      in if Equal m = None then m\<lparr>Equal := Some ShallowEqual\<rparr> else m)"

section \<open>The key/value model\<close>

record KvInput =
  ki_Op :: "8 word"
  ki_Key :: string
  ki_Value :: string

record KvOutput =
  ko_Value :: string

datatype kvio = KvIn KvInput | KvOut KvOutput

text \<open>The grouping by key; \<open>order\<close> is the order in which the map is traversed.\<close>

fun groupByKey :: "kvio operation list \<Rightarrow> (string, kvio operation list) gomap
    \<Rightarrow> (string, kvio operation list) gomap option" where
  "groupByKey [] m = Some m"
| "groupByKey (v # vs) m =
     (case Input v of
        KvIn inp \<Rightarrow> groupByKey vs (gm_set (ki_Key inp) (gm_get0 [] m (ki_Key inp) @ [v]) m)
      | KvOut out \<Rightarrow> None)"

definition kvPartition :: "((string, kvio operation list) gomap \<Rightarrow> string list) \<Rightarrow> kvio operation list
    \<Rightarrow> kvio operation list list option" where
  "kvPartition order history = do {
     m \<leftarrow> groupByKey history [];
     Some (map (gm_get0 [] m) (order m)) }"

definition kvInit :: string where
  "kvInit = ''''"

definition kvStep :: "string \<Rightarrow> kvio \<Rightarrow> kvio \<Rightarrow> (bool \<times> string) option" where
  "kvStep st input output =
     (case input of KvOut _ \<Rightarrow> None
      | KvIn inp \<Rightarrow> (case output of KvIn _ \<Rightarrow> None
        | KvOut out \<Rightarrow>
            Some (if ki_Op inp = 0 then (ko_Value out = st, st)
                  else if ki_Op inp = 1 then (True, ki_Value inp)
                  else (True, st @ ki_Value inp))))"

definition KvModel :: "((string, kvio operation list) gomap \<Rightarrow> string list) \<Rightarrow> (kvio, string) model" where
  "KvModel order = \<lparr>Partition = Some (kvPartition order), PartitionEvent = None, Init = kvInit,
     Step = kvStep, Equal = Some ShallowEqual\<rparr>"

section \<open>Entries\<close>

datatype entryKind = callEntry | returnEntry

record 'v lentry =
  le_kind :: entryKind
  le_value :: 'v
  le_id :: nat
  le_time :: int

fun entriesOf :: "'v operation list \<Rightarrow> nat \<Rightarrow> 'v lentry list" where
  "entriesOf [] i = []"
| "entriesOf (elem # history) i =
     \<lparr>le_kind = callEntry, le_value = Input elem, le_id = i, le_time = Call elem\<rparr> #
     \<lparr>le_kind = returnEntry, le_value = Output elem, le_id = i, le_time = Return elem\<rparr> #
     entriesOf history (i + 1)"

definition makeEntries :: "('v lentry list \<Rightarrow> 'v lentry list) \<Rightarrow> 'v operation list \<Rightarrow> 'v lentry list" where
  "makeEntries sort_Sort history = sort_Sort (entriesOf history 0)"

fun renumberLoop :: "'v event list \<Rightarrow> (nat \<rightharpoonup> nat) \<Rightarrow> nat \<Rightarrow> 'v event list" where
  "renumberLoop [] m i = []"
| "renumberLoop (v # events) m i =
     (case m (ev_Id v) of
        Some r \<Rightarrow> \<lparr>ev_Kind = ev_Kind v, ev_Value = ev_Value v, ev_Id = r\<rparr> # renumberLoop events m i
      | None \<Rightarrow> \<lparr>ev_Kind = ev_Kind v, ev_Value = ev_Value v, ev_Id = i\<rparr>
                # renumberLoop events (m(ev_Id v \<mapsto> i)) (i + 1))"

definition renumber :: "'v event list \<Rightarrow> 'v event list" where
  "renumber events = renumberLoop events Map.empty 0"

definition convertEntries :: "'v event list \<Rightarrow> 'v lentry list" where
  "convertEntries events = map (\<lambda>elem.
     \<lparr>le_kind = (if ev_Kind elem = ReturnEvent then returnEntry else callEntry),
      le_value = ev_Value elem, le_id = ev_Id elem, le_time = -1\<rparr>) events"

section \<open>The linked list\<close>

record 'v node =
  nd_value :: "'v option"
  nd_match :: "nat option"
  nd_id :: nat
  nd_next :: "nat option"
  nd_prev :: "nat option"

type_synonym 'v heap = "'v node list"

definition deref :: "'v heap \<Rightarrow> nat option \<Rightarrow> 'v node option" where
  "deref h p = (case p of None \<Rightarrow> None | Some a \<Rightarrow> if a < length h then Some (h ! a) else None)"

definition setNext :: "'v heap \<Rightarrow> nat option \<Rightarrow> nat option \<Rightarrow> 'v heap option" where
  "setNext h p q = (case p of None \<Rightarrow> None
     | Some a \<Rightarrow> if a < length h then Some (h[a := (h ! a)\<lparr>nd_next := q\<rparr>]) else None)"

definition setPrev :: "'v heap \<Rightarrow> nat option \<Rightarrow> nat option \<Rightarrow> 'v heap option" where
  "setPrev h p q = (case p of None \<Rightarrow> None
     | Some a \<Rightarrow> if a < length h then Some (h[a := (h ! a)\<lparr>nd_prev := q\<rparr>]) else None)"

definition insertBefore :: "'v heap \<Rightarrow> nat option \<Rightarrow> nat option \<Rightarrow> 'v heap option" where
  "insertBefore h n mark =
     (if mark \<noteq> None then do {
        mk \<leftarrow> deref h mark;
        let beforeMark = nd_prev mk;
        h \<leftarrow> setPrev h mark n;
        h \<leftarrow> setNext h n mark;
        if beforeMark \<noteq> None then do {
          h \<leftarrow> setPrev h n beforeMark;
          setNext h beforeMark n }
        else Some h }
      else Some h)"

text \<open>The loop of \<open>length\<close>; the fuel is used up only on a cyclic list.\<close>

fun listLength :: "nat \<Rightarrow> 'v heap \<Rightarrow> nat option \<Rightarrow> nat option" where
  "listLength 0 h p = None"
| "listLength (Suc fuel) h p =
     (case p of None \<Rightarrow> Some 0
      | Some a \<Rightarrow> do {
          nd \<leftarrow> deref h p;
          l \<leftarrow> listLength fuel h (nd_next nd);
          Some (l + 1) })"

fun linkLoop :: "'v lentry list \<Rightarrow> 'v heap \<times> nat option \<times> (nat \<rightharpoonup> nat)
    \<Rightarrow> ('v heap \<times> nat option \<times> (nat \<rightharpoonup> nat)) option" where
  "linkLoop [] s = Some s"
| "linkLoop (elem # entries) (h, root, match) =
     (let a = length h in
      if le_kind elem = returnEntry then do {
        h \<leftarrow> insertBefore (h @ [\<lparr>nd_value = Some (le_value elem), nd_match = None, nd_id = le_id elem,
                nd_next = None, nd_prev = None\<rparr>]) (Some a) root;
        linkLoop entries (h, Some a, match(le_id elem \<mapsto> a)) }
      else do {
        h \<leftarrow> insertBefore (h @ [\<lparr>nd_value = Some (le_value elem), nd_match = match (le_id elem),
                nd_id = le_id elem, nd_next = None, nd_prev = None\<rparr>]) (Some a) root;
        linkLoop entries (h, Some a, match) })"

definition makeLinkedEntries :: "'v lentry list \<Rightarrow> ('v heap \<times> nat option) option" where
  "makeLinkedEntries entries = do {
     (h, root, match) \<leftarrow> linkLoop (rev entries) ([], None, Map.empty);
     Some (h, root) }"

definition lift :: "'v heap \<Rightarrow> nat option \<Rightarrow> 'v heap option" where
  "lift h entry = do {
     e \<leftarrow> deref h entry;
     h \<leftarrow> setNext h (nd_prev e) (nd_next e);
     h \<leftarrow> setPrev h (nd_next e) (nd_prev e);
     let match = nd_match e;
     m \<leftarrow> deref h match;
     h \<leftarrow> setNext h (nd_prev m) (nd_next m);
     if nd_next m \<noteq> None then setPrev h (nd_next m) (nd_prev m) else Some h }"

definition unlift :: "'v heap \<Rightarrow> nat option \<Rightarrow> 'v heap option" where
  "unlift h entry = do {
     e \<leftarrow> deref h entry;
     let match = nd_match e;
     m \<leftarrow> deref h match;
     h \<leftarrow> setNext h (nd_prev m) match;
     h \<leftarrow> (if nd_next m \<noteq> None then setPrev h (nd_next m) match else Some h);
     e \<leftarrow> deref h entry;
     h \<leftarrow> setNext h (nd_prev e) entry;
     e \<leftarrow> deref h entry;
     setPrev h (nd_next e) entry }"

section \<open>The search\<close>

type_synonym 's cache = "(64 word, (bitset \<times> 's) list) gomap"

definition cacheContains :: "('s \<Rightarrow> 's \<Rightarrow> bool) \<Rightarrow> 's cache \<Rightarrow> bitset \<times> 's \<Rightarrow> bool" where
  "cacheContains equal cache entry =
     list_ex (\<lambda>elem. bs_equals (fst entry) (fst elem) \<and> equal (snd entry) (snd elem))
       (gm_get0 [] cache (bs_hash (fst entry)))"

text \<open>The variables of \<open>checkSingle\<close>; the top of \<open>calls\<close> is its first element.\<close>

record ('v, 's) search =
  s_heap :: "'v heap"
  s_linearized :: bitset
  s_cache :: "'s cache"
  s_calls :: "(nat option \<times> 's) list"
  s_state :: 's
  s_entry :: "nat option"
  s_round :: nat
  s_result :: bool

text \<open>One round of the \<open>for\<close> loop, with its condition.  The flag says whether the loop goes on.\<close>

definition searchStep ::
    "('s \<Rightarrow> 'v \<Rightarrow> 'v \<Rightarrow> (bool \<times> 's) option) \<Rightarrow> ('s \<Rightarrow> 's \<Rightarrow> bool) \<Rightarrow> (nat \<Rightarrow> bool) \<Rightarrow> nat option
      \<Rightarrow> ('v, 's) search \<Rightarrow> (('v, 's) search \<times> bool) option" where
  "searchStep step equal kill headEntry st = do {
     hd \<leftarrow> deref (s_heap st) headEntry;
     if nd_next hd = None then Some (st\<lparr>s_result := True\<rparr>, False)
     else if kill (s_round st) then Some (st\<lparr>s_result := False\<rparr>, False)
     else do {
       let st = st\<lparr>s_round := s_round st + 1\<rparr>;
       e \<leftarrow> deref (s_heap st) (s_entry st);
       if nd_match e \<noteq> None then do {
         matching \<leftarrow> deref (s_heap st) (nd_match e);
         inp \<leftarrow> nd_value e;
         out \<leftarrow> nd_value matching;
         (ok, newState) \<leftarrow> step (s_state st) inp out;
         if ok then do {
           newLinearized \<leftarrow> bs_set (bs_clone (s_linearized st)) (nd_id e);
           if \<not> cacheContains equal (s_cache st) (newLinearized, newState) then do {
             let h = bs_hash newLinearized;
             lin \<leftarrow> bs_set (s_linearized st) (nd_id e);
             heap \<leftarrow> lift (s_heap st) (s_entry st);
             hd \<leftarrow> deref heap headEntry;
             Some (st\<lparr>s_cache := gm_set h (gm_get0 [] (s_cache st) h @ [(newLinearized, newState)]) (s_cache st),
                      s_calls := (s_entry st, s_state st) # s_calls st,
                      s_state := newState, s_linearized := lin, s_heap := heap,
                      s_entry := nd_next hd\<rparr>, True) }
           else Some (st\<lparr>s_entry := nd_next e\<rparr>, True) }
         else Some (st\<lparr>s_entry := nd_next e\<rparr>, True) }
       else
         (case s_calls st of
            [] \<Rightarrow> Some (st\<lparr>s_result := False\<rparr>, False)
          | (entry, state) # calls \<Rightarrow> do {
              e \<leftarrow> deref (s_heap st) entry;
              lin \<leftarrow> bs_clear (s_linearized st) (nd_id e);
              heap \<leftarrow> unlift (s_heap st) entry;
              e \<leftarrow> deref heap entry;
              Some (st\<lparr>s_state := state, s_linearized := lin, s_calls := calls, s_heap := heap,
                       s_entry := nd_next e\<rparr>, True) }) } }"

definition checkSingle ::
    "nat \<Rightarrow> ('s \<Rightarrow> 'v \<Rightarrow> 'v \<Rightarrow> (bool \<times> 's) option) \<Rightarrow> ('s \<Rightarrow> 's \<Rightarrow> bool) \<Rightarrow> 's
      \<Rightarrow> 'v heap \<times> nat option \<Rightarrow> (nat \<Rightarrow> bool) \<Rightarrow> bool option" where
  "checkSingle fuel step equal init subhistory kill = (case subhistory of (h, root) \<Rightarrow> do {
     l \<leftarrow> listLength (length h + 1) h root;
     let n = l div 2;
     let headEntry = Some (length h);
     h \<leftarrow> insertBefore (h @ [\<lparr>nd_value = None, nd_match = None, nd_id = 2 ^ 64 - 1,
             nd_next = None, nd_prev = None\<rparr>]) headEntry root;
     st \<leftarrow> loopn fuel (searchStep step equal kill headEntry)
            \<lparr>s_heap = h, s_linearized = newBitset n, s_cache = [], s_calls = [], s_state = init,
             s_entry = root, s_round = 0, s_result = False\<rparr>;
     Some (s_result st) })"

section \<open>Partitions in parallel\<close>

text \<open>What the collecting loop receives: the result of a partition's goroutine, or the time-out.\<close>

datatype arrival = Result bool | TimedOut

fun collect :: "nat \<Rightarrow> nat \<Rightarrow> arrival list \<Rightarrow> bool option" where
  "collect parts count [] = None"
| "collect parts count (Result r # arrivals) =
     (if \<not> r then Some False
      else if count + 1 \<ge> parts then Some True
      else collect parts (count + 1) arrivals)"
| "collect parts count (TimedOut # arrivals) = Some True"

text \<open>\<open>arrive\<close> is the order in which the goroutines' results (computed with \<open>fuel\<close>) and a time-out
  reach the loop.\<close>

definition CheckOperationsTimeout ::
    "('v lentry list \<Rightarrow> 'v lentry list) \<Rightarrow> nat \<Rightarrow> ('v, 's) model \<Rightarrow> 'v operation list
      \<Rightarrow> (bool list \<Rightarrow> arrival list) \<Rightarrow> bool option" where
  "CheckOperationsTimeout sort_Sort fuel m history arrive = (let m = fillDefault m in do {
     partition \<leftarrow> Partition m;
     equal \<leftarrow> Equal m;
     partitions \<leftarrow> partition history;
     results \<leftarrow> those (map (\<lambda>subhistory. do {
         l \<leftarrow> makeLinkedEntries (makeEntries sort_Sort subhistory);
         checkSingle fuel (Step m) equal (Init m) l (\<lambda>_. False) }) partitions);
     collect (length partitions) 0 (arrive results) })"

text \<open>Without a time-out only results arrive.\<close>

definition CheckOperations ::
    "('v lentry list \<Rightarrow> 'v lentry list) \<Rightarrow> nat \<Rightarrow> ('v, 's) model \<Rightarrow> 'v operation list
      \<Rightarrow> (bool list \<Rightarrow> bool list) \<Rightarrow> bool option" where
  "CheckOperations sort_Sort fuel m history arrive =
     CheckOperationsTimeout sort_Sort fuel m history (\<lambda>rs. map Result (arrive rs))"

definition CheckEventsTimeout ::
    "nat \<Rightarrow> ('v, 's) model \<Rightarrow> 'v event list \<Rightarrow> (bool list \<Rightarrow> arrival list) \<Rightarrow> bool option" where
  "CheckEventsTimeout fuel m history arrive = (let m = fillDefault m in do {
     partition \<leftarrow> PartitionEvent m;
     equal \<leftarrow> Equal m;
     partitions \<leftarrow> partition history;
     results \<leftarrow> those (map (\<lambda>subhistory. do {
         l \<leftarrow> makeLinkedEntries (convertEntries (renumber subhistory));
         checkSingle fuel (Step m) equal (Init m) l (\<lambda>_. False) }) partitions);
     collect (length partitions) 0 (arrive results) })"

definition CheckEvents ::
    "nat \<Rightarrow> ('v, 's) model \<Rightarrow> 'v event list \<Rightarrow> (bool list \<Rightarrow> bool list) \<Rightarrow> bool option" where
  "CheckEvents fuel m history arrive =
     CheckEventsTimeout fuel m history (\<lambda>rs. map Result (arrive rs))"

end
