(* ===== verification/Lin_Heap.thy ===== *)
theory Lin_Heap
  imports Linearizability
begin

text \<open>
  The doubly linked list of the checker as a list of addresses: \<open>linked h xs\<close> says that the nodes at
  \<open>xs\<close> form a list in this order.  \<open>lift\<close> takes a call and its return out of the list, and \<open>unlift\<close>
  puts them back where they were: it is the exact inverse, because the removed nodes keep their own
  pointers.  \<open>makeLinkedEntries\<close> builds the list of the entries.
\<close>

section \<open>Lists in the heap\<close>

fun neighbours :: "nat list \<Rightarrow> (nat \<times> nat) list" where
  "neighbours (a # b # xs) = (a, b) # neighbours (b # xs)"
| "neighbours _ = []"

definition linked :: "'v heap \<Rightarrow> nat list \<Rightarrow> bool" where
  "linked h xs \<longleftrightarrow> distinct xs \<and> (\<forall>a \<in> set xs. a < length h)
     \<and> (\<forall>(a, b) \<in> set (neighbours xs). nd_next (h ! a) = Some b \<and> nd_prev (h ! b) = Some a)
     \<and> (xs \<noteq> [] \<longrightarrow> nd_next (h ! last xs) = None)"

text \<open>The parts of a node that never change.\<close>

definition stable :: "'v heap \<Rightarrow> 'v heap \<Rightarrow> bool" where
  "stable h h' \<longleftrightarrow> length h' = length h \<and>
     (\<forall>a < length h. nd_value (h' ! a) = nd_value (h ! a) \<and> nd_match (h' ! a) = nd_match (h ! a)
        \<and> nd_id (h' ! a) = nd_id (h ! a))"

lemma stable_refl [simp]: "stable h h"
  by (simp add: stable_def)

lemma stable_trans: "stable h h' \<Longrightarrow> stable h' h'' \<Longrightarrow> stable h h''"
  by (simp add: stable_def)

lemma neighbours_append [simp]:
  "neighbours (us @ a # b # vs) = neighbours (us @ [a]) @ (a, b) # neighbours (b # vs)"
  by (induction us rule: neighbours.induct) auto

lemma neighbours_set:
  "(p, q) \<in> set (neighbours xs) \<Longrightarrow> p \<in> set (butlast xs) \<and> q \<in> set (tl xs)"
  by (induction xs rule: neighbours.induct) auto

lemma linked_next:
  assumes "linked h (us @ a # vs)"
  shows "nd_next (h ! a) = (case vs of [] \<Rightarrow> None | b # _ \<Rightarrow> Some b)"
  using assms by (cases vs) (auto simp: linked_def)

lemma linked_prev:
  assumes "linked h (us @ a # b # vs)"
  shows "nd_prev (h ! b) = Some a" "nd_next (h ! a) = Some b"
  using assms by (auto simp: linked_def)

section \<open>Taking out one node and putting it back\<close>

definition unlinkN :: "'v heap \<Rightarrow> nat \<Rightarrow> 'v heap" where
  "unlinkN h y = (let a = the (nd_prev (h ! y)); h1 = h[a := (h ! a)\<lparr>nd_next := nd_next (h ! y)\<rparr>]
     in case nd_next (h ! y) of None \<Rightarrow> h1 | Some b \<Rightarrow> h1[b := (h1 ! b)\<lparr>nd_prev := Some a\<rparr>])"

definition relinkN :: "'v heap \<Rightarrow> nat \<Rightarrow> 'v heap" where
  "relinkN h y = (let a = the (nd_prev (h ! y)); h1 = h[a := (h ! a)\<lparr>nd_next := Some y\<rparr>]
     in case nd_next (h ! y) of None \<Rightarrow> h1 | Some b \<Rightarrow> h1[b := (h1 ! b)\<lparr>nd_prev := Some y\<rparr>])"

lemma stable_upd:
  "stable h (h[a := (h ! a)\<lparr>nd_next := q\<rparr>])" "stable h (h[a := (h ! a)\<lparr>nd_prev := q\<rparr>])"
  by (cases "a < length h"; simp add: stable_def nth_list_update)+

lemma unlinkN_stable: "stable h (unlinkN h y)" "length (unlinkN h y) = length h"
  by (auto simp: unlinkN_def Let_def intro: stable_upd stable_trans split: option.splits)

text \<open>The nodes around a member of a list.\<close>

lemma around:
  assumes "linked h (us @ a # y # vs)"
  shows "a < length h" "y < length h" "a \<noteq> y" "nd_prev (h ! y) = Some a" "nd_next (h ! a) = Some y"
    "nd_next (h ! y) = Some b \<Longrightarrow> b < length h \<and> b \<noteq> a \<and> b \<noteq> y \<and> nd_prev (h ! b) = Some y \<and> (\<exists>ws. vs = b # ws)"
proof -
  show "a < length h" "y < length h" "a \<noteq> y" using assms by (auto simp: linked_def)
  show "nd_prev (h ! y) = Some a" "nd_next (h ! a) = Some y" using linked_prev [OF assms] by auto
  assume b: "nd_next (h ! y) = Some b"
  then obtain ws where vs: "vs = b # ws"
    using linked_next [of h "us @ [a]" y vs] assms by (cases vs) auto
  have "nd_prev (h ! b) = Some y" by (rule linked_prev(1) [of h "us @ [a]" y b ws]) (use assms vs in simp)
  moreover have "b < length h" "b \<noteq> a" "b \<noteq> y" using assms unfolding vs linked_def by auto
  ultimately show "b < length h \<and> b \<noteq> a \<and> b \<noteq> y \<and> nd_prev (h ! b) = Some y \<and> (\<exists>ws. vs = b # ws)"
    using vs by blast
qed

lemma unlinkN_nodes:
  assumes l: "linked h (us @ a # y # vs)"
  shows "unlinkN h y ! a = (h ! a)\<lparr>nd_next := nd_next (h ! y)\<rparr>" "unlinkN h y ! y = h ! y"
    "nd_next (h ! y) = Some b \<Longrightarrow> unlinkN h y ! b = (h ! b)\<lparr>nd_prev := Some a\<rparr>"
    "x \<noteq> a \<Longrightarrow> nd_next (h ! y) \<noteq> Some x \<Longrightarrow> unlinkN h y ! x = h ! x"
  using around [OF l] by (auto simp: unlinkN_def Let_def split: option.splits)

lemma unlinkN_linked:
  assumes l: "linked h (us @ a # y # vs)"
  shows "linked (unlinkN h y) (us @ a # vs)"
proof -
  note n = unlinkN_nodes [OF l]
  have d: "distinct (us @ a # y # vs)" and bound: "\<forall>x \<in> set (us @ a # y # vs). x < length h"
    using l by (auto simp: linked_def)
  have nx: "nd_next (h ! y) = (case vs of [] \<Rightarrow> None | b # _ \<Rightarrow> Some b)"
    using linked_next [of h "us @ [a]" y vs] l by simp
  have old: "nd_next (h ! p) = Some q \<and> nd_prev (h ! q) = Some p"
    if "(p, q) \<in> set (neighbours (us @ [a])) \<or> (p, q) \<in> set (neighbours vs)" for p q
  proof -
    have "(p, q) \<in> set (neighbours (us @ a # y # vs))"
      using that by (cases vs) auto
    with l show ?thesis by (auto simp: linked_def)
  qed
  have left: "nd_next (unlinkN h y ! p) = Some q \<and> nd_prev (unlinkN h y ! q) = Some p"
    if pq: "(p, q) \<in> set (neighbours (us @ [a]))" for p q
  proof -
    from neighbours_set [OF pq] have p: "p \<in> set us" and q: "q = a \<or> q \<in> set us"
      by (cases us; auto)+
    have "p \<noteq> a" "nd_next (h ! y) \<noteq> Some p" using p d nx by (auto split: list.splits)
    then have "unlinkN h y ! p = h ! p" by (rule n(4))
    moreover have "nd_prev (unlinkN h y ! q) = nd_prev (h ! q)"
    proof (cases "q = a")
      case True
      then show ?thesis using n(1) by simp
    next
      case False
      with q d nx have "nd_next (h ! y) \<noteq> Some q" by (auto split: list.splits)
      with False show ?thesis using n(4) by simp
    qed
    ultimately show ?thesis using old pq by simp
  qed
  have right: "nd_next (unlinkN h y ! p) = Some q \<and> nd_prev (unlinkN h y ! q) = Some p"
    if pq: "(p, q) \<in> set (neighbours (a # vs))" for p q
  proof (cases vs)
    case Nil
    with pq show ?thesis by simp
  next
    case (Cons b ws)
    show ?thesis
    proof (cases "(p, q) = (a, b)")
      case True
      then show ?thesis using n(1,3) nx Cons by simp
    next
      case False
      with pq Cons have pq': "(p, q) \<in> set (neighbours vs)" by auto
      from neighbours_set [OF pq'] have "p \<in> set vs" "q \<in> set ws" using Cons
        by (auto dest: in_set_butlastD split: if_splits)
      then have "p \<noteq> a" "q \<noteq> a" "nd_next (h ! y) \<noteq> Some q" using d nx Cons by auto
      moreover have "nd_next (unlinkN h y ! p) = nd_next (h ! p)"
        using n(3,4) \<open>p \<noteq> a\<close> by (cases "nd_next (h ! y) = Some p") auto
      ultimately show ?thesis using n(4) old pq' by simp
    qed
  qed
  have "nd_next (unlinkN h y ! last (us @ a # vs)) = None"
  proof (cases vs)
    case Nil
    then show ?thesis using n(1) nx by simp
  next
    case (Cons b ws)
    let ?z = "last vs"
    have "nd_next (h ! ?z) = None" using l Cons by (simp add: linked_def)
    moreover have "?z \<noteq> a" using d Cons by (metis distinct.simps(2) distinct_append last_in_set list.distinct(1) list.set_intros(2))
    then have "nd_next (unlinkN h y ! ?z) = nd_next (h ! ?z)"
      using n(3,4) by (cases "nd_next (h ! y) = Some ?z") auto
    ultimately show ?thesis using Cons by simp
  qed
  moreover have "set (neighbours (us @ a # vs)) = set (neighbours (us @ [a])) \<union> set (neighbours (a # vs))"
    by (cases vs) auto
  ultimately show ?thesis
    using left right d bound by (auto simp: linked_def unlinkN_stable(2))
qed

lemma relink_unlink:
  assumes l: "linked h (us @ a # y # vs)"
  shows "relinkN (unlinkN h y) y = h"
proof (rule nth_equalityI)
  show "length (relinkN (unlinkN h y) y) = length h"
    by (auto simp: relinkN_def unlinkN_stable(2) Let_def split: option.splits)
  fix x assume "x < length (relinkN (unlinkN h y) y)"
  note n = unlinkN_nodes [OF l] and r = around [OF l]
  show "relinkN (unlinkN h y) y ! x = h ! x"
    using n r by (auto simp: relinkN_def Let_def nth_list_update unlinkN_stable(2) split: option.splits)
qed

section \<open>lift and unlift\<close>

lemma setNext_Some: "a < length h \<Longrightarrow> setNext h (Some a) q = Some (h[a := (h ! a)\<lparr>nd_next := q\<rparr>])"
  by (simp add: setNext_def)

lemma setPrev_Some: "a < length h \<Longrightarrow> setPrev h (Some a) q = Some (h[a := (h ! a)\<lparr>nd_prev := q\<rparr>])"
  by (simp add: setPrev_def)

lemma deref_Some: "a < length h \<Longrightarrow> deref h (Some a) = Some (h ! a)"
  by (simp add: deref_def)

lemma relinkN_length: "length (relinkN h y) = length h"
  by (auto simp: relinkN_def Let_def split: option.splits)

text \<open>The two halves of \<open>lift\<close> and of \<open>unlift\<close>.\<close>

lemma unlink_code:
  assumes l: "linked h (us @ a # y # vs)"
  shows "do { h1 \<leftarrow> setNext h (nd_prev (h ! y)) (nd_next (h ! y));
              if nd_next (h ! y) \<noteq> None then setPrev h1 (nd_next (h ! y)) (nd_prev (h ! y)) else Some h1 }
         = Some (unlinkN h y)"
  using around [OF l]
  by (cases "nd_next (h ! y)") (auto simp: setNext_Some setPrev_Some unlinkN_def Let_def)

lemma relink_code:
  assumes l: "linked h (us @ a # y # vs)"
  defines "h' \<equiv> unlinkN h y"
  shows "do { h1 \<leftarrow> setNext h' (nd_prev (h' ! y)) (Some y);
              if nd_next (h' ! y) \<noteq> None then setPrev h1 (nd_next (h' ! y)) (Some y) else Some h1 }
         = Some h"
proof -
  have y: "h' ! y = h ! y" unfolding h'_def by (rule unlinkN_nodes(2) [OF l])
  have "do { h1 \<leftarrow> setNext h' (nd_prev (h' ! y)) (Some y);
              if nd_next (h' ! y) \<noteq> None then setPrev h1 (nd_next (h' ! y)) (Some y) else Some h1 }
      = Some (relinkN h' y)"
    using around [OF l] y unlinkN_stable(2) [of h y, folded h'_def]
    by (cases "nd_next (h ! y)") (auto simp: setNext_Some setPrev_Some relinkN_def Let_def)
  with relink_unlink [OF l] show ?thesis by (simp add: h'_def)
qed

lemma lift_unlift:
  assumes l: "linked h (r # us @ e # vs @ m # ws)" and m: "nd_match (h ! e) = Some m"
  shows "\<exists>h'. lift h (Some e) = Some h' \<and> stable h h' \<and> linked h' (r # us @ vs @ ws)
     \<and> unlift h' (Some e) = Some h"
proof -
  define h1 where "h1 = unlinkN h e"
  define h2 where "h2 = unlinkN h1 m"
  obtain xs a where xs: "r # us = xs @ [a]" by (metis append_butlast_last_id list.distinct(1))
  obtain ys b where ys: "r # us @ vs = ys @ [b]" by (metis append_butlast_last_id list.distinct(1))
  have "r # us @ e # vs @ m # ws = xs @ a # e # vs @ m # ws"
    using arg_cong [OF xs, of "\<lambda>l. l @ e # vs @ m # ws"] by simp
  with l have l0: "linked h (xs @ a # e # vs @ m # ws)" by simp
  have "linked h1 (xs @ a # vs @ m # ws)" unfolding h1_def by (rule unlinkN_linked [OF l0])
  moreover have "xs @ a # vs = ys @ [b]" using arg_cong [OF xs, of "\<lambda>l. l @ vs"] ys by simp
  from arg_cong [OF this, of "\<lambda>l. l @ m # ws"] have "xs @ a # vs @ m # ws = ys @ b # m # ws" by simp
  ultimately have l1: "linked h1 (ys @ b # m # ws)" by simp
  have "linked h2 (ys @ b # ws)" unfolding h2_def by (rule unlinkN_linked [OF l1])
  moreover have "ys @ b # ws = r # us @ vs @ ws" using arg_cong [OF ys, of "\<lambda>l. l @ ws"] by simp
  ultimately have l2: "linked h2 (r # us @ vs @ ws)" by simp
  have len: "length h1 = length h" "length h2 = length h" by (simp_all add: h1_def h2_def unlinkN_stable)
  have lt: "e < length h" "m < length h" using around(2) [OF l0] around(2) [OF l1] len by auto
  have nx: "nd_next (h ! e) \<noteq> None" using linked_next [of h "xs @ [a]" e "vs @ m # ws"] l0
    by (cases vs) auto
  have ne: "e \<noteq> m" using l by (auto simp: linked_def)
  have st: "stable h h1" "stable h1 h2" by (simp_all add: h1_def h2_def unlinkN_stable)
  have lift: "lift h (Some e) = Some h2"
    using unlink_code [OF l0, folded h1_def] unlink_code [OF l1, folded h2_def] nx m lt len
    by (auto simp: lift_def deref_Some split: Option.bind_split_asm)
  have match2: "nd_match (h2 ! e) = Some m" using stable_trans [OF st] m lt by (simp add: stable_def)
  have b1: "h1 ! e = h ! e" unfolding h1_def by (rule unlinkN_nodes(2) [OF l0])
  have "unlift h2 (Some e) = Some h"
    using relink_code [OF l1, folded h2_def] relink_code [OF l0, folded h1_def] lt len match2 nx b1
      around(1,3,4) [OF l0]
    by (auto simp: unlift_def deref_Some setNext_Some split: Option.bind_split_asm)
  with lift l2 stable_trans [OF st] show ?thesis by blast
qed

section \<open>Building the list\<close>

lemma insert_front:
  assumes l: "linked h (a # xs)" and p: "nd_prev (h ! a) = None" and nd: "nd_next nd = None" "nd_prev nd = None"
  shows "\<exists>h'. insertBefore (h @ [nd]) (Some (length h)) (Some a) = Some h' \<and> linked h' (length h # a # xs)
     \<and> stable (h @ [nd]) h' \<and> nd_prev (h' ! length h) = None"
proof -
  let ?g = "h @ [nd]"
  define h1 where "h1 = ?g[a := (?g ! a)\<lparr>nd_prev := Some (length h)\<rparr>]"
  define h2 where "h2 = h1[length h := (h1 ! length h)\<lparr>nd_next := Some a\<rparr>]"
  have a: "a < length h" using l by (simp add: linked_def)
  have len: "length h1 = Suc (length h)" "length h2 = Suc (length h)" by (simp_all add: h1_def h2_def)
  have n: "h2 ! a = (h ! a)\<lparr>nd_prev := Some (length h)\<rparr>" "h2 ! length h = nd\<lparr>nd_next := Some a\<rparr>"
    "x < length h \<Longrightarrow> x \<noteq> a \<Longrightarrow> h2 ! x = h ! x" for x
    using a by (auto simp: h1_def h2_def nth_append)
  have "insertBefore ?g (Some (length h)) (Some a) = Some h2"
    using a p len by (simp add: insertBefore_def deref_Some nth_append setPrev_Some setNext_Some h2_def h1_def)
  moreover have "linked h2 (length h # a # xs)"
  proof -
    have old: "distinct (a # xs)" "\<forall>x \<in> set (a # xs). x < length h"
      "\<forall>(p, q) \<in> set (neighbours (a # xs)). nd_next (h ! p) = Some q \<and> nd_prev (h ! q) = Some p"
      "nd_next (h ! last (a # xs)) = None" using l by (auto simp: linked_def)
    have "nd_next (h2 ! p) = Some q \<and> nd_prev (h2 ! q) = Some p" if pq: "(p, q) \<in> set (neighbours (a # xs))" for p q
    proof -
      have "q \<in> set xs" "p \<in> set (a # xs)" using neighbours_set [OF pq] in_set_butlastD by fastforce+
      moreover from this have "q \<noteq> a" "q < length h" using old(1,2) by auto
      moreover have "nd_next (h2 ! p) = nd_next (h ! p)" using n(1,3) \<open>p \<in> set (a # xs)\<close> old(2) by (cases "p = a") auto
      ultimately show ?thesis using old(3) pq n(3) by auto
    qed
    moreover have "nd_next (h2 ! last (a # xs)) = None"
      using old(2,4) n(1) n(3) [of "last (a # xs)"] last_in_set [of "a # xs"] by (cases "last (a # xs) = a") auto
    ultimately show ?thesis using old(1,2) n(1,2) len by (auto simp: linked_def)
  qed
  moreover have "stable ?g h2"
    unfolding h2_def h1_def by (rule stable_trans [OF stable_upd(2) stable_upd(1)])
  ultimately show ?thesis using n(2) nd(2) by auto
qed

text \<open>The address of an entry is the number of entries after it; \<open>retAddr\<close> finds the first return
  entry with an id.\<close>

fun retAddr :: "'v lentry list \<Rightarrow> nat \<Rightarrow> nat option" where
  "retAddr [] i = None"
| "retAddr (e # es) i = (if le_kind e = returnEntry \<and> le_id e = i then Some (length es) else retAddr es i)"

fun represents :: "'v heap \<Rightarrow> 'v lentry list \<Rightarrow> bool" where
  "represents h [] = True"
| "represents h (e # es) =
     (length es < length h \<and> nd_value (h ! length es) = Some (le_value e) \<and> nd_id (h ! length es) = le_id e
      \<and> nd_match (h ! length es) = (if le_kind e = returnEntry then None else retAddr es (le_id e))
      \<and> represents h es)"

lemma represents_stable:
  "represents h es \<Longrightarrow> stable (h @ nds) h' \<Longrightarrow> represents h' es"
  by (induction es) (auto simp: stable_def nth_append)

lemma linkLoop_append:
  "linkLoop (xs @ ys) s = Option.bind (linkLoop xs s) (linkLoop ys)"
  by (induction xs s rule: linkLoop.induct) (auto simp: Let_def split: Option.bind_split)

abbreviation addrs :: "nat \<Rightarrow> nat list" where
  "addrs n \<equiv> rev [0..<n]"

abbreviation firstAddr :: "nat \<Rightarrow> nat option" where
  "firstAddr n \<equiv> if n = 0 then None else Some (n - 1)"

lemma linkLoop_spec:
  "\<exists>h. linkLoop (rev es) ([], None, Map.empty) = Some (h, firstAddr (length es), retAddr es)
     \<and> length h = length es \<and> linked h (addrs (length es)) \<and> represents h es
     \<and> (es \<noteq> [] \<longrightarrow> nd_prev (h ! (length es - 1)) = None)"
proof (induction es)
  case Nil
  show ?case by (auto simp: linked_def)
next
  case (Cons e es)
  then obtain h where h: "linkLoop (rev es) ([], None, Map.empty) = Some (h, firstAddr (length es), retAddr es)"
    "length h = length es" "linked h (addrs (length es))" "represents h es"
    "es \<noteq> [] \<longrightarrow> nd_prev (h ! (length es - 1)) = None" by blast
  define nd where "nd = \<lparr>nd_value = Some (le_value e),
     nd_match = (if le_kind e = returnEntry then None else retAddr es (le_id e)), nd_id = le_id e,
     nd_next = None, nd_prev = None\<rparr>"
  obtain h' where h': "insertBefore (h @ [nd]) (Some (length h)) (firstAddr (length es)) = Some h'"
    "linked h' (addrs (Suc (length es)))" "stable (h @ [nd]) h'" "nd_prev (h' ! length h) = None"
  proof (cases es)
    case Nil
    then have "h = []" using h(2) by simp
    with Nil show ?thesis
      by (intro that [of "[nd]"]) (auto simp: insertBefore_def linked_def nd_def)
  next
    case (Cons e' es')
    have "linked h (length es' # addrs (length es'))" using h(3) Cons by simp
    moreover have "nd_prev (h ! length es') = None" using h(5) Cons by simp
    moreover have "nd_next nd = None" "nd_prev nd = None" by (simp_all add: nd_def)
    ultimately obtain h' where "insertBefore (h @ [nd]) (Some (length h)) (Some (length es')) = Some h'"
      "linked h' (length h # length es' # addrs (length es'))" "stable (h @ [nd]) h'"
      "nd_prev (h' ! length h) = None" using insert_front [of h "length es'" "addrs (length es')" nd] by blast
    then show ?thesis using Cons h(2) by (intro that [of h']) simp_all
  qed
  have run: "linkLoop [e] (h, firstAddr (length es), retAddr es)
      = Some (h', Some (length es), retAddr (e # es))"
    using h'(1) h(2) by (auto simp: Let_def nd_def fun_eq_iff)
  have "represents h' (e # es)"
    using represents_stable [OF h(4) h'(3)] h'(3) h(2) by (auto simp: stable_def nd_def nth_append)
  moreover have "length h' = Suc (length es)" using h'(3) h(2) by (simp add: stable_def)
  ultimately show ?case
    using h(1) run h'(2,4) h(2) by (simp add: linkLoop_append fun_eq_iff)
qed

lemma listLength_linked:
  "linked h (us @ xs) \<Longrightarrow> length xs < fuel \<Longrightarrow>
     listLength fuel h (case xs of [] \<Rightarrow> None | a # _ \<Rightarrow> Some a) = Some (length xs)"
proof (induction xs arbitrary: us fuel)
  case Nil
  then show ?case by (cases fuel) auto
next
  case (Cons a xs)
  then obtain f where f: "fuel = Suc f" by (cases fuel) auto
  have "a < length h" using Cons.prems(1) by (simp add: linked_def)
  moreover have "nd_next (h ! a) = (case xs of [] \<Rightarrow> None | b # _ \<Rightarrow> Some b)"
    by (rule linked_next [OF Cons.prems(1)])
  ultimately show ?case
    using Cons.IH [of "us @ [a]" f] Cons.prems f by (simp add: deref_Some)
qed

end
