(* ===== verification/Lin_Search.thy ===== *)
theory Lin_Search
  imports Lin_Heap
begin

text \<open>
  The search of \<open>checkSingle\<close> (\<^verbatim>\<open>src/src/linearizability/linearizability.go\<close>).

  \<open>hist\<close> describes the history that a linked list stands for.  A configuration is the set of
  operations that have taken effect and the state they lead to; \<open>good\<close> says that the remaining
  operations can take effect one after the other, each one a call before every return that is left.
  The loop is a depth-first search over the configurations: everything before the current entry has
  been explored, every cached configuration is a dead end or on the current path, and the stack holds
  the heaps that \<open>unlift\<close> will restore.
\<close>

section \<open>Histories\<close>

record 's hist =
  h_list :: "nat list"
  h_call :: "nat \<Rightarrow> bool"
  h_mt :: "nat \<Rightarrow> nat"
  h_id :: "nat \<Rightarrow> nat"
  h_n :: nat
  h_step :: "'s \<Rightarrow> nat \<Rightarrow> bool \<times> 's"
  h_init :: 's

definition wf_hist :: "'s hist \<Rightarrow> bool" where
  "wf_hist hs \<longleftrightarrow> distinct (h_list hs)
     \<and> (\<forall>c \<in> set (h_list hs). h_call hs c \<longrightarrow>
          (\<exists>us vs ws. h_list hs = us @ c # vs @ h_mt hs c # ws) \<and> \<not> h_call hs (h_mt hs c)
          \<and> h_id hs (h_mt hs c) = h_id hs c)
     \<and> (\<forall>r \<in> set (h_list hs). \<not> h_call hs r \<longrightarrow> (\<exists>c \<in> set (h_list hs). h_call hs c \<and> r = h_mt hs c))
     \<and> inj_on (h_id hs) {c \<in> set (h_list hs). h_call hs c}
     \<and> h_id hs ` set (h_list hs) = {..<h_n hs}"

text \<open>The entries that are left when the operations in \<open>B\<close> have taken effect.\<close>

definition remaining :: "'s hist \<Rightarrow> nat set \<Rightarrow> nat list" where
  "remaining hs B = filter (\<lambda>a. h_id hs a \<notin> B) (h_list hs)"

definition candidate :: "'s hist \<Rightarrow> nat set \<Rightarrow> nat \<Rightarrow> bool" where
  "candidate hs B c \<longleftrightarrow> h_call hs c \<and>
     (\<exists>us vs. remaining hs B = us @ c # vs \<and> (\<forall>u \<in> set us. h_call hs u))"

inductive good :: "'s hist \<Rightarrow> nat set \<Rightarrow> 's \<Rightarrow> bool" for hs where
  good_done: "{..<h_n hs} \<subseteq> B \<Longrightarrow> good hs B s"
| good_step: "candidate hs B c \<Longrightarrow> h_step hs s c = (True, s') \<Longrightarrow>
     good hs (insert (h_id hs c) B) s' \<Longrightarrow> good hs B s"

lemma remaining_set: "a \<in> set (remaining hs B) \<longleftrightarrow> a \<in> set (h_list hs) \<and> h_id hs a \<notin> B"
  by (auto simp: remaining_def)

lemma remaining_empty:
  assumes "wf_hist hs"
  shows "remaining hs B = [] \<longleftrightarrow> {..<h_n hs} \<subseteq> B"
proof -
  have "h_id hs ` set (h_list hs) = {..<h_n hs}" using assms by (simp add: wf_hist_def)
  moreover have "remaining hs B = [] \<longleftrightarrow> h_id hs ` set (h_list hs) \<subseteq> B"
    by (auto simp: remaining_def filter_empty_conv)
  ultimately show ?thesis by simp
qed

lemma split_unique: "us @ c # vs = as @ c # bs \<Longrightarrow> distinct (us @ c # vs) \<Longrightarrow> us = as \<and> vs = bs"
  by (subst (asm) append_Cons_eq_iff) auto

lemma remaining_distinct: "wf_hist hs \<Longrightarrow> distinct (remaining hs B)"
  by (simp add: wf_hist_def remaining_def)

lemma same_id:
  assumes wf: "wf_hist hs" and c: "c \<in> set (h_list hs)" "h_call hs c"
    and a: "a \<in> set (h_list hs)" "h_id hs a = h_id hs c"
  shows "a = c \<or> a = h_mt hs c"
proof (cases "h_call hs a")
  case True
  with wf c a show ?thesis unfolding wf_hist_def inj_on_def by blast
next
  case False
  with wf a obtain d where d: "d \<in> set (h_list hs)" "h_call hs d" "a = h_mt hs d"
    unfolding wf_hist_def by blast
  with wf have "h_id hs d = h_id hs c" using a(2) unfolding wf_hist_def by metis
  with wf c d(1,2) have "d = c" unfolding wf_hist_def inj_on_def by blast
  with d(3) show ?thesis by simp
qed

text \<open>The return of a remaining call is left too, after it; taking the operation out removes these two.\<close>

lemma remaining_split:
  assumes wf: "wf_hist hs" and r: "remaining hs B = us @ c # vs" and c: "h_call hs c"
  obtains vs1 ws where "vs = vs1 @ h_mt hs c # ws" "remaining hs (insert (h_id hs c) B) = us @ vs1 @ ws"
proof -
  have cin: "c \<in> set (h_list hs)" "h_id hs c \<notin> B" using r remaining_set [of c hs B] by auto
  obtain as bs cs where l: "h_list hs = as @ c # bs @ h_mt hs c # cs" and id: "h_id hs (h_mt hs c) = h_id hs c"
    using wf cin(1) c unfolding wf_hist_def by blast
  let ?P = "\<lambda>a. h_id hs a \<notin> B"
  have "us @ c # vs = filter ?P as @ c # filter ?P bs @ h_mt hs c # filter ?P cs"
    using r cin(2) id unfolding remaining_def l by simp
  from split_unique [OF this] remaining_distinct [OF wf, of B] r
  have eq: "us = filter ?P as" "vs = filter ?P bs @ h_mt hs c # filter ?P cs" by simp_all
  have only: "h_id hs a \<noteq> h_id hs c" if "a \<in> set as \<union> set bs \<union> set cs" for a
  proof
    assume "h_id hs a = h_id hs c"
    then have "a = c \<or> a = h_mt hs c" using same_id [OF wf cin(1) c, of a] that l by auto
    with that l wf show False unfolding wf_hist_def by auto
  qed
  have same: "filter (\<lambda>a. h_id hs a \<notin> insert (h_id hs c) B) zs = filter ?P zs"
    if "zs \<in> {as, bs, cs}" for zs
    using that only by (intro filter_cong refl) auto
  have "remaining hs (insert (h_id hs c) B) = us @ filter ?P bs @ filter ?P cs"
    unfolding remaining_def l using id eq(1) same [of as] same [of bs] same [of cs] by simp
  with eq(2) show thesis by (rule that)
qed

section \<open>Dead ends\<close>

text \<open>Entries of a configuration that lead nowhere.\<close>

definition explored :: "'s hist \<Rightarrow> nat set \<Rightarrow> 's \<Rightarrow> nat list \<Rightarrow> bool" where
  "explored hs B s us \<longleftrightarrow> (\<forall>u \<in> set us. h_call hs u
     \<and> (\<forall>s'. h_step hs s u = (True, s') \<longrightarrow> \<not> good hs (insert (h_id hs u) B) s'))"

lemma explored_Nil [simp]: "explored hs B s []"
  by (simp add: explored_def)

lemma explored_snoc:
  "explored hs B s (us @ [u]) \<longleftrightarrow> explored hs B s us \<and> h_call hs u
     \<and> (\<forall>s'. h_step hs s u = (True, s') \<longrightarrow> \<not> good hs (insert (h_id hs u) B) s')"
  by (auto simp: explored_def)

text \<open>When the search meets a return, everything before it has failed and nothing after it can be next.\<close>

lemma dead_end:
  assumes wf: "wf_hist hs" and r: "remaining hs B = us @ e # vs" "\<not> h_call hs e" and ex: "explored hs B s us"
  shows "\<not> good hs B s"
proof
  assume "good hs B s"
  then show False
  proof cases
    case good_done
    then show ?thesis using remaining_empty [OF wf, of B] r(1) by simp
  next
    case (good_step c s')
    from good_step(1) obtain as bs where c: "h_call hs c" "remaining hs B = as @ c # bs" "\<forall>u \<in> set as. h_call hs u"
      by (auto simp: candidate_def)
    from c(2) r(1) consider zs where "us = as @ c # zs" | "us = as" "c = e" | zs where "as = us @ e # zs"
      by (auto simp: append_eq_append_conv2 append_eq_Cons_conv Cons_eq_append_conv)
    then have "c \<in> set us" using r(2) c(1,3) by cases auto
    with ex good_step(2,3) show False by (auto simp: explored_def)
  qed
qed

section \<open>The stack\<close>

text \<open>The configurations on the current path after the first.\<close>

fun pathConfs :: "'s hist \<Rightarrow> (nat option \<times> 's) list \<Rightarrow> nat set \<Rightarrow> 's \<Rightarrow> (nat set \<times> 's) set" where
  "pathConfs hs [] B s = {}"
| "pathConfs hs ((p, s') # calls) B s = insert (B, s) (pathConfs hs calls (B - {h_id hs (the p)}) s')"

text \<open>Each stack entry knows the configuration it came from, that the entries before it had been
  explored there, and the heap that \<open>unlift\<close> restores.\<close>

fun stackRep :: "'s hist \<Rightarrow> 'v heap \<Rightarrow> nat \<Rightarrow> (nat option \<times> 's) list \<Rightarrow> nat set \<Rightarrow> 's \<Rightarrow> 'v heap \<Rightarrow> bool" where
  "stackRep hs H0 r [] B s h \<longleftrightarrow> B = {} \<and> s = h_init hs \<and> h = H0"
| "stackRep hs H0 r ((p, s') # calls) B s h \<longleftrightarrow>
     (\<exists>c h' us vs. p = Some c \<and> h_id hs c \<in> B \<and> h_call hs c
      \<and> remaining hs (B - {h_id hs c}) = us @ c # vs \<and> explored hs (B - {h_id hs c}) s' us
      \<and> h_step hs s' c = (True, s) \<and> linked h' (r # remaining hs (B - {h_id hs c})) \<and> stable H0 h'
      \<and> unlift h (Some c) = Some h' \<and> stackRep hs H0 r calls (B - {h_id hs c}) s' h')"

lemma pathConfs_sub: "(C, t) \<in> pathConfs hs calls B s \<Longrightarrow> C \<subseteq> B"
  by (induction hs calls B s rule: pathConfs.induct) auto

text \<open>Reaching the end of a path proves the first configuration good.\<close>

lemma stack_good: "stackRep hs H0 r calls B s h \<Longrightarrow> good hs B s \<Longrightarrow> good hs {} (h_init hs)"
proof (induction calls arbitrary: B s h)
  case (Cons a calls)
  obtain p s' where a: "a = (p, s')" by (cases a)
  with Cons.prems(1) obtain c h' us vs where
    c: "h_id hs c \<in> B" "h_call hs c" "remaining hs (B - {h_id hs c}) = us @ c # vs"
      "explored hs (B - {h_id hs c}) s' us" "h_step hs s' c = (True, s)"
      "stackRep hs H0 r calls (B - {h_id hs c}) s' h'" by auto
  have "candidate hs (B - {h_id hs c}) c"
    unfolding candidate_def using c(2,3,4) by (auto simp: explored_def)
  moreover have "insert (h_id hs c) (B - {h_id hs c}) = B" using c(1) by auto
  ultimately have "good hs (B - {h_id hs c}) s'" using good_step [OF _ c(5)] Cons.prems(2) by simp
  then show ?case by (rule Cons.IH [OF c(6)])
qed auto

text \<open>Configurations that can be reached in a number of steps; there are finitely many.\<close>

fun confs :: "'s hist \<Rightarrow> nat \<Rightarrow> (nat set \<times> 's) set" where
  "confs hs 0 = {({}, h_init hs)}"
| "confs hs (Suc k) = (\<Union>(B, s) \<in> confs hs k. (\<lambda>c. (insert (h_id hs c) B, snd (h_step hs s c))) ` set (h_list hs))"

lemma finite_confs: "finite (confs hs k)"
  by (induction k) auto

definition allConfs :: "'s hist \<Rightarrow> (nat set \<times> 's) set" where
  "allConfs hs = (\<Union>k \<le> h_n hs. confs hs k)"

lemma finite_allConfs: "finite (allConfs hs)"
  by (simp add: allConfs_def finite_confs)

lemma stack_confs:
  assumes wf: "wf_hist hs"
  shows "stackRep hs H0 r calls B s h \<Longrightarrow>
     (B, s) \<in> confs hs (length calls) \<and> B \<subseteq> {..<h_n hs} \<and> card B = length calls"
proof (induction calls arbitrary: B s h)
  case (Cons a calls)
  obtain p s' where a: "a = (p, s')" by (cases a)
  with Cons.prems(1) obtain c h' us vs where
    c: "h_id hs c \<in> B" "remaining hs (B - {h_id hs c}) = us @ c # vs"
      "h_step hs s' c = (True, s)" "stackRep hs H0 r calls (B - {h_id hs c}) s' h'" by auto
  from Cons.IH [OF c(4)] have ih: "(B - {h_id hs c}, s') \<in> confs hs (length calls)"
    "B - {h_id hs c} \<subseteq> {..<h_n hs}" "card (B - {h_id hs c}) = length calls" by auto
  have cin: "c \<in> set (h_list hs)" using c(2) remaining_set [of c hs "B - {h_id hs c}"] by simp
  then have "h_id hs c \<in> {..<h_n hs}" using wf unfolding wf_hist_def by blast
  with ih(2) have sub: "B \<subseteq> {..<h_n hs}" by blast
  then have "card B = Suc (length calls)" using ih(3) c(1) finite_subset [OF sub] by (metis card_Suc_Diff1 finite_lessThan)
  moreover have "(insert (h_id hs c) (B - {h_id hs c}), snd (h_step hs s' c)) \<in> confs hs (Suc (length calls))"
    unfolding confs.simps using cin by (intro UN_I [OF ih(1)]) (simp add: image_iff, blast)
  then have "(B, s) \<in> confs hs (Suc (length calls))" using c(1,3) by (simp add: insert_absorb)
  ultimately show ?case using sub by simp
qed auto

section \<open>The cache\<close>

definition cachedConfs :: "nat \<Rightarrow> 's cache \<Rightarrow> (nat set \<times> 's) set" where
  "cachedConfs k cache = {(bits b, s) | b s. length b = k \<and> (b, s) \<in> set (gm_get0 [] cache (bs_hash b))}"

lemma cachedConfs_empty [simp]: "cachedConfs k [] = {}"
  by (simp add: cachedConfs_def gm_get0_Nil)

lemma cacheContains_iff:
  assumes "length b = k"
  shows "cacheContains (=) cache (b, s) \<longleftrightarrow> (bits b, s) \<in> cachedConfs k cache"
proof -
  have "(bits b, s) \<in> cachedConfs k cache \<longleftrightarrow> (b, s) \<in> set (gm_get0 [] cache (bs_hash b))"
    unfolding cachedConfs_def using assms bs.members_inject [of _ k b] by auto
  then show ?thesis by (force simp: cacheContains_def list_ex_iff bs_equals_eq)
qed

lemma cachedConfs_insert:
  assumes "length b = k"
  shows "cachedConfs k (gm_set (bs_hash b) (gm_get0 [] cache (bs_hash b) @ [(b, s)]) cache)
     = insert (bits b, s) (cachedConfs k cache)"
proof -
  let ?new = "gm_set (bs_hash b) (gm_get0 [] cache (bs_hash b) @ [(b, s)]) cache"
  have "(c, t) \<in> set (gm_get0 [] ?new (bs_hash c)) \<longleftrightarrow> (c, t) = (b, s) \<or> (c, t) \<in> set (gm_get0 [] cache (bs_hash c))"
    for c t
    by (auto simp: gm_get0_set)
  then show ?thesis unfolding cachedConfs_def using assms by auto
qed

section \<open>The invariant of the search\<close>

text \<open>How the nodes stand for the history: the values of a call and its return are what the model's
  \<open>Step\<close> gets.\<close>

definition linkOK :: "('s \<Rightarrow> 'v \<Rightarrow> 'v \<Rightarrow> (bool \<times> 's) option) \<Rightarrow> 's hist \<Rightarrow> 'v heap \<Rightarrow> bool" where
  "linkOK step hs H0 \<longleftrightarrow> (\<forall>e \<in> set (h_list hs). e < length H0 \<and>
     (if h_call hs e
      then nd_match (H0 ! e) = Some (h_mt hs e) \<and> nd_id (H0 ! e) = h_id hs e
        \<and> (\<exists>inp out. nd_value (H0 ! e) = Some inp \<and> nd_value (H0 ! h_mt hs e) = Some out
             \<and> (\<forall>s. step s inp out = Some (h_step hs s e)))
      else nd_match (H0 ! e) = None))"

definition cacheOK :: "'s hist \<Rightarrow> nat \<Rightarrow> 's cache \<Rightarrow> (nat set \<times> 's) set \<Rightarrow> bool" where
  "cacheOK hs k cache path \<longleftrightarrow> cachedConfs k cache \<subseteq> allConfs hs
     \<and> (\<forall>(C, t) \<in> cachedConfs k cache. good hs C t \<longrightarrow> (C, t) \<in> path)"

definition searchInv :: "'s hist \<Rightarrow> 'v heap \<Rightarrow> nat \<Rightarrow> nat \<Rightarrow> ('v, 's) search \<Rightarrow> bool" where
  "searchInv hs H0 r k st \<longleftrightarrow> length (s_linearized st) = k
     \<and> stackRep hs H0 r (s_calls st) (bits (s_linearized st)) (s_state st) (s_heap st)
     \<and> linked (s_heap st) (r # remaining hs (bits (s_linearized st))) \<and> stable H0 (s_heap st)
     \<and> cacheOK hs k (s_cache st) (pathConfs hs (s_calls st) (bits (s_linearized st)) (s_state st))
     \<and> (remaining hs (bits (s_linearized st)) \<noteq> [] \<longrightarrow>
          (\<exists>us e vs. remaining hs (bits (s_linearized st)) = us @ e # vs \<and> s_entry st = Some e
             \<and> explored hs (bits (s_linearized st)) (s_state st) us))"

text \<open>The rank: every round caches a new configuration, or shortens the stack, or moves on.\<close>

definition searchLeft :: "'s hist \<Rightarrow> ('v, 's) search \<Rightarrow> nat" where
  "searchLeft hs st = length (dropWhile (\<lambda>a. s_entry st \<noteq> Some a) (remaining hs (bits (s_linearized st))))"

definition searchRank :: "'s hist \<Rightarrow> nat \<Rightarrow> ('v, 's) search \<Rightarrow> nat" where
  "searchRank hs k st =
     (card (allConfs hs - cachedConfs k (s_cache st)) * (h_n hs + 1) + length (s_calls st)) * (length (h_list hs) + 1)
     + searchLeft hs st"

definition searchPost :: "'s hist \<Rightarrow> (nat \<Rightarrow> bool) \<Rightarrow> ('v, 's) search \<Rightarrow> bool" where
  "searchPost hs kill st \<longleftrightarrow> (s_result st \<longrightarrow> good hs {} (h_init hs))
     \<and> ((\<forall>i. \<not> kill i) \<longrightarrow> good hs {} (h_init hs) \<longrightarrow> s_result st)"

lemma searchLeft_at:
  assumes "wf_hist hs" "remaining hs (bits (s_linearized st)) = us @ e # vs" "s_entry st = Some e"
  shows "searchLeft hs st = Suc (length vs)"
proof -
  have "e \<notin> set us" using remaining_distinct [OF assms(1), of "bits (s_linearized st)"] assms(2) by simp
  then have "dropWhile (\<lambda>a. e \<noteq> a) (us @ e # vs) = e # vs"
    by (subst dropWhile_append2) auto
  then show ?thesis by (simp add: searchLeft_def assms(2,3))
qed

lemma searchLeft_le: "searchLeft hs st \<le> length (h_list hs)"
  unfolding searchLeft_def remaining_def by (meson length_dropWhile_le length_filter_le order_trans)

lemma linkOK_stable:
  assumes "linkOK step hs H0" "stable H0 h" "wf_hist hs" "e \<in> set (h_list hs)"
  shows "e < length h" "\<not> h_call hs e \<Longrightarrow> nd_match (h ! e) = None"
    "h_call hs e \<Longrightarrow> h_mt hs e < length h \<and> nd_match (h ! e) = Some (h_mt hs e) \<and> nd_id (h ! e) = h_id hs e
      \<and> (\<exists>inp out. nd_value (h ! e) = Some inp \<and> nd_value (h ! h_mt hs e) = Some out
             \<and> (\<forall>s. step s inp out = Some (h_step hs s e)))"
proof -
  have e: "e < length H0" using assms(1,4) by (simp add: linkOK_def)
  then show "e < length h" using assms(2) by (simp add: stable_def)
  show "nd_match (h ! e) = None" if "\<not> h_call hs e"
    using assms(1,2,4) that e by (simp add: linkOK_def stable_def)
  assume c: "h_call hs e"
  with assms(3,4) have "h_mt hs e \<in> set (h_list hs)" unfolding wf_hist_def by fastforce
  then have m: "h_mt hs e < length H0" using assms(1) by (simp add: linkOK_def)
  have "nd_match (H0 ! e) = Some (h_mt hs e)" "nd_id (H0 ! e) = h_id hs e"
    "\<exists>inp out. nd_value (H0 ! e) = Some inp \<and> nd_value (H0 ! h_mt hs e) = Some out
             \<and> (\<forall>s. step s inp out = Some (h_step hs s e))"
    using bspec [OF assms(1) [unfolded linkOK_def] assms(4)] c by auto
  with assms(2) e m show "h_mt hs e < length h \<and> nd_match (h ! e) = Some (h_mt hs e) \<and> nd_id (h ! e) = h_id hs e
      \<and> (\<exists>inp out. nd_value (h ! e) = Some inp \<and> nd_value (h ! h_mt hs e) = Some out
             \<and> (\<forall>s. step s inp out = Some (h_step hs s e)))" by (simp add: stable_def)
qed

section \<open>The rounds of the search\<close>

text \<open>The current entry, when something is left.\<close>

lemma searchInv_entry:
  assumes "searchInv hs H0 r k st" "remaining hs (bits (s_linearized st)) \<noteq> []"
  obtains us e vs where "remaining hs (bits (s_linearized st)) = us @ e # vs" "s_entry st = Some e"
    "explored hs (bits (s_linearized st)) (s_state st) us" "e \<in> set (h_list hs)"
    "h_id hs e \<notin> bits (s_linearized st)"
    "nd_next (s_heap st ! e) = (case vs of [] \<Rightarrow> None | b # _ \<Rightarrow> Some b)"
proof -
  obtain us e vs where e: "remaining hs (bits (s_linearized st)) = us @ e # vs" "s_entry st = Some e"
    "explored hs (bits (s_linearized st)) (s_state st) us"
    using assms unfolding searchInv_def by blast
  have "linked (s_heap st) ((r # us) @ e # vs)" using assms(1) e(1) by (simp add: searchInv_def)
  from linked_next [OF this] e remaining_set [of e hs "bits (s_linearized st)"] show thesis
    by (intro that [of us e vs]) auto
qed

text \<open>A call is followed by its return, so moving on from it stays in the list.\<close>

lemma call_not_last:
  assumes "wf_hist hs" "remaining hs B = us @ c # vs" "h_call hs c"
  obtains b ws where "vs = b # ws"
  using remaining_split [OF assms] by (metis append_Cons append_Nil neq_Nil_conv append_is_Nil_conv list.distinct(1))

lemma search_advance:
  assumes wf: "wf_hist hs" and inv: "searchInv hs H0 r k st"
    and e: "remaining hs (bits (s_linearized st)) = us @ e # vs" "s_entry st = Some e" "h_call hs e"
      "nd_next (s_heap st ! e) = (case vs of [] \<Rightarrow> None | b # _ \<Rightarrow> Some b)"
    and ex: "explored hs (bits (s_linearized st)) (s_state st) (us @ [e])"
    and st'_def: "st' = st\<lparr>s_round := i, s_entry := nd_next (s_heap st ! e)\<rparr>"
  shows "searchInv hs H0 r k st' \<and> searchRank hs k st' < searchRank hs k st"
proof -
  obtain b ws where vs: "vs = b # ws" using call_not_last [OF wf e(1,3)] .
  have st': "remaining hs (bits (s_linearized st')) = (us @ [e]) @ b # ws" "s_entry st' = Some b"
    using e(1,4) vs by (simp_all add: st'_def)
  have "\<exists>us e vs. remaining hs (bits (s_linearized st')) = us @ e # vs \<and> s_entry st' = Some e
      \<and> explored hs (bits (s_linearized st')) (s_state st') us"
    by (rule exI [of _ "us @ [e]"], rule exI [of _ b], rule exI [of _ ws]) (use st' ex in \<open>simp add: st'_def\<close>)
  moreover have same: "s_linearized st' = s_linearized st" "s_calls st' = s_calls st" "s_state st' = s_state st"
    "s_heap st' = s_heap st" "s_cache st' = s_cache st" by (simp_all add: st'_def)
  ultimately have "searchInv hs H0 r k st'" using inv unfolding searchInv_def same by blast
  moreover have "searchLeft hs st' < searchLeft hs st"
    using searchLeft_at [OF wf e(1,2)] searchLeft_at [OF wf st'] vs by simp
  then have "searchRank hs k st' < searchRank hs k st" by (simp add: searchRank_def st'_def)
  ultimately show ?thesis ..
qed

text \<open>Linearizing the operation of the current entry.\<close>

lemma search_push:
  assumes wf: "wf_hist hs" and link: "linkOK step hs H0" and inv: "searchInv hs H0 r k st" and cap: "h_n hs \<le> 64 * k"
    and e: "remaining hs (bits (s_linearized st)) = us @ e # vs" "s_entry st = Some e" "h_call hs e"
      "explored hs (bits (s_linearized st)) (s_state st) us"
    and ok: "h_step hs (s_state st) e = (True, s')"
    and b: "bs_set (s_linearized st) (h_id hs e) = Some b" "(bits b, s') \<notin> cachedConfs k (s_cache st)"
  obtains heap where "lift (s_heap st) (Some e) = Some heap" "r < length heap"
    "\<And>st' i. st' = st\<lparr>s_round := i, s_cache := gm_set (bs_hash b) (gm_get0 [] (s_cache st) (bs_hash b) @ [(b, s')]) (s_cache st),
        s_calls := (Some e, s_state st) # s_calls st, s_state := s', s_linearized := b, s_heap := heap,
        s_entry := nd_next (heap ! r)\<rparr> \<Longrightarrow> searchInv hs H0 r k st' \<and> searchRank hs k st' < searchRank hs k st"
proof -
  let ?B = "bits (s_linearized st)"
  from inv have i: "length (s_linearized st) = k" "stackRep hs H0 r (s_calls st) ?B (s_state st) (s_heap st)"
    "linked (s_heap st) (r # remaining hs ?B)" "stable H0 (s_heap st)"
    "cacheOK hs k (s_cache st) (pathConfs hs (s_calls st) ?B (s_state st))" by (auto simp: searchInv_def)
  have ein: "e \<in> set (h_list hs)" "h_id hs e \<notin> ?B" using e(1) remaining_set [of e hs ?B] by auto
  then have idn: "h_id hs e < h_n hs" using wf unfolding wf_hist_def by blast
  have bb: "length b = k" "bits b = insert (h_id hs e) ?B"
    using bs.ins_ok [OF i(1), of "h_id hs e"] idn cap b(1) by auto
  obtain vs1 ws where vs: "vs = vs1 @ h_mt hs e # ws" "remaining hs (bits b) = us @ vs1 @ ws"
    using remaining_split [OF wf e(1,3)] bb(2) by metis
  have "nd_match (s_heap st ! e) = Some (h_mt hs e)" using linkOK_stable(3) [OF link i(4) wf ein(1) e(3)] by simp
  moreover have "linked (s_heap st) (r # us @ e # vs1 @ h_mt hs e # ws)" using i(3) e(1) vs(1) by simp
  ultimately obtain heap where heap: "lift (s_heap st) (Some e) = Some heap" "stable (s_heap st) heap"
    "linked heap (r # us @ vs1 @ ws)" "unlift heap (Some e) = Some (s_heap st)"
    using lift_unlift by blast
  have diff: "bits b - {h_id hs e} = ?B" using bb(2) ein(2) by auto
  have rep: "stackRep hs H0 r ((Some e, s_state st) # s_calls st) (bits b) s' heap"
    using bb(2) diff e i(2,3,4) ok heap(4) by auto
  from stack_confs [OF wf rep] have conf: "(bits b, s') \<in> confs hs (Suc (length (s_calls st)))"
    and sub: "bits b \<subseteq> {..<h_n hs}" and "card (bits b) = Suc (length (s_calls st))" by auto
  moreover from card_mono [OF finite_lessThan sub] have "card (bits b) \<le> h_n hs" by simp
  ultimately have new: "(bits b, s') \<in> allConfs hs" unfolding allConfs_def by (metis UN_I atMost_iff)
  have "r < length heap" using heap(3) by (simp add: linked_def)
  moreover have "searchInv hs H0 r k st' \<and> searchRank hs k st' < searchRank hs k st"
    if st': "st' = st\<lparr>s_round := j, s_cache := gm_set (bs_hash b) (gm_get0 [] (s_cache st) (bs_hash b) @ [(b, s')]) (s_cache st),
        s_calls := (Some e, s_state st) # s_calls st, s_state := s', s_linearized := b, s_heap := heap,
        s_entry := nd_next (heap ! r)\<rparr>" for st' j
  proof
    have cc: "cachedConfs k (s_cache st') = insert (bits b, s') (cachedConfs k (s_cache st))"
      unfolding st' by (simp add: cachedConfs_insert [OF bb(1)])
    have "cacheOK hs k (s_cache st') (insert (bits b, s') (pathConfs hs (s_calls st) ?B (s_state st)))"
      using i(5) new unfolding cacheOK_def cc by auto
    moreover have "\<exists>f fs. remaining hs (bits b) = [] @ f # fs \<and> nd_next (heap ! r) = Some f"
      if "remaining hs (bits b) \<noteq> []"
      using linked_next [of heap "[]" r "us @ vs1 @ ws"] heap(3) that vs(2) by (auto split: list.splits)
    ultimately show "searchInv hs H0 r k st'"
      unfolding searchInv_def using rep bb(1) heap(3) vs(2) stable_trans [OF i(4) heap(2)]
      by (force simp: st' diff)
    have "card (allConfs hs - cachedConfs k (s_cache st)) = Suc (card (allConfs hs - cachedConfs k (s_cache st')))"
      unfolding cc using new b(2) finite_allConfs [of hs]
      by (metis DiffI Diff_insert card_Suc_Diff1 finite_Diff)
    then have "searchRank hs k st' + (h_n hs * (length (h_list hs) + 1) + searchLeft hs st)
      = searchRank hs k st + searchLeft hs st'"
      by (simp add: searchRank_def st' algebra_simps)
    moreover have "length (h_list hs) + 1 \<le> h_n hs * (length (h_list hs) + 1)" using idn by (cases "h_n hs") auto
    ultimately show "searchRank hs k st' < searchRank hs k st" using searchLeft_le [of hs st'] by linarith
  qed
  ultimately show thesis using that heap(1) by blast
qed

text \<open>Undoing the last operation of the path: everything it led to has failed.\<close>

lemma search_pop:
  assumes wf: "wf_hist hs" and link: "linkOK step hs H0" and inv: "searchInv hs H0 r k st" and cap: "h_n hs \<le> 64 * k"
    and e: "remaining hs (bits (s_linearized st)) = us @ e # vs" "\<not> h_call hs e"
      "explored hs (bits (s_linearized st)) (s_state st) us"
    and calls: "s_calls st = (p, s') # calls"
  obtains c lin heap where "p = Some c" "c < length (s_heap st)" "nd_id (s_heap st ! c) = h_id hs c"
    "bs_clear (s_linearized st) (h_id hs c) = Some lin" "unlift (s_heap st) p = Some heap" "c < length heap"
    "\<And>st' i. st' = st\<lparr>s_round := i, s_state := s', s_linearized := lin, s_calls := calls, s_heap := heap,
        s_entry := nd_next (heap ! c)\<rparr> \<Longrightarrow> searchInv hs H0 r k st' \<and> searchRank hs k st' < searchRank hs k st"
proof -
  let ?B = "bits (s_linearized st)"
  from inv have i: "length (s_linearized st) = k" "stackRep hs H0 r ((p, s') # calls) ?B (s_state st) (s_heap st)"
    "stable H0 (s_heap st)" "cacheOK hs k (s_cache st) (pathConfs hs ((p, s') # calls) ?B (s_state st))"
    by (auto simp: searchInv_def calls)
  from i(2) obtain c heap us' vs' where c: "p = Some c" "h_id hs c \<in> ?B" "h_call hs c"
    "remaining hs (?B - {h_id hs c}) = us' @ c # vs'" "explored hs (?B - {h_id hs c}) s' us'"
    "h_step hs s' c = (True, s_state st)" "linked heap (r # remaining hs (?B - {h_id hs c}))" "stable H0 heap"
    "unlift (s_heap st) (Some c) = Some heap" "stackRep hs H0 r calls (?B - {h_id hs c}) s' heap" by auto
  have cin: "c \<in> set (h_list hs)" using c(4) remaining_set [of c hs "?B - {h_id hs c}"] by simp
  then have idn: "h_id hs c < h_n hs" using wf unfolding wf_hist_def by blast
  obtain lin where lin: "bs_clear (s_linearized st) (h_id hs c) = Some lin" "length lin = k"
    "bits lin = ?B - {h_id hs c}" using bs.del_ok [OF i(1), of "h_id hs c"] idn cap by auto
  have fail: "\<not> good hs ?B (s_state st)" by (rule dead_end [OF wf e])
  have again: "insert (h_id hs c) (?B - {h_id hs c}) = ?B" using c(2) by auto
  have ex: "explored hs (bits lin) s' (us' @ [c])"
    unfolding explored_snoc lin(3) again using c(3,5,6) fail by auto
  obtain b ws where vs': "vs' = b # ws" using call_not_last [OF wf c(4,3)] .
  have "linked heap ((r # us') @ c # b # ws)" using c(7) by (simp add: c(4) vs')
  from linked_next [OF this] have nx: "nd_next (heap ! c) = Some b" by simp
  have upd: "searchInv hs H0 r k st' \<and> searchRank hs k st' < searchRank hs k st"
    if st': "st' = st\<lparr>s_round := j, s_state := s', s_linearized := lin, s_calls := calls, s_heap := heap,
        s_entry := nd_next (heap ! c)\<rparr>" for st' j
  proof
    have "\<exists>us e vs. remaining hs (bits lin) = us @ e # vs \<and> s_entry st' = Some e \<and> explored hs (bits lin) s' us"
      by (rule exI [of _ "us' @ [c]"], rule exI [of _ b], rule exI [of _ ws])
        (use c(4) vs' nx ex in \<open>simp add: st' lin(3)\<close>)
    moreover have "cacheOK hs k (s_cache st) (pathConfs hs calls (bits lin) s')"
      using i(4) fail unfolding cacheOK_def by (auto simp: lin(3) c(1))
    moreover have new: "s_linearized st' = lin" "s_calls st' = calls" "s_state st' = s'" "s_heap st' = heap"
      "s_cache st' = s_cache st" by (simp_all add: st')
    ultimately show "searchInv hs H0 r k st'"
      using lin(2) c(7,8,10) unfolding searchInv_def new lin(3) by blast
    show "searchRank hs k st' < searchRank hs k st"
      using searchLeft_le [of hs st'] by (simp add: searchRank_def new calls)
  qed
  have "nd_id (s_heap st ! c) = h_id hs c" "unlift (s_heap st) p = Some heap"
    using linkOK_stable(3) [OF link i(3) wf cin] c(1,3,9) by simp_all
  from that [OF c(1) linkOK_stable(1) [OF link i(3) wf cin] this(1) lin(1) this(2)
      linkOK_stable(1) [OF link c(8) wf cin]] upd show thesis by blast
qed

text \<open>One round, whatever it does, keeps the invariant and lowers the rank, or ends the search with the
  right answer.\<close>

lemma search_call:
  assumes wf: "wf_hist hs" and link: "linkOK step hs H0" and inv: "searchInv hs H0 r k st" and cap: "h_n hs \<le> 64 * k"
    and e: "remaining hs (bits (s_linearized st)) = us @ e # vs" "s_entry st = Some e" "h_call hs e"
      "explored hs (bits (s_linearized st)) (s_state st) us"
      "nd_next (s_heap st ! e) = (case vs of [] \<Rightarrow> None | b # _ \<Rightarrow> Some b)"
    and run: "\<not> kill (s_round st)" and more: "r < length (s_heap st)" "nd_next (s_heap st ! r) \<noteq> None"
  shows "\<exists>st'. searchStep step (=) kill (Some r) st = Some (st', True)
     \<and> searchInv hs H0 r k st' \<and> searchRank hs k st' < searchRank hs k st"
proof -
  let ?B = "bits (s_linearized st)"
  have ein: "e \<in> set (h_list hs)" "h_id hs e \<notin> ?B" using e(1) remaining_set [of e hs ?B] by auto
  then have idn: "h_id hs e < h_n hs" using wf unfolding wf_hist_def by blast
  have st: "stable H0 (s_heap st)" "length (s_linearized st) = k" using inv by (simp_all add: searchInv_def)
  have lt: "e < length (s_heap st)" by (rule linkOK_stable(1) [OF link st(1) wf ein(1)])
  obtain inp out where nd: "h_mt hs e < length (s_heap st)" "nd_match (s_heap st ! e) = Some (h_mt hs e)"
    "nd_id (s_heap st ! e) = h_id hs e" "nd_value (s_heap st ! e) = Some inp"
    "nd_value (s_heap st ! h_mt hs e) = Some out" "step (s_state st) inp out = Some (h_step hs (s_state st) e)"
    using linkOK_stable(3) [OF link st(1) wf ein(1) e(3)] by blast
  obtain s' ok where hs: "h_step hs (s_state st) e = (ok, s')" by fastforce
  obtain b where b: "bs_set (s_linearized st) (h_id hs e) = Some b" "length b = k" "bits b = insert (h_id hs e) ?B"
    using bs.ins_ok [OF st(2), of "h_id hs e"] idn cap by auto
  note code = searchStep_def Let_def deref_Some [OF more(1)] deref_Some [OF lt] deref_Some [OF nd(1)] cacheContains_iff [OF b(2)]
  show ?thesis
  proof (cases "ok \<and> (bits b, s') \<notin> cachedConfs k (s_cache st)")
    case True
    with hs have ok: "h_step hs (s_state st) e = (True, s')" by simp
    obtain heap where heap: "lift (s_heap st) (Some e) = Some heap" "r < length heap"
      "\<And>st' i. st' = st\<lparr>s_round := i, s_cache := gm_set (bs_hash b) (gm_get0 [] (s_cache st) (bs_hash b) @ [(b, s')]) (s_cache st),
        s_calls := (Some e, s_state st) # s_calls st, s_state := s', s_linearized := b, s_heap := heap,
        s_entry := nd_next (heap ! r)\<rparr> \<Longrightarrow> searchInv hs H0 r k st' \<and> searchRank hs k st' < searchRank hs k st"
      using search_push [OF wf link inv cap e(1,2,3,4) ok b(1)] True by blast
    from heap(3) [OF refl, of "s_round st + 1"] show ?thesis
      using True more(2) run nd e(2) ok b(1) heap(1,2) by (simp add: code deref_Some)
  next
    case False
    have "explored hs ?B (s_state st) (us @ [e])"
    proof (cases ok)
      case True
      with False have "(bits b, s') \<in> cachedConfs k (s_cache st)" by simp
      moreover have "(bits b, s') \<notin> pathConfs hs (s_calls st) ?B (s_state st)"
        using pathConfs_sub [of "bits b" s'] b(3) ein(2) by blast
      ultimately have "\<not> good hs (bits b) s'" using inv by (auto simp: searchInv_def cacheOK_def)
      with e(3,4) hs b(3) show ?thesis by (auto simp: explored_snoc)
    qed (use e(3,4) hs in \<open>auto simp: explored_snoc\<close>)
    from search_advance [OF wf inv e(1,2,3,5) this refl] show ?thesis
      using False more(2) run nd e(2) hs b(1) by (auto simp: code)
  qed
qed

lemma search_round:
  assumes wf: "wf_hist hs" and link: "linkOK step hs H0" and inv: "searchInv hs H0 r k st" and cap: "h_n hs \<le> 64 * k"
  shows "\<exists>st' again. searchStep step (=) kill (Some r) st = Some (st', again) \<and>
     (if again then searchInv hs H0 r k st' \<and> searchRank hs k st' < searchRank hs k st else searchPost hs kill st')"
proof -
  let ?B = "bits (s_linearized st)"
  have l: "linked (s_heap st) ([] @ r # remaining hs ?B)" and st: "stable H0 (s_heap st)"
    using inv by (simp_all add: searchInv_def)
  have r: "r < length (s_heap st)" using l by (simp add: linked_def)
  note nx = linked_next [OF l]
  have rep: "stackRep hs H0 r (s_calls st) ?B (s_state st) (s_heap st)" using inv by (simp add: searchInv_def)
  consider "remaining hs ?B = []" | "remaining hs ?B \<noteq> []" "kill (s_round st)"
    | us e vs where "remaining hs ?B = us @ e # vs" "s_entry st = Some e" "explored hs ?B (s_state st) us"
        "e \<in> set (h_list hs)" "nd_next (s_heap st ! e) = (case vs of [] \<Rightarrow> None | b # _ \<Rightarrow> Some b)"
        "\<not> kill (s_round st)" "nd_next (s_heap st ! r) \<noteq> None"
  proof (cases "remaining hs ?B = [] \<or> kill (s_round st)")
    case True
    then show ?thesis using that(1,2) by blast
  next
    case False
    then have ne: "remaining hs ?B \<noteq> []" "\<not> kill (s_round st)" by simp_all
    then have "nd_next (s_heap st ! r) \<noteq> None" using nx by (auto split: list.splits)
    with searchInv_entry [OF inv ne(1)] that(3) ne(2) show ?thesis by metis
  qed
  then show ?thesis
  proof cases
    case 1
    have "good hs {} (h_init hs)" by (rule stack_good [OF rep good_done]) (use 1 remaining_empty [OF wf] in simp)
    then show ?thesis using nx 1 r by (auto simp: searchStep_def deref_Some searchPost_def)
  next
    case 2
    then show ?thesis using nx r by (auto simp: searchStep_def deref_Some searchPost_def split: list.splits)
  next
    case (3 us e vs)
    show ?thesis
    proof (cases "h_call hs e")
      case True
      from search_call [where kill = kill, OF wf link inv cap 3(1,2) this 3(3,5,6) r 3(7)] show ?thesis by auto
    next
      case ret: False
      have lt: "e < length (s_heap st)" "nd_match (s_heap st ! e) = None"
        using linkOK_stable(1,2) [OF link st wf 3(4)] ret by auto
      note code = searchStep_def Let_def deref_Some [OF r] deref_Some [OF lt(1)]
      show ?thesis
      proof (cases "s_calls st")
        case Nil
        then have "\<not> good hs {} (h_init hs)" using dead_end [OF wf 3(1) ret 3(3)] rep by simp
        then show ?thesis using 3 lt(2) Nil by (auto simp: code searchPost_def)
      next
        case (Cons p calls)
        obtain q s' where p: "p = (q, s')" by (cases p)
        obtain c lin heap where
          c: "q = Some c" "c < length (s_heap st)" "nd_id (s_heap st ! c) = h_id hs c"
            "bs_clear (s_linearized st) (h_id hs c) = Some lin" "unlift (s_heap st) q = Some heap" "c < length heap"
            "\<And>st' i. st' = st\<lparr>s_round := i, s_state := s', s_linearized := lin, s_calls := calls, s_heap := heap,
              s_entry := nd_next (heap ! c)\<rparr> \<Longrightarrow> searchInv hs H0 r k st' \<and> searchRank hs k st' < searchRank hs k st"
          by (elim search_pop [OF wf link inv cap 3(1) ret 3(3) Cons [unfolded p]])
        define st' where "st' = st\<lparr>s_round := s_round st + 1, s_state := s', s_linearized := lin, s_calls := calls,
          s_heap := heap, s_entry := nd_next (heap ! c)\<rparr>"
        have "searchStep step (=) kill (Some r) st = Some (st', True)"
          using 3(2,6,7) lt(2) c(1-6) by (simp add: code deref_Some Cons p st'_def)
        with c(7) [OF st'_def] show ?thesis by (intro exI [of _ st'] exI [of _ True]) simp
      qed
    qed
  qed
qed

text \<open>The search ends, and its rank bounds the number of rounds.\<close>

interpretation search: ranked_loop
  "searchStep step (=) kill (Some r)"
  "\<lambda>st. wf_hist hs \<and> linkOK step hs H0 \<and> h_n hs \<le> 64 * k \<and> searchInv hs H0 r k st"
  "searchRank hs k" "searchPost hs kill" for step kill r hs H0 k
proof unfold_locales
  fix s assume a: "wf_hist hs \<and> linkOK step hs H0 \<and> h_n hs \<le> 64 * k \<and> searchInv hs H0 r k s"
  then obtain s' again where "searchStep step (=) kill (Some r) s = Some (s', again)"
    "if again then searchInv hs H0 r k s' \<and> searchRank hs k s' < searchRank hs k s else searchPost hs kill s'"
    using search_round [of hs step H0 r k s kill] by blast
  with a show "\<exists>s' again. searchStep step (=) kill (Some r) s = Some (s', again) \<and>
     (if again then (wf_hist hs \<and> linkOK step hs H0 \<and> h_n hs \<le> 64 * k \<and> searchInv hs H0 r k s')
        \<and> searchRank hs k s' < searchRank hs k s else searchPost hs kill s')"
    by (intro exI [of _ s'] exI [of _ again]) (cases again; simp)
qed

end
