(* ===== verification/Lin_Check.thy ===== *)
theory Lin_Check
  imports Lin_Search
begin

text \<open>
  What the linearizability checker decides.  A list of entries with one call and one later return for
  each operation is linearizable when the operations can be put in an order that keeps every operation
  which returned before another was called in front of it, and in which the model accepts every step.
  \<open>checkSingle\<close> returns exactly whether there is such an order, and \<open>CheckOperations\<close> decides the same
  of the recorded operations of every partition.
\<close>

section \<open>Linearizability\<close>

definition callPos :: "'v lentry list \<Rightarrow> nat \<Rightarrow> nat" where
  "callPos es i = length (takeWhile (\<lambda>e. \<not> (le_kind e = callEntry \<and> le_id e = i)) es)"

definition retPos :: "'v lentry list \<Rightarrow> nat \<Rightarrow> nat" where
  "retPos es i = length (takeWhile (\<lambda>e. \<not> (le_kind e = returnEntry \<and> le_id e = i)) es)"

definition inputOf :: "'v lentry list \<Rightarrow> nat \<Rightarrow> 'v" where
  "inputOf es i = le_value (es ! callPos es i)"

definition outputOf :: "'v lentry list \<Rightarrow> nat \<Rightarrow> 'v" where
  "outputOf es i = le_value (es ! retPos es i)"

text \<open>Running operations one after the other, given their inputs and outputs.\<close>

fun legal :: "('s \<Rightarrow> 'v \<Rightarrow> 'v \<Rightarrow> (bool \<times> 's) option) \<Rightarrow> (nat \<Rightarrow> 'v) \<Rightarrow> (nat \<Rightarrow> 'v) \<Rightarrow> 's \<Rightarrow> nat list \<Rightarrow> bool" where
  "legal step inp out s [] = True"
| "legal step inp out s (i # is) =
     (case step s (inp i) (out i) of None \<Rightarrow> False | Some (ok, s') \<Rightarrow> ok \<and> legal step inp out s' is)"

text \<open>An order of operations in which none comes after one that was called when it had returned.\<close>

definition realTime :: "(nat \<Rightarrow> nat \<Rightarrow> bool) \<Rightarrow> nat set \<Rightarrow> nat list \<Rightarrow> bool" where
  "realTime returnsBefore S order \<longleftrightarrow> distinct order \<and> set order = S
     \<and> sorted_wrt (\<lambda>i j. \<not> returnsBefore j i) order"

definition linearizable :: "('s \<Rightarrow> 'v \<Rightarrow> 'v \<Rightarrow> (bool \<times> 's) option) \<Rightarrow> 's \<Rightarrow> nat \<Rightarrow> 'v lentry list \<Rightarrow> bool" where
  "linearizable step init n es \<longleftrightarrow>
     (\<exists>order. realTime (\<lambda>j i. retPos es j < callPos es i) {..<n} order
        \<and> legal step (inputOf es) (outputOf es) init order)"

definition wfEntries :: "nat \<Rightarrow> 'v lentry list \<Rightarrow> bool" where
  "wfEntries n es \<longleftrightarrow> (\<forall>e \<in> set es. le_id e < n)
     \<and> (\<forall>i < n. map le_kind (filter (\<lambda>e. le_id e = i) es) = [callEntry, returnEntry])"

section \<open>Positions\<close>

lemma takeWhile_pos:
  assumes "p < length xs" "Q (xs ! p)" "\<And>j. j < p \<Longrightarrow> \<not> Q (xs ! j)"
  shows "length (takeWhile (\<lambda>e. \<not> Q e) xs) = p"
proof -
  have "takeWhile (\<lambda>e. \<not> Q e) xs = take p xs" by (rule takeWhile_eq_take_P_nth) (use assms in auto)
  with assms(1) show ?thesis by simp
qed

text \<open>The two entries of an operation.\<close>

lemma wfEntries_pos:
  assumes wf: "wfEntries n es" and i: "i < n"
  shows "callPos es i < retPos es i" "retPos es i < length es"
    "le_kind (es ! callPos es i) = callEntry" "le_kind (es ! retPos es i) = returnEntry"
    "j < length es \<Longrightarrow> le_id (es ! j) = i \<longleftrightarrow> j = callPos es i \<or> j = retPos es i"
proof -
  let ?P = "\<lambda>e. le_id e = i"
  have "map le_kind (filter ?P es) = [callEntry, returnEntry]" using wf i by (simp add: wfEntries_def)
  then obtain c r where f: "filter ?P es = [c, r]" and k: "le_kind c = callEntry" "le_kind r = returnEntry"
    by (auto simp: map_eq_Cons_conv)
  from filter_eq_ConsD [OF f] obtain us vs' where
    d1: "es = us @ c # vs'" "\<forall>u \<in> set us. \<not> ?P u" "?P c" "filter ?P vs' = [r]" by auto
  from filter_eq_ConsD [OF d1(4)] obtain vs ws where d2: "vs' = vs @ r # ws" "\<forall>u \<in> set vs. \<not> ?P u" "?P r" "filter ?P ws = []"
    by auto
  define p where "p = length us"
  define q where "q = Suc (length us + length vs)"
  have es: "es = us @ c # vs @ r # ws" using d1(1) d2(1) by simp
  have pq: "p < q" "q < length es" "es ! p = c" "es ! q = r" by (simp_all add: es p_def q_def nth_append)
  have all: "?P (es ! j) \<longleftrightarrow> j = p \<or> j = q" if j: "j < length es" for j
  proof -
    consider "j < p" | "j = p" | "p < j" "j < q" | "j = q" | "q < j" by linarith
    then show ?thesis
    proof cases
      case 1
      then show ?thesis using d1(2) pq(1) by (simp add: es p_def nth_append)
    next
      case 3
      moreover have "es = (us @ [c]) @ vs @ r # ws" by (simp add: es)
      ultimately have "es ! j = vs ! (j - Suc p)" "j - Suc p < length vs"
        using p_def q_def by (auto simp only: nth_append length_append list.size) auto
      then show ?thesis using d2(2) 3 by simp
    next
      case 5
      have "es = (us @ c # vs @ [r]) @ ws" by (simp add: es)
      moreover have "length (us @ c # vs @ [r]) = Suc q" by (simp add: q_def)
      ultimately have "es ! j = ws ! (j - Suc q)" "j - Suc q < length ws"
        using j 5 by (simp_all only: nth_append) auto
      then show ?thesis using d2(4) 5 pq(1) by (simp add: filter_empty_conv)
    qed (use pq d1(3) d2(3) in auto)
  qed
  have "callPos es i = p" unfolding callPos_def
  proof (rule takeWhile_pos)
    fix j assume "j < p"
    then show "\<not> (le_kind (es ! j) = callEntry \<and> le_id (es ! j) = i)" using all [of j] pq(1,2) by auto
  qed (use pq k d1(3) in auto)
  moreover have "retPos es i = q" unfolding retPos_def
  proof (rule takeWhile_pos)
    fix j assume "j < q"
    then show "\<not> (le_kind (es ! j) = returnEntry \<and> le_id (es ! j) = i)"
      using all [of j] pq k by (cases "j = p") auto
  qed (use pq k d2(3) in auto)
  ultimately show "callPos es i < retPos es i" "retPos es i < length es"
    "le_kind (es ! callPos es i) = callEntry" "le_kind (es ! retPos es i) = returnEntry"
    "j < length es \<Longrightarrow> le_id (es ! j) = i \<longleftrightarrow> j = callPos es i \<or> j = retPos es i"
    using pq k all by auto
qed

lemma wfEntries_at:
  assumes "wfEntries n es" "j < length es"
  shows "le_id (es ! j) < n" "j = (if le_kind (es ! j) = callEntry then callPos es (le_id (es ! j)) else retPos es (le_id (es ! j)))"
proof -
  show id: "le_id (es ! j) < n" using assms by (simp add: wfEntries_def)
  from wfEntries_pos(3,4) [OF assms(1) this] wfEntries_pos(5) [OF assms(1) this assms(2)]
  show "j = (if le_kind (es ! j) = callEntry then callPos es (le_id (es ! j)) else retPos es (le_id (es ! j)))"
    by auto
qed

lemma wfEntries_length:
  assumes "wfEntries n es"
  shows "length es = 2 * n"
proof -
  have split: "length xs = (\<Sum>i < n. length (filter (\<lambda>e. le_id e = i) xs))" if "\<forall>e \<in> set xs. le_id e < n" for xs :: "'a lentry list"
    using that
  proof (induction xs)
    case (Cons e xs)
    have "(\<Sum>i < n. length (filter (\<lambda>e. le_id e = i) (e # xs)))
      = (\<Sum>i < n. (if le_id e = i then 1 else 0) + length (filter (\<lambda>e. le_id e = i) xs))"
      by (intro sum.cong refl) simp
    with Cons show ?case by (simp add: sum.distrib)
  qed simp
  have "length (filter (\<lambda>e. le_id e = i) es) = 2" if "i < n" for i
  proof -
    have "map le_kind (filter (\<lambda>e. le_id e = i) es) = [callEntry, returnEntry]"
      using assms that by (simp add: wfEntries_def)
    from arg_cong [OF this, of length] show ?thesis by simp
  qed
  then have "(\<Sum>i < n. length (filter (\<lambda>e. le_id e = i) es)) = (\<Sum>i < n. 2)" by (intro sum.cong) auto
  with split [of es] assms show ?thesis by (simp add: wfEntries_def)
qed

section \<open>The history of a list of entries\<close>

text \<open>The entry at an address.\<close>

abbreviation atAddr :: "'v lentry list \<Rightarrow> nat \<Rightarrow> 'v lentry" where
  "atAddr es a \<equiv> es ! (length es - 1 - a)"

definition histOf :: "('s \<Rightarrow> 'v \<Rightarrow> 'v \<Rightarrow> (bool \<times> 's) option) \<Rightarrow> 's \<Rightarrow> nat \<Rightarrow> 'v lentry list \<Rightarrow> 's hist" where
  "histOf step init n es = \<lparr>
     h_list = addrs (length es),
     h_call = (\<lambda>a. le_kind (atAddr es a) = callEntry),
     h_mt = (\<lambda>a. length es - 1 - retPos es (le_id (atAddr es a))),
     h_id = (\<lambda>a. le_id (atAddr es a)),
     h_n = n,
     h_step = (\<lambda>s a. the (step s (inputOf es (le_id (atAddr es a))) (outputOf es (le_id (atAddr es a))))),
     h_init = init\<rparr>"

lemma histOf_simps [simp]:
  "h_list (histOf step init n es) = addrs (length es)"
  "h_call (histOf step init n es) a = (le_kind (atAddr es a) = callEntry)"
  "h_mt (histOf step init n es) a = length es - 1 - retPos es (le_id (atAddr es a))"
  "h_id (histOf step init n es) a = le_id (atAddr es a)"
  "h_n (histOf step init n es) = n"
  "h_step (histOf step init n es) s a
     = the (step s (inputOf es (le_id (atAddr es a))) (outputOf es (le_id (atAddr es a))))"
  "h_init (histOf step init n es) = init"
  by (simp_all add: histOf_def)

lemma addrs_split:
  assumes "c < N"
  shows "addrs N = rev [Suc c..<N] @ c # addrs c"
proof -
  have "[0..<N] = [0..<c] @ [c..<N]" using upt_add_eq_append [of 0 c "N - c"] assms by simp
  with upt_conv_Cons [OF assms] show ?thesis by simp
qed

lemma addrs_split2:
  assumes "m < c" "c < N"
  shows "\<exists>us vs ws. addrs N = us @ c # vs @ m # ws"
  using addrs_split [OF assms(2)] addrs_split [OF assms(1)] by metis

lemma addr_pos: "a < length es \<Longrightarrow> length es - 1 - a < length es"
  "j < length es \<Longrightarrow> length es - 1 - (length es - 1 - j) = j"
  by auto

lemma histOf_call:
  assumes wf: "wfEntries n es" and a: "a < length es" "le_kind (atAddr es a) = callEntry"
  defines "r \<equiv> length es - 1 - retPos es (le_id (atAddr es a))"
  shows "\<exists>us vs ws. addrs (length es) = us @ a # vs @ r # ws"
    "le_kind (atAddr es r) = returnEntry" "le_id (atAddr es r) = le_id (atAddr es a)"
proof -
  let ?i = "le_id (atAddr es a)"
  have i: "?i < n" "length es - 1 - a = callPos es ?i" using wfEntries_at [OF wf addr_pos(1) [OF a(1)]] a(2) by auto
  have q: "callPos es ?i < retPos es ?i" "retPos es ?i < length es" "le_kind (es ! retPos es ?i) = returnEntry"
    using wfEntries_pos(1,2,4) [OF wf i(1)] by auto
  have "r < a" using i(2) q(1,2) a(1) unfolding r_def by linarith
  then show "\<exists>us vs ws. addrs (length es) = us @ a # vs @ r # ws" by (rule addrs_split2) (rule a(1))
  have "atAddr es r = es ! retPos es ?i" unfolding r_def by (simp only: addr_pos(2) [OF q(2)])
  then show "le_kind (atAddr es r) = returnEntry" "le_id (atAddr es r) = ?i"
    using q(3) wfEntries_pos(5) [OF wf i(1) q(2)] by simp_all
qed

lemma histOf_ret:
  assumes wf: "wfEntries n es" and a: "a < length es" "le_kind (atAddr es a) \<noteq> callEntry"
  shows "\<exists>c < length es. le_kind (atAddr es c) = callEntry \<and> a = length es - 1 - retPos es (le_id (atAddr es c))"
proof -
  let ?i = "le_id (atAddr es a)"
  have i: "?i < n" "length es - 1 - a = retPos es ?i" using wfEntries_at [OF wf addr_pos(1) [OF a(1)]] a(2) by auto
  have c: "callPos es ?i < length es" "le_kind (es ! callPos es ?i) = callEntry"
    using wfEntries_pos(1,2,3) [OF wf i(1)] by auto
  moreover have "le_id (es ! callPos es ?i) = ?i" using wfEntries_pos(5) [OF wf i(1) c(1)] by simp
  ultimately show ?thesis using addr_pos(2) [OF c(1)] i(2) a(1)
    by (intro exI [of _ "length es - 1 - callPos es ?i"]) auto
qed

lemma histOf_inj:
  assumes wf: "wfEntries n es"
  shows "inj_on (\<lambda>a. le_id (atAddr es a)) {a \<in> {..<length es}. le_kind (atAddr es a) = callEntry}"
proof (rule inj_onI)
  let ?S = "{a \<in> {..<length es}. le_kind (atAddr es a) = callEntry}"
  fix a b assume "a \<in> ?S" "b \<in> ?S" "le_id (atAddr es a) = le_id (atAddr es b)"
  then have "length es - 1 - a = length es - 1 - b" "a < length es" "b < length es"
    using wfEntries_at(2) [OF wf addr_pos(1) [of a]] wfEntries_at(2) [OF wf addr_pos(1) [of b]] by auto
  then show "a = b" by linarith
qed

lemma histOf_ids:
  assumes wf: "wfEntries n es"
  shows "(\<lambda>a. le_id (atAddr es a)) ` {..<length es} = {..<n}"
proof (intro equalityI subsetI)
  fix i assume "i \<in> (\<lambda>a. le_id (atAddr es a)) ` {..<length es}"
  then show "i \<in> {..<n}" using wfEntries_at(1) [OF wf] addr_pos(1) by auto
next
  fix i assume "i \<in> {..<n}"
  then have "retPos es i < length es" "le_id (es ! retPos es i) = i" using wfEntries_pos(2,5) [OF wf, of i] by auto
  then show "i \<in> (\<lambda>a. le_id (atAddr es a)) ` {..<length es}" using addr_pos(2) [of "retPos es i" es]
    by (intro image_eqI [of _ _ "length es - 1 - retPos es i"]) auto
qed

lemma wf_histOf:
  assumes wf: "wfEntries n es"
  shows "wf_hist (histOf step init n es)"
proof -
  have mem: "set (addrs (length es)) = {..<length es}" by auto
  show ?thesis
    unfolding wf_hist_def histOf_simps mem
  proof (intro conjI ballI impI)
    fix a assume "a \<in> {..<length es}" "le_kind (atAddr es a) = callEntry"
    with histOf_call [OF wf, of a]
    show "\<exists>us vs ws. addrs (length es) = us @ a # vs @ (length es - 1 - retPos es (le_id (atAddr es a))) # ws"
      "le_kind (atAddr es (length es - 1 - retPos es (le_id (atAddr es a)))) \<noteq> callEntry"
      "le_id (atAddr es (length es - 1 - retPos es (le_id (atAddr es a)))) = le_id (atAddr es a)" by simp_all
  next
    fix a assume "a \<in> {..<length es}" "le_kind (atAddr es a) \<noteq> callEntry"
    with histOf_ret [OF wf, of a] show "\<exists>c \<in> {..<length es}. le_kind (atAddr es c) = callEntry
        \<and> a = length es - 1 - retPos es (le_id (atAddr es c))" by blast
  qed (use histOf_inj [OF wf] histOf_ids [OF wf] in simp_all)
qed

section \<open>Candidates\<close>

lemma candidate_split:
  assumes "wf_hist hs" "remaining hs B = us @ c # vs"
  shows "candidate hs B c \<longleftrightarrow> h_call hs c \<and> (\<forall>u \<in> set us. h_call hs u)"
proof -
  have "us' = us" if "remaining hs B = us' @ c # vs'" for us' vs'
    using split_unique [of us' c vs' us vs] remaining_distinct [OF assms(1), of B] assms(2) that by simp
  then show ?thesis using assms(2) unfolding candidate_def by blast
qed

lemma candidate_histOf:
  assumes wf: "wfEntries n es" and i: "i < n"
  shows "candidate (histOf step init n es) B (length es - 1 - callPos es i)
     \<longleftrightarrow> i \<notin> B \<and> (\<forall>j < n. j \<notin> B \<longrightarrow> \<not> retPos es j < callPos es i)"
proof -
  let ?h = "histOf step init n es" and ?N = "length es"
  let ?c = "?N - 1 - callPos es i"
  note w = wf_histOf [OF wf, of step init]
  have p: "callPos es i < ?N" "le_kind (es ! callPos es i) = callEntry" "le_id (es ! callPos es i) = i"
    using wfEntries_pos(1,2,3) [OF wf i] wfEntries_pos(5) [OF wf i, of "callPos es i"] by auto
  have c: "?c < ?N" "atAddr es ?c = es ! callPos es i" using p(1) addr_pos(2) [OF p(1)] by auto
  have rem: "remaining ?h B = filter (\<lambda>a. le_id (atAddr es a) \<notin> B) (rev [Suc ?c..<?N]) @ ?c #
      filter (\<lambda>a. le_id (atAddr es a) \<notin> B) (addrs ?c)" if "i \<notin> B"
    using c p(3) that unfolding remaining_def histOf_simps addrs_split [OF c(1)] by simp
  have "candidate ?h B ?c \<longleftrightarrow> i \<notin> B \<and> (\<forall>a \<in> {Suc ?c..<?N}. le_id (atAddr es a) \<notin> B \<longrightarrow> le_kind (atAddr es a) = callEntry)"
  proof (cases "i \<in> B")
    case True
    then have "?c \<notin> set (remaining ?h B)" using c p(3) by (simp add: remaining_def)
    with True show ?thesis by (auto simp: candidate_def)
  next
    case False
    from candidate_split [OF w rem [OF this]] False c p(2) show ?thesis by auto
  qed
  also have "(\<forall>a \<in> {Suc ?c..<?N}. le_id (atAddr es a) \<notin> B \<longrightarrow> le_kind (atAddr es a) = callEntry)
      \<longleftrightarrow> (\<forall>j < n. j \<notin> B \<longrightarrow> \<not> retPos es j < callPos es i)"
  proof (intro iffI allI ballI impI notI)
    fix j assume all: "\<forall>a \<in> {Suc ?c..<?N}. le_id (atAddr es a) \<notin> B \<longrightarrow> le_kind (atAddr es a) = callEntry"
      and j: "j < n" "j \<notin> B" "retPos es j < callPos es i"
    have r: "retPos es j < ?N" "le_kind (es ! retPos es j) = returnEntry" "le_id (es ! retPos es j) = j"
      using wfEntries_pos(2,4) [OF wf j(1)] wfEntries_pos(5) [OF wf j(1), of "retPos es j"] by auto
    have "?N - 1 - retPos es j \<in> {Suc ?c..<?N}" using j(3) p(1) by auto
    from bspec [OF all this] j(2) r(2,3) show False unfolding addr_pos(2) [OF r(1)] by simp
  next
    fix a assume all: "\<forall>j < n. j \<notin> B \<longrightarrow> \<not> retPos es j < callPos es i"
      and a: "a \<in> {Suc ?c..<?N}" "le_id (atAddr es a) \<notin> B"
    have lt: "a < ?N" "?N - 1 - a < callPos es i" using a(1) p(1) by auto
    from wfEntries_at [OF wf addr_pos(1) [OF lt(1)]] all a(2) lt(2) show "le_kind (atAddr es a) = callEntry"
      by (metis (full_types))
  qed
  finally show ?thesis .
qed

section \<open>A path that succeeds is a linearization\<close>

definition total :: "('s \<Rightarrow> 'v \<Rightarrow> 'v \<Rightarrow> (bool \<times> 's) option) \<Rightarrow> nat \<Rightarrow> 'v lentry list \<Rightarrow> bool" where
  "total step n es \<longleftrightarrow> (\<forall>i < n. \<forall>s. step s (inputOf es i) (outputOf es i) \<noteq> None)"

abbreviation ordersOf :: "'v lentry list \<Rightarrow> nat set \<Rightarrow> nat list \<Rightarrow> bool" where
  "ordersOf es \<equiv> realTime (\<lambda>j i. retPos es j < callPos es i)"

lemma good_order:
  assumes wf: "wfEntries n es" and tot: "total step n es"
  shows "good (histOf step init n es) B s \<Longrightarrow>
     \<exists>order. ordersOf es ({..<n} - B) order \<and> legal step (inputOf es) (outputOf es) s order"
proof (induction rule: good.induct)
  case (good_done B s)
  then have "ordersOf es ({..<n} - B) []" by (auto simp: realTime_def)
  then show ?case by (intro exI [of _ "[]"]) simp
next
  case (good_step B c s s')
  let ?i = "le_id (atAddr es c)"
  from good_step.IH obtain order where o: "ordersOf es ({..<n} - insert ?i B) order"
    "legal step (inputOf es) (outputOf es) s' order" by auto
  have c: "c < length es" "le_kind (atAddr es c) = callEntry"
    using good_step.hyps(1) remaining_set [of c "histOf step init n es" B] by (auto simp: candidate_def)
  have i: "?i < n" "length es - 1 - c = callPos es ?i" using wfEntries_at [OF wf addr_pos(1) [OF c(1)]] c(2) by auto
  then have "c = length es - 1 - callPos es ?i" using c(1) by linarith
  with good_step.hyps(1) have "candidate (histOf step init n es) B (length es - 1 - callPos es ?i)" by simp
  from this [unfolded candidate_histOf [OF wf i(1)]]
  have can: "?i \<notin> B" "\<forall>j < n. j \<notin> B \<longrightarrow> \<not> retPos es j < callPos es ?i" by auto
  have "ordersOf es ({..<n} - B) (?i # order)" using o(1) can i(1) by (auto simp: realTime_def)
  moreover have "step s (inputOf es ?i) (outputOf es ?i) = Some (True, s')"
    using good_step.hyps(2) tot i(1) unfolding total_def histOf_simps by (metis option.collapse)
  then have "legal step (inputOf es) (outputOf es) s (?i # order)" using o(2) by simp
  ultimately show ?case by blast
qed

lemma order_good:
  assumes wf: "wfEntries n es"
  shows "ordersOf es ({..<n} - B) order \<Longrightarrow> legal step (inputOf es) (outputOf es) s order
     \<Longrightarrow> good (histOf step init n es) B s"
proof (induction order arbitrary: B s)
  case Nil
  then show ?case by (intro good_done) (auto simp: realTime_def)
next
  case (Cons i order)
  let ?h = "histOf step init n es" and ?c = "length es - 1 - callPos es i"
  from Cons.prems(1) have i: "i < n" "i \<notin> B" and o: "ordersOf es ({..<n} - insert i B) order"
    and before: "\<forall>j \<in> {..<n} - insert i B. \<not> retPos es j < callPos es i" by (auto simp: realTime_def)
  have "\<not> retPos es i < callPos es i" using wfEntries_pos(1) [OF wf i(1)] by simp
  then have "candidate ?h B ?c" unfolding candidate_histOf [OF wf i(1)] using i(2) before by blast
  moreover have "callPos es i < length es" using wfEntries_pos(1,2) [OF wf i(1)] by simp
  then have id: "atAddr es ?c = es ! callPos es i" "le_id (es ! callPos es i) = i"
    using addr_pos(2) [of "callPos es i" es] wfEntries_pos(5) [OF wf i(1), of "callPos es i"] by simp_all
  from Cons.prems(2) obtain s' where s': "step s (inputOf es i) (outputOf es i) = Some (True, s')"
    "legal step (inputOf es) (outputOf es) s' order" by (auto split: option.splits)
  moreover have "h_step ?h s ?c = (True, s')" "h_id ?h ?c = i" unfolding histOf_simps id using s'(1) by simp_all
  ultimately show ?case using good_step Cons.IH [OF o s'(2)] by metis
qed

lemma good_linearizable:
  assumes "wfEntries n es" "total step n es"
  shows "good (histOf step init n es) {} init \<longleftrightarrow> linearizable step init n es"
  unfolding linearizable_def using good_order [OF assms, of init "{}" init] order_good [OF assms(1), of "{}"]
  by auto

section \<open>checkSingle\<close>

lemma represents_suffix:
  "represents h (us @ e # vs) \<Longrightarrow> length vs < length h \<and> nd_value (h ! length vs) = Some (le_value e)
     \<and> nd_id (h ! length vs) = le_id e
     \<and> nd_match (h ! length vs) = (if le_kind e = returnEntry then None else retAddr vs (le_id e))"
  by (induction us) auto

lemma represents_nth:
  assumes "represents h es" "j < length es"
  shows "length es - 1 - j < length h" "nd_value (h ! (length es - 1 - j)) = Some (le_value (es ! j))"
    "nd_id (h ! (length es - 1 - j)) = le_id (es ! j)"
    "nd_match (h ! (length es - 1 - j))
       = (if le_kind (es ! j) = returnEntry then None else retAddr (drop (Suc j) es) (le_id (es ! j)))"
proof -
  have "represents h (take j es @ es ! j # drop (Suc j) es)" using assms id_take_nth_drop [of j es] by simp
  from represents_suffix [OF this] assms(2)
  show "length es - 1 - j < length h" "nd_value (h ! (length es - 1 - j)) = Some (le_value (es ! j))"
    "nd_id (h ! (length es - 1 - j)) = le_id (es ! j)"
    "nd_match (h ! (length es - 1 - j))
       = (if le_kind (es ! j) = returnEntry then None else retAddr (drop (Suc j) es) (le_id (es ! j)))" by simp_all
qed

lemma retAddr_at:
  assumes "q < length es" "le_kind (es ! q) = returnEntry" "le_id (es ! q) = i"
    and "\<And>p. p < length es \<Longrightarrow> le_kind (es ! p) = returnEntry \<Longrightarrow> le_id (es ! p) = i \<Longrightarrow> p = q"
  shows "retAddr es i = Some (length es - 1 - q)"
  using assms
proof (induction es arbitrary: q)
  case (Cons e es)
  show ?case
  proof (cases q)
    case 0
    with Cons.prems(2,3) show ?thesis by simp
  next
    case (Suc q')
    have "\<not> (le_kind e = returnEntry \<and> le_id e = i)" using Cons.prems(4) [of 0] Suc by auto
    moreover have "retAddr es i = Some (length es - 1 - q')"
      by (rule Cons.IH) (use Cons.prems Suc in \<open>force+\<close>)
    ultimately show ?thesis using Suc by auto
  qed
qed simp

lemma retAddr_match:
  assumes wf: "wfEntries n es" and i: "i < n"
  shows "retAddr (drop (Suc (callPos es i)) es) i = Some (length es - 1 - retPos es i)"
proof -
  let ?ds = "drop (Suc (callPos es i)) es" and ?q = "retPos es i - Suc (callPos es i)"
  note p = wfEntries_pos [OF wf i]
  have q: "?q < length ?ds" "?ds ! ?q = es ! retPos es i" using p(1,2) by (auto simp: Suc_le_eq)
  have "retAddr ?ds i = Some (length ?ds - 1 - ?q)"
  proof (rule retAddr_at [OF q(1)])
    fix x assume x: "x < length ?ds" "le_kind (?ds ! x) = returnEntry" "le_id (?ds ! x) = i"
    then have "Suc (callPos es i) + x < length es" by simp
    from wfEntries_at(2) [OF wf this] x have "Suc (callPos es i) + x = retPos es i" by simp
    then show "x = ?q" by simp
  qed (use q p(4) p(5) [OF p(2)] in simp_all)
  moreover have "length ?ds - 1 - ?q = length es - 1 - retPos es i" using p(1,2) by simp
  ultimately show ?thesis by simp
qed

text \<open>The nodes that \<open>makeLinkedEntries\<close> builds, with the head of \<open>checkSingle\<close>, stand for the history.\<close>

lemma linkOK_histOf:
  assumes wf: "wfEntries n es" and tot: "total step n es" and rep: "represents H0 es"
  shows "linkOK step (histOf step init n es) H0"
  unfolding linkOK_def
proof (rule ballI)
  fix a assume "a \<in> set (h_list (histOf step init n es))"
  then have a: "a < length es" by simp
  let ?j = "length es - 1 - a"
  have j: "?j < length es" "length es - 1 - ?j = a" using a by auto
  note nd = represents_nth [OF rep j(1), unfolded j(2)]
  let ?i = "le_id (es ! ?j)"
  have "nd_match (H0 ! a) = Some (length es - 1 - retPos es ?i) \<and> nd_value (H0 ! a) = Some (inputOf es ?i)
      \<and> nd_value (H0 ! (length es - 1 - retPos es ?i)) = Some (outputOf es ?i)
      \<and> (\<forall>s. step s (inputOf es ?i) (outputOf es ?i) \<noteq> None)" if c: "le_kind (es ! ?j) = callEntry"
  proof -
    have i: "?i < n" "?j = callPos es ?i" using wfEntries_at [OF wf j(1)] c by auto
    have "nd_match (H0 ! a) = Some (length es - 1 - retPos es ?i)"
      using nd(4) c retAddr_match [OF wf i(1), folded i(2)] by simp
    moreover have "nd_value (H0 ! a) = Some (inputOf es ?i)" unfolding inputOf_def i(2) [symmetric] by (rule nd(2))
    moreover have "nd_value (H0 ! (length es - 1 - retPos es ?i)) = Some (outputOf es ?i)"
      unfolding outputOf_def by (rule represents_nth(2) [OF rep wfEntries_pos(2) [OF wf i(1)]])
    ultimately show ?thesis using tot i(1) by (simp only: total_def) simp
  qed
  moreover have "le_kind (es ! ?j) = returnEntry" if "le_kind (es ! ?j) \<noteq> callEntry"
    using that by (cases "le_kind (es ! ?j)") auto
  ultimately show "a < length H0 \<and> (if h_call (histOf step init n es) a
      then nd_match (H0 ! a) = Some (h_mt (histOf step init n es) a) \<and> nd_id (H0 ! a) = h_id (histOf step init n es) a
        \<and> (\<exists>inp out. nd_value (H0 ! a) = Some inp \<and> nd_value (H0 ! h_mt (histOf step init n es) a) = Some out
             \<and> (\<forall>s. step s inp out = Some (h_step (histOf step init n es) s a)))
      else nd_match (H0 ! a) = None)"
    using nd(1,3,4) by auto
qed

text \<open>The list with the head in front, as the search starts.\<close>

lemma makeLinked_start:
  fixes es :: "'v lentry list"
  defines "nd \<equiv> \<lparr>nd_value = None, nd_match = None, nd_id = 2 ^ 64 - 1, nd_next = None, nd_prev = None\<rparr>"
  shows "\<exists>h H0. makeLinkedEntries es = Some (h, firstAddr (length es)) \<and> length h = length es
     \<and> listLength (length h + 1) h (firstAddr (length es)) = Some (length es)
     \<and> insertBefore (h @ [nd]) (Some (length h)) (firstAddr (length es)) = Some H0
     \<and> linked H0 (length es # addrs (length es)) \<and> represents H0 es"
proof -
  obtain h where h: "linkLoop (rev es) ([], None, Map.empty) = Some (h, firstAddr (length es), retAddr es)"
    "length h = length es" "linked h (addrs (length es))" "represents h es"
    "es \<noteq> [] \<longrightarrow> nd_prev (h ! (length es - 1)) = None" using linkLoop_spec [of es] by blast
  have first: "(case addrs (length es) of [] \<Rightarrow> None | a # _ \<Rightarrow> Some a) = firstAddr (length es)"
    by (cases "length es") auto
  from listLength_linked [of h "[]" "addrs (length es)" "length h + 1"] h(2,3)
  have len: "listLength (length h + 1) h (firstAddr (length es)) = Some (length es)" unfolding first by simp
  obtain H0 where H0: "insertBefore (h @ [nd]) (Some (length h)) (firstAddr (length es)) = Some H0"
    "linked H0 (length es # addrs (length es))" "stable (h @ [nd]) H0"
  proof (cases "length es")
    case 0
    then show ?thesis using h(2) by (intro that [of "[nd]"]) (auto simp: insertBefore_def linked_def nd_def)
  next
    case (Suc m)
    then have "linked h (m # addrs m)" "nd_prev (h ! m) = None" "es \<noteq> []" using h(3,5) by auto
    with insert_front [of h m "addrs m" nd] obtain H0 where
      "insertBefore (h @ [nd]) (Some (length h)) (Some m) = Some H0" "linked H0 (length h # m # addrs m)"
      "stable (h @ [nd]) H0" by (auto simp: nd_def)
    with Suc h(2) show ?thesis by (intro that [of H0]) simp_all
  qed
  have "makeLinkedEntries es = Some (h, firstAddr (length es))" using h(1) by (simp add: makeLinkedEntries_def)
  with len H0 h(2) represents_stable [OF h(4) H0(3)] show ?thesis by blast
qed

lemma checkSingle_run:
  assumes wf: "wfEntries n es" and tot: "total step n es"
  shows "\<exists>l N. makeLinkedEntries es = Some l \<and> (\<forall>fuel > N. \<forall>kill. \<exists>b. checkSingle fuel step (=) init l kill = Some b
     \<and> (b \<longrightarrow> linearizable step init n es) \<and> ((\<forall>i. \<not> kill i) \<longrightarrow> b = linearizable step init n es))"
proof -
  let ?hs = "histOf step init n es" and ?r = "length es"
  let ?k = "length (newBitset n)"
  obtain h H0 where m: "makeLinkedEntries es = Some (h, firstAddr (length es))" "length h = length es"
    "listLength (length h + 1) h (firstAddr (length es)) = Some (length es)"
    "insertBefore (h @ [\<lparr>nd_value = None, nd_match = None, nd_id = 2 ^ 64 - 1, nd_next = None, nd_prev = None\<rparr>])
       (Some (length h)) (firstAddr (length es)) = Some H0"
    "linked H0 (length es # addrs (length es))" "represents H0 es" using makeLinked_start [of es] by blast
  define st where "st = \<lparr>s_heap = H0, s_linearized = newBitset n, s_cache = [], s_calls = [], s_state = init,
             s_entry = firstAddr (length es), s_round = 0, s_result = False\<rparr>"
  have rem: "remaining ?hs {} = addrs (length es)" by (simp add: remaining_def)
  have "\<exists>us e vs. addrs (length es) = us @ e # vs \<and> firstAddr (length es) = Some e \<and> explored ?hs {} init us"
    if "addrs (length es) \<noteq> []"
    using that by (intro exI [of _ "[]"] exI [of _ "length es - 1"] exI [of _ "addrs (length es - 1)"])
      (cases "length es"; simp)
  moreover have st: "bits (s_linearized st) = {}" "s_calls st = []" "s_state st = init" "s_heap st = H0"
    "s_entry st = firstAddr (length es)" "s_cache st = []" "length (s_linearized st) = ?k" by (simp_all add: st_def)
  ultimately have "searchInv ?hs H0 ?r ?k st"
    unfolding searchInv_def st rem using m(5) by (simp add: cacheOK_def)
  then have inv: "wf_hist ?hs \<and> linkOK step ?hs H0 \<and> h_n ?hs \<le> 64 * ?k \<and> searchInv ?hs H0 ?r ?k st"
    using wf_histOf [OF wf] linkOK_histOf [OF wf tot m(6)] newBitset_length [of n] by simp
  have code: "checkSingle fuel step (=) init (h, firstAddr (length es)) kill
      = Option.bind (loopn fuel (searchStep step (=) kill (Some ?r)) st) (\<lambda>st. Some (s_result st))" for fuel kill
  proof -
    have "length es div 2 = n" using wfEntries_length [OF wf] by simp
    then show ?thesis
      unfolding checkSingle_def prod.case m(3) bind.bind_lunit Let_def m(4) st_def by (simp only: m(2))
  qed
  have "\<exists>b. checkSingle fuel step (=) init (h, firstAddr (length es)) kill = Some b
     \<and> (b \<longrightarrow> linearizable step init n es) \<and> ((\<forall>i. \<not> kill i) \<longrightarrow> b = linearizable step init n es)"
    if "searchRank ?hs ?k st < fuel" for fuel kill
  proof -
    from search.loop_returns [OF inv that, of kill] obtain st' where
      "loopn fuel (searchStep step (=) kill (Some ?r)) st = Some st'" "searchPost ?hs kill st'" by blast
    then show ?thesis unfolding code searchPost_def using good_linearizable [OF wf tot, of init] by auto
  qed
  with m(1) show ?thesis by blast
qed

end
