(* ===== verification/Lin_Operations.thy ===== *)
theory Lin_Operations
  imports Lin_Check "HOL-Library.Multiset"
begin

text \<open>
  \<open>CheckOperations\<close> on recorded operations.  \<open>linearizableOps\<close> states linearizability of a list of
  operations by their times: an operation whose return is earlier than another's call comes first.
  What the checker uses of \<open>sort.Sort\<close> is that it permutes the entries and leaves them sorted by time
  (\<open>sortsByTime\<close>); a return and a call with the same time are left in either order, so the theorems
  ask that there are none (\<open>timed\<close>).
\<close>

section \<open>Linearizability of recorded operations\<close>

definition linearizableOps :: "('s \<Rightarrow> 'v \<Rightarrow> 'v \<Rightarrow> (bool \<times> 's) option) \<Rightarrow> 's \<Rightarrow> 'v operation list \<Rightarrow> bool" where
  "linearizableOps step init history \<longleftrightarrow>
     (\<exists>order. realTime (\<lambda>j i. Return (history ! j) < Call (history ! i)) {..<length history} order
        \<and> legal step (\<lambda>i. Input (history ! i)) (\<lambda>i. Output (history ! i)) init order)"

definition timed :: "'v operation list \<Rightarrow> bool" where
  "timed history \<longleftrightarrow> (\<forall>a \<in> set history. Call a < Return a \<and> (\<forall>b \<in> set history. Return a \<noteq> Call b))"

definition sortsByTime :: "('v lentry list \<Rightarrow> 'v lentry list) \<Rightarrow> bool" where
  "sortsByTime sort_Sort \<longleftrightarrow> (\<forall>es. mset (sort_Sort es) = mset es \<and> sorted (map le_time (sort_Sort es)))"

section \<open>The entries of a history\<close>

abbreviation callE :: "'v operation list \<Rightarrow> nat \<Rightarrow> nat \<Rightarrow> 'v lentry" where
  "callE history k i \<equiv> \<lparr>le_kind = callEntry, le_value = Input (history ! (i - k)), le_id = i, le_time = Call (history ! (i - k))\<rparr>"

abbreviation retE :: "'v operation list \<Rightarrow> nat \<Rightarrow> nat \<Rightarrow> 'v lentry" where
  "retE history k i \<equiv> \<lparr>le_kind = returnEntry, le_value = Output (history ! (i - k)), le_id = i, le_time = Return (history ! (i - k))\<rparr>"

lemma entriesOf_id:
  "filter (\<lambda>e. le_id e = i) (entriesOf history k)
     = (if k \<le> i \<and> i < k + length history then [callE history k i, retE history k i] else [])"
proof (induction history k rule: entriesOf.induct)
  case (2 elem history k)
  have "Suc k \<le> i \<Longrightarrow> (elem # history) ! (i - k) = history ! (i - Suc k)"
    by (simp add: nth_Cons')
  with 2 show ?case by (cases "i = k") auto
qed simp

lemma entriesOf_in:
  assumes "e \<in> set (entriesOf history 0)"
  shows "le_id e < length history" "e \<in> {callE history 0 (le_id e), retE history 0 (le_id e)}"
proof -
  have "e \<in> set (filter (\<lambda>f. le_id f = le_id e) (entriesOf history 0))" using assms by simp
  then show "le_id e < length history" "e \<in> {callE history 0 (le_id e), retE history 0 (le_id e)}"
    unfolding entriesOf_id by (auto split: if_splits)
qed

lemma makeEntries_in:
  "sortsByTime sort_Sort \<Longrightarrow> set (makeEntries sort_Sort history) = set (entriesOf history 0)"
  unfolding sortsByTime_def makeEntries_def by (metis mset_eq_setD)

text \<open>The two entries of an operation stay in order.\<close>

lemma makeEntries_wf:
  assumes s: "sortsByTime sort_Sort" and t: "timed history"
  shows "wfEntries (length history) (makeEntries sort_Sort history)"
  unfolding wfEntries_def
proof (intro conjI ballI allI impI)
  let ?es = "makeEntries sort_Sort history"
  show "le_id e < length history" if "e \<in> set ?es" for e
    using that entriesOf_in(1) makeEntries_in [OF s] by blast
  fix i assume i: "i < length history"
  let ?f = "filter (\<lambda>e. le_id e = i) ?es"
  have "mset ?f = mset (filter (\<lambda>e. le_id e = i) (entriesOf history 0))"
    using s by (simp add: sortsByTime_def makeEntries_def)
  also have "\<dots> = {#callE history 0 i, retE history 0 i#}" using i by (simp add: entriesOf_id)
  finally have m: "mset ?f = {#callE history 0 i, retE history 0 i#}" .
  from arg_cong [OF this, of size] have "length ?f = 2" by (simp flip: size_mset)
  then obtain a b where f: "?f = [a, b]" by (auto simp: length_Suc_conv numeral_2_eq_2)
  have "a = callE history 0 i \<and> b = retE history 0 i \<or> a = retE history 0 i \<and> b = callE history 0 i"
    using m unfolding f by (auto simp: add_eq_conv_ex)
  moreover have "sorted_wrt (\<lambda>a b. le_time a \<le> le_time b) ?es"
    using s by (simp add: sortsByTime_def makeEntries_def sorted_map)
  then have "sorted_wrt (\<lambda>a b. le_time a \<le> le_time b) ?f" by (rule sorted_wrt_filter)
  then have "le_time a \<le> le_time b" unfolding f by simp
  moreover have "Call (history ! i) < Return (history ! i)" using t i by (simp add: timed_def)
  ultimately have "a = callE history 0 i \<and> b = retE history 0 i" by auto
  then show "map le_kind ?f = [callEntry, returnEntry]" unfolding f by simp
qed

lemma makeEntries_at:
  assumes s: "sortsByTime sort_Sort" and t: "timed history" and i: "i < length history"
  defines "es \<equiv> makeEntries sort_Sort history"
  shows "es ! callPos es i = callE history 0 i" "es ! retPos es i = retE history 0 i"
proof -
  have wf: "wfEntries (length history) es" unfolding es_def by (rule makeEntries_wf [OF s t])
  note p = wfEntries_pos [OF wf i]
  have id: "le_id (es ! callPos es i) = i" "le_id (es ! retPos es i) = i"
    using p(1,2) p(5) [of "callPos es i"] p(5) [of "retPos es i"] by auto
  have "set es = set (entriesOf history 0)" unfolding es_def by (rule makeEntries_in [OF s])
  then have mem: "es ! callPos es i \<in> set (entriesOf history 0)" "es ! retPos es i \<in> set (entriesOf history 0)"
    using nth_mem [of "callPos es i" es] nth_mem [of "retPos es i" es] p(1,2) by simp_all
  from entriesOf_in(2) [OF mem(1), unfolded id] p(3) show "es ! callPos es i = callE history 0 i" by auto
  from entriesOf_in(2) [OF mem(2), unfolded id] p(4) show "es ! retPos es i = retE history 0 i" by auto
qed

text \<open>The order of the entries is the order of the times.\<close>

lemma makeEntries_order:
  assumes s: "sortsByTime sort_Sort" and t: "timed history" and i: "i < length history" and j: "j < length history"
  defines "es \<equiv> makeEntries sort_Sort history"
  shows "retPos es j < callPos es i \<longleftrightarrow> Return (history ! j) < Call (history ! i)"
proof -
  have wf: "wfEntries (length history) es" unfolding es_def by (rule makeEntries_wf [OF s t])
  have pos: "callPos es i < length es" "retPos es j < length es"
    using wfEntries_pos(1,2) [OF wf i] wfEntries_pos(2) [OF wf j] by auto
  have mono: "le_time (es ! p) \<le> le_time (es ! q)" if "p \<le> q" "q < length es" for p q
    using s that sorted_nth_mono [of "map le_time es" p q] by (simp add: sortsByTime_def makeEntries_def es_def)
  have times: "le_time (es ! callPos es i) = Call (history ! i)" "le_time (es ! retPos es j) = Return (history ! j)"
    using makeEntries_at [OF s t] i j by (simp_all add: es_def)
  have "Return (history ! j) \<noteq> Call (history ! i)" using t i j by (simp add: timed_def)
  then show ?thesis
    using mono [of "retPos es j" "callPos es i"] mono [of "callPos es i" "retPos es j"] pos times by linarith
qed

lemma legal_cong:
  "(\<And>i. i \<in> set order \<Longrightarrow> inp i = inp' i \<and> out i = out' i) \<Longrightarrow> legal step inp out s order = legal step inp' out' s order"
  by (induction order arbitrary: s) (auto split: option.splits)

lemma realTime_cong:
  assumes "\<And>i j. i \<in> S \<Longrightarrow> j \<in> S \<Longrightarrow> P j i \<longleftrightarrow> Q j i"
  shows "realTime P S order \<longleftrightarrow> realTime Q S order"
proof -
  have "sorted_wrt (\<lambda>i j. \<not> P j i) order \<longleftrightarrow> sorted_wrt (\<lambda>i j. \<not> Q j i) order" if "set order = S"
    using assms that by (metis (mono_tags, lifting) sorted_wrt_mono_rel)
  then show ?thesis by (auto simp: realTime_def)
qed

lemma linearizable_ops:
  assumes s: "sortsByTime sort_Sort" and t: "timed history"
  shows "linearizable step init (length history) (makeEntries sort_Sort history) = linearizableOps step init history"
proof -
  let ?es = "makeEntries sort_Sort history"
  have order: "realTime (\<lambda>j i. retPos ?es j < callPos ?es i) {..<length history} order
      \<longleftrightarrow> realTime (\<lambda>j i. Return (history ! j) < Call (history ! i)) {..<length history} order" for order
    by (rule realTime_cong) (use makeEntries_order [OF s t] in simp)
  have run: "legal step (inputOf ?es) (outputOf ?es) init order
      = legal step (\<lambda>i. Input (history ! i)) (\<lambda>i. Output (history ! i)) init order"
    if "realTime (\<lambda>j i. Return (history ! j) < Call (history ! i)) {..<length history} order" for order
    using that by (intro legal_cong) (use makeEntries_at [OF s t] in \<open>simp add: realTime_def inputOf_def outputOf_def\<close>)
  show ?thesis unfolding linearizable_def linearizableOps_def order using run by blast
qed

section \<open>Collecting the results\<close>

lemma collect_results:
  "rs \<noteq> [] \<Longrightarrow> got + length rs = parts \<Longrightarrow> collect parts got (map Result rs) = Some (list_all id rs)"
proof (induction rs arbitrary: got)
  case (Cons r rs)
  then show ?case by (cases rs) auto
qed simp

text \<open>An answer \<open>False\<close> is the result of a partition, whatever has arrived and when.\<close>

lemma collect_false: "collect parts got arrivals = Some False \<Longrightarrow> Result False \<in> set arrivals"
  by (induction parts got arrivals rule: collect.induct) (auto split: if_splits)

lemma those_fuel:
  assumes "\<And>p. p \<in> set parts \<Longrightarrow> \<exists>N. \<forall>fuel > N. run fuel p = Some (ok p)"
  shows "\<exists>N. \<forall>fuel > (N::nat). those (map (run fuel) parts) = Some (map ok parts)"
  using assms
proof (induction parts)
  case (Cons p parts)
  then obtain N M where "\<forall>fuel > N. run fuel p = Some (ok p)" "\<forall>fuel > M. those (map (run fuel) parts) = Some (map ok parts)"
    by (metis list.set_intros)
  then show ?case by (intro exI [of _ "max N M"]) auto
qed simp

text \<open>The operations of a history have values that the model's \<open>Step\<close> accepts without a panic.\<close>

definition typedOps :: "('s \<Rightarrow> 'v \<Rightarrow> 'v \<Rightarrow> (bool \<times> 's) option) \<Rightarrow> 'v operation list \<Rightarrow> bool" where
  "typedOps step history \<longleftrightarrow> (\<forall>a \<in> set history. \<forall>s. step s (Input a) (Output a) \<noteq> None)"

lemma typed_total:
  assumes "sortsByTime sort_Sort" "timed history" "typedOps step history"
  shows "total step (length history) (makeEntries sort_Sort history)"
  using makeEntries_at [OF assms(1,2)] assms(3) unfolding total_def inputOf_def outputOf_def typedOps_def
  by (simp add: nth_mem)

lemma check_part:
  assumes "sortsByTime sort_Sort" "timed part" "typedOps step part"
  shows "\<exists>N. \<forall>fuel > N. do { l \<leftarrow> makeLinkedEntries (makeEntries sort_Sort part);
       checkSingle fuel step (=) init l (\<lambda>_. False) } = Some (linearizableOps step init part)"
proof -
  obtain l N where "makeLinkedEntries (makeEntries sort_Sort part) = Some l"
    "\<forall>fuel > N. \<forall>kill. \<exists>b. checkSingle fuel step (=) init l kill = Some b
       \<and> (b \<longrightarrow> linearizable step init (length part) (makeEntries sort_Sort part))
       \<and> ((\<forall>i. \<not> kill i) \<longrightarrow> b = linearizable step init (length part) (makeEntries sort_Sort part))"
    using checkSingle_run [OF makeEntries_wf [OF assms(1,2)] typed_total [OF assms], of init] by blast
  then show ?thesis unfolding linearizable_ops [OF assms(1,2)] by (intro exI [of _ N]) fastforce
qed

lemma check_parts:
  assumes "sortsByTime sort_Sort" "\<And>part. part \<in> set parts \<Longrightarrow> timed part \<and> typedOps (Step m) part"
    and "Partition (fillDefault m) = Some parting" "parting history = Some parts" "Equal (fillDefault m) = Some (=)"
  shows "\<exists>N. \<forall>fuel > N. \<forall>arrive. CheckOperationsTimeout sort_Sort fuel m history arrive
     = collect (length parts) 0 (arrive (map (linearizableOps (Step m) (Init m)) parts))"
proof -
  let ?run = "\<lambda>fuel part. do { l \<leftarrow> makeLinkedEntries (makeEntries sort_Sort part);
       checkSingle fuel (Step m) (=) (Init m) l (\<lambda>_. False) }"
  have "\<exists>N. \<forall>fuel > N. those (map (?run fuel) parts) = Some (map (linearizableOps (Step m) (Init m)) parts)"
  proof (rule those_fuel)
    fix part assume "part \<in> set parts"
    with assms(2) have "timed part" "typedOps (Step m) part" by auto
    then show "\<exists>N. \<forall>fuel > N. ?run fuel part = Some (linearizableOps (Step m) (Init m) part)"
      by (rule check_part [OF assms(1)])
  qed
  then obtain N where N: "\<forall>fuel > N. those (map (?run fuel) parts) = Some (map (linearizableOps (Step m) (Init m)) parts)" ..
  have "Step (fillDefault m) = Step m" "Init (fillDefault m) = Init m" by (simp_all add: fillDefault_def Let_def)
  with N assms(3-5) show ?thesis by (intro exI [of _ N]) (simp add: CheckOperationsTimeout_def Let_def)
qed

section \<open>The key/value histories\<close>

definition keyOf :: "kvio operation \<Rightarrow> string" where
  "keyOf a = (case Input a of KvIn inp \<Rightarrow> ki_Key inp | KvOut _ \<Rightarrow> [])"

definition keyOps :: "kvio operation list \<Rightarrow> string \<Rightarrow> kvio operation list" where
  "keyOps history k = filter (\<lambda>a. keyOf a = k) history"

definition kvTyped :: "kvio operation list \<Rightarrow> bool" where
  "kvTyped history = list_all (\<lambda>a. (case Input a of KvIn _ \<Rightarrow> True | KvOut _ \<Rightarrow> False)
     \<and> (case Output a of KvOut _ \<Rightarrow> True | KvIn _ \<Rightarrow> False)) history"

lemma groupByKey_spec:
  "kvTyped history \<Longrightarrow> \<exists>m'. groupByKey history m = Some m'
     \<and> (\<forall>k. gm_get0 [] m' k = gm_get0 [] m k @ keyOps history k)
     \<and> gm_keys m' = gm_keys m \<union> keyOf ` set history \<and> (gm_wf m \<longrightarrow> gm_wf m')"
proof (induction history arbitrary: m)
  case Nil
  then show ?case by (simp add: keyOps_def)
next
  case (Cons v history)
  then obtain inp where v: "Input v = KvIn inp" "kvTyped history"
    by (cases "Input v") (auto simp: kvTyped_def)
  let ?m = "gm_set (ki_Key inp) (gm_get0 [] m (ki_Key inp) @ [v]) m"
  from Cons.IH [OF v(2), of ?m] obtain m' where m': "groupByKey history ?m = Some m'"
    "\<forall>k. gm_get0 [] m' k = gm_get0 [] ?m k @ keyOps history k" "gm_keys m' = gm_keys ?m \<union> keyOf ` set history"
    "gm_wf ?m \<longrightarrow> gm_wf m'" by blast
  have "\<forall>k. gm_get0 [] m' k = gm_get0 [] m k @ keyOps (v # history) k"
    using m'(2) v(1) by (auto simp: gm_get0_set keyOps_def keyOf_def)
  moreover have "gm_keys m' = gm_keys m \<union> keyOf ` set (v # history)"
    unfolding m'(3) gm_keys_set by (simp add: keyOf_def v(1))
  ultimately show ?case using m'(1,4) v(1) by auto
qed

text \<open>What Go promises of a traversal of a map: each key once.\<close>

definition mapOrder :: "((string, kvio operation list) gomap \<Rightarrow> string list) \<Rightarrow> bool" where
  "mapOrder order \<longleftrightarrow> (\<forall>m. distinct (order m) \<and> set (order m) = gm_keys m)"

lemma kvPartition_spec:
  assumes "kvTyped history" "mapOrder order"
  obtains ks where "kvPartition order history = Some (map (keyOps history) ks)" "distinct ks" "set ks = keyOf ` set history"
proof -
  from groupByKey_spec [OF assms(1), of "[]"] obtain m where m: "groupByKey history [] = Some m"
    "\<forall>k. gm_get0 [] m k = keyOps history k" "gm_keys m = keyOf ` set history" by (auto simp: gm_get0_Nil)
  have "kvPartition order history = Some (map (keyOps history) (order m))"
    using m(1,2) by (simp add: kvPartition_def)
  with that [of "order m"] assms(2) m(3) show thesis by (simp add: mapOrder_def)
qed

end
