(* ===== verification/Lin_Locality.thy ===== *)
theory Lin_Locality
  imports Lin_Operations
begin

text \<open>
  The checker splits a key/value history by key and checks each key alone.  This is sound and complete:
  a history is linearizable for the whole store if and only if its operations on each key are.  From the
  orders for the keys an order for the store is built by giving each operation a point in time, the
  latest call up to it in the order of its key, and sorting by these points.
\<close>

section \<open>The store\<close>

text \<open>The specification of a store: every key has a value, as in \<open>kvStep\<close>.\<close>

definition storeStep :: "(string \<Rightarrow> string) \<Rightarrow> kvio \<Rightarrow> kvio \<Rightarrow> (bool \<times> (string \<Rightarrow> string)) option" where
  "storeStep st input output =
     (case input of KvOut _ \<Rightarrow> None
      | KvIn inp \<Rightarrow> (case kvStep (st (ki_Key inp)) input output of None \<Rightarrow> None
        | Some (ok, v) \<Rightarrow> Some (ok, st(ki_Key inp := v))))"

lemma legal_store:
  assumes "\<And>i. i \<in> set order \<Longrightarrow> kvTyped [h ! i]"
  shows "legal storeStep (\<lambda>i. Input (h ! i)) (\<lambda>i. Output (h ! i)) st order
     \<longleftrightarrow> (\<forall>k. legal kvStep (\<lambda>i. Input (h ! i)) (\<lambda>i. Output (h ! i)) (st k) (filter (\<lambda>i. keyOf (h ! i) = k) order))"
  using assms
proof (induction order arbitrary: st)
  case (Cons i order)
  let ?legal = "legal kvStep (\<lambda>i. Input (h ! i)) (\<lambda>i. Output (h ! i))"
  from Cons.prems [of i] obtain inp out where io: "Input (h ! i) = KvIn inp" "Output (h ! i) = KvOut out"
    by (auto simp: kvTyped_def split: kvio.splits)
  obtain ok v where kv: "kvStep (st (ki_Key inp)) (KvIn inp) (KvOut out) = Some (ok, v)"
    by (simp add: kvStep_def) (metis surj_pair)
  have key: "keyOf (h ! i) = ki_Key inp" using io by (simp add: keyOf_def)
  let ?f = "\<lambda>k. filter (\<lambda>i. keyOf (h ! i) = k) order"
  define st' where "st' = st(ki_Key inp := v)"
  have "?legal (st k) (filter (\<lambda>i. keyOf (h ! i) = k) (i # order))
      \<longleftrightarrow> (k = ki_Key inp \<longrightarrow> ok) \<and> ?legal (st' k) (?f k)" for k
    using kv io key by (cases "k = ki_Key inp") (auto simp: st'_def)
  then have keys: "(\<forall>k. ?legal (st k) (filter (\<lambda>i. keyOf (h ! i) = k) (i # order)))
      \<longleftrightarrow> ok \<and> (\<forall>k. ?legal (st' k) (?f k))" by blast
  have "storeStep st (KvIn inp) (KvOut out) = Some (ok, st')" by (simp add: storeStep_def kv st'_def)
  then show ?case unfolding keys using Cons.IH [of st'] Cons.prems io by simp
qed simp

section \<open>Orders of some of the operations\<close>

abbreviation opOrder :: "'v operation list \<Rightarrow> nat set \<Rightarrow> nat list \<Rightarrow> bool" where
  "opOrder h \<equiv> realTime (\<lambda>j i. Return (h ! j) < Call (h ! i))"

definition linearizableOn :: "('s \<Rightarrow> 'v \<Rightarrow> 'v \<Rightarrow> (bool \<times> 's) option) \<Rightarrow> 's \<Rightarrow> 'v operation list \<Rightarrow> nat set \<Rightarrow> bool" where
  "linearizableOn step init h S \<longleftrightarrow>
     (\<exists>order. opOrder h S order \<and> legal step (\<lambda>i. Input (h ! i)) (\<lambda>i. Output (h ! i)) init order)"

lemma legal_map: "legal step inp out s (map f is) = legal step (inp \<circ> f) (out \<circ> f) s is"
  by (induction "is" arbitrary: s) (auto split: option.splits)

text \<open>A part of a history can be named by its positions in the whole.\<close>

lemma linearizable_positions:
  assumes d: "distinct idx"
  shows "linearizableOps step init (map ((!) h) idx) \<longleftrightarrow> linearizableOn step init h (set idx)"
proof
  let ?n = "length idx"
  assume "linearizableOps step init (map ((!) h) idx)"
  then obtain order where o: "distinct order" "set order = {..<?n}"
    "sorted_wrt (\<lambda>i j. \<not> Return (map ((!) h) idx ! j) < Call (map ((!) h) idx ! i)) order"
    "legal step (\<lambda>i. Input (map ((!) h) idx ! i)) (\<lambda>i. Output (map ((!) h) idx ! i)) init order"
    by (auto simp: linearizableOps_def realTime_def)
  let ?order = "map ((!) idx) order"
  have "inj_on ((!) idx) {..<?n}" using d by (simp add: inj_on_nth)
  then have "distinct ?order" using o(1,2) by (simp add: distinct_map)
  moreover have "set ?order = set idx" using o(2) nth_image [of ?n idx] by (simp add: lessThan_atLeast0)
  moreover have "sorted_wrt (\<lambda>i j. \<not> Return (h ! (idx ! j)) < Call (h ! (idx ! i))) order"
    by (rule sorted_wrt_mono_rel [OF _ o(3)]) (use o(2) in simp)
  moreover have "legal step (\<lambda>i. Input (h ! i)) (\<lambda>i. Output (h ! i)) init ?order"
    unfolding legal_map using o(4) by (rule legal_cong [THEN iffD1, rotated]) (use o(2) in simp)
  ultimately show "linearizableOn step init h (set idx)"
    unfolding linearizableOn_def realTime_def by (intro exI [of _ ?order]) (simp add: sorted_wrt_map)
next
  let ?n = "length idx"
  assume "linearizableOn step init h (set idx)"
  then obtain order where o: "distinct order" "set order = set idx"
    "sorted_wrt (\<lambda>i j. \<not> Return (h ! j) < Call (h ! i)) order"
    "legal step (\<lambda>i. Input (h ! i)) (\<lambda>i. Output (h ! i)) init order"
    by (auto simp: linearizableOn_def realTime_def)
  define f where "f = the_inv_into {..<?n} ((!) idx)"
  have bij: "bij_betw ((!) idx) {..<?n} (set idx)" using d by (rule bij_betw_nth) auto
  have inv: "f i < ?n" "idx ! f i = i" if "i \<in> set idx" for i
    using that bij the_inv_into_into [of "(!) idx" "{..<?n}" i] f_the_inv_into_f_bij_betw [OF bij, of i]
    by (auto simp: f_def bij_betw_def)
  have "bij_betw f (set idx) {..<?n}" unfolding f_def by (rule bij_betw_the_inv_into [OF bij])
  then have f: "inj_on f (set idx)" "f ` set idx = {..<?n}" by (auto simp: bij_betw_def)
  let ?order = "map f order"
  have "distinct ?order" "set ?order = {..<?n}" using o(1,2) f by (simp_all add: distinct_map)
  moreover have "sorted_wrt (\<lambda>i j. \<not> Return (map ((!) h) idx ! f j) < Call (map ((!) h) idx ! f i)) order"
    by (rule sorted_wrt_mono_rel [OF _ o(3)]) (use o(2) inv in simp)
  moreover have "legal step (\<lambda>i. Input (map ((!) h) idx ! i)) (\<lambda>i. Output (map ((!) h) idx ! i)) init ?order"
    unfolding legal_map using o(4) by (rule legal_cong [THEN iffD1, rotated]) (use o(2) inv in simp)
  ultimately show "linearizableOps step init (map ((!) h) idx)"
    unfolding linearizableOps_def realTime_def by (intro exI [of _ ?order]) (simp add: sorted_wrt_map)
qed

section \<open>Merging the orders of the keys\<close>

text \<open>The point of an operation: the latest call among the operations up to it in an order.\<close>

fun points :: "'v operation list \<Rightarrow> int \<Rightarrow> nat list \<Rightarrow> (nat \<times> int) list" where
  "points h t [] = []"
| "points h t (i # is) = (let u = max t (Call (h ! i)) in (i, u) # points h u is)"

lemma points_fst: "map fst (points h t is) = is"
  by (induction h t "is" rule: points.induct) (auto simp: Let_def)

lemma points_sorted: "sorted (map snd (points h t is)) \<and> (\<forall>(i, u) \<in> set (points h t is). t \<le> u)"
proof (induction h t "is" rule: points.induct)
  case (2 h t i "is")
  then show ?case by (fastforce simp: Let_def)
qed simp

text \<open>Every operation is called at or before its point and returns after it.\<close>

lemma points_inside:
  assumes "sorted_wrt (\<lambda>i j. \<not> Return (h ! j) < Call (h ! i)) is"
    and "\<And>i j. i \<in> set is \<Longrightarrow> j \<in> set is \<Longrightarrow> Return (h ! i) \<noteq> Call (h ! j)"
    and "\<And>i. i \<in> set is \<Longrightarrow> Call (h ! i) < Return (h ! i)" and "\<And>i. i \<in> set is \<Longrightarrow> t < Return (h ! i)"
  shows "\<forall>(i, u) \<in> set (points h t is). Call (h ! i) \<le> u \<and> u < Return (h ! i)"
  using assms
proof (induction h t "is" rule: points.induct)
  case (2 h t i "is")
  have "max t (Call (h ! i)) < Return (h ! j)" if "j \<in> set is" for j
    using that 2(2,5) 2(3) [of j i] by fastforce
  moreover have "max t (Call (h ! i)) < Return (h ! i)" using 2(4,5) by simp
  ultimately show ?case using 2(1) [OF refl] 2(2-5) by (auto simp: Let_def)
qed simp

definition mergeOrders :: "'v operation list \<Rightarrow> int \<Rightarrow> nat list list \<Rightarrow> nat list" where
  "mergeOrders h t orders = map fst (sort_key snd (concat (map (points h t) orders)))"

lemma merge_set: "set (mergeOrders h t orders) = \<Union> (set ` set orders)"
proof -
  have "set (mergeOrders h t orders) = set (map fst (concat (map (points h t) orders)))"
    by (simp add: mergeOrders_def)
  also have "\<dots> = set (concat orders)" by (simp add: map_concat comp_def points_fst)
  finally show ?thesis by simp
qed

lemma merge_distinct: "distinct (concat orders) \<Longrightarrow> distinct (mergeOrders h t orders)"
proof -
  assume d: "distinct (concat orders)"
  have "mset (mergeOrders h t orders) = mset (map fst (concat (map (points h t) orders)))"
    by (simp add: mergeOrders_def)
  also have "\<dots> = mset (concat orders)" by (simp add: map_concat comp_def points_fst)
  finally show ?thesis using d mset_eq_imp_distinct_iff by blast
qed

text \<open>The merged order restricted to the operations of one order is that order.\<close>

lemma merge_filter:
  assumes "orders = us @ order # vs" "\<And>i. i \<in> set order \<Longrightarrow> P i"
    and "\<And>os i. os \<in> set us \<union> set vs \<Longrightarrow> i \<in> set os \<Longrightarrow> \<not> P i"
  shows "filter P (mergeOrders h t orders) = order"
proof -
  have all: "filter (P \<circ> fst) (points h t order) = points h t order"
  proof (rule filter_True, rule ballI)
    fix x assume "x \<in> set (points h t order)"
    then have "fst x \<in> set (map fst (points h t order))" by simp
    then show "(P \<circ> fst) x" using assms(2) unfolding points_fst by simp
  qed
  have none: "filter (P \<circ> fst) (concat (map (points h t) xs)) = []" if "set xs \<subseteq> set us \<union> set vs" for xs
  proof (rule filter_False, rule ballI)
    fix x assume "x \<in> set (concat (map (points h t) xs))"
    then obtain os where "os \<in> set xs" "fst x \<in> set (map fst (points h t os))" by auto
    then show "\<not> (P \<circ> fst) x" using assms(3) that unfolding points_fst by auto
  qed
  have "filter P (mergeOrders h t orders) = map fst (sort_key snd (filter (P \<circ> fst) (concat (map (points h t) orders))))"
    by (simp add: mergeOrders_def filter_map filter_sort)
  also have "filter (P \<circ> fst) (concat (map (points h t) orders)) = points h t order"
    unfolding assms(1) using all none [of us] none [of vs] by simp
  also have "sort_key snd (points h t order) = points h t order"
    using points_sorted [of h t order] by (simp add: sort_key_id_if_sorted)
  finally show ?thesis by (simp add: points_fst)
qed

text \<open>The merged order keeps the real-time order of all operations.\<close>

lemma merge_realTime:
  assumes "\<And>order. order \<in> set orders \<Longrightarrow> \<forall>(i, u) \<in> set (points h t order). Call (h ! i) \<le> u \<and> u < Return (h ! i)"
  shows "sorted_wrt (\<lambda>i j. \<not> Return (h ! j) < Call (h ! i)) (mergeOrders h t orders)"
proof -
  let ?ps = "sort_key snd (concat (map (points h t) orders))"
  have in_range: "Call (h ! fst x) \<le> snd x \<and> snd x < Return (h ! fst x)" if "x \<in> set ?ps" for x
  proof -
    from that obtain order where "order \<in> set orders" "x \<in> set (points h t order)" by auto
    with assms show ?thesis by (simp add: case_prod_beta)
  qed
  have "sorted_wrt (\<lambda>x y. snd x \<le> snd y) ?ps"
    using sorted_sort_key [of snd "concat (map (points h t) orders)"] unfolding sorted_map .
  then have "sorted_wrt (\<lambda>x y. \<not> Return (h ! fst y) < Call (h ! fst x)) ?ps"
  proof (rule sorted_wrt_mono_rel [rotated])
    fix x y assume "x \<in> set ?ps" "y \<in> set ?ps" "snd x \<le> snd y"
    then show "\<not> Return (h ! fst y) < Call (h ! fst x)" using in_range [of x] in_range [of y] by linarith
  qed
  then show ?thesis unfolding mergeOrders_def sorted_wrt_map .
qed

section \<open>Locality\<close>

lemma keyOps_positions:
  "keyOps h k = map ((!) h) (filter (\<lambda>i. keyOf (h ! i) = k) [0..<length h])"
proof -
  have "keyOps h k = filter (\<lambda>a. keyOf a = k) (map ((!) h) [0..<length h])" by (simp add: keyOps_def map_nth)
  then show ?thesis by (simp add: filter_map comp_def)
qed

lemma keyOps_linearizable:
  "linearizableOps kvStep s (keyOps h k) \<longleftrightarrow> linearizableOn kvStep s h {i. i < length h \<and> keyOf (h ! i) = k}"
proof -
  have "set (filter (\<lambda>i. keyOf (h ! i) = k) [0..<length h]) = {i. i < length h \<and> keyOf (h ! i) = k}" by auto
  with linearizable_positions [of "filter (\<lambda>i. keyOf (h ! i) = k) [0..<length h]" kvStep s h]
  show ?thesis by (simp add: keyOps_positions)
qed

lemma kvTyped_nth: "kvTyped h \<Longrightarrow> i < length h \<Longrightarrow> kvTyped [h ! i]"
  by (simp add: kvTyped_def list_all_length)

lemma keys_of_store:
  assumes typed: "kvTyped h" and l: "linearizableOps storeStep st h"
  shows "linearizableOps kvStep (st k) (keyOps h k)"
proof -
  let ?S = "{i. i < length h \<and> keyOf (h ! i) = k}"
  from l obtain order where o: "opOrder h {..<length h} order"
    "legal storeStep (\<lambda>i. Input (h ! i)) (\<lambda>i. Output (h ! i)) st order" by (auto simp: linearizableOps_def)
  let ?order = "filter (\<lambda>i. keyOf (h ! i) = k) order"
  have "\<And>i. i \<in> set order \<Longrightarrow> kvTyped [h ! i]" using o(1) kvTyped_nth [OF typed] by (simp add: realTime_def)
  from iffD1 [OF legal_store [OF this] o(2)]
  have "legal kvStep (\<lambda>i. Input (h ! i)) (\<lambda>i. Output (h ! i)) (st k) ?order" by blast
  moreover have "opOrder h ?S ?order" using o(1) by (auto simp: realTime_def sorted_wrt_filter)
  ultimately show ?thesis unfolding keyOps_linearizable linearizableOn_def by blast
qed

lemma order_points:
  assumes t: "timed h" and o: "opOrder h S os" "S \<subseteq> {..<length h}" and t0: "\<And>i. i < length h \<Longrightarrow> t0 < Return (h ! i)"
  shows "\<forall>(i, u) \<in> set (points h t0 os). Call (h ! i) \<le> u \<and> u < Return (h ! i)"
proof (rule points_inside)
  show "sorted_wrt (\<lambda>i j. \<not> Return (h ! j) < Call (h ! i)) os" using o(1) by (simp add: realTime_def)
  have lt: "i < length h" if "i \<in> set os" for i using that o by (auto simp: realTime_def)
  then show "t0 < Return (h ! i)" if "i \<in> set os" for i using that t0 by simp
  show "Return (h ! i) \<noteq> Call (h ! j)" if "i \<in> set os" "j \<in> set os" for i j
    using that lt t by (simp add: timed_def)
  show "Call (h ! i) < Return (h ! i)" if "i \<in> set os" for i using that lt t by (simp add: timed_def)
qed

lemma key_orders_distinct:
  assumes so: "\<And>k. set (ord k) = {i. i < length h \<and> keyOf (h ! i) = k}" and d: "\<And>k. distinct (ord k)"
    and ks: "distinct ks" "set ks = keyOf ` set h"
  shows "distinct (concat (map ord ks))"
proof (rule distinct_concat)
  have "ord k \<noteq> ord k'" if "k \<in> set ks" "k' \<in> set ks" "k \<noteq> k'" for k k'
  proof -
    from that(1) ks(2) obtain i where "i < length h" "keyOf (h ! i) = k" by (auto simp: in_set_conv_nth)
    then have "i \<in> set (ord k)" "i \<notin> set (ord k')" using that(3) by (simp_all add: so)
    then show ?thesis by metis
  qed
  then show "distinct (map ord ks)" using ks(1) by (auto simp: distinct_map inj_on_def)
  show "distinct os" if "os \<in> set (map ord ks)" for os using that d by auto
  show "set os \<inter> set os' = {}" if "os \<in> set (map ord ks)" "os' \<in> set (map ord ks)" "os \<noteq> os'" for os os'
  proof -
    from that obtain k k' where "os = ord k" "os' = ord k'" "k \<noteq> k'" by auto
    then show ?thesis by (auto simp: so)
  qed
qed

lemma key_orders_filter:
  assumes so: "\<And>k. set (ord k) = {i. i < length h \<and> keyOf (h ! i) = k}"
    and ks: "distinct ks" "set ks = keyOf ` set h"
  shows "filter (\<lambda>i. keyOf (h ! i) = k) (mergeOrders h t (map ord ks)) = ord k"
proof (cases "k \<in> set ks")
  case True
  then obtain us vs where ks': "ks = us @ k # vs" by (auto simp: in_set_conv_decomp)
  show ?thesis
  proof (rule merge_filter)
    show "map ord ks = map ord us @ ord k # map ord vs" by (simp add: ks')
    show "keyOf (h ! i) = k" if "i \<in> set (ord k)" for i using that so by simp
    show "keyOf (h ! i) \<noteq> k" if "os \<in> set (map ord us) \<union> set (map ord vs)" "i \<in> set os" for os i
      using that so ks(1) ks' by auto
  qed
next
  case False
  then have "\<forall>i < length h. keyOf (h ! i) \<noteq> k" using ks(2) by auto
  then have "set (ord k) = {}" "\<forall>i \<in> set (mergeOrders h t (map ord ks)). keyOf (h ! i) \<noteq> k"
    unfolding merge_set using so by auto
  then show ?thesis by (simp add: filter_False)
qed

lemma store_of_keys:
  assumes typed: "kvTyped h" and t: "timed h" and l: "\<And>k. linearizableOps kvStep (st k) (keyOps h k)"
  shows "linearizableOps storeStep st h"
proof -
  let ?S = "\<lambda>k. {i. i < length h \<and> keyOf (h ! i) = k}"
  let ?legal = "\<lambda>step. legal step (\<lambda>i. Input (h ! i)) (\<lambda>i. Output (h ! i))"
  have "\<forall>k. \<exists>os. opOrder h (?S k) os \<and> ?legal kvStep (st k) os"
    using l unfolding keyOps_linearizable linearizableOn_def ..
  from choice [OF this] obtain ord where ord: "\<And>k. opOrder h (?S k) (ord k)" "\<And>k. ?legal kvStep (st k) (ord k)" by blast
  then have so: "\<And>k. set (ord k) = ?S k" and d: "\<And>k. distinct (ord k)" by (simp_all add: realTime_def)
  obtain ks where ks: "distinct ks" "set ks = keyOf ` set h" using finite_distinct_list [of "keyOf ` set h"] by auto
  obtain t0 where t0: "\<And>i. i < length h \<Longrightarrow> t0 < Return (h ! i)"
  proof
    fix i assume "i < length h"
    then have "Min (insert 0 (Return ` set h)) \<le> Return (h ! i)" by (intro Min_le) auto
    then show "Min (insert 0 (Return ` set h)) - 1 < Return (h ! i)" by simp
  qed
  define order where "order = mergeOrders h t0 (map ord ks)"
  have "sorted_wrt (\<lambda>i j. \<not> Return (h ! j) < Call (h ! i)) order"
    unfolding order_def by (rule merge_realTime) (use order_points [OF t ord(1) _ t0] in auto)
  moreover have "distinct order"
    unfolding order_def by (rule merge_distinct [OF key_orders_distinct [OF so d ks]])
  moreover have so': "set order = {..<length h}" unfolding order_def merge_set using so ks(2) by auto
  moreover have "?legal storeStep st order \<longleftrightarrow> (\<forall>k. ?legal kvStep (st k) (filter (\<lambda>i. keyOf (h ! i) = k) order))"
    by (rule legal_store) (use so' kvTyped_nth [OF typed] in simp)
  then have "?legal storeStep st order" using ord(2) unfolding order_def key_orders_filter [OF so ks] by blast
  ultimately show ?thesis unfolding linearizableOps_def realTime_def by blast
qed

section \<open>What CheckOperations decides\<close>

lemma kvTyped_typed: "kvTyped h \<Longrightarrow> typedOps kvStep h"
proof -
  assume h: "kvTyped h"
  have "kvStep s (Input a) (Output a) \<noteq> None" if "a \<in> set h" for a s
    using h that by (cases "Input a"; cases "Output a") (auto simp: kvTyped_def list_all_iff kvStep_def)
  then show ?thesis by (simp add: typedOps_def)
qed

lemma keyOps_kept: "timed h \<Longrightarrow> timed (keyOps h k)" "kvTyped h \<Longrightarrow> kvTyped (keyOps h k)"
  by (simp_all add: timed_def kvTyped_def keyOps_def list_all_iff)

lemma keyOps_none: "k \<notin> keyOf ` set h \<Longrightarrow> linearizableOps kvStep s (keyOps h k)"
proof -
  assume "k \<notin> keyOf ` set h"
  then have "keyOps h k = []" by (auto simp: keyOps_def filter_empty_conv)
  then show ?thesis by (auto simp: linearizableOps_def realTime_def intro!: exI [of _ "[]"])
qed

lemma locality:
  assumes "kvTyped h" "timed h"
  shows "(\<forall>k \<in> keyOf ` set h. linearizableOps kvStep kvInit (keyOps h k)) \<longleftrightarrow> linearizableOps storeStep (\<lambda>_. kvInit) h"
  using keys_of_store [OF assms(1), of "\<lambda>_. kvInit"] store_of_keys [OF assms, of "\<lambda>_. kvInit"]
    keyOps_none [of _ h kvInit] by blast

lemma check_kv_parts:
  assumes "sortsByTime sort_Sort" "mapOrder order" "kvTyped history" "timed history"
  shows "\<exists>N ks. distinct ks \<and> set ks = keyOf ` set history \<and> (\<forall>fuel > N. \<forall>arrive.
     CheckOperationsTimeout sort_Sort fuel (KvModel order) history arrive
       = collect (length ks) 0 (arrive (map (\<lambda>k. linearizableOps kvStep kvInit (keyOps history k)) ks)))"
proof -
  obtain ks where ks: "kvPartition order history = Some (map (keyOps history) ks)" "distinct ks" "set ks = keyOf ` set history"
    using kvPartition_spec [OF assms(3,2)] .
  have fd: "Partition (fillDefault (KvModel order)) = Some (kvPartition order)" "Equal (fillDefault (KvModel order)) = Some (=)"
    by (auto simp: fillDefault_def KvModel_def Let_def ShallowEqual_def fun_eq_iff)
  have "Step (KvModel order) = kvStep" "Init (KvModel order) = kvInit" by (simp_all add: KvModel_def)
  moreover have "timed part \<and> typedOps (Step (KvModel order)) part" if "part \<in> set (map (keyOps history) ks)" for part
    using that keyOps_kept [of history] kvTyped_typed assms(3,4) by (auto simp: KvModel_def)
  from check_parts [OF assms(1) this fd(1) ks(1) fd(2)] obtain N where
    "\<forall>fuel > N. \<forall>arrive. CheckOperationsTimeout sort_Sort fuel (KvModel order) history arrive
      = collect (length (map (keyOps history) ks)) 0
          (arrive (map (linearizableOps (Step (KvModel order)) (Init (KvModel order))) (map (keyOps history) ks)))" by blast
  ultimately show ?thesis using ks(2,3) by (intro exI [of _ N] exI [of _ ks]) (simp add: comp_def)
qed

text \<open>C25. \<open>CheckOperations\<close> with \<open>KvModel\<close> returns, and returns whether the recorded history of a
  key/value store is linearizable: whether its operations can be put in one order that keeps every operation
  which returned before another was called in front of it, and in which every read returns the value
  of the store.  It does so although it checks the keys one by one with a cached depth-first search.
  Asked of the environment: \<open>sort.Sort\<close> sorts, a map traversal meets each key once, every goroutine's
  result arrives; of the history: it is not empty, its values are key/value inputs and outputs, every
  call is earlier than its return, and no return has the time of a call.\<close>

theorem kv_check_decides:
  assumes "sortsByTime sort_Sort" "mapOrder order" "\<And>rs. mset (arrive rs) = mset rs"
    and "history \<noteq> []" "kvTyped history" "timed history"
  shows "\<exists>N. \<forall>fuel > N. CheckOperations sort_Sort fuel (KvModel order) history arrive
     = Some (linearizableOps storeStep (\<lambda>_. kvInit) history)"
proof -
  obtain N ks where ks: "set ks = keyOf ` set history" and run: "\<forall>fuel > N. \<forall>arrive.
     CheckOperationsTimeout sort_Sort fuel (KvModel order) history arrive
       = collect (length ks) 0 (arrive (map (\<lambda>k. linearizableOps kvStep kvInit (keyOps history k)) ks))"
    using check_kv_parts [OF assms(1,2,5,6)] by blast
  let ?rs = "map (\<lambda>k. linearizableOps kvStep kvInit (keyOps history k)) ks"
  have len: "length (arrive ?rs) = length ks" using mset_eq_length [OF assms(3), of ?rs] by simp
  moreover have "ks \<noteq> []" using ks assms(4) by auto
  ultimately have "arrive ?rs \<noteq> []" by fastforce
  then have "collect (length ks) 0 (map Result (arrive ?rs)) = Some (list_all id (arrive ?rs))"
    by (rule collect_results) (simp only: len add_0)
  also have "list_all id (arrive ?rs) = list_all id ?rs"
    unfolding list_all_iff mset_eq_setD [OF assms(3), of ?rs] ..
  also have "list_all id ?rs = linearizableOps storeStep (\<lambda>_. kvInit) history"
    using locality [OF assms(5,6)] ks by (auto simp: list_all_iff)
  finally show ?thesis using run by (intro exI [of _ N]) (simp add: CheckOperations_def)
qed

text \<open>A write and a read that overlaps it and returns the new value; the orders that Go leaves open are
  the order of first occurrence and the order of the partitions.\<close>

definition sampleHistory :: "kvio operation list" where
  "sampleHistory =
     [\<lparr>Input = KvIn \<lparr>ki_Op = 1, ki_Key = ''x'', ki_Value = ''a''\<rparr>, Call = 0, Output = KvOut \<lparr>ko_Value = []\<rparr>, Return = 10\<rparr>,
      \<lparr>Input = KvIn \<lparr>ki_Op = 0, ki_Key = ''x'', ki_Value = []\<rparr>, Call = 5, Output = KvOut \<lparr>ko_Value = ''a''\<rparr>, Return = 20\<rparr>]"

definition keysInOrder :: "('k, 'v) gomap \<Rightarrow> 'k list" where
  "keysInOrder m = remdups (map fst m)"

lemma keysInOrder_ok: "mapOrder keysInOrder"
  by (simp add: mapOrder_def keysInOrder_def)

lemma sort_key_ok: "sortsByTime (sort_key le_time)"
  by (simp add: sortsByTime_def)

lemma sampleHistory_ok: "sampleHistory \<noteq> [] \<and> kvTyped sampleHistory \<and> timed sampleHistory"
  by (simp add: sampleHistory_def kvTyped_def timed_def)

lemma sampleHistory_linearizable: "linearizableOps storeStep (\<lambda>_. kvInit) sampleHistory"
proof -
  have "realTime (\<lambda>j i. Return (sampleHistory ! j) < Call (sampleHistory ! i)) {..<length sampleHistory} [0, 1]"
    by (auto simp: realTime_def sampleHistory_def)
  moreover have "legal storeStep (\<lambda>i. Input (sampleHistory ! i)) (\<lambda>i. Output (sampleHistory ! i)) (\<lambda>_. kvInit) [0, 1]"
    by (simp add: sampleHistory_def storeStep_def kvStep_def)
  ultimately show ?thesis unfolding linearizableOps_def by blast
qed

theorem kv_check_decides_witness:
  "\<exists>fuel. CheckOperations (sort_key le_time) fuel (KvModel keysInOrder) sampleHistory id = Some True"
proof -
  obtain N where "\<forall>fuel > N. CheckOperations (sort_key le_time) fuel (KvModel keysInOrder) sampleHistory id
      = Some (linearizableOps storeStep (\<lambda>_. kvInit) sampleHistory)"
    using kv_check_decides [OF sort_key_ok keysInOrder_ok, of id sampleHistory] sampleHistory_ok by auto
  then show ?thesis using sampleHistory_linearizable by (intro exI [of _ "Suc N"]) simp
qed

text \<open>Time-outs cause no false alarm: whatever results have arrived when the collecting loop ends,
  if it answers that the history is wrong then it is not linearizable.\<close>

theorem kv_check_no_false_alarm:
  assumes "sortsByTime sort_Sort" "mapOrder order" "\<And>rs. set (arrive rs) \<subseteq> insert TimedOut (Result ` set rs)"
    and "kvTyped history" "timed history"
  shows "\<exists>N. \<forall>fuel > N. CheckOperationsTimeout sort_Sort fuel (KvModel order) history arrive = Some False
     \<longrightarrow> \<not> linearizableOps storeStep (\<lambda>_. kvInit) history"
proof -
  obtain N ks where ks: "set ks = keyOf ` set history" and run: "\<forall>fuel > N. \<forall>arrive.
     CheckOperationsTimeout sort_Sort fuel (KvModel order) history arrive
       = collect (length ks) 0 (arrive (map (\<lambda>k. linearizableOps kvStep kvInit (keyOps history k)) ks))"
    using check_kv_parts [OF assms(1,2,4,5)] by blast
  let ?rs = "map (\<lambda>k. linearizableOps kvStep kvInit (keyOps history k)) ks"
  have "False \<in> set ?rs" if "collect (length ks) 0 (arrive ?rs) = Some False"
    using collect_false [OF that] assms(3) [of ?rs] by blast
  then have "\<not> linearizableOps storeStep (\<lambda>_. kvInit) history" if "collect (length ks) 0 (arrive ?rs) = Some False"
    using that locality [OF assms(4,5)] ks by auto
  with run show ?thesis by (intro exI [of _ N]) simp
qed

theorem kv_check_no_false_alarm_witness:
  "\<exists>fuel. CheckOperationsTimeout (sort_key le_time) fuel (KvModel keysInOrder) sampleHistory (map Result) \<noteq> Some False"
proof -
  obtain N where "\<forall>fuel > N. CheckOperationsTimeout (sort_key le_time) fuel (KvModel keysInOrder) sampleHistory (map Result)
      = Some False \<longrightarrow> \<not> linearizableOps storeStep (\<lambda>_. kvInit) sampleHistory"
    using kv_check_no_false_alarm [OF sort_key_ok keysInOrder_ok, of "map Result" sampleHistory] sampleHistory_ok by auto
  then show ?thesis using sampleHistory_linearizable by (intro exI [of _ "Suc N"]) simp
qed

text \<open>A history without operations is never checked: \<open>KvModel\<close> gives it no partition, and the
  collecting loop waits for a result that no goroutine sends.  Only a time-out ends it.\<close>

theorem empty_history_hangs:
  assumes "mapOrder order"
  shows "CheckOperations sort_Sort fuel (KvModel order) [] (\<lambda>rs. rs) = None
     \<and> CheckOperationsTimeout sort_Sort fuel (KvModel order) [] (\<lambda>rs. map Result rs @ [TimedOut]) = Some True"
proof -
  have "set (order ([] :: (string, kvio operation list) gomap)) = gm_keys ([] :: (string, kvio operation list) gomap)"
    using assms unfolding mapOrder_def by blast
  then have "order [] = []" by (simp only: set_empty list.set image_empty)
  then show ?thesis
    by (simp add: CheckOperations_def CheckOperationsTimeout_def fillDefault_def KvModel_def Let_def kvPartition_def)
qed

theorem empty_history_hangs_witness:
  "CheckOperations (sort_key le_time) 100 (KvModel keysInOrder) [] (\<lambda>rs. rs) = None
     \<and> CheckOperationsTimeout (sort_key le_time) 100 (KvModel keysInOrder) [] (\<lambda>rs. map Result rs @ [TimedOut]) = Some True"
  by (rule empty_history_hangs [OF keysInOrder_ok])

end
