(* ===== verification/Lin_Events.thy ===== *)
theory Lin_Events
  imports Lin_Locality
begin

text \<open>
  \<open>CheckEvents\<close>: histories given as a sequence of call and return events with any identifiers.
  \<open>renumber\<close> replaces the identifiers by consecutive numbers, injectively, so nothing is lost; the
  checker then decides linearizability of the events as they were given.
\<close>

section \<open>Linearizability of events\<close>

definition evPos :: "EventKind \<Rightarrow> 'v event list \<Rightarrow> nat \<Rightarrow> nat" where
  "evPos k events i = length (takeWhile (\<lambda>e. \<not> (ev_Kind e = k \<and> ev_Id e = i)) events)"

definition evIds :: "'v event list \<Rightarrow> nat set" where
  "evIds events = ev_Id ` set events"

definition linearizableEvents :: "('s \<Rightarrow> 'v \<Rightarrow> 'v \<Rightarrow> (bool \<times> 's) option) \<Rightarrow> 's \<Rightarrow> 'v event list \<Rightarrow> bool" where
  "linearizableEvents step init events \<longleftrightarrow>
     (\<exists>order. realTime (\<lambda>j i. evPos ReturnEvent events j < evPos CallEvent events i) (evIds events) order
        \<and> legal step (\<lambda>i. ev_Value (events ! evPos CallEvent events i))
             (\<lambda>i. ev_Value (events ! evPos ReturnEvent events i)) init order)"

text \<open>Every identifier has one call and one later return.\<close>

definition wfEvents :: "'v event list \<Rightarrow> bool" where
  "wfEvents events \<longleftrightarrow> (\<forall>i \<in> evIds events. map ev_Kind (filter (\<lambda>e. ev_Id e = i) events) = [CallEvent, ReturnEvent])"

section \<open>Renumbering\<close>

lemma renumberLoop_map:
  assumes "inj_on m (dom m)" "ran m = {..<i}"
  shows "\<exists>f n. renumberLoop events m i = map (\<lambda>v. \<lparr>ev_Kind = ev_Kind v, ev_Value = ev_Value v, ev_Id = f (ev_Id v)\<rparr>) events
     \<and> (\<forall>x \<in> dom m. m x = Some (f x)) \<and> inj_on f (dom m \<union> evIds events) \<and> f ` (dom m \<union> evIds events) = {..<n}"
  using assms
proof (induction events arbitrary: m i)
  case Nil
  have "\<forall>x \<in> dom m. m x = Some (the (m x))" by auto
  moreover have "inj_on (\<lambda>x. the (m x)) (dom m)" using Nil(1) by (auto simp: inj_on_def dom_def)
  moreover have "ran m = (\<lambda>x. the (m x)) ` dom m" by (auto simp: ran_def image_iff) (metis domI option.sel)
  then have "(\<lambda>x. the (m x)) ` dom m = {..<i}" using Nil(2) by simp
  ultimately show ?case by (intro exI [of _ "\<lambda>x. the (m x)"] exI [of _ i]) (simp add: evIds_def)
next
  case (Cons v events)
  show ?case
  proof (cases "m (ev_Id v)")
    case (Some r)
    from Cons.IH [OF Cons.prems] obtain f n where f:
      "renumberLoop events m i = map (\<lambda>v. \<lparr>ev_Kind = ev_Kind v, ev_Value = ev_Value v, ev_Id = f (ev_Id v)\<rparr>) events"
      "\<forall>x \<in> dom m. m x = Some (f x)" "inj_on f (dom m \<union> evIds events)" "f ` (dom m \<union> evIds events) = {..<n}" by blast
    have "dom m \<union> evIds (v # events) = dom m \<union> evIds events" using Some by (auto simp: evIds_def)
    moreover have "f (ev_Id v) = r" using f(2) Some by force
    ultimately show ?thesis using f Some by (intro exI [of _ f] exI [of _ n]) simp
  next
    case None
    let ?m = "m(ev_Id v \<mapsto> i)"
    have below: "r < i" if "m x = Some r" for x r
      using that Cons.prems(2) by (metis lessThan_iff ranI)
    have "inj_on ?m (dom ?m)"
    proof (rule inj_onI)
      fix x y assume x: "x \<in> dom ?m" "y \<in> dom ?m" "?m x = ?m y"
      show "x = y"
      proof (cases "x = ev_Id v \<or> y = ev_Id v")
        case True
        then show ?thesis using x below [of x i] below [of y i] by (auto split: if_splits)
      next
        case False
        then show ?thesis using x Cons.prems(1) by (auto simp: inj_on_def)
      qed
    qed
    moreover have "ran ?m = {..<i + 1}"
      unfolding ran_map_upd [of m, OF None] Cons.prems(2) by (simp add: lessThan_Suc)
    ultimately obtain f n where f:
      "renumberLoop events ?m (i + 1) = map (\<lambda>v. \<lparr>ev_Kind = ev_Kind v, ev_Value = ev_Value v, ev_Id = f (ev_Id v)\<rparr>) events"
      "\<forall>x \<in> dom ?m. ?m x = Some (f x)" "inj_on f (dom ?m \<union> evIds events)" "f ` (dom ?m \<union> evIds events) = {..<n}"
      using Cons.IH [of ?m "i + 1"] by blast
    have "dom m \<union> evIds (v # events) = dom ?m \<union> evIds events" by (auto simp: evIds_def)
    moreover have "f (ev_Id v) = i" using f(2) by auto
    moreover have "\<forall>x \<in> dom m. m x = Some (f x)" using f(2) None by (auto simp: dom_def split: if_splits)
    ultimately show ?thesis using f(1,3,4) None by (intro exI [of _ f] exI [of _ n]) simp
  qed
qed

lemma renumber_map:
  "\<exists>f n. renumber events = map (\<lambda>v. \<lparr>ev_Kind = ev_Kind v, ev_Value = ev_Value v, ev_Id = f (ev_Id v)\<rparr>) events
     \<and> inj_on f (evIds events) \<and> f ` evIds events = {..<n}"
  using renumberLoop_map [of Map.empty 0 events] by (simp add: renumber_def)

section \<open>The renumbered entries\<close>

text \<open>The entries of the events under a renaming of the identifiers.\<close>

definition renamed :: "(nat \<Rightarrow> nat) \<Rightarrow> 'v event list \<Rightarrow> 'v lentry list" where
  "renamed f events = map (\<lambda>v. \<lparr>le_kind = (if ev_Kind v = ReturnEvent then returnEntry else callEntry),
     le_value = ev_Value v, le_id = f (ev_Id v), le_time = -1\<rparr>) events"

lemma renumber_renamed:
  obtains f n where "convertEntries (renumber events) = renamed f events" "inj_on f (evIds events)" "f ` evIds events = {..<n}"
proof -
  obtain f n where f: "renumber events = map (\<lambda>v. \<lparr>ev_Kind = ev_Kind v, ev_Value = ev_Value v, ev_Id = f (ev_Id v)\<rparr>) events"
    "inj_on f (evIds events)" "f ` evIds events = {..<n}" using renumber_map [of events] by blast
  have "convertEntries (renumber events) = renamed f events"
    unfolding f(1) by (simp add: convertEntries_def renamed_def)
  with f(2,3) show thesis by (intro that)
qed

lemma renamed_id:
  assumes "inj_on f (evIds events)" "i \<in> evIds events" "v \<in> set events"
  shows "f (ev_Id v) = f i \<longleftrightarrow> ev_Id v = i"
  using assms by (auto simp: inj_on_def evIds_def)

lemma renamed_filter:
  assumes "inj_on f (evIds events)" "i \<in> evIds events"
  shows "filter (\<lambda>e. le_id e = f i) (renamed f events) = renamed f (filter (\<lambda>v. ev_Id v = i) events)"
proof -
  have "filter (\<lambda>v. f (ev_Id v) = f i) events = filter (\<lambda>v. ev_Id v = i) events"
    by (rule filter_cong [OF refl]) (use renamed_id [OF assms] in blast)
  then show ?thesis by (simp add: renamed_def filter_map comp_def)
qed

lemma renamed_wf:
  assumes wf: "wfEvents events" and f: "inj_on f (evIds events)" "f ` evIds events = {..<n}"
  shows "wfEntries n (renamed f events)"
  unfolding wfEntries_def
proof (intro conjI ballI allI impI)
  show "le_id e < n" if "e \<in> set (renamed f events)" for e
    using that f(2) by (auto simp: renamed_def evIds_def)
  fix j assume "j < n"
  then obtain i where i: "i \<in> evIds events" "j = f i" using f(2) by (metis imageE lessThan_iff)
  let ?l = "filter (\<lambda>v. ev_Id v = i) events"
  have "map ev_Kind ?l = [CallEvent, ReturnEvent]" using wf i(1) by (simp add: wfEvents_def)
  then obtain c r where "?l = [c, r]" "ev_Kind c = CallEvent" "ev_Kind r = ReturnEvent" by (auto simp: map_eq_Cons_conv)
  then have "map le_kind (renamed f ?l) = [callEntry, returnEntry]" by (simp add: renamed_def)
  then show "map le_kind (filter (\<lambda>e. le_id e = j) (renamed f events)) = [callEntry, returnEntry]"
    unfolding i(2) renamed_filter [OF f(1) i(1)] .
qed

lemma renamed_pos:
  assumes f: "inj_on f (evIds events)" and i: "i \<in> evIds events"
  shows "callPos (renamed f events) (f i) = evPos CallEvent events i"
    "retPos (renamed f events) (f i) = evPos ReturnEvent events i"
proof -
  have kinds: "(if k = ReturnEvent then returnEntry else callEntry) = callEntry \<longleftrightarrow> k = CallEvent"
    "(if k = ReturnEvent then returnEntry else callEntry) = returnEntry \<longleftrightarrow> k = ReturnEvent" for k
    by (cases k; simp)+
  have "takeWhile (\<lambda>v. \<not> (ev_Kind v = k \<and> f (ev_Id v) = f i)) events
      = takeWhile (\<lambda>v. \<not> (ev_Kind v = k \<and> ev_Id v = i)) events" for k
    by (rule takeWhile_cong [OF refl]) (use renamed_id [OF f i] in blast)
  then show "callPos (renamed f events) (f i) = evPos CallEvent events i"
    "retPos (renamed f events) (f i) = evPos ReturnEvent events i"
    by (simp_all add: callPos_def retPos_def evPos_def renamed_def takeWhile_map comp_def kinds)
qed

text \<open>Renaming the operations of an order.\<close>

lemma realTime_map:
  assumes "inj_on f S" and "\<And>i j. i \<in> S \<Longrightarrow> j \<in> S \<Longrightarrow> P (f j) (f i) \<longleftrightarrow> Q j i"
  shows "realTime Q S order \<Longrightarrow> realTime P (f ` S) (map f order)"
    "realTime P (f ` S) order' \<Longrightarrow> \<exists>order. order' = map f order \<and> realTime Q S order"
proof -
  assume o: "realTime Q S order"
  then have "sorted_wrt (\<lambda>i j. \<not> P (f j) (f i)) order"
    unfolding realTime_def using assms(2) by (metis (mono_tags, lifting) sorted_wrt_mono_rel)
  with o assms(1) show "realTime P (f ` S) (map f order)"
    by (simp add: realTime_def distinct_map sorted_wrt_map)
next
  assume o: "realTime P (f ` S) order'"
  let ?g = "the_inv_into S f"
  have inv: "f (?g x) = x" "?g x \<in> S" if "x \<in> f ` S" for x
    using that assms(1) by (simp_all add: f_the_inv_into_f the_inv_into_into)
  have "map (\<lambda>x. f (?g x)) order' = order'"
    by (rule map_idI) (use o inv(1) in \<open>simp add: realTime_def\<close>)
  then have order': "order' = map f (map ?g order')" by (simp add: comp_def)
  have S: "set (map ?g order') = S"
    using o assms(1) by (simp add: realTime_def image_image the_inv_into_f_f)
  have o': "distinct (map f (map ?g order'))" "sorted_wrt (\<lambda>i j. \<not> P j i) (map f (map ?g order'))"
    unfolding order' [symmetric] using o by (simp_all add: realTime_def)
  have "distinct (map ?g order')" using o'(1) unfolding distinct_map [of f] by blast
  moreover have "sorted_wrt (\<lambda>i j. \<not> P (f j) (f i)) (map ?g order')" using o'(2) unfolding sorted_wrt_map [of _ f] .
  then have "sorted_wrt (\<lambda>i j. \<not> Q j i) (map ?g order')"
    by (rule sorted_wrt_mono_rel [rotated]) (use assms(2) S in blast)
  ultimately show "\<exists>order. order' = map f order \<and> realTime Q S order"
    using order' S unfolding realTime_def by blast
qed

lemma linearizable_renamed:
  assumes wf: "wfEvents events" and f: "inj_on f (evIds events)" "f ` evIds events = {..<n}"
  shows "linearizable step init n (renamed f events) \<longleftrightarrow> linearizableEvents step init events"
proof -
  let ?es = "renamed f events" and ?S = "evIds events"
  let ?P = "\<lambda>j i. retPos ?es j < callPos ?es i" and ?Q = "\<lambda>j i. evPos ReturnEvent events j < evPos CallEvent events i"
  let ?inp = "\<lambda>i. ev_Value (events ! evPos CallEvent events i)" and ?out = "\<lambda>i. ev_Value (events ! evPos ReturnEvent events i)"
  have w: "wfEntries n ?es" by (rule renamed_wf [OF wf f])
  have len: "length ?es = length events" by (simp add: renamed_def)
  have io: "inputOf ?es (f i) = ?inp i \<and> outputOf ?es (f i) = ?out i" if i: "i \<in> ?S" for i
  proof -
    have "f i < n" using i f(2) by blast
    from wfEntries_pos(1,2) [OF w this]
    have "evPos CallEvent events i < length events" "evPos ReturnEvent events i < length events"
      unfolding renamed_pos [OF f(1) i] len by auto
    then show ?thesis unfolding inputOf_def outputOf_def renamed_pos [OF f(1) i] by (simp add: renamed_def)
  qed
  have run: "legal step (inputOf ?es) (outputOf ?es) init (map f order) = legal step ?inp ?out init order"
    if "realTime ?Q ?S order" for order
    unfolding legal_map by (rule legal_cong) (use that io in \<open>simp add: realTime_def\<close>)
  have eq: "?P (f j) (f i) \<longleftrightarrow> ?Q j i" if "i \<in> ?S" "j \<in> ?S" for i j
    using that renamed_pos [OF f(1)] by simp
  note tr = realTime_map [of f ?S ?P ?Q, OF f(1) eq, unfolded f(2)]
  show ?thesis
    unfolding linearizable_def linearizableEvents_def using tr(1) tr(2) run by metis
qed

section \<open>What CheckEvents decides\<close>

definition typedEvents :: "('s \<Rightarrow> 'v \<Rightarrow> 'v \<Rightarrow> (bool \<times> 's) option) \<Rightarrow> 'v event list \<Rightarrow> bool" where
  "typedEvents step events \<longleftrightarrow> (\<forall>i \<in> evIds events. \<forall>s.
     step s (ev_Value (events ! evPos CallEvent events i)) (ev_Value (events ! evPos ReturnEvent events i)) \<noteq> None)"

lemma check_events_run:
  assumes wf: "wfEvents events" and typed: "typedEvents step events"
  shows "\<exists>N. \<forall>fuel > N. do { l \<leftarrow> makeLinkedEntries (convertEntries (renumber events));
       checkSingle fuel step (=) init l (\<lambda>_. False) } = Some (linearizableEvents step init events)"
proof -
  obtain f n where f: "convertEntries (renumber events) = renamed f events" "inj_on f (evIds events)" "f ` evIds events = {..<n}"
    by (rule renumber_renamed)
  have w: "wfEntries n (renamed f events)" by (rule renamed_wf [OF wf f(2,3)])
  have len: "length (renamed f events) = length events" by (simp add: renamed_def)
  have "total step n (renamed f events)"
    unfolding total_def
  proof (intro allI impI)
    fix j s assume j: "j < n"
    then obtain i where i: "i \<in> evIds events" "j = f i" using f(3) by (metis imageE lessThan_iff)
    from wfEntries_pos(1,2) [OF w j]
    have "evPos CallEvent events i < length events" "evPos ReturnEvent events i < length events"
      unfolding i(2) renamed_pos [OF f(2) i(1)] len by auto
    then have "inputOf (renamed f events) j = ev_Value (events ! evPos CallEvent events i)"
      "outputOf (renamed f events) j = ev_Value (events ! evPos ReturnEvent events i)"
      unfolding inputOf_def outputOf_def i(2) renamed_pos [OF f(2) i(1)] by (simp_all add: renamed_def)
    then show "step s (inputOf (renamed f events) j) (outputOf (renamed f events) j) \<noteq> None"
      using typed i(1) unfolding typedEvents_def by metis
  qed
  from checkSingle_run [OF w this, of init] obtain l N where "makeLinkedEntries (renamed f events) = Some l"
    "\<forall>fuel > N. \<forall>kill. \<exists>b. checkSingle fuel step (=) init l kill = Some b
       \<and> (b \<longrightarrow> linearizable step init n (renamed f events))
       \<and> ((\<forall>i. \<not> kill i) \<longrightarrow> b = linearizable step init n (renamed f events))" by blast
  then show ?thesis unfolding f(1) linearizable_renamed [OF wf f(2,3)] by (intro exI [of _ N]) fastforce
qed

text \<open>C26. \<open>CheckEvents\<close>, for a model without a partition and with the default equality, returns, and
  returns whether the history of events is linearizable under its own identifiers, whatever they are:
  every identifier has one call and one later return, and the model accepts the values.\<close>

theorem events_check_decides:
  assumes "wfEvents events" "typedEvents (Step m) events" "PartitionEvent m = None" "Equal m = None"
    and "\<And>rs. mset (arrive rs) = mset rs"
  shows "\<exists>N. \<forall>fuel > N. CheckEvents fuel m events arrive = Some (linearizableEvents (Step m) (Init m) events)"
proof -
  obtain N where N: "\<forall>fuel > N. do { l \<leftarrow> makeLinkedEntries (convertEntries (renumber events));
       checkSingle fuel (Step m) (=) (Init m) l (\<lambda>_. False) } = Some (linearizableEvents (Step m) (Init m) events)"
    using check_events_run [OF assms(1,2), of "Init m"] by blast
  have fd: "PartitionEvent (fillDefault m) = Some NoPartitionEvent" "Equal (fillDefault m) = Some (=)"
    "Step (fillDefault m) = Step m" "Init (fillDefault m) = Init m"
    using assms(3,4) by (simp_all add: fillDefault_def Let_def ShallowEqual_def fun_eq_iff)
  have "arrive [b] = [b]" for b using assms(5) [of "[b]"] by simp
  with N fd show ?thesis
    by (intro exI [of _ N]) (simp add: CheckEvents_def CheckEventsTimeout_def Let_def NoPartitionEvent_def)
qed

text \<open>A write and a read of the same key under the identifiers 7 and 3.\<close>

definition sampleEvents :: "kvio event list" where
  "sampleEvents =
     [\<lparr>ev_Kind = CallEvent, ev_Value = KvIn \<lparr>ki_Op = 1, ki_Key = ''x'', ki_Value = ''a''\<rparr>, ev_Id = 7\<rparr>,
      \<lparr>ev_Kind = CallEvent, ev_Value = KvIn \<lparr>ki_Op = 0, ki_Key = ''x'', ki_Value = []\<rparr>, ev_Id = 3\<rparr>,
      \<lparr>ev_Kind = ReturnEvent, ev_Value = KvOut \<lparr>ko_Value = ''a''\<rparr>, ev_Id = 3\<rparr>,
      \<lparr>ev_Kind = ReturnEvent, ev_Value = KvOut \<lparr>ko_Value = []\<rparr>, ev_Id = 7\<rparr>]"

definition plainModel :: "(kvio, string) model" where
  "plainModel = \<lparr>Partition = None, PartitionEvent = None, Init = kvInit, Step = kvStep, Equal = None\<rparr>"

theorem events_check_decides_witness:
  "\<exists>fuel. CheckEvents fuel plainModel sampleEvents (\<lambda>rs. rs) = Some (linearizableEvents kvStep kvInit sampleEvents)"
proof -
  have "wfEvents sampleEvents" by (simp add: wfEvents_def evIds_def sampleEvents_def)
  moreover have "typedEvents (Step plainModel) sampleEvents"
    by (auto simp: typedEvents_def evIds_def evPos_def sampleEvents_def plainModel_def kvStep_def)
  ultimately obtain N where "\<forall>fuel > N. CheckEvents fuel plainModel sampleEvents (\<lambda>rs. rs)
      = Some (linearizableEvents (Step plainModel) (Init plainModel) sampleEvents)"
    using events_check_decides [of sampleEvents plainModel "\<lambda>rs. rs"] by (auto simp: plainModel_def)
  then show ?thesis by (intro exI [of _ "Suc N"]) (simp add: plainModel_def)
qed

end
