(* ===== verification/Labgob.thy ===== *)
theory Labgob
  imports Complex_Main Prelude
begin

text \<open>
  The encoder wrapper of \<^verbatim>\<open>src/src/labgob/labgob.go\<close>: before it hands a value to encoding/gob it looks for
  field names that are not capitalized (\<open>checkType\<close>) and, when decoding, for a target that is not in its
  default state (\<open>checkDefault\<close>).

  A \<open>reflect.Type\<close> is a position in a table, so that types may refer to each other and to themselves.
  The global variables are a record, with the warnings printed so far.  The upper-case test of the first
  rune of a name and the encoder encoding/gob itself are parameters.  \<open>checkType\<close> recurses over a graph
  and is given fuel; as it visits a type once, one more than the number of types is enough.
  \<open>None\<close> is a panic: a nil type, or reading an unexported field by reflection.
\<close>

section \<open>Types and values under reflection\<close>

datatype gotype =
    TBasic
  | TStruct string "(string \<times> nat) list"
  | TSlice nat
  | TArray nat
  | TPtr nat
  | TMap nat nat

datatype basic = BBool bool | BInt int | BUint nat | BFloat rat | BString string

datatype goval =
    GBasic string basic
  | GStruct string "(string \<times> goval) list"
  | GPtr string "goval option"
  | GOther string

datatype warning = LowerCase string string | NonDefault string

record labgob =
  lg_errorCount :: int
  lg_checked :: "nat list"
  lg_out :: "warning list"

section \<open>The checks\<close>

fun checkType :: "(string \<Rightarrow> bool) \<Rightarrow> gotype list \<Rightarrow> nat \<Rightarrow> nat \<Rightarrow> labgob \<Rightarrow> labgob option"
  and checkFields :: "(string \<Rightarrow> bool) \<Rightarrow> gotype list \<Rightarrow> nat \<Rightarrow> string \<Rightarrow> (string \<times> nat) list \<Rightarrow> labgob \<Rightarrow> labgob option" where
  "checkType isUpper T 0 t st = None"
| "checkType isUpper T (Suc fuel) t st =
     (if t \<ge> length T then None
      else if t \<in> set (lg_checked st) then Some st
      else let st = st\<lparr>lg_checked := t # lg_checked st\<rparr> in
        case T ! t of
          TStruct name fs \<Rightarrow> checkFields isUpper T fuel name fs st
        | TSlice e \<Rightarrow> checkType isUpper T fuel e st
        | TArray e \<Rightarrow> checkType isUpper T fuel e st
        | TPtr e \<Rightarrow> checkType isUpper T fuel e st
        | TMap e k \<Rightarrow> do { st \<leftarrow> checkType isUpper T fuel e st; checkType isUpper T fuel k st }
        | TBasic \<Rightarrow> Some st)"
| "checkFields isUpper T fuel name [] st = Some st"
| "checkFields isUpper T fuel name ((f, t) # fs) st =
     (let st = (if \<not> isUpper f
                then st\<lparr>lg_out := lg_out st @ [LowerCase f name], lg_errorCount := lg_errorCount st + 1\<rparr> else st)
      in do { st \<leftarrow> checkType isUpper T fuel t st; checkFields isUpper T fuel name fs st })"

text \<open>\<open>reflect.TypeOf\<close> gives no type for nil, and asking it for its kind panics.\<close>

definition checkValue :: "(string \<Rightarrow> bool) \<Rightarrow> gotype list \<Rightarrow> nat option \<Rightarrow> labgob \<Rightarrow> labgob option" where
  "checkValue isUpper T typ st = (case typ of None \<Rightarrow> None | Some t \<Rightarrow> checkType isUpper T (length T + 1) t st)"

fun isZero :: "basic \<Rightarrow> bool" where
  "isZero (BBool b) = (\<not> b)"
| "isZero (BInt i) = (i = 0)"
| "isZero (BUint n) = (n = 0)"
| "isZero (BFloat x) = (x = 0)"
| "isZero (BString s) = (s = [])"

definition warnDefault :: "string \<Rightarrow> string \<Rightarrow> labgob \<Rightarrow> labgob" where
  "warnDefault name typeName st =
     (let st = (if lg_errorCount st < 1
                then st\<lparr>lg_out := lg_out st @ [NonDefault (if name = [] then typeName else name)]\<rparr> else st)
      in st\<lparr>lg_errorCount := lg_errorCount st + 1\<rparr>)"

text \<open>
  \<open>ro\<close> says that the value was reached through a field that is not exported: reflection then refuses
  \<open>value.Interface()\<close>, which is a panic.  (Embedded fields are not told apart from named ones.)
\<close>

fun checkDefault1 :: "(string \<Rightarrow> bool) \<Rightarrow> goval \<Rightarrow> bool \<Rightarrow> nat \<Rightarrow> string \<Rightarrow> labgob \<Rightarrow> labgob option"
  and checkDefaultFields :: "(string \<Rightarrow> bool) \<Rightarrow> (string \<times> goval) list \<Rightarrow> bool \<Rightarrow> nat \<Rightarrow> string \<Rightarrow> labgob \<Rightarrow> labgob option" where
  "checkDefault1 isUpper (GStruct tn fs) ro depth name st =
     (if depth > 3 then Some st else checkDefaultFields isUpper fs ro depth name st)"
| "checkDefault1 isUpper (GPtr tn None) ro depth name st = Some st"
| "checkDefault1 isUpper (GPtr tn (Some v)) ro depth name st =
     (if depth > 3 then Some st else checkDefault1 isUpper v ro (depth + 1) name st)"
| "checkDefault1 isUpper (GBasic tn b) ro depth name st =
     (if depth > 3 then Some st else if ro then None
      else if isZero b then Some st else Some (warnDefault name tn st))"
| "checkDefault1 isUpper (GOther tn) ro depth name st = Some st"
| "checkDefaultFields isUpper [] ro depth name st = Some st"
| "checkDefaultFields isUpper ((f, v) # fs) ro depth name st =
     (let name1 = (if name = [] then f else name @ ''.'' @ f)
      in do { st \<leftarrow> checkDefault1 isUpper v (ro \<or> \<not> isUpper f) (depth + 1) name1 st;
              checkDefaultFields isUpper fs ro depth name st })"

definition checkDefault :: "(string \<Rightarrow> bool) \<Rightarrow> goval option \<Rightarrow> labgob \<Rightarrow> labgob option" where
  "checkDefault isUpper value st = (case value of None \<Rightarrow> Some st | Some v \<Rightarrow> checkDefault1 isUpper v False 1 [] st)"

section \<open>Encoding and decoding\<close>

text \<open>\<open>gob_Encode\<close> and \<open>gob_Decode\<close> are encoding/gob; an encoder appends to its buffer, a decoder consumes it
  and fills the target.  \<open>typeOf\<close> gives the type of a value.\<close>

definition labEncode :: "(string \<Rightarrow> bool) \<Rightarrow> gotype list \<Rightarrow> (goval \<Rightarrow> nat option) \<Rightarrow> (goval \<Rightarrow> 'b list) \<Rightarrow> 'b list \<Rightarrow> goval
    \<Rightarrow> labgob \<Rightarrow> ('b list \<times> labgob) option" where
  "labEncode isUpper T typeOf gob_Encode buffer v st = do {
     st \<leftarrow> checkValue isUpper T (typeOf v) st;
     Some (buffer @ gob_Encode v, st) }"

definition labDecode :: "(string \<Rightarrow> bool) \<Rightarrow> gotype list \<Rightarrow> (goval \<Rightarrow> nat option)
    \<Rightarrow> ('b list \<Rightarrow> goval \<Rightarrow> (goval \<times> 'b list) option) \<Rightarrow> 'b list \<Rightarrow> goval \<Rightarrow> labgob
    \<Rightarrow> ((goval \<times> 'b list) option \<times> labgob) option" where
  "labDecode isUpper T typeOf gob_Decode buffer target st = do {
     st \<leftarrow> checkValue isUpper T (typeOf target) st;
     st \<leftarrow> checkDefault isUpper (Some target) st;
     Some (gob_Decode buffer target, st) }"

text \<open>\<open>Register\<close> and \<open>RegisterName\<close> check the value's type and then tell encoding/gob the concrete type behind
  an interface; the table of names is gob's.\<close>

definition labRegister :: "(string \<Rightarrow> bool) \<Rightarrow> gotype list \<Rightarrow> (goval \<Rightarrow> nat option) \<Rightarrow> ('r \<Rightarrow> goval \<Rightarrow> 'r) \<Rightarrow> 'r \<Rightarrow> goval
    \<Rightarrow> labgob \<Rightarrow> ('r \<times> labgob) option" where
  "labRegister isUpper T typeOf gob_Register reg v st = do {
     st \<leftarrow> checkValue isUpper T (typeOf v) st;
     Some (gob_Register reg v, st) }"

definition labRegisterName :: "(string \<Rightarrow> bool) \<Rightarrow> gotype list \<Rightarrow> (goval \<Rightarrow> nat option) \<Rightarrow> ('r \<Rightarrow> string \<Rightarrow> goval \<Rightarrow> 'r) \<Rightarrow> 'r
    \<Rightarrow> string \<Rightarrow> goval \<Rightarrow> labgob \<Rightarrow> ('r \<times> labgob) option" where
  "labRegisterName isUpper T typeOf gob_RegisterName reg name v st = do {
     st \<leftarrow> checkValue isUpper T (typeOf v) st;
     Some (gob_RegisterName reg name v, st) }"

section \<open>The types that checkType visits\<close>

definition succs :: "gotype list \<Rightarrow> nat \<Rightarrow> nat set" where
  "succs T t = (case T ! t of TBasic \<Rightarrow> {} | TStruct _ fs \<Rightarrow> snd ` set fs
     | TSlice e \<Rightarrow> {e} | TArray e \<Rightarrow> {e} | TPtr e \<Rightarrow> {e} | TMap e k \<Rightarrow> {e, k})"

definition typeReach :: "gotype list \<Rightarrow> nat \<Rightarrow> nat set" where
  "typeReach T t = {u. (\<lambda>a b. b \<in> succs T a)\<^sup>*\<^sup>* t u}"

text \<open>The number of fields of a type that are not capitalized.\<close>

definition lowerFields :: "(string \<Rightarrow> bool) \<Rightarrow> (string \<times> nat) list \<Rightarrow> int" where
  "lowerFields isUpper fs = int (length (filter (\<lambda>(f, t). \<not> isUpper f) fs))"

definition lowerOf :: "(string \<Rightarrow> bool) \<Rightarrow> gotype list \<Rightarrow> nat \<Rightarrow> int" where
  "lowerOf isUpper T t = (case T ! t of TStruct _ fs \<Rightarrow> lowerFields isUpper fs | _ \<Rightarrow> 0)"

text \<open>What a visit of the types in \<open>S\<close> does: the types added lie behind \<open>S\<close>, their successors are checked
  too, and the errors are counted once for each added type, besides \<open>n\<close>.\<close>

definition visits :: "(string \<Rightarrow> bool) \<Rightarrow> gotype list \<Rightarrow> nat set \<Rightarrow> int \<Rightarrow> labgob \<Rightarrow> labgob \<Rightarrow> bool" where
  "visits isUpper T S n st st' \<longleftrightarrow> (let C = set (lg_checked st); C' = set (lg_checked st') in
     C \<subseteq> C' \<and> S \<subseteq> C' \<and> (\<forall>x \<in> C' - C. succs T x \<subseteq> C') \<and> C' - C \<subseteq> (\<Union>s \<in> S. typeReach T s)
     \<and> lg_errorCount st' = lg_errorCount st + n + (\<Sum>x \<in> C' - C. lowerOf isUpper T x))"

lemma visits_trans:
  assumes "visits isUpper T S n st st1" "visits isUpper T S' n' st1 st2"
  shows "visits isUpper T (S \<union> S') (n + n') st st2"
proof -
  let ?A = "set (lg_checked st)" and ?B = "set (lg_checked st1)" and ?C = "set (lg_checked st2)"
  have sub: "?A \<subseteq> ?B" "?B \<subseteq> ?C" using assms by (simp_all add: visits_def Let_def)
  have "?C - ?A = (?B - ?A) \<union> (?C - ?B)" using sub by blast
  moreover have "(?B - ?A) \<inter> (?C - ?B) = {}" by blast
  ultimately have sum: "(\<Sum>x \<in> ?C - ?A. lowerOf isUpper T x)
      = (\<Sum>x \<in> ?B - ?A. lowerOf isUpper T x) + (\<Sum>x \<in> ?C - ?B. lowerOf isUpper T x)"
    by (simp add: sum.union_disjoint)
  have "\<forall>x \<in> ?C - ?A. succs T x \<subseteq> ?C" using assms sub unfolding visits_def Let_def by blast
  moreover have "?C - ?A \<subseteq> (\<Union>s \<in> S \<union> S'. typeReach T s)" using assms sub unfolding visits_def Let_def by blast
  ultimately show ?thesis using assms sub sum unfolding visits_def Let_def by auto
qed

lemma reach_step: "u \<in> succs T t \<Longrightarrow> typeReach T u \<subseteq> typeReach T t"
  by (auto simp: typeReach_def intro: converse_rtranclp_into_rtranclp)

lemma reach_refl: "t \<in> typeReach T t"
  by (simp add: typeReach_def)

text \<open>Marking a type and then visiting what it refers to is a visit of the type.\<close>

lemma visits_mark:
  assumes "visits isUpper T (succs T t) (lowerOf isUpper T t) (st\<lparr>lg_checked := t # lg_checked st\<rparr>) st'"
    and "t \<notin> set (lg_checked st)"
  shows "visits isUpper T {t} 0 st st'"
proof -
  let ?A = "set (lg_checked st)" and ?C = "set (lg_checked st')"
  from assms(1) have v: "insert t ?A \<subseteq> ?C" "succs T t \<subseteq> ?C" "\<forall>x \<in> ?C - insert t ?A. succs T x \<subseteq> ?C"
    "?C - insert t ?A \<subseteq> (\<Union>s \<in> succs T t. typeReach T s)"
    "lg_errorCount st' = lg_errorCount st + lowerOf isUpper T t + (\<Sum>x \<in> ?C - insert t ?A. lowerOf isUpper T x)"
    by (auto simp: visits_def Let_def)
  have split: "?C - ?A = insert t (?C - insert t ?A)" using v(1) assms(2) by auto
  have "(\<Sum>x \<in> ?C - ?A. lowerOf isUpper T x) = lowerOf isUpper T t + (\<Sum>x \<in> ?C - insert t ?A. lowerOf isUpper T x)"
    unfolding split by (subst sum.insert) auto
  moreover have "?C - ?A \<subseteq> typeReach T t" unfolding split using v(4) reach_step [of _ T t] reach_refl [of t T] by blast
  moreover have "\<forall>x \<in> ?C - ?A. succs T x \<subseteq> ?C" unfolding split using v(2,3) by blast
  ultimately show ?thesis using v(1,5) by (simp add: visits_def Let_def)
qed

lemma visits_refl: "visits isUpper T {} 0 st st"
  by (simp add: visits_def)

lemma visits_known: "t \<in> set (lg_checked st) \<Longrightarrow> visits isUpper T {t} 0 st st"
  by (simp add: visits_def)

lemma visits_warn:
  "visits isUpper T {} 1 st (st\<lparr>lg_out := out, lg_errorCount := lg_errorCount st + 1\<rparr>)"
  by (simp add: visits_def)

lemma check_visits:
  "checkType isUpper T fuel t st = Some st' \<Longrightarrow> visits isUpper T {t} 0 st st'"
  "checkFields isUpper T fuel name fs st = Some st' \<Longrightarrow> visits isUpper T (snd ` set fs) (lowerFields isUpper fs) st st'"
proof (induction isUpper T fuel t st and isUpper T fuel name fs st arbitrary: st' and st'
    rule: checkType_checkFields.induct)
  case (2 isUpper T fuel t st)
  show ?case
  proof (cases "t \<in> set (lg_checked st)")
    case True
    with 2(7) show ?thesis by (auto simp: visits_known split: if_splits)
  next
    case False
    let ?st = "st\<lparr>lg_checked := t # lg_checked st\<rparr>"
    have lt: "\<not> t \<ge> length T" using 2(7) by (auto split: if_splits)
    have "visits isUpper T (succs T t) (lowerOf isUpper T t) ?st st'"
    proof (cases "T ! t")
      case (TStruct name fs)
      then have "checkFields isUpper T fuel name fs ?st = Some st'" using 2(7) False lt by (simp add: Let_def)
      from 2(1) [OF lt False refl TStruct this] TStruct show ?thesis by (simp add: succs_def lowerOf_def)
    next
      case (TMap e k)
      then obtain st1 where st1: "checkType isUpper T fuel e ?st = Some st1" "checkType isUpper T fuel k st1 = Some st'"
        using 2(7) False lt by (auto simp: Let_def split: Option.bind_split_asm)
      from visits_trans [OF 2(5) [OF lt False refl TMap st1(1)] 2(6) [OF lt False refl TMap st1]] TMap
      show ?thesis by (simp add: succs_def lowerOf_def insert_commute)
    qed (use 2 False lt in \<open>auto simp: Let_def succs_def lowerOf_def visits_refl\<close>)
    from visits_mark [OF this False] show ?thesis .
  qed
next
  case (4 isUpper T fuel name f t fs st)
  let ?st = "if \<not> isUpper f then st\<lparr>lg_out := lg_out st @ [LowerCase f name], lg_errorCount := lg_errorCount st + 1\<rparr> else st"
  obtain st1 where st1: "checkType isUpper T fuel t ?st = Some st1" "checkFields isUpper T fuel name fs st1 = Some st'"
    using 4(3) by (auto simp: Let_def split: Option.bind_split_asm)
  have "visits isUpper T {} (if isUpper f then 0 else 1) st ?st" by (simp add: visits_refl visits_warn)
  from visits_trans [OF visits_trans [OF this 4(1) [OF refl st1(1)]] 4(2) [OF refl st1(1) st1(2)]]
  show ?case by (cases "isUpper f") (simp_all add: lowerFields_def)
qed (auto simp: visits_refl lowerFields_def)

text \<open>Every visited type shrinks what is left to visit, so the fuel is enough.\<close>

definition closedTable :: "gotype list \<Rightarrow> bool" where
  "closedTable T \<longleftrightarrow> (\<forall>t < length T. succs T t \<subseteq> {..<length T})"

abbreviation unvisited :: "gotype list \<Rightarrow> labgob \<Rightarrow> nat" where
  "unvisited T st \<equiv> card ({..<length T} - set (lg_checked st))"

lemma unvisited_mono: "visits isUpper T S n st st' \<Longrightarrow> unvisited T st' \<le> unvisited T st"
  by (rule card_mono) (auto simp: visits_def Let_def)

lemma unvisited_mark:
  assumes "t < length T" "t \<notin> set (lg_checked st)"
  shows "Suc (unvisited T (st\<lparr>lg_checked := t # lg_checked st\<rparr>)) = unvisited T st"
proof -
  have "{..<length T} - set (lg_checked st) = insert t ({..<length T} - set (t # lg_checked st))" using assms by auto
  then have "unvisited T st = card (insert t ({..<length T} - set (t # lg_checked st)))" by (simp only:)
  also have "\<dots> = Suc (card ({..<length T} - set (t # lg_checked st)))" by (rule card_insert_disjoint) auto
  finally show ?thesis by simp
qed

lemma check_total:
  "closedTable T \<Longrightarrow> t < length T \<Longrightarrow> unvisited T st < fuel \<Longrightarrow> \<exists>st'. checkType isUpper T fuel t st = Some st'"
  "closedTable T \<Longrightarrow> snd ` set fs \<subseteq> {..<length T} \<Longrightarrow> unvisited T st < fuel
     \<Longrightarrow> \<exists>st'. checkFields isUpper T fuel name fs st = Some st'"
proof (induction isUpper T fuel t st and isUpper T fuel name fs st rule: checkType_checkFields.induct)
  case (2 isUpper T fuel t st)
  show ?case
  proof (cases "t \<in> set (lg_checked st)")
    case True
    with 2(8) show ?thesis by simp
  next
    case False
    let ?st = "st\<lparr>lg_checked := t # lg_checked st\<rparr>"
    have lt: "\<not> t \<ge> length T" using 2(8) by simp
    have less: "unvisited T ?st < fuel" using unvisited_mark [OF 2(8) False] 2(9) by linarith
    have sub: "succs T t \<subseteq> {..<length T}" using 2(7,8) by (simp add: closedTable_def)
    show ?thesis
    proof (cases "T ! t")
      case (TStruct name fs)
      with sub have "snd ` set fs \<subseteq> {..<length T}" by (simp add: succs_def)
      from 2(1) [OF lt False refl TStruct 2(7) this less] TStruct False lt show ?thesis by simp
    next
      case (TMap e k)
      with sub have e: "e < length T" "k < length T" by (simp_all add: succs_def)
      from 2(5) [OF lt False refl TMap 2(7) e(1) less] obtain st1 where st1: "checkType isUpper T fuel e ?st = Some st1" ..
      have "unvisited T st1 < fuel" using unvisited_mono [OF check_visits(1) [OF st1]] less by linarith
      from 2(6) [OF lt False refl TMap st1 2(7) e(2) this] st1 TMap False lt show ?thesis by simp
    next
      case (TSlice e)
      then show ?thesis using 2(2) [OF lt False refl TSlice 2(7) _ less] sub False lt by (simp add: succs_def)
    next
      case (TArray e)
      then show ?thesis using 2(3) [OF lt False refl TArray 2(7) _ less] sub False lt by (simp add: succs_def)
    next
      case (TPtr e)
      then show ?thesis using 2(4) [OF lt False refl TPtr 2(7) _ less] sub False lt by (simp add: succs_def)
    qed (use False lt in simp)
  qed
next
  case (4 isUpper T fuel name f t fs st)
  let ?st = "if \<not> isUpper f then st\<lparr>lg_out := lg_out st @ [LowerCase f name], lg_errorCount := lg_errorCount st + 1\<rparr> else st"
  have t: "t < length T" "snd ` set fs \<subseteq> {..<length T}" "unvisited T ?st < fuel" using 4(4,5) by auto
  from 4(1) [OF refl 4(3) t(1,3)] obtain st1 where st1: "checkType isUpper T fuel t ?st = Some st1" ..
  have "unvisited T st1 < fuel" using unvisited_mono [OF check_visits(1) [OF st1]] t(3) by linarith
  from 4(2) [OF refl st1 4(3) t(2) this] st1 show ?case by (simp add: Let_def)
qed auto

lemma checkValue_spec:
  assumes "closedTable T" "t < length T" "\<forall>x \<in> set (lg_checked st). succs T x \<subseteq> set (lg_checked st)"
  shows "\<exists>st'. checkValue isUpper T (Some t) st = Some st'
     \<and> set (lg_checked st') = set (lg_checked st) \<union> typeReach T t
     \<and> lg_errorCount st' = lg_errorCount st + (\<Sum>x \<in> typeReach T t - set (lg_checked st). lowerOf isUpper T x)"
proof -
  let ?C = "set (lg_checked st)"
  have "unvisited T st \<le> card {..<length T}" by (rule card_mono) auto
  then obtain st' where st': "checkType isUpper T (length T + 1) t st = Some st'"
    using check_total(1) [OF assms(1,2), of st "length T + 1"] by auto
  let ?C' = "set (lg_checked st')"
  from check_visits(1) [OF st'] have v: "?C \<subseteq> ?C'" "t \<in> ?C'" "\<forall>x \<in> ?C' - ?C. succs T x \<subseteq> ?C'" "?C' - ?C \<subseteq> typeReach T t"
    "lg_errorCount st' = lg_errorCount st + (\<Sum>x \<in> ?C' - ?C. lowerOf isUpper T x)"
    by (simp_all add: visits_def Let_def)
  have "u \<in> ?C'" if "(\<lambda>a b. b \<in> succs T a)\<^sup>*\<^sup>* t u" for u
    using that by induction (use v(1,2,3) assms(3) in blast)+
  then have eq: "?C' = ?C \<union> typeReach T t" using v(1,4) by (auto simp: typeReach_def)
  then have "?C' - ?C = typeReach T t - ?C" by blast
  with eq v(5) st' show ?thesis by (simp add: checkValue_def)
qed

text \<open>C31. Checking a type returns for every table of types, recursive ones included, and complains once:
  the types checked afterwards are those checked before and all that can be reached, and the error
  count grows by the number of fields that are not capitalized, in the types that were new.\<close>

theorem checkValue_once:
  assumes "closedTable T" "t < length T" "\<forall>x \<in> set (lg_checked st). succs T x \<subseteq> set (lg_checked st)"
  shows "\<exists>st'. checkValue isUpper T (Some t) st = Some st'
     \<and> set (lg_checked st') = set (lg_checked st) \<union> typeReach T t
     \<and> lg_errorCount st' = lg_errorCount st + (\<Sum>x \<in> typeReach T t - set (lg_checked st). lowerOf isUpper T x)"
  using checkValue_spec [OF assms] .

text \<open>A list node: a struct with a pointer to itself, whose second field is not capitalized.\<close>

definition listTable :: "gotype list" where
  "listTable = [TStruct ''Node'' [(''Next'', 1), (''value'', 2)], TPtr 0, TBasic]"

definition freshLab :: labgob where
  "freshLab = \<lparr>lg_errorCount = 0, lg_checked = [], lg_out = []\<rparr>"

definition asciiUpper :: "string \<Rightarrow> bool" where
  "asciiUpper f = (case f of [] \<Rightarrow> False | c # _ \<Rightarrow> 65 \<le> (of_char c :: nat) \<and> (of_char c :: nat) \<le> 90)"

theorem checkValue_once_witness:
  "\<exists>st'. checkValue asciiUpper listTable (Some 0) freshLab = Some st' \<and> set (lg_checked st') = typeReach listTable 0
     \<and> lg_errorCount st' = (\<Sum>x \<in> typeReach listTable 0. lowerOf asciiUpper listTable x)"
proof -
  have "closedTable listTable"
    by (auto simp: closedTable_def listTable_def succs_def less_Suc_eq numeral_3_eq_3)
  then show ?thesis using checkValue_once [of listTable 0 freshLab asciiUpper]
    by (auto simp: freshLab_def listTable_def)
qed

section \<open>Decoding into a used variable\<close>

text \<open>The values that \<open>checkDefault1\<close> complains about.\<close>

fun nonDefaults :: "goval \<Rightarrow> nat \<Rightarrow> int"
  and nonDefaultFields :: "(string \<times> goval) list \<Rightarrow> nat \<Rightarrow> int" where
  "nonDefaults (GStruct tn fs) depth = (if depth > 3 then 0 else nonDefaultFields fs (depth + 1))"
| "nonDefaults (GPtr tn None) depth = 0"
| "nonDefaults (GPtr tn (Some v)) depth = (if depth > 3 then 0 else nonDefaults v (depth + 1))"
| "nonDefaults (GBasic tn b) depth = (if depth > 3 \<or> isZero b then 0 else 1)"
| "nonDefaults (GOther tn) depth = 0"
| "nonDefaultFields [] depth = 0"
| "nonDefaultFields ((f, v) # fs) depth = nonDefaults v depth + nonDefaultFields fs depth"

lemma nonDefaults_nonneg: "0 \<le> nonDefaults v depth" "0 \<le> nonDefaultFields fs depth"
  by (induction v depth and fs depth rule: nonDefaults_nonDefaultFields.induct) auto

text \<open>All fields of the value, at any depth, are exported.\<close>

fun exported :: "(string \<Rightarrow> bool) \<Rightarrow> goval \<Rightarrow> bool"
  and exportedFields :: "(string \<Rightarrow> bool) \<Rightarrow> (string \<times> goval) list \<Rightarrow> bool" where
  "exported isUpper (GStruct tn fs) = exportedFields isUpper fs"
| "exported isUpper (GPtr tn (Some v)) = exported isUpper v"
| "exported isUpper v = True"
| "exportedFields isUpper [] = True"
| "exportedFields isUpper ((f, v) # fs) = (isUpper f \<and> exported isUpper v \<and> exportedFields isUpper fs)"

lemma checkDefault1_count:
  "exported isUpper v \<Longrightarrow> \<exists>st'. checkDefault1 isUpper v False depth name st = Some st'
     \<and> lg_errorCount st' = lg_errorCount st + nonDefaults v depth"
  "exportedFields isUpper fs \<Longrightarrow> \<exists>st'. checkDefaultFields isUpper fs False depth name st = Some st'
     \<and> lg_errorCount st' = lg_errorCount st + nonDefaultFields fs (depth + 1)"
proof (induction isUpper v and isUpper fs arbitrary: depth name st and depth name st rule: exported_exportedFields.induct)
  case (5 isUpper f v fs)
  let ?n = "if name = [] then f else name @ ''.'' @ f"
  obtain st1 where st1: "checkDefault1 isUpper v False (depth + 1) ?n st = Some st1"
      "lg_errorCount st1 = lg_errorCount st + nonDefaults v (depth + 1)"
    using 5(1) [of "depth + 1" ?n st] 5(3) by auto
  obtain st2 where "checkDefaultFields isUpper fs False depth name st1 = Some st2"
      "lg_errorCount st2 = lg_errorCount st1 + nonDefaultFields fs (depth + 1)"
    using 5(2) [of depth name st1] 5(3) by auto
  with st1 5(3) show ?case by (simp add: Let_def)
qed (auto simp: warnDefault_def Let_def)

text \<open>The values of a type of the table.\<close>

fun typed :: "gotype list \<Rightarrow> nat \<Rightarrow> goval \<Rightarrow> bool"
  and typedFields :: "gotype list \<Rightarrow> (string \<times> nat) list \<Rightarrow> (string \<times> goval) list \<Rightarrow> bool" where
  "typed T t (GBasic tn b) = (T ! t = TBasic)"
| "typed T t (GStruct tn fs) = (case T ! t of TStruct name ts \<Rightarrow> typedFields T ts fs | _ \<Rightarrow> False)"
| "typed T t (GPtr tn w) = (case T ! t of TPtr e \<Rightarrow> (case w of None \<Rightarrow> True | Some v \<Rightarrow> typed T e v) | _ \<Rightarrow> False)"
| "typed T t (GOther tn) = (case T ! t of TSlice e \<Rightarrow> True | TArray e \<Rightarrow> True | TMap e k \<Rightarrow> True | _ \<Rightarrow> False)"
| "typedFields T [] [] = True"
| "typedFields T ((f, t) # ts) ((g, v) # fs) = (f = g \<and> typed T t v \<and> typedFields T ts fs)"
| "typedFields T _ _ = False"

lemma lowerFields_zero: "lowerFields isUpper fs = 0 \<longleftrightarrow> (\<forall>(f, t) \<in> set fs. isUpper f)"
  by (auto simp: lowerFields_def filter_empty_conv)

text \<open>If no type has a lower-case field, no value has one.\<close>

lemma typed_exported:
  "typed T t v \<Longrightarrow> \<forall>x \<in> typeReach T t. lowerOf isUpper T x = 0 \<Longrightarrow> exported isUpper v"
  "typedFields T ts fs \<Longrightarrow> \<forall>(f, t) \<in> set ts. isUpper f \<and> (\<forall>x \<in> typeReach T t. lowerOf isUpper T x = 0)
     \<Longrightarrow> exportedFields isUpper fs"
proof (induction T t v and T ts fs rule: typed_typedFields.induct)
  case (2 T t tn fs)
  then obtain name ts where T: "T ! t = TStruct name ts" "typedFields T ts fs" by (auto split: gotype.splits)
  have up: "isUpper f" if "(f, u) \<in> set ts" for f u
    using 2(3) that reach_refl [of t T] lowerFields_zero [of isUpper ts] by (auto simp: lowerOf_def T(1))
  have deep: "lowerOf isUpper T x = 0" if "(f, u) \<in> set ts" "x \<in> typeReach T u" for f u x
  proof -
    have "u \<in> succs T t" using that(1) by (force simp: succs_def T(1))
    from reach_step [OF this] that(2) 2(3) show ?thesis by blast
  qed
  have "\<forall>(f, u) \<in> set ts. isUpper f \<and> (\<forall>x \<in> typeReach T u. lowerOf isUpper T x = 0)"
    using up deep by blast
  with 2(1) [OF T] show ?case by simp
next
  case (3 T t tn w)
  show ?case
  proof (cases w)
    case (Some v)
    with 3(2) obtain e where e: "T ! t = TPtr e" "typed T e v" by (auto split: gotype.splits)
    then have "e \<in> succs T t" by (simp add: succs_def)
    from reach_step [OF this] 3(3) have "\<forall>x \<in> typeReach T e. lowerOf isUpper T x = 0" by blast
    with 3(1) [OF e(1) Some e(2)] Some show ?thesis by simp
  qed simp
qed auto

text \<open>
  What encoding/gob documents.  Only exported fields are transmitted, and of these only the ones that do not
  hold the zero value; a field that is not transmitted is left as it is in the target.  A value that is
  not a struct is transmitted at top level even when it is zero.  A struct that has fields, but no
  exported one, is an error.
\<close>

fun overlay :: "(string \<Rightarrow> bool) \<Rightarrow> goval \<Rightarrow> goval \<Rightarrow> goval"
  and overlayFields :: "(string \<Rightarrow> bool) \<Rightarrow> (string \<times> goval) list \<Rightarrow> (string \<times> goval) list \<Rightarrow> (string \<times> goval) list" where
  "overlay isUpper (GStruct tn fs) (GStruct un gs) = GStruct un (overlayFields isUpper fs gs)"
| "overlay isUpper (GBasic tn b) (GBasic un c) = GBasic un (if isZero b then c else b)"
| "overlay isUpper v w = v"
| "overlayFields isUpper ((f, v) # fs) ((g, w) # gs) =
     (g, if isUpper f then overlay isUpper v w else w) # overlayFields isUpper fs gs"
| "overlayFields isUpper fs gs = []"

definition received :: "(string \<Rightarrow> bool) \<Rightarrow> goval \<Rightarrow> goval \<Rightarrow> goval" where
  "received isUpper v w = (case v of GBasic tn b \<Rightarrow> v | _ \<Rightarrow> overlay isUpper v w)"

fun sendable :: "(string \<Rightarrow> bool) \<Rightarrow> goval \<Rightarrow> bool"
  and sendableFields :: "(string \<Rightarrow> bool) \<Rightarrow> (string \<times> goval) list \<Rightarrow> bool" where
  "sendable isUpper (GStruct tn fs) = ((fs = [] \<or> list_ex (\<lambda>(f, v). isUpper f) fs) \<and> sendableFields isUpper fs)"
| "sendable isUpper v = True"
| "sendableFields isUpper [] = True"
| "sendableFields isUpper ((f, v) # fs) = ((isUpper f \<longrightarrow> sendable isUpper v) \<and> sendableFields isUpper fs)"

lemma exported_sendable:
  "exported isUpper v \<Longrightarrow> sendable isUpper v"
  "exportedFields isUpper fs \<Longrightarrow> sendableFields isUpper fs \<and> (fs = [] \<or> list_ex (\<lambda>(f, v). isUpper f) fs)"
  by (induction isUpper v and isUpper fs rule: exported_exportedFields.induct) auto

text \<open>Two values of one struct type, without pointers: they differ in basic values only.\<close>

fun sameKind :: "basic \<Rightarrow> basic \<Rightarrow> bool" where
  "sameKind (BBool _) (BBool _) = True"
| "sameKind (BInt _) (BInt _) = True"
| "sameKind (BUint _) (BUint _) = True"
| "sameKind (BFloat _) (BFloat _) = True"
| "sameKind (BString _) (BString _) = True"
| "sameKind _ _ = False"

fun sameShape :: "goval \<Rightarrow> goval \<Rightarrow> bool"
  and sameFields :: "(string \<times> goval) list \<Rightarrow> (string \<times> goval) list \<Rightarrow> bool" where
  "sameShape (GStruct tn fs) (GStruct un gs) = (tn = un \<and> sameFields fs gs)"
| "sameShape (GBasic tn b) (GBasic un c) = (tn = un \<and> sameKind b c)"
| "sameShape v w = False"
| "sameFields [] [] = True"
| "sameFields ((f, v) # fs) ((g, w) # gs) = (f = g \<and> sameShape v w \<and> sameFields fs gs)"
| "sameFields fs gs = False"

text \<open>All of the value is within the depth that the check looks at.\<close>

fun shallow :: "goval \<Rightarrow> nat \<Rightarrow> bool"
  and shallowFields :: "(string \<times> goval) list \<Rightarrow> nat \<Rightarrow> bool" where
  "shallow (GStruct tn fs) depth = (depth \<le> 3 \<and> shallowFields fs (depth + 1))"
| "shallow (GBasic tn b) depth = (depth \<le> 3)"
| "shallow v depth = False"
| "shallowFields [] depth = True"
| "shallowFields ((f, v) # fs) depth = (shallow v depth \<and> shallowFields fs depth)"

lemma sameKind_zero: "sameKind b c \<Longrightarrow> isZero b \<Longrightarrow> isZero c \<Longrightarrow> b = c"
  by (cases b; cases c) auto

lemma overlay_default:
  "sameShape v w \<Longrightarrow> exported isUpper v \<Longrightarrow> shallow w d \<Longrightarrow> nonDefaults w d = 0 \<Longrightarrow> overlay isUpper v w = v"
  "sameFields fs gs \<Longrightarrow> exportedFields isUpper fs \<Longrightarrow> shallowFields gs d \<Longrightarrow> nonDefaultFields gs d = 0
     \<Longrightarrow> overlayFields isUpper fs gs = fs"
proof (induction v w and fs gs arbitrary: d and d rule: sameShape_sameFields.induct)
  case (1 tn fs un gs)
  then show ?case by (auto split: if_splits)
next
  case (2 tn b un c)
  then show ?case using sameKind_zero [of b c] by (auto split: if_splits)
next
  case (5 f v fs g w gs)
  have "nonDefaults w d = 0" "nonDefaultFields gs d = 0"
    using 5(6) nonDefaults_nonneg(1) [of w d] nonDefaults_nonneg(2) [of gs d] by auto
  with 5 show ?case by auto
qed auto

text \<open>A variable that holds the zero value, at every depth.\<close>

fun zeroVal :: "goval \<Rightarrow> bool"
  and zeroFields :: "(string \<times> goval) list \<Rightarrow> bool" where
  "zeroVal (GStruct tn fs) = zeroFields fs"
| "zeroVal (GBasic tn b) = isZero b"
| "zeroVal (GPtr tn w) = (w = None)"
| "zeroVal (GOther tn) = True"
| "zeroFields [] = True"
| "zeroFields ((f, v) # fs) = (zeroVal v \<and> zeroFields fs)"

lemma zero_nonDefaults: "zeroVal v \<Longrightarrow> nonDefaults v depth = 0" "zeroFields fs \<Longrightarrow> nonDefaultFields fs depth = 0"
  by (induction v and fs arbitrary: depth and depth rule: zeroVal_zeroFields.induct) auto

lemma overlay_zero:
  "sameShape v w \<Longrightarrow> exported isUpper v \<Longrightarrow> zeroVal w \<Longrightarrow> overlay isUpper v w = v"
  "sameFields fs gs \<Longrightarrow> exportedFields isUpper fs \<Longrightarrow> zeroFields gs \<Longrightarrow> overlayFields isUpper fs gs = fs"
  by (induction v w and fs gs rule: sameShape_sameFields.induct) (auto dest: sameKind_zero)

lemma exported_shape:
  "sameShape v w \<Longrightarrow> exported isUpper v = exported isUpper w"
  "sameFields fs gs \<Longrightarrow> exportedFields isUpper fs = exportedFields isUpper gs"
  by (induction v w and fs gs rule: sameShape_sameFields.induct) auto

text \<open>The contract of encoding/gob that the wrapper relies on: decoding what was encoded lays the
  transmitted value over the target and leaves the rest of the buffer.\<close>

definition gobTransmits :: "(string \<Rightarrow> bool) \<Rightarrow> (goval \<Rightarrow> 'b list) \<Rightarrow> ('b list \<Rightarrow> goval \<Rightarrow> (goval \<times> 'b list) option) \<Rightarrow> bool" where
  "gobTransmits isUpper gob_Encode gob_Decode \<longleftrightarrow> (\<forall>v w p rest. sameShape v w \<and> sendable isUpper v \<longrightarrow>
     gob_Decode (gob_Encode v @ rest) (GPtr p (Some w)) = Some (GPtr p (Some (received isUpper v w)), rest))"

text \<open>Checking the type of a pointer after the type it points to: no complaint, when no field is lower-case.\<close>

lemma check_both:
  assumes "closedTable T" "t' < length T" "T ! t' = TPtr t" "\<forall>x \<in> typeReach T t. lowerOf isUpper T x = 0"
    and "\<forall>x \<in> set (lg_checked st). succs T x \<subseteq> set (lg_checked st)"
  obtains st1 st2 where "checkValue isUpper T (Some t) st = Some st1" "checkValue isUpper T (Some t') st1 = Some st2"
    "lg_errorCount st2 = lg_errorCount st"
proof -
  have t: "t \<in> succs T t'" using assms(3) by (simp add: succs_def)
  then have tl: "t < length T" using assms(1,2) by (auto simp: closedTable_def)
  obtain st1 where st1: "checkValue isUpper T (Some t) st = Some st1" "set (lg_checked st1) = set (lg_checked st) \<union> typeReach T t"
      "lg_errorCount st1 = lg_errorCount st"
    using checkValue_spec [OF assms(1) tl assms(5), of isUpper] assms(4) by auto
  have "succs T x \<subseteq> typeReach T t" if "x \<in> typeReach T t" for x
    using that by (auto simp: typeReach_def intro: rtranclp.rtrancl_into_rtrancl)
  then have closed: "\<forall>x \<in> set (lg_checked st1). succs T x \<subseteq> set (lg_checked st1)" using assms(5) st1(2) by blast
  have reach: "x = t' \<or> x \<in> typeReach T t" if "x \<in> typeReach T t'" for x
  proof -
    have "(\<lambda>a b. b \<in> succs T a)\<^sup>*\<^sup>* t' x" using that by (simp add: typeReach_def)
    then show ?thesis
    proof (cases rule: converse_rtranclpE)
      case (step y)
      then show ?thesis using assms(3) by (simp add: succs_def typeReach_def)
    qed simp
  qed
  have "lowerOf isUpper T x = 0" if "x \<in> typeReach T t'" for x
    using reach [OF that] assms(3,4) by (auto simp: lowerOf_def)
  then obtain st2 where "checkValue isUpper T (Some t') st1 = Some st2" "lg_errorCount st2 = lg_errorCount st1"
    using checkValue_spec [OF assms(1,2) closed, of isUpper] by auto
  with st1 that show ?thesis by metis
qed

text \<open>C32. Sending a value.  For structs and basic values, nested to any depth, of types in which every field
  is capitalized: \<open>Encode\<close> and \<open>Decode\<close> run through; decoding into a variable that holds the zero value
  gives back exactly what was encoded and nothing is reported; and when the target is a flat struct (all
  of it within the depth that \<open>checkDefault\<close> looks at), it holds what was encoded whenever nothing was
  reported, whatever it held before.  encoding/gob is assumed to transmit what it documents.\<close>

theorem labgob_roundtrip:
  assumes "gobTransmits isUpper gob_Encode gob_Decode"
    and "closedTable T" "t' < length T" "T ! t' = TPtr t" "\<forall>x \<in> typeReach T t. lowerOf isUpper T x = 0"
    and "\<forall>x \<in> set (lg_checked st). succs T x \<subseteq> set (lg_checked st)"
    and "typeOf v = Some t" "typed T t v" "typeOf (GPtr p (Some w)) = Some t'" "sameShape v w"
  shows "\<exists>bytes st1 r st2. labEncode isUpper T typeOf gob_Encode buffer v st = Some (buffer @ bytes, st1)
     \<and> labDecode isUpper T typeOf gob_Decode (bytes @ rest) (GPtr p (Some w)) st1 = Some (r, st2)
     \<and> (zeroVal w \<longrightarrow> r = Some (GPtr p (Some v), rest) \<and> lg_errorCount st2 = lg_errorCount st)
     \<and> (shallow w 2 \<and> lg_errorCount st2 = lg_errorCount st \<longrightarrow> r = Some (GPtr p (Some v), rest))"
proof -
  obtain st1 st2 where st: "checkValue isUpper T (Some t) st = Some st1" "checkValue isUpper T (Some t') st1 = Some st2"
    "lg_errorCount st2 = lg_errorCount st" by (rule check_both [OF assms(2-6)])
  have ex: "exported isUpper v" by (rule typed_exported(1) [OF assms(8,5)])
  then have "exported isUpper (GPtr p (Some w))" using exported_shape(1) [OF assms(10)] by simp
  from checkDefault1_count(1) [OF this, of 1 "[]" st2] obtain st3 where
    st3: "checkDefault isUpper (Some (GPtr p (Some w))) st2 = Some st3" "lg_errorCount st3 = lg_errorCount st + nonDefaults w 2"
    by (auto simp: checkDefault_def st(3) numeral_2_eq_2)
  let ?r = "Some (GPtr p (Some (received isUpper v w)), rest)"
  have "gob_Decode (gob_Encode v @ rest) (GPtr p (Some w)) = ?r"
    using assms(1,10) exported_sendable(1) [OF ex] by (simp add: gobTransmits_def)
  then have dec: "labDecode isUpper T typeOf gob_Decode (gob_Encode v @ rest) (GPtr p (Some w)) st1 = Some (?r, st3)"
    using st(2) st3(1) assms(9) by (simp add: labDecode_def)
  have enc: "labEncode isUpper T typeOf gob_Encode buffer v st = Some (buffer @ gob_Encode v, st1)"
    using st(1) assms(7) by (simp add: labEncode_def)
  have zero: "received isUpper v w = v \<and> lg_errorCount st3 = lg_errorCount st" if "zeroVal w"
    using overlay_zero(1) [OF assms(10) ex that] zero_nonDefaults(1) [OF that] st3(2)
    by (cases v) (simp_all add: received_def)
  have flat: "received isUpper v w = v" if "shallow w 2" "lg_errorCount st3 = lg_errorCount st"
    using overlay_default(1) [OF assms(10) ex that(1)] that(2) st3(2) by (cases v) (simp_all add: received_def)
  show ?thesis using enc dec zero flat by blast
qed

text \<open>A field that is not capitalized is not only reported: \<open>Decode\<close> into a pointer to a struct with such a
  field, of a basic kind, panics in the default check, where reflection refuses to read it.\<close>

theorem labDecode_lowercase_panics:
  assumes "\<not> isUpper f"
  shows "labDecode isUpper T typeOf gob_Decode buffer (GPtr p (Some (GStruct tn ((f, GBasic un b) # fs)))) st = None"
  using assms by (cases "checkValue isUpper T (typeOf (GPtr p (Some (GStruct tn ((f, GBasic un b) # fs))))) st")
    (simp_all add: labDecode_def checkDefault_def Let_def)

definition innerVal :: "int \<Rightarrow> goval" where
  "innerVal i = GStruct ''Outer'' [(''Inner'', GStruct ''Inner'' [(''Term'', GBasic ''int'' (BInt i))])]"

text \<open>Deeper fields are not looked at: for every encoder that keeps the contract, decoding a struct
  inside a struct into a used variable leaves the old value in place, and nothing is reported.\<close>

theorem labDecode_stale:
  assumes "gobTransmits asciiUpper gob_Encode gob_Decode"
    and "checkValue asciiUpper T (typeOf (GPtr p (Some (innerVal 1)))) st = Some st0"
  shows "labDecode asciiUpper T typeOf gob_Decode (gob_Encode (innerVal 0)) (GPtr p (Some (innerVal 1))) st
     = Some (Some (GPtr p (Some (innerVal 1)), []), st0)"
proof -
  have "sameShape (innerVal 0) (innerVal 1)" "sendable asciiUpper (innerVal 0)"
    "received asciiUpper (innerVal 0) (innerVal 1) = innerVal 1"
    by (simp_all add: innerVal_def received_def asciiUpper_def)
  then have "gob_Decode (gob_Encode (innerVal 0) @ []) (GPtr p (Some (innerVal 1))) = Some (GPtr p (Some (innerVal 1)), [])"
    using assms(1) unfolding gobTransmits_def by metis
  with assms(2) show ?thesis by (simp add: labDecode_def checkDefault_def innerVal_def Let_def)
qed

text \<open>An encoder that keeps the contract: it transmits the value itself.\<close>

fun plainDecode :: "(string \<Rightarrow> bool) \<Rightarrow> goval list \<Rightarrow> goval \<Rightarrow> (goval \<times> goval list) option" where
  "plainDecode isUpper (v # rest) (GPtr p (Some w)) = Some (GPtr p (Some (received isUpper v w)), rest)"
| "plainDecode isUpper buffer w = None"

lemma plain_transmits: "gobTransmits isUpper (\<lambda>v. [v]) (plainDecode isUpper)"
  by (simp add: gobTransmits_def)

definition flatVal :: "int \<Rightarrow> goval" where
  "flatVal i = GStruct ''Reply'' [(''Term'', GBasic ''int'' (BInt i)), (''Success'', GBasic ''bool'' (BBool False))]"

definition flatTable :: "gotype list" where
  "flatTable = [TStruct ''Reply'' [(''Term'', 2), (''Success'', 2)], TPtr 0, TBasic]"

fun flatType :: "goval \<Rightarrow> nat option" where
  "flatType (GStruct tn fs) = Some 0"
| "flatType (GPtr tn w) = Some 1"
| "flatType v = Some 2"

theorem labgob_roundtrip_witness:
  "\<exists>bytes st1 st2. labEncode asciiUpper flatTable flatType (\<lambda>v. [v]) [] (flatVal 4) freshLab = Some ([] @ bytes, st1)
     \<and> labDecode asciiUpper flatTable flatType (plainDecode asciiUpper) (bytes @ []) (GPtr [] (Some (flatVal 0))) st1
       = Some (Some (GPtr [] (Some (flatVal 4)), []), st2) \<and> lg_errorCount st2 = 0"
proof -
  have T: "closedTable flatTable" "1 < length flatTable" "flatTable ! 1 = TPtr 0"
    by (auto simp: closedTable_def flatTable_def succs_def less_Suc_eq numeral_3_eq_3)
  have low: "\<forall>x \<in> typeReach flatTable 0. lowerOf asciiUpper flatTable x = 0"
  proof
    fix x assume "x \<in> typeReach flatTable 0"
    then have "(\<lambda>a b. b \<in> succs flatTable a)\<^sup>*\<^sup>* 0 x" by (simp add: typeReach_def)
    then have "x \<in> {0, 2}" by induction (auto simp: succs_def flatTable_def)
    then show "lowerOf asciiUpper flatTable x = 0"
      by (auto simp: lowerOf_def flatTable_def lowerFields_def asciiUpper_def)
  qed
  have v: "\<forall>x \<in> set (lg_checked freshLab). succs flatTable x \<subseteq> set (lg_checked freshLab)"
    "flatType (flatVal 4) = Some 0" "typed flatTable 0 (flatVal 4)" "flatType (GPtr [] (Some (flatVal 0))) = Some 1"
    "sameShape (flatVal 4) (flatVal 0)" "zeroVal (flatVal 0)" "lg_errorCount freshLab = 0"
    by (simp_all add: freshLab_def flatVal_def flatTable_def)
  from labgob_roundtrip [OF plain_transmits T low v(1-5), of "[]" "[]"] v(6,7) show ?thesis by auto
qed

theorem labDecode_stale_witness:
  "labDecode asciiUpper [TBasic] (\<lambda>_. Some 0) (plainDecode asciiUpper) [innerVal 0] (GPtr [] (Some (innerVal 1))) freshLab
     = Some (Some (GPtr [] (Some (innerVal 1)), []), freshLab\<lparr>lg_checked := [0]\<rparr>)"
proof -
  have "checkValue asciiUpper [TBasic] (Some 0) freshLab = Some (freshLab\<lparr>lg_checked := [0]\<rparr>)"
    by (simp add: checkValue_def freshLab_def)
  from labDecode_stale [OF plain_transmits this] show ?thesis by simp
qed

end
