(* ===== verification/Labrpc.thy ===== *)
theory Labrpc
  imports Prelude "HOL-Library.Word"
begin

text \<open>
  The simulated network of \<^verbatim>\<open>src/src/labrpc/labrpc.go\<close>.

  Names of ends and servers are of type \<open>'n\<close>, bytes of type \<open>'b\<close>; a pointer to a server is a number.  The
  state behind the handlers is of type \<open>'w\<close>, their arguments and replies are \<open>'a\<close> and \<open>'r\<close>; the encodings of
  arguments and replies are parameters.  \<open>processReq\<close> is split where it waits: at its start, when the handler
  returns or the server is found dead, and at the delivery of the reply; random numbers are arguments.
  \<^verbatim>\<open>log.Fatal\<close> and panics are \<open>None\<close>.  \<open>net_step\<close> interleaves any number of calls with changes of the
  network.
\<close>

section \<open>Services and servers\<close>

datatype gokind = KPtr | KOther

record ('a, 'r, 'w) rpcMethod =
  mt_Name :: string
  mt_PkgPath :: string
  mt_In :: "gokind list"
  mt_NumOut :: nat
  mt_Func :: "'a \<Rightarrow> 'w \<Rightarrow> 'r \<times> 'w"

record ('a, 'r, 'w) service =
  sv_name :: string
  sv_methods :: "string \<rightharpoonup> ('a, 'r, 'w) rpcMethod"

text \<open>The type of the arguments, which the receiver needs to decode them, is part of the decoder.\<close>

record ('n, 'b) reqMsg =
  rq_endname :: 'n
  rq_svcMeth :: string
  rq_args :: "'b list"

record 'b replyMsg =
  rp_ok :: bool
  rp_reply :: "'b list"

record ('a, 'r, 'w) server =
  sr_services :: "string \<rightharpoonup> ('a, 'r, 'w) service"
  sr_count :: int

definition isHandler :: "('a, 'r, 'w) rpcMethod \<Rightarrow> bool" where
  "isHandler m = (\<not> (mt_PkgPath m \<noteq> [] \<or> length (mt_In m) \<noteq> 3 \<or> mt_In m ! 2 \<noteq> KPtr \<or> mt_NumOut m \<noteq> 0))"

definition MakeService :: "string \<Rightarrow> ('a, 'r, 'w) rpcMethod list \<Rightarrow> ('a, 'r, 'w) service" where
  "MakeService name ms = \<lparr>sv_name = name,
     sv_methods = fold (\<lambda>m ms. if isHandler m then ms(mt_Name m \<mapsto> m) else ms) ms Map.empty\<rparr>"

definition svc_dispatch :: "('b list \<Rightarrow> 'a) \<Rightarrow> ('r \<Rightarrow> 'b list) \<Rightarrow> ('a, 'r, 'w) service \<Rightarrow> string \<Rightarrow> ('n, 'b) reqMsg \<Rightarrow> 'w
    \<Rightarrow> ('b replyMsg \<times> 'w) option" where
  "svc_dispatch decArgs encReply svc methname req w =
     (case sv_methods svc methname of
        None \<Rightarrow> None
      | Some m \<Rightarrow> let args = decArgs (rq_args req); (replyv, w') = mt_Func m args w
                 in Some (\<lparr>rp_ok = True, rp_reply = encReply replyv\<rparr>, w'))"

definition MakeServer :: "('a, 'r, 'w) server" where
  "MakeServer = \<lparr>sr_services = Map.empty, sr_count = 0\<rparr>"

definition AddService :: "('a, 'r, 'w) service \<Rightarrow> ('a, 'r, 'w) server \<Rightarrow> ('a, 'r, 'w) server" where
  "AddService svc rs = rs\<lparr>sr_services := (sr_services rs)(sv_name svc \<mapsto> svc)\<rparr>"

text \<open>\<open>strings.LastIndex(s, ".")\<close>, where no dot gives -1.\<close>

definition lastDot :: "string \<Rightarrow> int" where
  "lastDot s = int (length s) - 1 - int (length (takeWhile (\<lambda>c. c \<noteq> CHR ''.'') (rev s)))"

definition srv_dispatch :: "('b list \<Rightarrow> 'a) \<Rightarrow> ('r \<Rightarrow> 'b list) \<Rightarrow> ('a, 'r, 'w) server \<Rightarrow> ('n, 'b) reqMsg \<Rightarrow> 'w
    \<Rightarrow> (('a, 'r, 'w) server \<times> 'b replyMsg \<times> 'w) option" where
  "srv_dispatch decArgs encReply rs req w = do {
     let rs = rs\<lparr>sr_count := sr_count rs + 1\<rparr>;
     let dot = lastDot (rq_svcMeth req);
     serviceName \<leftarrow> go_slice_to (rq_svcMeth req) dot;
     methodName \<leftarrow> go_slice_from (rq_svcMeth req) (dot + 1);
     service \<leftarrow> sr_services rs serviceName;
     (r, w) \<leftarrow> svc_dispatch decArgs encReply service methodName req w;
     Some (rs, r, w) }"

definition srv_GetCount :: "('a, 'r, 'w) server \<Rightarrow> int" where
  "srv_GetCount rs = sr_count rs"

section \<open>The network\<close>

record 'n network =
  nw_reliable :: bool
  nw_longDelays :: bool
  nw_longReordering :: bool
  nw_ends :: "'n set"
  nw_enabled :: "'n \<Rightarrow> bool"
  nw_servers :: "'n \<Rightarrow> nat option"
  nw_connections :: "'n \<Rightarrow> 'n option"
  nw_done :: bool
  nw_count :: "32 word"
  nw_bytes :: "64 word"

definition MakeNetwork :: "'n network" where
  "MakeNetwork = \<lparr>nw_reliable = True, nw_longDelays = False, nw_longReordering = False, nw_ends = {},
     nw_enabled = (\<lambda>_. False), nw_servers = (\<lambda>_. None), nw_connections = (\<lambda>_. None), nw_done = False,
     nw_count = 0, nw_bytes = 0\<rparr>"

definition Cleanup :: "'n network \<Rightarrow> 'n network option" where
  "Cleanup rn = (if nw_done rn then None else Some (rn\<lparr>nw_done := True\<rparr>))"

definition Reliable :: "bool \<Rightarrow> 'n network \<Rightarrow> 'n network" where
  "Reliable yes rn = rn\<lparr>nw_reliable := yes\<rparr>"

definition LongReordering :: "bool \<Rightarrow> 'n network \<Rightarrow> 'n network" where
  "LongReordering yes rn = rn\<lparr>nw_longReordering := yes\<rparr>"

definition LongDelays :: "bool \<Rightarrow> 'n network \<Rightarrow> 'n network" where
  "LongDelays yes rn = rn\<lparr>nw_longDelays := yes\<rparr>"

definition readEndnameInfo :: "'n network \<Rightarrow> 'n \<Rightarrow> bool \<times> 'n option \<times> nat option \<times> bool \<times> bool" where
  "readEndnameInfo rn endname =
     (let servername = nw_connections rn endname;
          server = (case servername of None \<Rightarrow> None | Some n \<Rightarrow> nw_servers rn n)
      in (nw_enabled rn endname, servername, server, nw_reliable rn, nw_longReordering rn))"

definition isServerDead :: "'n network \<Rightarrow> 'n \<Rightarrow> 'n \<Rightarrow> nat \<Rightarrow> bool" where
  "isServerDead rn endname servername server \<longleftrightarrow>
     nw_enabled rn endname = False \<or> nw_servers rn servername \<noteq> Some server"

definition MakeEnd :: "'n \<Rightarrow> 'n network \<Rightarrow> 'n network option" where
  "MakeEnd endname rn =
     (if endname \<in> nw_ends rn then None
      else Some (rn\<lparr>nw_ends := insert endname (nw_ends rn), nw_enabled := (nw_enabled rn)(endname := False),
                    nw_connections := (nw_connections rn)(endname := None)\<rparr>))"

definition AddServer :: "'n \<Rightarrow> nat \<Rightarrow> 'n network \<Rightarrow> 'n network" where
  "AddServer servername rs rn = rn\<lparr>nw_servers := (nw_servers rn)(servername := Some rs)\<rparr>"

definition DeleteServer :: "'n \<Rightarrow> 'n network \<Rightarrow> 'n network" where
  "DeleteServer servername rn = rn\<lparr>nw_servers := (nw_servers rn)(servername := None)\<rparr>"

definition Connect :: "'n \<Rightarrow> 'n \<Rightarrow> 'n network \<Rightarrow> 'n network" where
  "Connect endname servername rn = rn\<lparr>nw_connections := (nw_connections rn)(endname := Some servername)\<rparr>"

definition Enable :: "'n \<Rightarrow> bool \<Rightarrow> 'n network \<Rightarrow> 'n network" where
  "Enable endname enabled rn = rn\<lparr>nw_enabled := (nw_enabled rn)(endname := enabled)\<rparr>"

text \<open>Asking for the count of a server that was deleted dereferences nil.\<close>

definition GetCount :: "'n \<Rightarrow> (nat \<Rightarrow> ('a, 'r, 'w) server) \<Rightarrow> 'n network \<Rightarrow> int option" where
  "GetCount servername srvs rn = map_option (\<lambda>p. srv_GetCount (srvs p)) (nw_servers rn servername)"

definition GetTotalCount :: "'n network \<Rightarrow> int" where
  "GetTotalCount rn = sint (nw_count rn)"

definition GetTotalBytes :: "'n network \<Rightarrow> int" where
  "GetTotalBytes rn = sint (nw_bytes rn)"

section \<open>Calls\<close>

text \<open>The goroutine of \<open>MakeNetwork\<close> takes a request and starts \<open>processReq\<close>.\<close>

definition acceptReq :: "('n, 'b) reqMsg \<Rightarrow> 'n network \<Rightarrow> 'n network" where
  "acceptReq xreq rn = rn\<lparr>nw_count := nw_count rn + 1, nw_bytes := nw_bytes rn + of_nat (length (rq_args xreq))\<rparr>"

text \<open>The first part of \<open>Call\<close>: the request, or nothing when the network has been destroyed.\<close>

definition callRequest :: "('a \<Rightarrow> 'b list) \<Rightarrow> 'n \<Rightarrow> string \<Rightarrow> 'a \<Rightarrow> ('n, 'b) reqMsg" where
  "callRequest encArgs endname svcMeth args = \<lparr>rq_endname = endname, rq_svcMeth = svcMeth, rq_args = encArgs args\<rparr>"

text \<open>The last part of \<open>Call\<close>: a reply that cannot be decoded is fatal.\<close>

definition callReturn :: "('b list \<Rightarrow> 'r option) \<Rightarrow> 'b replyMsg \<Rightarrow> 'r option option" where
  "callReturn decReply rep =
     (if rp_ok rep then (case decReply (rp_reply rep) of None \<Rightarrow> None | Some r \<Rightarrow> Some (Some r)) else Some None)"

abbreviation failure :: "'b replyMsg" where
  "failure \<equiv> \<lparr>rp_ok = False, rp_reply = []\<rparr>"

text \<open>The start of \<open>processReq\<close>: the request is lost or sent to a server, or nothing can be reached.\<close>

datatype 'n begun = Lost | Sent 'n nat bool bool | Unreachable

definition processBegin :: "'n network \<Rightarrow> ('n, 'b) reqMsg \<Rightarrow> bool \<Rightarrow> 'n begun" where
  "processBegin rn req dropRequest =
     (case readEndnameInfo rn (rq_endname req) of (enabled, servername, server, reliable, longreordering) \<Rightarrow>
       (case (servername, server) of
          (Some n, Some s) \<Rightarrow>
            (if enabled then if \<not> reliable \<and> dropRequest then Lost else Sent n s reliable longreordering else Unreachable)
        | _ \<Rightarrow> Unreachable))"

text \<open>The end of \<open>processReq\<close>, after the wait: \<open>reply\<close> is what the handler returned, if it has.  The reply is
  counted when it is sent.  A reply that is delayed for reordering is sent later, but is decided here.\<close>

definition processEnd :: "'n network \<Rightarrow> 'n \<Rightarrow> 'n \<Rightarrow> nat \<Rightarrow> bool \<Rightarrow> 'b replyMsg option \<Rightarrow> bool \<Rightarrow> 'b replyMsg" where
  "processEnd rn endname servername server reliable reply dropReply =
     (let serverDead = isServerDead rn endname servername server in
      case reply of
        None \<Rightarrow> failure
      | Some r \<Rightarrow> if serverDead then failure else if \<not> reliable \<and> dropReply then failure else r)"

definition countReply :: "'b replyMsg \<Rightarrow> 'n network \<Rightarrow> 'n network" where
  "countReply rep rn = (if rp_ok rep then rn\<lparr>nw_bytes := nw_bytes rn + of_nat (length (rp_reply rep))\<rparr> else rn)"

section \<open>Interleavings\<close>

text \<open>The handler of a call runs in a goroutine of its own: it has not been started, is running at a server,
  or has returned.  The call itself has been accepted, waits for the handler, has its reply, or has returned
  it to the client.\<close>

datatype 'b handler = Idle | Running nat | Returned "'b replyMsg"

datatype ('n, 'b) stage = Accepted | Polling 'n nat bool bool | Replying "'b replyMsg" | Finished "'b replyMsg"

record ('n, 'b) call =
  cl_req :: "('n, 'b) reqMsg"
  cl_stage :: "('n, 'b) stage"
  cl_handler :: "'b handler"

text \<open>The network, the servers made so far, the state behind the handlers, the calls, and for each
  executed call its number and the replies of its handler.\<close>

record ('n, 'b, 'a, 'r, 'w) system =
  sy_net :: "'n network"
  sy_srvs :: "nat \<Rightarrow> ('a, 'r, 'w) server"
  sy_next :: nat
  sy_world :: 'w
  sy_calls :: "('n, 'b) call list"
  sy_log :: "(nat \<times> 'b replyMsg) list"

definition setCall :: "('n, 'b, 'a, 'r, 'w) system \<Rightarrow> nat \<Rightarrow> ('n, 'b) call \<Rightarrow> ('n, 'b, 'a, 'r, 'w) system" where
  "setCall sy i c = sy\<lparr>sy_calls := (sy_calls sy)[i := c]\<rparr>"

definition issue :: "('n, 'b) reqMsg \<Rightarrow> ('n, 'b, 'a, 'r, 'w) system \<Rightarrow> ('n, 'b, 'a, 'r, 'w) system" where
  "issue req sy = sy\<lparr>sy_net := acceptReq req (sy_net sy),
     sy_calls := sy_calls sy @ [\<lparr>cl_req = req, cl_stage = Accepted, cl_handler = Idle\<rparr>]\<rparr>"

definition beginCall :: "nat \<Rightarrow> bool \<Rightarrow> ('n, 'b, 'a, 'r, 'w) system \<Rightarrow> ('n, 'b, 'a, 'r, 'w) system" where
  "beginCall i dropRequest sy = (let c = sy_calls sy ! i in
     setCall sy i (case processBegin (sy_net sy) (cl_req c) dropRequest of
         Sent n s reliable longre \<Rightarrow> c\<lparr>cl_stage := Polling n s reliable longre, cl_handler := Running s\<rparr>
       | _ \<Rightarrow> c\<lparr>cl_stage := Replying failure\<rparr>))"

text \<open>The handler of a call runs to its end, in one step on what the services share (\<open>sy_world\<close>).\<close>

definition execCall :: "('b list \<Rightarrow> 'a) \<Rightarrow> ('r \<Rightarrow> 'b list) \<Rightarrow> nat \<Rightarrow> ('n, 'b, 'a, 'r, 'w) system
    \<Rightarrow> ('n, 'b, 'a, 'r, 'w) system option" where
  "execCall decArgs encReply i sy = (let c = sy_calls sy ! i in case cl_handler c of
     Running s \<Rightarrow> do {
       (rs, rep, w) \<leftarrow> srv_dispatch decArgs encReply (sy_srvs sy s) (cl_req c) (sy_world sy);
       Some ((setCall sy i (c\<lparr>cl_handler := Returned rep\<rparr>))
         \<lparr>sy_srvs := (sy_srvs sy)(s := rs), sy_world := w, sy_log := sy_log sy @ [(i, rep)]\<rparr>) }
   | _ \<Rightarrow> None)"

text \<open>The wait of \<open>processReq\<close> ends because the handler has returned, or because the server was found dead.
  This decides the reply; \<open>deliver\<close> hands it over, at once or, with \<open>longreordering\<close>, after a delay in which other
  steps may come.\<close>

definition endCall :: "nat \<Rightarrow> bool \<Rightarrow> ('n, 'b, 'a, 'r, 'w) system \<Rightarrow> ('n, 'b, 'a, 'r, 'w) system option" where
  "endCall i dropReply sy = (let c = sy_calls sy ! i in case cl_stage c of
     Polling n s reliable longre \<Rightarrow>
       (case cl_handler c of
          Returned rep \<Rightarrow> Some (setCall sy i (c\<lparr>cl_stage := Replying
              (processEnd (sy_net sy) (rq_endname (cl_req c)) n s reliable (Some rep) dropReply)\<rparr>))
        | _ \<Rightarrow> if isServerDead (sy_net sy) (rq_endname (cl_req c)) n s
              then Some (setCall sy i (c\<lparr>cl_stage := Replying
                (processEnd (sy_net sy) (rq_endname (cl_req c)) n s reliable None dropReply)\<rparr>))
              else None)
   | _ \<Rightarrow> None)"

text \<open>The reply is sent, perhaps after a delay, and the client's \<open>Call\<close> returns.\<close>

definition deliver :: "nat \<Rightarrow> ('n, 'b, 'a, 'r, 'w) system \<Rightarrow> ('n, 'b, 'a, 'r, 'w) system option" where
  "deliver i sy = (let c = sy_calls sy ! i in case cl_stage c of
     Replying rep \<Rightarrow> Some ((setCall sy i (c\<lparr>cl_stage := Finished rep\<rparr>))\<lparr>sy_net := countReply rep (sy_net sy)\<rparr>)
   | _ \<Rightarrow> None)"

text \<open>A server that is added to the network is a new one, as in the harnesses.\<close>

definition addNewServer :: "'n \<Rightarrow> ('a, 'r, 'w) service list \<Rightarrow> ('n, 'b, 'a, 'r, 'w) system \<Rightarrow> ('n, 'b, 'a, 'r, 'w) system" where
  "addNewServer n svcs sy = sy\<lparr>sy_srvs := (sy_srvs sy)(sy_next sy := fold AddService svcs MakeServer),
     sy_next := sy_next sy + 1, sy_net := AddServer n (sy_next sy) (sy_net sy)\<rparr>"

inductive net_step :: "('b list \<Rightarrow> 'a) \<Rightarrow> ('r \<Rightarrow> 'b list) \<Rightarrow> ('n, 'b, 'a, 'r, 'w) system \<Rightarrow> ('n, 'b, 'a, 'r, 'w) system \<Rightarrow> bool"
  for dec enc where
  ns_call: "\<not> nw_done (sy_net sy) \<Longrightarrow> net_step dec enc sy (issue req sy)"
| ns_begin: "i < length (sy_calls sy) \<Longrightarrow> cl_stage (sy_calls sy ! i) = Accepted \<Longrightarrow> net_step dec enc sy (beginCall i d sy)"
| ns_exec: "i < length (sy_calls sy) \<Longrightarrow> execCall dec enc i sy = Some sy' \<Longrightarrow> net_step dec enc sy sy'"
| ns_end: "i < length (sy_calls sy) \<Longrightarrow> endCall i d sy = Some sy' \<Longrightarrow> net_step dec enc sy sy'"
| ns_deliver: "i < length (sy_calls sy) \<Longrightarrow> deliver i sy = Some sy' \<Longrightarrow> net_step dec enc sy sy'"
| ns_server: "net_step dec enc sy (addNewServer n svcs sy)"
| ns_delete: "net_step dec enc sy (sy\<lparr>sy_net := DeleteServer n (sy_net sy)\<rparr>)"
| ns_end_made: "MakeEnd e (sy_net sy) = Some rn \<Longrightarrow> net_step dec enc sy (sy\<lparr>sy_net := rn\<rparr>)"
| ns_connect: "net_step dec enc sy (sy\<lparr>sy_net := Connect e n (sy_net sy)\<rparr>)"
| ns_enable: "net_step dec enc sy (sy\<lparr>sy_net := Enable e b (sy_net sy)\<rparr>)"
| ns_reliable: "net_step dec enc sy (sy\<lparr>sy_net := Reliable b (sy_net sy)\<rparr>)"
| ns_reorder: "net_step dec enc sy (sy\<lparr>sy_net := LongReordering b (sy_net sy)\<rparr>)"
| ns_delays: "net_step dec enc sy (sy\<lparr>sy_net := LongDelays b (sy_net sy)\<rparr>)"
| ns_cleanup: "Cleanup (sy_net sy) = Some rn \<Longrightarrow> net_step dec enc sy (sy\<lparr>sy_net := rn\<rparr>)"

abbreviation net_run :: "('b list \<Rightarrow> 'a) \<Rightarrow> ('r \<Rightarrow> 'b list) \<Rightarrow> ('n, 'b, 'a, 'r, 'w) system \<Rightarrow> ('n, 'b, 'a, 'r, 'w) system \<Rightarrow> bool" where
  "net_run dec enc \<equiv> (net_step dec enc)\<^sup>*\<^sup>*"

definition startSystem :: "'w \<Rightarrow> ('n, 'b, 'a, 'r, 'w) system" where
  "startSystem w = \<lparr>sy_net = MakeNetwork, sy_srvs = (\<lambda>_. MakeServer), sy_next = 0, sy_world = w, sy_calls = [], sy_log = []\<rparr>"

end
