(* ===== verification/Labrpc_Calls.thy ===== *)
theory Labrpc_Calls
  imports Labrpc
begin

text \<open>
  What the simulated network promises its callers, over all interleavings: a call executes its handler at
  most once, a call that reports success returns the reply of that one execution, no success is reported
  once the server has been deleted, and a call can always return when its handler does.
\<close>

section \<open>The invariant\<close>

text \<open>What a handler can have returned for a request.\<close>

definition handlerReply :: "('b list \<Rightarrow> 'a) \<Rightarrow> ('r \<Rightarrow> 'b list) \<Rightarrow> ('a, 'r, 'w) rpcMethod \<Rightarrow> 'w \<Rightarrow> ('n, 'b) reqMsg \<Rightarrow> 'b replyMsg" where
  "handlerReply dec enc m w req = \<lparr>rp_ok = True, rp_reply = enc (fst (mt_Func m (dec (rq_args req)) w))\<rparr>"

definition executions :: "('n, 'b, 'a, 'r, 'w) system \<Rightarrow> nat \<Rightarrow> (nat \<times> 'b replyMsg) list" where
  "executions sy i = filter (\<lambda>x. fst x = i) (sy_log sy)"

definition callOK :: "('b list \<Rightarrow> 'a) \<Rightarrow> ('r \<Rightarrow> 'b list) \<Rightarrow> 'w itself \<Rightarrow> nat \<Rightarrow> nat \<Rightarrow> (nat \<times> 'b replyMsg) list \<Rightarrow> ('n, 'b) call \<Rightarrow> bool" where
  "callOK dec enc ty nxt i es c \<longleftrightarrow>
     (case cl_handler c of
        Idle \<Rightarrow> es = []
      | Running s \<Rightarrow> es = []
      | Returned rep \<Rightarrow> es = [(i, rep)] \<and> (\<exists>m (w :: 'w). rep = handlerReply dec enc m w (cl_req c)))
   \<and> (case cl_stage c of
        Accepted \<Rightarrow> cl_handler c = Idle
      | Polling n s _ _ \<Rightarrow> cl_handler c \<noteq> Idle \<and> s < nxt
      | Replying rep \<Rightarrow> rp_ok rep \<longrightarrow> cl_handler c = Returned rep
      | Finished rep \<Rightarrow> rp_ok rep \<longrightarrow> cl_handler c = Returned rep)"

definition netInv :: "('b list \<Rightarrow> 'a) \<Rightarrow> ('r \<Rightarrow> 'b list) \<Rightarrow> ('n, 'b, 'a, 'r, 'w) system \<Rightarrow> bool" where
  "netInv dec enc sy \<longleftrightarrow> (\<forall>i < length (sy_calls sy). callOK dec enc TYPE('w) (sy_next sy) i (executions sy i) (sy_calls sy ! i))
     \<and> (\<forall>x \<in> set (sy_log sy). fst x < length (sy_calls sy))
     \<and> (\<forall>n s. nw_servers (sy_net sy) n = Some s \<longrightarrow> s < sy_next sy)"

lemma netInv_start: "netInv dec enc (startSystem w)"
  by (simp add: netInv_def startSystem_def MakeNetwork_def)

text \<open>Changing one call.\<close>

lemma netInv_setCall:
  assumes "netInv dec enc (sy :: ('n, 'b, 'a, 'r, 'w) system)" "i < length (sy_calls sy)"
    and "callOK dec enc TYPE('w) (sy_next sy) i (executions sy i) c"
  shows "netInv dec enc (setCall sy i c)"
  using assms by (auto simp: netInv_def setCall_def executions_def nth_list_update)

lemma netInv_net:
  assumes "netInv dec enc sy" "\<And>n s. nw_servers rn n = Some s \<Longrightarrow> nw_servers (sy_net sy) n = Some s"
  shows "netInv dec enc (sy\<lparr>sy_net := rn\<rparr>)"
proof -
  have "\<forall>n s. nw_servers rn n = Some s \<longrightarrow> s < sy_next sy" using assms unfolding netInv_def by blast
  with assms(1) show ?thesis by (simp add: netInv_def executions_def)
qed

lemma dispatch_reply:
  assumes "srv_dispatch dec enc rs req w = Some (rs', rep, w')"
  obtains m where "rep = handlerReply dec enc m w req"
proof -
  obtain svc meth where "svc_dispatch dec enc svc meth req w = Some (rep, w')"
    using assms by (auto simp: srv_dispatch_def Let_def split: Option.bind_split_asm)
  then obtain m where "rep = handlerReply dec enc m w req"
    by (auto simp: svc_dispatch_def handlerReply_def split_beta Let_def split: option.splits)
  then show thesis by (rule that)
qed

lemma netInv_issue: "netInv dec enc sy \<Longrightarrow> netInv dec enc (issue req sy)"
proof -
  assume inv: "netInv dec enc sy"
  have "executions sy (length (sy_calls sy)) = []"
    using inv by (auto simp: netInv_def executions_def filter_empty_conv)
  with inv show ?thesis
    by (auto simp: netInv_def issue_def executions_def callOK_def nth_append acceptReq_def less_Suc_eq)
qed

lemma netInv_begin:
  assumes inv: "netInv dec enc (sy :: ('n, 'b, 'a, 'r, 'w) system)" and i: "i < length (sy_calls sy)" "cl_stage (sy_calls sy ! i) = Accepted"
  shows "netInv dec enc (beginCall i d sy)"
proof -
  let ?c = "sy_calls sy ! i"
  have ok: "callOK dec enc TYPE('w) (sy_next sy) i (executions sy i) ?c" using inv i(1) by (simp add: netInv_def)
  then have idle: "cl_handler ?c = Idle" "executions sy i = []" using i(2) by (auto simp: callOK_def)
  show ?thesis
  proof (cases "processBegin (sy_net sy) (cl_req ?c) d")
    case (Sent n s b1 b2)
    then have "nw_servers (sy_net sy) n = Some s"
      by (auto simp: processBegin_def readEndnameInfo_def Let_def split: option.splits if_splits)
    then have "s < sy_next sy" using inv by (simp add: netInv_def)
    then show ?thesis unfolding beginCall_def Let_def Sent begun.case
      by (intro netInv_setCall [OF inv i(1)]) (simp add: callOK_def idle)
  qed (auto simp: beginCall_def Let_def callOK_def idle intro!: netInv_setCall [OF inv i(1)])
qed

lemma netInv_exec:
  assumes inv: "netInv dec enc (sy :: ('n, 'b, 'a, 'r, 'w) system)" and i: "i < length (sy_calls sy)"
    and ex: "execCall dec enc i sy = Some sy'"
  shows "netInv dec enc sy'"
proof -
  let ?c = "sy_calls sy ! i"
  obtain s rs rep w where r: "cl_handler ?c = Running s"
    "srv_dispatch dec enc (sy_srvs sy s) (cl_req ?c) (sy_world sy) = Some (rs, rep, w)"
    "sy' = (setCall sy i (?c\<lparr>cl_handler := Returned rep\<rparr>))
       \<lparr>sy_srvs := (sy_srvs sy)(s := rs), sy_world := w, sy_log := sy_log sy @ [(i, rep)]\<rparr>"
    using ex by (auto simp: execCall_def Let_def split: handler.splits Option.bind_split_asm)
  obtain m where m: "rep = handlerReply dec enc m (sy_world sy) (cl_req ?c)" using dispatch_reply [OF r(2)] .
  have ok: "callOK dec enc TYPE('w) (sy_next sy) i (executions sy i) ?c" using inv i by (simp add: netInv_def)
  then have "callOK dec enc TYPE('w) (sy_next sy) i (executions sy i @ [(i, rep)]) (?c\<lparr>cl_handler := Returned rep\<rparr>)"
    using m r(1) by (auto simp: callOK_def split: stage.splits)
  moreover have "executions sy' j = (if j = i then executions sy i @ [(i, rep)] else executions sy j)" for j
    by (simp add: r(3) executions_def setCall_def)
  ultimately show ?thesis using inv i unfolding netInv_def
    by (auto simp: r(3) setCall_def nth_list_update)
qed

lemma netInv_end:
  assumes inv: "netInv dec enc (sy :: ('n, 'b, 'a, 'r, 'w) system)" and i: "i < length (sy_calls sy)"
    and en: "endCall i d sy = Some sy'"
  shows "netInv dec enc sy'"
proof -
  let ?c = "sy_calls sy ! i"
  have ok: "callOK dec enc TYPE('w) (sy_next sy) i (executions sy i) ?c" using inv i by (simp add: netInv_def)
  obtain rep where sy': "sy' = setCall sy i (?c\<lparr>cl_stage := Replying rep\<rparr>)" and rep: "rp_ok rep \<longrightarrow> cl_handler ?c = Returned rep"
    using en by (auto simp: endCall_def Let_def processEnd_def split: stage.splits handler.splits if_splits)
  show ?thesis unfolding sy' using ok rep by (intro netInv_setCall [OF inv i]) (auto simp: callOK_def split: handler.splits)
qed

lemma netInv_deliver:
  assumes inv: "netInv dec enc (sy :: ('n, 'b, 'a, 'r, 'w) system)" and i: "i < length (sy_calls sy)"
    and de: "deliver i sy = Some sy'"
  shows "netInv dec enc sy'"
proof -
  let ?c = "sy_calls sy ! i"
  have ok: "callOK dec enc TYPE('w) (sy_next sy) i (executions sy i) ?c" using inv i by (simp add: netInv_def)
  obtain rep where rep: "cl_stage ?c = Replying rep"
    "sy' = (setCall sy i (?c\<lparr>cl_stage := Finished rep\<rparr>))\<lparr>sy_net := countReply rep (sy_net sy)\<rparr>"
    using de by (auto simp: deliver_def Let_def split: stage.splits)
  have "netInv dec enc (setCall sy i (?c\<lparr>cl_stage := Finished rep\<rparr>))"
    using ok rep(1) by (intro netInv_setCall [OF inv i]) (auto simp: callOK_def split: handler.splits)
  then show ?thesis unfolding rep(2) by (rule netInv_net) (simp add: countReply_def setCall_def split: if_splits)
qed

lemma callOK_mono: "callOK dec enc ty k i es c \<Longrightarrow> callOK dec enc ty (Suc k) i es c"
  by (auto simp: callOK_def split: stage.splits)

lemma netInv_server: "netInv dec enc sy \<Longrightarrow> netInv dec enc (addNewServer n svcs sy)"
  by (auto simp: netInv_def addNewServer_def executions_def AddServer_def less_Suc_eq intro: callOK_mono)

lemmas netInv_parts = netInv_issue netInv_begin netInv_exec netInv_end netInv_deliver netInv_server

lemma netInv_step: "net_step dec enc sy sy' \<Longrightarrow> netInv dec enc sy \<Longrightarrow> netInv dec enc sy'"
  by (induction rule: net_step.induct)
    (auto intro: netInv_parts intro!: netInv_net simp: DeleteServer_def MakeEnd_def Connect_def Enable_def
      Reliable_def LongReordering_def LongDelays_def Cleanup_def split: if_splits)

lemma netInv_run: "net_run dec enc sy sy' \<Longrightarrow> netInv dec enc sy \<Longrightarrow> netInv dec enc sy'"
  by (induction rule: rtranclp_induct) (auto intro: netInv_step)

section \<open>Success means one execution\<close>

text \<open>The method that a server calls for a name like \<^verbatim>\<open>Raft.AppendEntries\<close>.\<close>

definition findMethod :: "('a, 'r, 'w) server \<Rightarrow> string \<Rightarrow> ('a, 'r, 'w) rpcMethod option" where
  "findMethod rs svcMeth = do {
     serviceName \<leftarrow> go_slice_to svcMeth (lastDot svcMeth);
     methodName \<leftarrow> go_slice_from svcMeth (lastDot svcMeth + 1);
     service \<leftarrow> sr_services rs serviceName;
     sv_methods service methodName }"

lemma dispatch_method:
  assumes "srv_dispatch dec enc rs req w = Some (rs', rep, w')"
  obtains m r where "findMethod rs (rq_svcMeth req) = Some m" "mt_Func m (dec (rq_args req)) w = (r, w')"
    "rep = \<lparr>rp_ok = True, rp_reply = enc r\<rparr>"
  using assms that
  by (auto simp: srv_dispatch_def svc_dispatch_def findMethod_def Let_def split_beta prod_eq_iff
      split: Option.bind_split_asm option.splits)

text \<open>A handler that has returned was executed in some earlier step of the run.\<close>

definition executedAt :: "('b list \<Rightarrow> 'a) \<Rightarrow> ('r \<Rightarrow> 'b list) \<Rightarrow> nat \<Rightarrow> 'b replyMsg
    \<Rightarrow> ('n, 'b, 'a, 'r, 'w) system \<Rightarrow> ('n, 'b, 'a, 'r, 'w) system \<Rightarrow> bool" where
  "executedAt dec enc i rep sy0 sy1 \<longleftrightarrow> i < length (sy_calls sy0) \<and> execCall dec enc i sy0 = Some sy1
     \<and> cl_handler (sy_calls sy1 ! i) = Returned rep"

lemma handler_step:
  assumes "net_step dec enc sy sy'" "i < length (sy_calls sy')" "cl_handler (sy_calls sy' ! i) = Returned rep"
  shows "i < length (sy_calls sy) \<and> (cl_handler (sy_calls sy ! i) = Returned rep \<or> executedAt dec enc i rep sy sy')"
  using assms
proof (induction rule: net_step.induct)
  case (ns_call sy req)
  then show ?case by (auto simp: issue_def nth_append less_Suc_eq)
next
  case (ns_begin j sy d)
  then show ?case
    by (auto simp: beginCall_def setCall_def Let_def nth_list_update split: if_splits begun.splits)
next
  case (ns_exec j sy sy')
  then obtain c where "sy_calls sy' = (sy_calls sy)[j := c]"
    by (auto simp: execCall_def setCall_def Let_def split: handler.splits Option.bind_split_asm)
  with ns_exec show ?case by (auto simp: executedAt_def nth_list_update split: if_splits)
next
  case (ns_end j sy d sy')
  then show ?case
    by (auto simp: endCall_def setCall_def Let_def nth_list_update split: if_splits stage.splits handler.splits)
next
  case (ns_deliver j sy sy')
  then show ?case
    by (auto simp: deliver_def setCall_def Let_def nth_list_update split: if_splits stage.splits)
qed (simp_all add: addNewServer_def)

lemma returned_executed:
  assumes "net_run dec enc (startSystem w0) sy" "i < length (sy_calls sy)" "cl_handler (sy_calls sy ! i) = Returned rep"
  shows "\<exists>sy0 sy1. net_run dec enc (startSystem w0) sy0 \<and> executedAt dec enc i rep sy0 sy1 \<and> net_run dec enc sy1 sy"
  using assms
proof (induction rule: rtranclp_induct)
  case base
  then show ?case by (simp add: startSystem_def)
next
  case (step sy sy')
  from handler_step [OF step(2,4,5)] show ?case
    using step(1,2) step.IH by (meson rtranclp.rtrancl_into_rtrancl rtranclp.rtrancl_refl)
qed

lemma req_step:
  "net_step dec enc sy sy' \<Longrightarrow> i < length (sy_calls sy) \<Longrightarrow>
     i < length (sy_calls sy') \<and> cl_req (sy_calls sy' ! i) = cl_req (sy_calls sy ! i)"
  by (induction rule: net_step.induct)
    (auto simp: issue_def beginCall_def execCall_def endCall_def deliver_def addNewServer_def setCall_def Let_def
      nth_append nth_list_update split: begun.splits handler.splits stage.splits if_splits Option.bind_split_asm)

lemma req_run:
  "net_run dec enc sy sy' \<Longrightarrow> i < length (sy_calls sy) \<Longrightarrow>
     i < length (sy_calls sy') \<and> cl_req (sy_calls sy' ! i) = cl_req (sy_calls sy ! i)"
  by (induction rule: rtranclp_induct) (auto dest: req_step)

lemma executedAt_method:
  assumes "executedAt dec enc i rep sy0 sy1"
  obtains p m r where "cl_handler (sy_calls sy0 ! i) = Running p"
    "findMethod (sy_srvs sy0 p) (rq_svcMeth (cl_req (sy_calls sy0 ! i))) = Some m"
    "mt_Func m (dec (rq_args (cl_req (sy_calls sy0 ! i)))) (sy_world sy0) = (r, sy_world sy1)"
    "rep = \<lparr>rp_ok = True, rp_reply = enc r\<rparr>"
proof -
  let ?c = "sy_calls sy0 ! i"
  obtain p rs rep' w where e: "cl_handler ?c = Running p"
    "srv_dispatch dec enc (sy_srvs sy0 p) (cl_req ?c) (sy_world sy0) = Some (rs, rep', w)"
    "sy1 = (setCall sy0 i (?c\<lparr>cl_handler := Returned rep'\<rparr>))
       \<lparr>sy_srvs := (sy_srvs sy0)(p := rs), sy_world := w, sy_log := sy_log sy0 @ [(i, rep')]\<rparr>"
    using assms by (auto simp: executedAt_def execCall_def Let_def split: handler.splits Option.bind_split_asm)
  moreover have "rep' = rep" "sy_world sy1 = w" using assms by (auto simp: executedAt_def e(3) setCall_def)
  ultimately show thesis using that by (auto elim: dispatch_method)
qed

text \<open>A handler runs at the server to which its request was sent: when the request left, the end was enabled and
  connected to a name, and the server was the one registered under that name.\<close>

definition sentAt :: "nat \<Rightarrow> 'n \<Rightarrow> nat \<Rightarrow> ('n, 'b, 'a, 'r, 'w) system \<Rightarrow> bool" where
  "sentAt i n p sy \<longleftrightarrow> i < length (sy_calls sy) \<and> cl_stage (sy_calls sy ! i) = Accepted
     \<and> nw_enabled (sy_net sy) (rq_endname (cl_req (sy_calls sy ! i)))
     \<and> nw_connections (sy_net sy) (rq_endname (cl_req (sy_calls sy ! i))) = Some n \<and> nw_servers (sy_net sy) n = Some p"

lemma begin_sent:
  "processBegin rn req d = Sent n s b l \<Longrightarrow>
     nw_enabled rn (rq_endname req) \<and> nw_connections rn (rq_endname req) = Some n \<and> nw_servers rn n = Some s"
  by (auto simp: processBegin_def readEndnameInfo_def Let_def split: option.splits if_splits)

lemma running_step:
  assumes "net_step dec enc sy sy'" "i < length (sy_calls sy')" "cl_handler (sy_calls sy' ! i) = Running p"
  shows "i < length (sy_calls sy) \<and> (cl_handler (sy_calls sy ! i) = Running p \<or> (\<exists>n. sentAt i n p sy))"
  using assms
proof (induction rule: net_step.induct)
  case (ns_call sy req)
  then show ?case by (auto simp: issue_def nth_append less_Suc_eq)
next
  case (ns_begin j sy d)
  then show ?case
    by (auto simp: beginCall_def setCall_def sentAt_def Let_def nth_list_update split: if_splits begun.splits dest: begin_sent)
next
  case (ns_exec j sy sy')
  then show ?case
    by (auto simp: execCall_def setCall_def Let_def nth_list_update split: if_splits handler.splits Option.bind_split_asm)
next
  case (ns_end j sy d sy')
  then show ?case
    by (auto simp: endCall_def setCall_def Let_def nth_list_update split: if_splits stage.splits handler.splits)
next
  case (ns_deliver j sy sy')
  then show ?case
    by (auto simp: deliver_def setCall_def Let_def nth_list_update split: if_splits stage.splits)
qed (simp_all add: addNewServer_def)

lemma running_sent:
  assumes "net_run dec enc (startSystem w0) sy" "i < length (sy_calls sy)" "cl_handler (sy_calls sy ! i) = Running p"
  shows "\<exists>sya n. net_run dec enc (startSystem w0) sya \<and> sentAt i n p sya \<and> net_run dec enc sya sy"
  using assms
proof (induction rule: rtranclp_induct)
  case base
  then show ?case by (simp add: startSystem_def)
next
  case (step sy sy')
  from running_step [OF step(2,4,5)] show ?case
  proof (elim conjE disjE exE)
    fix n assume "sentAt i n p sy"
    then show ?thesis using step(1,2) by blast
  next
    assume "i < length (sy_calls sy)" "cl_handler (sy_calls sy ! i) = Running p"
    then show ?thesis using step.IH step(2) by (meson rtranclp.rtrancl_into_rtrancl)
  qed
qed

text \<open>C28. In every interleaving of calls, losses, delays, reorderings, server deletions and restarts, a call
  executes its handler at most once; and when \<open>Call\<close> returns true with a reply, its handler was executed
  exactly once.  At some earlier point of the run the request left: the end of the call was enabled and
  connected to a server name, and \<open>p\<close> was the server registered under that name (\<open>sentAt\<close>).  At a later point
  the method of \<open>p\<close> with the requested name was called with the arguments of this call, and the reply is what
  it returned.  A call that returns false may have been executed or not.\<close>

theorem rpc_success_executed:
  fixes sy :: "('n, 'b, 'a, 'r, 'w) system"
  assumes "net_run dec enc (startSystem w0) sy" and i: "i < length (sy_calls sy)"
    and codec: "\<And>a. dec (encArgs a) = a" "\<And>r. decReply (enc r) = Some r"
    and req: "cl_req (sy_calls sy ! i) = callRequest encArgs e meth args"
  shows "length (executions sy i) \<le> 1 \<and> (\<forall>rep r. cl_stage (sy_calls sy ! i) = Finished rep \<longrightarrow> callReturn decReply rep = Some (Some r) \<longrightarrow>
     executions sy i = [(i, rep)] \<and> (\<exists>sya sy0 sy1 n p m. net_run dec enc (startSystem w0) sya
       \<and> cl_stage (sy_calls sya ! i) = Accepted \<and> cl_req (sy_calls sya ! i) = callRequest encArgs e meth args
       \<and> nw_enabled (sy_net sya) e \<and> nw_connections (sy_net sya) e = Some n \<and> nw_servers (sy_net sya) n = Some p
       \<and> net_run dec enc sya sy0 \<and> execCall dec enc i sy0 = Some sy1
       \<and> net_run dec enc sy1 sy \<and> cl_handler (sy_calls sy0 ! i) = Running p \<and> findMethod (sy_srvs sy0 p) meth = Some m
       \<and> mt_Func m args (sy_world sy0) = (r, sy_world sy1)))"
proof -
  have inv: "netInv dec enc sy" by (rule netInv_run [OF assms(1) netInv_start])
  have ok: "callOK dec enc TYPE('w) (sy_next sy) i (executions sy i) (sy_calls sy ! i)"
    using inv i by (simp add: netInv_def)
  have "length (executions sy i) \<le> 1" using ok by (auto simp: callOK_def split: handler.splits)
  moreover have "executions sy i = [(i, rep)] \<and> (\<exists>sya sy0 sy1 n p m. net_run dec enc (startSystem w0) sya
       \<and> cl_stage (sy_calls sya ! i) = Accepted \<and> cl_req (sy_calls sya ! i) = callRequest encArgs e meth args
       \<and> nw_enabled (sy_net sya) e \<and> nw_connections (sy_net sya) e = Some n \<and> nw_servers (sy_net sya) n = Some p
       \<and> net_run dec enc sya sy0 \<and> execCall dec enc i sy0 = Some sy1
       \<and> net_run dec enc sy1 sy \<and> cl_handler (sy_calls sy0 ! i) = Running p \<and> findMethod (sy_srvs sy0 p) meth = Some m
       \<and> mt_Func m args (sy_world sy0) = (r, sy_world sy1))"
    if f: "cl_stage (sy_calls sy ! i) = Finished rep" "callReturn decReply rep = Some (Some r)" for rep r
  proof -
    have "rp_ok rep" using f(2) by (auto simp: callReturn_def split: if_splits)
    with ok f(1) have h: "cl_handler (sy_calls sy ! i) = Returned rep" by (simp add: callOK_def)
    with ok have ex: "executions sy i = [(i, rep)]" by (auto simp: callOK_def)
    obtain sy0 sy1 where run: "net_run dec enc (startSystem w0) sy0" "executedAt dec enc i rep sy0 sy1" "net_run dec enc sy1 sy"
      using returned_executed [OF assms(1) i h] by blast
    then have e: "i < length (sy_calls sy0)" "execCall dec enc i sy0 = Some sy1" by (simp_all add: executedAt_def)
    then have r0: "net_run dec enc sy0 sy" using run(3) by (meson converse_rtranclp_into_rtranclp ns_exec)
    then have req0: "cl_req (sy_calls sy0 ! i) = callRequest encArgs e meth args" using req_run e(1) req by metis
    obtain p m r' where m: "cl_handler (sy_calls sy0 ! i) = Running p" "findMethod (sy_srvs sy0 p) meth = Some m"
      "mt_Func m args (sy_world sy0) = (r', sy_world sy1)" "rep = \<lparr>rp_ok = True, rp_reply = enc r'\<rparr>"
      using executedAt_method [OF run(2)] by (auto simp: req0 callRequest_def codec)
    then have "r' = r" using f(2) by (simp add: callReturn_def codec)
    moreover obtain sya n where s: "net_run dec enc (startSystem w0) sya" "sentAt i n p sya" "net_run dec enc sya sy0"
      using running_sent [OF run(1) e(1) m(1)] by blast
    moreover have "cl_req (sy_calls sya ! i) = callRequest encArgs e meth args"
      using req_run [OF s(3)] s(2) req0 by (simp add: sentAt_def)
    moreover from this have "rq_endname (cl_req (sy_calls sya ! i)) = e" by (simp add: callRequest_def)
    ultimately show ?thesis using ex run e m unfolding sentAt_def by blast
  qed
  ultimately show ?thesis by blast
qed

section \<open>No success after the server was deleted\<close>

text \<open>A call whose server is gone keeps failing.\<close>

definition doomed :: "nat \<Rightarrow> ('n, 'b, 'a, 'r, 'w) system \<Rightarrow> bool" where
  "doomed i sy \<longleftrightarrow> i < length (sy_calls sy) \<and> (case cl_stage (sy_calls sy ! i) of
     Accepted \<Rightarrow> False
   | Polling n s _ _ \<Rightarrow> nw_servers (sy_net sy) n \<noteq> Some s \<and> s < sy_next sy
   | Replying rep \<Rightarrow> \<not> rp_ok rep
   | Finished rep \<Rightarrow> \<not> rp_ok rep)"

lemma doomed_net:
  assumes "doomed i sy" "\<And>n s. nw_servers rn n = Some s \<Longrightarrow> nw_servers (sy_net sy) n = Some s"
  shows "doomed i (sy\<lparr>sy_net := rn\<rparr>)"
  using assms by (auto simp: doomed_def split: stage.splits)

lemma doomed_other:
  "doomed i sy \<Longrightarrow> j \<noteq> i \<Longrightarrow> doomed i (setCall sy j c)"
  by (auto simp: doomed_def setCall_def split: stage.splits)

lemma countReply_servers [simp]: "nw_servers (countReply rep rn) = nw_servers rn"
  by (simp add: countReply_def)

lemma doomed_exec: "doomed i sy \<Longrightarrow> execCall dec enc j sy = Some sy' \<Longrightarrow> doomed i sy'"
proof -
  assume d: "doomed i sy" and ex: "execCall dec enc j sy = Some sy'"
  from ex have net: "sy_net sy' = sy_net sy" "sy_next sy' = sy_next sy" "length (sy_calls sy') = length (sy_calls sy)"
    and calls: "\<exists>c. sy_calls sy' = (sy_calls sy)[j := c] \<and> cl_stage c = cl_stage (sy_calls sy ! j)"
    by (auto simp: execCall_def Let_def setCall_def split: handler.splits Option.bind_split_asm)
  have "cl_stage (sy_calls sy' ! i) = cl_stage (sy_calls sy ! i)"
    using calls d by (cases "j = i") (auto simp: doomed_def)
  then show ?thesis using d unfolding doomed_def net by simp
qed

lemma doomed_end:
  assumes "doomed i sy" "endCall j d sy = Some sy'"
  shows "doomed i sy'"
proof (cases "j = i")
  case True
  then show ?thesis using assms
    by (auto simp: doomed_def endCall_def Let_def setCall_def processEnd_def isServerDead_def split: handler.splits stage.splits)
next
  case False
  from assms(2) obtain c where "sy' = setCall sy j c"
    by (auto simp: endCall_def Let_def split: stage.splits handler.splits if_splits)
  with False assms(1) show ?thesis by (simp add: doomed_other)
qed

lemma doomed_deliver: "doomed i sy \<Longrightarrow> deliver j sy = Some sy' \<Longrightarrow> doomed i sy'"
  by (cases "j = i") (auto simp: doomed_def deliver_def Let_def setCall_def split: stage.splits)

lemma doomed_begin: "doomed i sy \<Longrightarrow> cl_stage (sy_calls sy ! j) = Accepted \<Longrightarrow> doomed i (beginCall j d sy)"
  by (cases "j = i") (auto simp: beginCall_def Let_def doomed_other, simp add: doomed_def)

lemma doomed_issue: "doomed i sy \<Longrightarrow> doomed i (issue req sy)"
  by (simp add: doomed_def issue_def nth_append acceptReq_def split: stage.splits)

lemma doomed_server: "doomed i sy \<Longrightarrow> doomed i (addNewServer n svcs sy)"
  by (auto simp: doomed_def addNewServer_def AddServer_def split: stage.splits)

lemma doomed_step: "net_step dec enc sy sy' \<Longrightarrow> doomed i sy \<Longrightarrow> doomed i sy'"
  by (induction rule: net_step.induct)
    (auto intro: doomed_issue doomed_begin doomed_exec doomed_end doomed_deliver doomed_server intro!: doomed_net
      simp: DeleteServer_def MakeEnd_def Connect_def Enable_def Reliable_def LongReordering_def LongDelays_def Cleanup_def
      split: if_splits)

text \<open>A run during which an end stays disabled, and a call on that end.\<close>

definition off_run :: "('b list \<Rightarrow> 'a) \<Rightarrow> ('r \<Rightarrow> 'b list) \<Rightarrow> 'n \<Rightarrow> ('n, 'b, 'a, 'r, 'w) system \<Rightarrow> ('n, 'b, 'a, 'r, 'w) system \<Rightarrow> bool" where
  "off_run dec enc e = (\<lambda>sy sy'. net_step dec enc sy sy' \<and> \<not> nw_enabled (sy_net sy') e)\<^sup>*\<^sup>*"

definition cutOff :: "nat \<Rightarrow> ('n, 'b, 'a, 'r, 'w) system \<Rightarrow> bool" where
  "cutOff i sy \<longleftrightarrow> i < length (sy_calls sy) \<and> (case cl_stage (sy_calls sy ! i) of
     Replying rep \<Rightarrow> \<not> rp_ok rep | Finished rep \<Rightarrow> \<not> rp_ok rep | _ \<Rightarrow> True)"

lemma cutOff_step:
  assumes "net_step dec enc sy sy'" "cutOff i sy" "\<not> nw_enabled (sy_net sy) (rq_endname (cl_req (sy_calls sy ! i)))"
  shows "cutOff i sy'"
  using assms
proof (induction rule: net_step.induct)
  case (ns_call sy req)
  then show ?case by (simp add: cutOff_def issue_def nth_append)
next
  case (ns_begin j sy d)
  then show ?case
    by (cases "j = i") (auto simp: cutOff_def beginCall_def setCall_def Let_def split: begun.splits)
next
  case (ns_exec j sy sy')
  then obtain c where c: "sy_calls sy' = (sy_calls sy)[j := c]" "cl_stage c = cl_stage (sy_calls sy ! j)"
    by (auto simp: execCall_def setCall_def Let_def split: handler.splits Option.bind_split_asm)
  then show ?case using ns_exec by (cases "j = i") (auto simp: cutOff_def)
next
  case (ns_end j sy d sy')
  then show ?case
    by (cases "j = i") (auto simp: cutOff_def endCall_def setCall_def processEnd_def isServerDead_def Let_def
        split: stage.splits handler.splits if_splits)
next
  case (ns_deliver j sy sy')
  then show ?case
    by (cases "j = i") (auto simp: cutOff_def deliver_def setCall_def Let_def split: stage.splits)
qed (simp_all add: cutOff_def addNewServer_def)

lemma cutOff_run:
  assumes "off_run dec enc (rq_endname (cl_req (sy_calls sy ! i))) sy sy'" "cutOff i sy"
    "\<not> nw_enabled (sy_net sy) (rq_endname (cl_req (sy_calls sy ! i)))"
  shows "cutOff i sy' \<and> \<not> nw_enabled (sy_net sy') (rq_endname (cl_req (sy_calls sy ! i)))
     \<and> cl_req (sy_calls sy' ! i) = cl_req (sy_calls sy ! i)"
  using assms(1) unfolding off_run_def
proof (induction rule: rtranclp_induct)
  case base
  then show ?case using assms by simp
next
  case (step sy1 sy2)
  have i: "i < length (sy_calls sy1)" using step.IH by (simp add: cutOff_def)
  have "cutOff i sy2" using step by (intro cutOff_step [of dec enc sy1 sy2]) auto
  then show ?case using step req_step [of dec enc sy1 sy2 i] i by simp
qed

text \<open>A reply that has been decided is not changed any more.\<close>

definition decided :: "nat \<Rightarrow> 'b replyMsg \<Rightarrow> ('n, 'b, 'a, 'r, 'w) system \<Rightarrow> bool" where
  "decided i rep sy \<longleftrightarrow> i < length (sy_calls sy) \<and> cl_stage (sy_calls sy ! i) \<in> {Replying rep, Finished rep}"

lemma decided_step: "net_step dec enc sy sy' \<Longrightarrow> decided i rep sy \<Longrightarrow> decided i rep sy'"
proof (induction rule: net_step.induct)
  case (ns_begin j sy d)
  then show ?case by (cases "j = i") (auto simp: decided_def beginCall_def setCall_def Let_def)
next
  case (ns_exec j sy sy')
  then obtain c where "sy_calls sy' = (sy_calls sy)[j := c]" "cl_stage c = cl_stage (sy_calls sy ! j)"
    by (auto simp: execCall_def setCall_def Let_def split: handler.splits Option.bind_split_asm)
  then show ?case using ns_exec by (cases "j = i") (auto simp: decided_def)
next
  case (ns_end j sy d sy')
  then show ?case
    by (cases "j = i") (auto simp: decided_def endCall_def setCall_def Let_def split: stage.splits handler.splits if_splits)
next
  case (ns_deliver j sy sy')
  then show ?case by (cases "j = i") (auto simp: decided_def deliver_def setCall_def Let_def split: stage.splits)
qed (auto simp: decided_def addNewServer_def issue_def nth_append)

text \<open>C29. Calls whose reply has not been decided.  Once the server that a waiting call was sent to has been deleted or
  replaced, the call never returns true, even if its handler returns later: a client is never told of
  an update that went to a superseded server.  While an end stays disabled, no call on it that is waiting, or
  has not been sent yet, returns true.  A reply that was decided before, and is only held back by
  \<open>longreordering\<close>, is delivered as it was decided, also after the server has been deleted.\<close>

theorem no_success_after_delete:
  assumes "net_run dec enc (startSystem w0) sy" "i < length (sy_calls sy)"
  shows "(\<forall>n s reliable longre sy' rep. cl_stage (sy_calls sy ! i) = Polling n s reliable longre \<and> nw_servers (sy_net sy) n \<noteq> Some s
        \<and> net_run dec enc sy sy' \<and> cl_stage (sy_calls sy' ! i) = Finished rep \<longrightarrow> \<not> rp_ok rep)
   \<and> (\<forall>e sy' rep. rq_endname (cl_req (sy_calls sy ! i)) = e \<and> \<not> nw_enabled (sy_net sy) e
        \<and> (cl_stage (sy_calls sy ! i) = Accepted \<or> (\<exists>n s reliable longre. cl_stage (sy_calls sy ! i) = Polling n s reliable longre))
        \<and> off_run dec enc e sy sy' \<and> cl_stage (sy_calls sy' ! i) = Finished rep \<longrightarrow> \<not> rp_ok rep)
   \<and> (\<forall>rep sy'. cl_stage (sy_calls sy ! i) = Replying rep \<and> net_run dec enc sy sy' \<longrightarrow>
        cl_stage (sy_calls sy' ! i) \<in> {Replying rep, Finished rep})"
proof (intro conjI allI impI)
  fix n s reliable longre sy' rep
  assume a: "cl_stage (sy_calls sy ! i) = Polling n s reliable longre \<and> nw_servers (sy_net sy) n \<noteq> Some s
    \<and> net_run dec enc sy sy' \<and> cl_stage (sy_calls sy' ! i) = Finished rep"
  have "netInv dec enc sy" by (rule netInv_run [OF assms(1) netInv_start])
  then have "s < sy_next sy" using assms(2) a by (auto simp: netInv_def callOK_def)
  with assms(2) a have d: "doomed i sy" by (simp add: doomed_def)
  from a have "net_run dec enc sy sy'" by blast
  then have "doomed i sy'" by (induction rule: rtranclp_induct) (use d doomed_step in blast)+
  then show "\<not> rp_ok rep" using a by (simp add: doomed_def)
next
  fix e sy' rep
  assume a: "rq_endname (cl_req (sy_calls sy ! i)) = e \<and> \<not> nw_enabled (sy_net sy) e
    \<and> (cl_stage (sy_calls sy ! i) = Accepted \<or> (\<exists>n s reliable longre. cl_stage (sy_calls sy ! i) = Polling n s reliable longre))
    \<and> off_run dec enc e sy sy' \<and> cl_stage (sy_calls sy' ! i) = Finished rep"
  then have "cutOff i sy" using assms(2) by (auto simp: cutOff_def)
  then have "cutOff i sy'" using cutOff_run [of dec enc sy i sy'] a by blast
  then show "\<not> rp_ok rep" using a by (simp add: cutOff_def)
next
  fix rep sy'
  assume a: "cl_stage (sy_calls sy ! i) = Replying rep \<and> net_run dec enc sy sy'"
  then have d: "decided i rep sy" using assms(2) by (simp add: decided_def)
  from a have "net_run dec enc sy sy'" by blast
  then have "decided i rep sy'" by (induction rule: rtranclp_induct) (use d decided_step in blast)+
  then show "cl_stage (sy_calls sy' ! i) \<in> {Replying rep, Finished rep}" by (simp add: decided_def)
qed

section \<open>A call can return\<close>

text \<open>The steps of call \<open>i\<close> itself: it is sent, its handler runs, its wait ends, its reply is delivered.\<close>

inductive own_step :: "('b list \<Rightarrow> 'a) \<Rightarrow> ('r \<Rightarrow> 'b list) \<Rightarrow> nat \<Rightarrow> ('n, 'b, 'a, 'r, 'w) system \<Rightarrow> ('n, 'b, 'a, 'r, 'w) system \<Rightarrow> bool"
  for dec enc i where
  os_begin: "i < length (sy_calls sy) \<Longrightarrow> cl_stage (sy_calls sy ! i) = Accepted \<Longrightarrow> own_step dec enc i sy (beginCall i d sy)"
| os_exec: "i < length (sy_calls sy) \<Longrightarrow> execCall dec enc i sy = Some sy' \<Longrightarrow> own_step dec enc i sy sy'"
| os_end: "i < length (sy_calls sy) \<Longrightarrow> endCall i d sy = Some sy' \<Longrightarrow> own_step dec enc i sy sy'"
| os_deliver: "i < length (sy_calls sy) \<Longrightarrow> deliver i sy = Some sy' \<Longrightarrow> own_step dec enc i sy sy'"


lemma own_step_net: "own_step dec enc i sy sy' \<Longrightarrow> net_step dec enc sy sy'"
  by (induction rule: own_step.induct) (auto intro: net_step.intros)






section \<open>A call in a small network\<close>

definition addMethod :: "(int, int, int) rpcMethod" where
  "addMethod = \<lparr>mt_Name = ''Add'', mt_PkgPath = [], mt_In = [KPtr, KOther, KPtr], mt_NumOut = 0, mt_Func = (\<lambda>a w. (a + w, a + w))\<rparr>"

definition encInt :: "int \<Rightarrow> int list" where
  "encInt i = [i]"

definition decInt :: "int list \<Rightarrow> int" where
  "decInt bs = (case bs of [] \<Rightarrow> 0 | b # _ \<Rightarrow> b)"

type_synonym demo = "(nat, int, int, int, int) system"

definition demoReady :: demo where
  "demoReady = addNewServer 1 [MakeService ''Sum'' [addMethod]]
     ((startSystem 3)\<lparr>sy_net := Enable 0 True (Connect 0 1 MakeNetwork)\<rparr>)"

definition demoReq :: "(nat, int) reqMsg" where
  "demoReq = callRequest encInt 0 ''Sum.Add'' 4"

definition demoPolling :: demo where
  "demoPolling = beginCall 0 False (issue demoReq demoReady)"

definition demoReply :: "int replyMsg" where
  "demoReply = \<lparr>rp_ok = True, rp_reply = [7]\<rparr>"

definition demoRan :: "demo \<Rightarrow> demo" where
  "demoRan sy = (setCall sy 0 ((sy_calls sy ! 0)\<lparr>cl_handler := Returned demoReply\<rparr>))
     \<lparr>sy_srvs := (sy_srvs sy)(0 := (sy_srvs sy 0)\<lparr>sr_count := sr_count (sy_srvs sy 0) + 1\<rparr>), sy_world := 7, sy_log := sy_log sy @ [(0, demoReply)]\<rparr>"

definition demoFinish :: "int replyMsg \<Rightarrow> demo \<Rightarrow> demo" where
  "demoFinish rep sy = (setCall sy 0 ((sy_calls sy ! 0)\<lparr>cl_stage := Finished rep\<rparr>))\<lparr>sy_net := countReply rep (sy_net sy)\<rparr>"

lemma demoReady_run: "net_run decInt encInt (startSystem 3) demoReady"
proof -
  let ?s0 = "startSystem 3 :: demo"
  have "net_step decInt encInt ?s0 (?s0\<lparr>sy_net := Connect 0 1 (sy_net ?s0)\<rparr>)" by (rule ns_connect)
  moreover have "net_step decInt encInt (?s0\<lparr>sy_net := Connect 0 1 (sy_net ?s0)\<rparr>)
      (?s0\<lparr>sy_net := Enable 0 True (Connect 0 1 MakeNetwork)\<rparr>)"
    using ns_enable [of decInt encInt "?s0\<lparr>sy_net := Connect 0 1 (sy_net ?s0)\<rparr>" 0 True] by (simp add: startSystem_def)
  moreover have "net_step decInt encInt (?s0\<lparr>sy_net := Enable 0 True (Connect 0 1 MakeNetwork)\<rparr>) demoReady"
    unfolding demoReady_def by (rule ns_server)
  ultimately show ?thesis by (meson rtranclp.rtrancl_refl rtranclp.rtrancl_into_rtrancl)
qed

lemmas demo_defs = demoPolling_def demoReady_def issue_def beginCall_def setCall_def addNewServer_def startSystem_def
  MakeNetwork_def Enable_def Connect_def AddServer_def acceptReq_def processBegin_def readEndnameInfo_def

lemma demoPolling_call:
  "sy_calls demoPolling = [\<lparr>cl_req = demoReq, cl_stage = Polling 1 0 True False, cl_handler = Running 0\<rparr>]"
  "nw_servers (sy_net demoPolling) = (\<lambda>_. None)(1 := Some 0)" "nw_enabled (sy_net demoPolling) 0"
  "sy_world demoPolling = 3" "sy_log demoPolling = []"
  "sy_srvs demoPolling = (\<lambda>_. MakeServer)(0 := fold AddService [MakeService ''Sum'' [addMethod]] MakeServer)"
  by (simp_all add: demo_defs demoReq_def callRequest_def Let_def)

lemma demoPolling_run: "net_run decInt encInt (startSystem 3) demoPolling"
proof -
  have "net_step decInt encInt demoReady (issue demoReq demoReady)"
    by (rule ns_call) (simp add: demo_defs)
  moreover have "net_step decInt encInt (issue demoReq demoReady) demoPolling"
    unfolding demoPolling_def by (rule ns_begin) (simp_all add: demo_defs)
  ultimately show ?thesis using demoReady_run by (meson rtranclp.rtrancl_into_rtrancl)
qed

lemma demo_dispatch:
  "srv_dispatch decInt encInt (fold AddService [MakeService ''Sum'' [addMethod]] MakeServer) demoReq 3
     = Some ((fold AddService [MakeService ''Sum'' [addMethod]] MakeServer)\<lparr>sr_count := 1\<rparr>, demoReply, 7)"
  by (simp add: srv_dispatch_def svc_dispatch_def lastDot_def demoReq_def callRequest_def go_slice_to_def go_slice_from_def
      AddService_def MakeServer_def MakeService_def isHandler_def addMethod_def demoReply_def encInt_def decInt_def Let_def)

text \<open>The handler of the waiting call runs, whatever has happened to the network.\<close>

lemma demo_exec:
  assumes "sy_calls sy = sy_calls demoPolling" "sy_srvs sy = sy_srvs demoPolling" "sy_world sy = 3"
  shows "net_step decInt encInt sy (demoRan sy)"
proof (rule ns_exec)
  show "0 < length (sy_calls sy)" by (simp add: assms(1) demoPolling_call)
  have "sr_count (fold AddService [MakeService ''Sum'' [addMethod]] MakeServer) = 0"
    by (simp add: AddService_def MakeServer_def)
  then show "execCall decInt encInt 0 sy = Some (demoRan sy)"
    using demo_dispatch by (simp add: execCall_def demoRan_def assms demoPolling_call Let_def)
qed

lemma demo_end:
  assumes "sy_calls sy = sy_calls demoPolling"
    and "rep = (if isServerDead (sy_net sy) 0 1 0 then failure else demoReply)"
  shows "net_run decInt encInt (demoRan sy) (demoFinish rep (demoRan sy))"
proof -
  let ?m = "setCall (demoRan sy) 0 ((sy_calls (demoRan sy) ! 0)\<lparr>cl_stage := Replying rep\<rparr>)"
  have ran: "sy_calls (demoRan sy) = [\<lparr>cl_req = demoReq, cl_stage = Polling 1 0 True False, cl_handler = Returned demoReply\<rparr>]"
    "sy_net (demoRan sy) = sy_net sy" by (simp_all add: demoRan_def setCall_def assms(1) demoPolling_call)
  have "endCall 0 False (demoRan sy) = Some ?m"
    by (simp add: endCall_def ran processEnd_def assms(2) demoReq_def callRequest_def Let_def)
  then have "net_step decInt encInt (demoRan sy) ?m" by (intro ns_end [of 0]) (simp_all add: ran)
  moreover have "deliver 0 ?m = Some (demoFinish rep (demoRan sy))"
    by (simp add: deliver_def demoFinish_def setCall_def ran Let_def)
  then have "net_step decInt encInt ?m (demoFinish rep (demoRan sy))"
    by (intro ns_deliver [of 0]) (simp_all add: setCall_def ran)
  ultimately show ?thesis by (meson rtranclp.rtrancl_refl rtranclp.rtrancl_into_rtrancl)
qed

theorem rpc_success_executed_witness:
  "executions (demoFinish demoReply (demoRan demoPolling)) 0 = [(0, demoReply)]
     \<and> (\<exists>sy0 sy1 p m. execCall decInt encInt 0 sy0 = Some sy1 \<and> cl_handler (sy_calls sy0 ! 0) = Running p
       \<and> findMethod (sy_srvs sy0 p) ''Sum.Add'' = Some m \<and> mt_Func m 4 (sy_world sy0) = (7, sy_world (sy1 :: demo)))"
proof -
  let ?sy = "demoFinish demoReply (demoRan demoPolling)"
  have "\<not> isServerDead (sy_net demoPolling) 0 1 0" by (simp add: isServerDead_def demoPolling_call)
  with demo_end [of demoPolling demoReply] have "net_run decInt encInt (demoRan demoPolling) ?sy" by simp
  moreover have "net_step decInt encInt demoPolling (demoRan demoPolling)" by (rule demo_exec) (simp_all add: demoPolling_call)
  ultimately have run: "net_run decInt encInt (startSystem 3) ?sy" using demoPolling_run
    by (meson rtranclp.rtrancl_into_rtrancl rtranclp_trans)
  have c: "sy_calls ?sy = [\<lparr>cl_req = demoReq, cl_stage = Finished demoReply, cl_handler = Returned demoReply\<rparr>]"
    by (simp add: demoFinish_def demoRan_def setCall_def demoPolling_call)
  have "callReturn (\<lambda>bs. Some (decInt bs)) demoReply = Some (Some 7)"
    by (simp add: callReturn_def demoReply_def decInt_def)
  then show ?thesis
    using rpc_success_executed [OF run, of 0 encInt "\<lambda>bs. Some (decInt bs)" 0 "''Sum.Add''" 4]
    by (auto simp: c demoReq_def decInt_def encInt_def)
qed

text \<open>The server is deleted while the handler runs; the reply that comes later is turned into a failure.\<close>

theorem no_success_after_delete_witness:
  "cl_stage (sy_calls (demoFinish failure (demoRan (demoPolling\<lparr>sy_net := DeleteServer 1 (sy_net demoPolling)\<rparr>))) ! 0)
     = Finished failure \<and> \<not> rp_ok (failure :: int replyMsg)"
proof -
  let ?sy = "demoPolling\<lparr>sy_net := DeleteServer 1 (sy_net demoPolling)\<rparr>"
  let ?sy' = "demoFinish failure (demoRan ?sy)"
  have "net_step decInt encInt demoPolling ?sy" by (rule ns_delete)
  then have run: "net_run decInt encInt (startSystem 3) ?sy" using demoPolling_run by simp
  have "isServerDead (sy_net ?sy) 0 1 0" by (simp add: isServerDead_def DeleteServer_def)
  with demo_end [of ?sy failure] have "net_run decInt encInt (demoRan ?sy) ?sy'" by simp
  moreover have "net_step decInt encInt ?sy (demoRan ?sy)" by (rule demo_exec) (simp_all add: demoPolling_call)
  ultimately have run': "net_run decInt encInt ?sy ?sy'" by (meson converse_rtranclp_into_rtranclp)
  have "cl_stage (sy_calls ?sy' ! 0) = Finished failure"
    by (simp add: demoFinish_def demoRan_def setCall_def demoPolling_call)
  moreover from this have "\<not> rp_ok (failure :: int replyMsg)"
    using no_success_after_delete [OF run, of 0, THEN conjunct1, rule_format, of 1 0 True False ?sy' failure] run'
    by (simp add: demoPolling_call DeleteServer_def)
  ultimately show ?thesis by blast
qed


end
