(* ===== verification/Harness_Net.thy ===== *)
theory Harness_Net
  imports Labrpc
begin

text \<open>
  What the test harnesses (\<^verbatim>\<open>config.go\<close> of \<^verbatim>\<open>raft\<close>, \<^verbatim>\<open>kvraft\<close>, \<^verbatim>\<open>shardmaster\<close> and \<^verbatim>\<open>shardkv\<close>) share: they
  name servers by ints or strings and client ends by random strings, make one end from each client to
  each server, and enable or disable ends in loops over slices of server numbers.

  \<open>wired\<close> relates a network to the table of end names and to the links that are meant to be up; the
  lemmas say what each loop of the harnesses does to it.
\<close>

section \<open>Names and loops\<close>

text \<open>The dynamic values that the harnesses use as names.\<close>

datatype goname = NInt nat | NStr string

text \<open>A loop \<^verbatim>\<open>for j := ... { name := ...; net.Enable(name, b) }\<close>.  Looking up the name can panic
  (\<open>None\<close>) or the body can be skipped (\<open>Some None\<close>).\<close>

primrec enableLoop :: "bool \<Rightarrow> ('j \<Rightarrow> string option option) \<Rightarrow> 'j list \<Rightarrow> goname network \<Rightarrow> goname network option" where
  "enableLoop b look [] rn = Some rn"
| "enableLoop b look (j # js) rn = (case look j of
     None \<Rightarrow> None
   | Some None \<Rightarrow> enableLoop b look js rn
   | Some (Some e) \<Rightarrow> enableLoop b look js (Enable (NStr e) b rn))"

text \<open>A loop that makes an end and connects it, for each \<open>j\<close>.\<close>

primrec makeEnds :: "(nat \<Rightarrow> string) \<Rightarrow> (nat \<Rightarrow> goname) \<Rightarrow> nat list \<Rightarrow> goname network \<Rightarrow> goname network option" where
  "makeEnds nm srv [] rn = Some rn"
| "makeEnds nm srv (j # js) rn = do {
     rn \<leftarrow> MakeEnd (NStr (nm j)) rn;
     makeEnds nm srv js (Connect (NStr (nm j)) (srv j) rn) }"

definition hit :: "('j \<Rightarrow> string option option) \<Rightarrow> 'j list \<Rightarrow> goname \<Rightarrow> bool" where
  "hit look js x \<longleftrightarrow> (\<exists>j \<in> set js. \<exists>e. look j = Some (Some e) \<and> x = NStr e)"

lemma hit_Cons: "hit look (j # js) x \<longleftrightarrow> (\<exists>e. look j = Some (Some e) \<and> x = NStr e) \<or> hit look js x"
  by (auto simp: hit_def)

lemma enableLoop_eq:
  "enableLoop b look js rn = (if \<exists>j \<in> set js. look j = None then None
     else Some (rn\<lparr>nw_enabled := \<lambda>x. if hit look js x then b else nw_enabled rn x\<rparr>))"
proof (induction js arbitrary: rn)
  case (Cons j js)
  show ?case
  proof (cases "look j")
    case (Some en)
    show ?thesis
    proof (cases en)
      case None
      with Some Cons show ?thesis by (simp add: hit_Cons)
    next
      case (Some e)
      have "(\<lambda>x. if hit look js x then b else nw_enabled (Enable (NStr e) b rn) x)
          = (\<lambda>x. if hit look (j # js) x then b else nw_enabled rn x)"
        using Some \<open>look j = Some en\<close> by (auto simp: hit_Cons Enable_def fun_eq_iff)
      moreover have "(Enable (NStr e) b rn)\<lparr>nw_enabled := f\<rparr> = rn\<lparr>nw_enabled := f\<rparr>" for f
        by (simp add: Enable_def)
      ultimately show ?thesis using Cons Some \<open>look j = Some en\<close> by simp
    qed
  qed simp
qed (simp add: hit_def)

lemma makeEnds_spec:
  assumes "makeEnds nm srv js rn = Some rn'" "distinct js"
  shows "inj_on nm (set js) \<and> (\<forall>j \<in> set js. NStr (nm j) \<notin> nw_ends rn)
     \<and> nw_ends rn' = nw_ends rn \<union> (\<lambda>j. NStr (nm j)) ` set js
     \<and> (\<forall>x. nw_enabled rn' x \<longleftrightarrow> x \<notin> (\<lambda>j. NStr (nm j)) ` set js \<and> nw_enabled rn x)
     \<and> (\<forall>j \<in> set js. nw_connections rn' (NStr (nm j)) = Some (srv j))
     \<and> (\<forall>x. x \<notin> (\<lambda>j. NStr (nm j)) ` set js \<longrightarrow> nw_connections rn' x = nw_connections rn x)
     \<and> nw_servers rn' = nw_servers rn \<and> nw_reliable rn' = nw_reliable rn \<and> nw_longReordering rn' = nw_longReordering rn
     \<and> nw_longDelays rn' = nw_longDelays rn \<and> nw_done rn' = nw_done rn"
  using assms
proof (induction js arbitrary: rn)
  case (Cons j js)
  let ?rn = "Connect (NStr (nm j)) (srv j) (rn\<lparr>nw_ends := insert (NStr (nm j)) (nw_ends rn),
     nw_enabled := (nw_enabled rn)(NStr (nm j) := False), nw_connections := (nw_connections rn)(NStr (nm j) := None)\<rparr>)"
  have fresh: "NStr (nm j) \<notin> nw_ends rn" and run: "makeEnds nm srv js ?rn = Some rn'"
    using Cons.prems by (auto simp: MakeEnd_def split: if_splits)
  have d: "distinct js" "j \<notin> set js" using Cons.prems by auto
  note IH = Cons.IH [OF run d(1)]
  have ne: "nm k \<noteq> nm j" if "k \<in> set js" for k using IH that by (auto simp: Connect_def)
  let ?im = "(\<lambda>j. NStr (nm j)) ` set js"
  have jn: "NStr (nm j) \<notin> ?im"
  proof
    assume "NStr (nm j) \<in> ?im"
    then obtain k where "k \<in> set js" "nm k = nm j" by auto
    with ne show False by blast
  qed
  show ?case
  proof (intro conjI)
    show "inj_on nm (set (j # js))" using IH [THEN conjunct1] jn by (auto simp: image_iff)
    show "\<forall>k \<in> set (j # js). NStr (nm k) \<notin> nw_ends rn"
      using IH [THEN conjunct2, THEN conjunct1] fresh by (simp add: Connect_def)
    show "nw_ends rn' = nw_ends rn \<union> (\<lambda>j. NStr (nm j)) ` set (j # js)"
      using IH [THEN conjunct2, THEN conjunct2, THEN conjunct1] by (simp add: Connect_def)
    show "\<forall>x. nw_enabled rn' x \<longleftrightarrow> x \<notin> (\<lambda>j. NStr (nm j)) ` set (j # js) \<and> nw_enabled rn x"
      using IH [THEN conjunct2, THEN conjunct2, THEN conjunct2, THEN conjunct1] by (auto simp: Connect_def)
    have c: "\<forall>j \<in> set js. nw_connections rn' (NStr (nm j)) = Some (srv j)"
      "\<forall>x. x \<notin> ?im \<longrightarrow> nw_connections rn' x = nw_connections ?rn x"
      using IH [THEN conjunct2, THEN conjunct2, THEN conjunct2, THEN conjunct2] by simp_all
    have "nw_connections rn' (NStr (nm j)) = Some (srv j)" using c(2) jn by (simp add: Connect_def)
    with c(1) show "\<forall>k \<in> set (j # js). nw_connections rn' (NStr (nm k)) = Some (srv k)" by simp
    show "\<forall>x. x \<notin> (\<lambda>j. NStr (nm j)) ` set (j # js) \<longrightarrow> nw_connections rn' x = nw_connections rn x"
      using c(2) by (simp add: Connect_def)
  qed (use IH in \<open>simp_all add: Connect_def\<close>)
qed simp

lemma makeEnds_ok:
  "inj_on nm (set js) \<Longrightarrow> distinct js \<Longrightarrow> (\<And>j. j \<in> set js \<Longrightarrow> NStr (nm j) \<notin> nw_ends rn) \<Longrightarrow> \<exists>rn'. makeEnds nm srv js rn = Some rn'"
proof (induction js arbitrary: rn)
  case (Cons j js)
  have "NStr (nm k) \<notin> insert (NStr (nm j)) (nw_ends rn)" if "k \<in> set js" for k
    using Cons.prems that by (auto simp: inj_on_def)
  then show ?case using Cons by (auto simp: MakeEnd_def Connect_def inj_on_def)
qed simp

text \<open>What an end says about the requests that it carries.\<close>

lemma begin_end:
  assumes "nw_connections rn (rq_endname req) = Some m"
  shows "processBegin rn req False = Unreachable \<longleftrightarrow> \<not> nw_enabled rn (rq_endname req) \<or> nw_servers rn m = None"
    and "processBegin rn req d = Sent m' s a b \<Longrightarrow> m' = m \<and> nw_servers rn m = Some s \<and> nw_enabled rn (rq_endname req)"
  using assms by (auto simp: processBegin_def readEndnameInfo_def Let_def split: option.splits if_splits)

section \<open>Wiring\<close>

text \<open>\<open>names k\<close> are the ends of client \<open>k\<close>, one for each of the \<open>n\<close> servers; \<open>srv j\<close> is the name of server
  \<open>j\<close> and \<open>link k j\<close> says that the end from \<open>k\<close> to \<open>j\<close> is meant to be enabled.  No other end is.\<close>

definition connectedEnds :: "nat \<Rightarrow> (nat \<Rightarrow> goname) \<Rightarrow> ('k \<Rightarrow> string list option) \<Rightarrow> goname network \<Rightarrow> bool" where
  "connectedEnds n srv names rn \<longleftrightarrow> (\<forall>k es. names k = Some es \<longrightarrow> length es = n \<and>
     (\<forall>j < n. NStr (es ! j) \<in> nw_ends rn \<and> nw_connections rn (NStr (es ! j)) = Some (srv j)))"

definition distinctNames :: "nat \<Rightarrow> ('k \<Rightarrow> string list option) \<Rightarrow> bool" where
  "distinctNames n names \<longleftrightarrow> (\<forall>k es k' es' j j'. names k = Some es \<longrightarrow> names k' = Some es' \<longrightarrow> j < n \<longrightarrow> j' < n \<longrightarrow>
     es ! j = es' ! j' \<longrightarrow> k = k' \<and> j = j')"

definition linkOn :: "nat \<Rightarrow> ('k \<Rightarrow> nat \<Rightarrow> bool) \<Rightarrow> ('k \<Rightarrow> string list option) \<Rightarrow> goname \<Rightarrow> bool" where
  "linkOn n link names x \<longleftrightarrow> (\<exists>k es j. names k = Some es \<and> j < n \<and> x = NStr (es ! j) \<and> link k j)"

definition wired :: "nat \<Rightarrow> (nat \<Rightarrow> goname) \<Rightarrow> ('k \<Rightarrow> nat \<Rightarrow> bool) \<Rightarrow> ('k \<Rightarrow> string list option) \<Rightarrow> goname network \<Rightarrow> bool" where
  "wired n srv link names rn \<longleftrightarrow> connectedEnds n srv names rn \<and> distinctNames n names \<and> nw_enabled rn = linkOn n link names"

lemma wired_on: "wired n srv link names rn \<Longrightarrow> nw_enabled rn x \<longleftrightarrow> linkOn n link names x"
  by (simp add: wired_def)

lemma wired_end:
  "wired n srv link names rn \<Longrightarrow> names k = Some es \<Longrightarrow> length es = n \<and> (\<forall>j < n. NStr (es ! j) \<in> nw_ends rn
        \<and> nw_connections rn (NStr (es ! j)) = Some (srv j))"
  by (simp add: wired_def connectedEnds_def)

lemma wired_inj:
  "wired n srv link names rn \<Longrightarrow> names k = Some es \<Longrightarrow> names k' = Some es' \<Longrightarrow> j < n \<Longrightarrow> j' < n \<Longrightarrow>
     es ! j = es' ! j' \<Longrightarrow> k = k' \<and> j = j'"
  unfolding wired_def distinctNames_def by blast

lemma wiredD:
  assumes "wired n srv link names rn" "names k = Some es"
  shows "length es = n" "j < n \<Longrightarrow> nw_connections rn (NStr (es ! j)) = Some (srv j)"
    "j < n \<Longrightarrow> nw_enabled rn (NStr (es ! j)) \<longleftrightarrow> link k j" "j < n \<Longrightarrow> NStr (es ! j) \<in> nw_ends rn"
  using wired_end [OF assms] apply simp_all
proof -
  assume j: "j < n"
  have "link k j" if "names k' = Some es'" "j' < n" "es ! j = es' ! j'" "link k' j'" for k' es' j'
    using wired_inj [OF assms that(1) j that(2,3)] that(4) by simp
  then show "nw_enabled rn (NStr (es ! j)) \<longleftrightarrow> link k j"
    unfolding wired_on [OF assms(1)] linkOn_def using assms(2) j by auto
qed

lemma wired_empty: "wired n srv (\<lambda>_ _. False) (\<lambda>_. None) MakeNetwork"
  by (simp add: wired_def connectedEnds_def distinctNames_def linkOn_def MakeNetwork_def fun_eq_iff)

text \<open>Only the ends, their state and their connections matter.\<close>

lemma wired_cong:
  "nw_ends rn' = nw_ends rn \<Longrightarrow> nw_enabled rn' = nw_enabled rn \<Longrightarrow> nw_connections rn' = nw_connections rn \<Longrightarrow>
     wired n srv link names rn' = wired n srv link names rn"
  by (simp add: wired_def connectedEnds_def)

lemma wired_net [simp]:
  "wired n srv link names (DeleteServer x rn) = wired n srv link names rn"
  "wired n srv link names (AddServer x p rn) = wired n srv link names rn"
  "wired n srv link names (Reliable b rn) = wired n srv link names rn"
  "wired n srv link names (LongReordering b rn) = wired n srv link names rn"
  "wired n srv link names (LongDelays b rn) = wired n srv link names rn"
  by (simp_all add: wired_def connectedEnds_def DeleteServer_def AddServer_def Reliable_def LongReordering_def LongDelays_def)

text \<open>Only the links of clients that have ends matter.\<close>

lemma wired_link:
  assumes "wired n srv link names rn" "\<And>k j. names k \<noteq> None \<Longrightarrow> j < n \<Longrightarrow> link' k j = link k j"
  shows "wired n srv link' names rn"
proof -
  have "linkOn n link' names x = linkOn n link names x" for x
    unfolding linkOn_def using assms(2) by (intro ex_cong1) auto
  with assms(1) show ?thesis by (simp add: wired_def fun_eq_iff)
qed

text \<open>A loop that sets the ends of a set of pairs.\<close>

lemma wired_enableLoop:
  assumes w: "wired n srv link names rn"
    and look: "\<And>j. j \<in> set js \<Longrightarrow> look j \<noteq> None"
    and hit: "\<And>j e. j \<in> set js \<Longrightarrow> look j = Some (Some e) \<Longrightarrow> \<exists>k es i. (k, i) \<in> S \<and> names k = Some es \<and> i < n \<and> e = es ! i"
    and all: "\<And>k es i. (k, i) \<in> S \<Longrightarrow> names k = Some es \<Longrightarrow> i < n \<Longrightarrow> \<exists>j \<in> set js. look j = Some (Some (es ! i))"
  shows "\<exists>rn'. enableLoop b look js rn = Some rn' \<and> wired n srv (\<lambda>k i. if (k, i) \<in> S then b else link k i) names rn'
     \<and> nw_servers rn' = nw_servers rn"
proof -
  have h: "hit look js (NStr (es ! i)) \<longleftrightarrow> (k, i) \<in> S" if "names k = Some es" "i < n" for k es i
  proof
    assume "hit look js (NStr (es ! i))"
    then obtain j where "j \<in> set js" "look j = Some (Some (es ! i))" by (auto simp: hit_def)
    with hit obtain k' es' i' where "(k', i') \<in> S" "names k' = Some es'" "i' < n" "es ! i = es' ! i'" by blast
    with wired_inj [OF w that(1)] that(2) show "(k, i) \<in> S" by blast
  qed (use all that in \<open>auto simp: hit_def\<close>)
  have o: "\<exists>k es i. names k = Some es \<and> i < n \<and> x = NStr (es ! i)" if "hit look js x" for x
    using that hit by (fastforce simp: hit_def)
  let ?rn = "rn\<lparr>nw_enabled := \<lambda>x. if hit look js x then b else nw_enabled rn x\<rparr>"
  have on: "(if hit look js x then b else linkOn n link names x) = linkOn n (\<lambda>k i. if (k, i) \<in> S then b else link k i) names x" for x
  proof (cases "\<exists>k es i. names k = Some es \<and> i < n \<and> x = NStr (es ! i)")
    case True
    then obtain k es i where x: "names k = Some es" "i < n" "x = NStr (es ! i)" by blast
    have u: "linkOn n l names x \<longleftrightarrow> l k i" for l
    proof
      assume "linkOn n l names x"
      then obtain k' es' i' where y: "names k' = Some es'" "i' < n" "es ! i = es' ! i'" "l k' i'"
        using x(3) by (auto simp: linkOn_def)
      with wired_inj [OF w x(1) y(1) x(2) y(2,3)] show "l k i" by simp
    qed (use x in \<open>auto simp: linkOn_def\<close>)
    have "hit look js x \<longleftrightarrow> (k, i) \<in> S" using h [OF x(1,2)] x(3) by simp
    then show ?thesis unfolding u by simp
  next
    case False
    then have "\<not> linkOn n l names x" for l by (auto simp: linkOn_def)
    with o False show ?thesis by auto
  qed
  have "wired n srv (\<lambda>k i. if (k, i) \<in> S then b else link k i) names ?rn"
  proof -
    have "nw_enabled ?rn = linkOn n (\<lambda>k i. if (k, i) \<in> S then b else link k i) names"
    proof
      fix x show "nw_enabled ?rn x = linkOn n (\<lambda>k i. if (k, i) \<in> S then b else link k i) names x"
        unfolding on [symmetric] using wired_on [OF w, of x] by simp
    qed
    moreover have "connectedEnds n srv names ?rn" using w by (simp add: wired_def connectedEnds_def)
    ultimately show ?thesis using w unfolding wired_def by blast
  qed
  then show ?thesis using look by (auto simp: enableLoop_eq)
qed

text \<open>A client gets fresh ends; they are connected and disabled, and its old ends are not among the names any
  more.\<close>

lemma fresh_ends:
  assumes c: "connectedEnds n srv names rn" and mk: "makeEnds nm srv [0..<n] rn = Some rn'"
    and o: "names k = Some es" "j < n"
  shows "NStr (es ! j) \<notin> (\<lambda>j. NStr (nm j)) ` set [0..<n]"
proof
  assume "NStr (es ! j) \<in> (\<lambda>j. NStr (nm j)) ` set [0..<n]"
  then obtain i where i: "i < n" "es ! j = nm i" by auto
  moreover have "NStr (es ! j) \<in> nw_ends rn" using c o by (simp add: connectedEnds_def)
  ultimately show False using makeEnds_spec [OF mk distinct_upt] by auto
qed

lemma names_upd_cases:
  "(names(k := Some xs)) l = Some ys \<Longrightarrow> l = k \<and> ys = xs \<or> l \<noteq> k \<and> names l = Some ys"
  by (auto split: if_splits)

lemma ends_makeEnds:
  assumes c: "connectedEnds n srv names rn" and dn: "distinctNames n names" and mk: "makeEnds nm srv [0..<n] rn = Some rn'"
  shows "connectedEnds n srv (names(k := Some (map nm [0..<n]))) rn'" "distinctNames n (names(k := Some (map nm [0..<n])))"
proof -
  note sp = makeEnds_spec [OF mk distinct_upt]
  show "connectedEnds n srv (names(k := Some (map nm [0..<n]))) rn'"
    unfolding connectedEnds_def
  proof (intro allI impI)
    fix l ys assume "(names(k := Some (map nm [0..<n]))) l = Some ys"
    from names_upd_cases [OF this]
    show "length ys = n \<and> (\<forall>j < n. NStr (ys ! j) \<in> nw_ends rn' \<and> nw_connections rn' (NStr (ys ! j)) = Some (srv j))"
    proof
      assume "l \<noteq> k \<and> names l = Some ys"
      then have o: "names l = Some ys" by simp
      with c have "length ys = n \<and> (\<forall>j < n. NStr (ys ! j) \<in> nw_ends rn \<and> nw_connections rn (NStr (ys ! j)) = Some (srv j))"
        by (simp add: connectedEnds_def)
      with sp fresh_ends [OF c mk o] show ?thesis by simp
    qed (use sp in auto)
  qed
  have inj: "i = j" if "nm i = nm j" "i < n" "j < n" for i j using sp that by (auto simp: inj_on_def)
  have old: "es ! j \<noteq> nm i" if "names l = Some es" "j < n" "i < n" for l es j i
    using fresh_ends [OF c mk that(1,2)] that(3) by auto
  show "distinctNames n (names(k := Some (map nm [0..<n])))"
    unfolding distinctNames_def
  proof (intro allI impI)
    fix k1 es k2 es' i j
    assume a: "(names(k := Some (map nm [0..<n]))) k1 = Some es" "(names(k := Some (map nm [0..<n]))) k2 = Some es'"
      "i < n" "j < n" "es ! i = es' ! j"
    have both: "k1 = k2 \<and> i = j" if "names k1 = Some es" "names k2 = Some es'"
      using dn that a(3-5) unfolding distinctNames_def by blast
    show "k1 = k2 \<and> i = j"
      using names_upd_cases [OF a(1)] names_upd_cases [OF a(2)]
    proof (elim disjE conjE)
      assume "k1 = k" "es = map nm [0..<n]" "k2 = k" "es' = map nm [0..<n]"
      then show ?thesis using a(3-5) inj by simp
    next
      assume "k1 = k" "es = map nm [0..<n]" "names k2 = Some es'"
      then show ?thesis using old [of k2 es' j i] a(3-5) by simp
    next
      assume "names k1 = Some es" "k2 = k" "es' = map nm [0..<n]"
      then show ?thesis using old [of k1 es i j] a(3-5) by simp
    qed (rule both)
  qed
qed

lemma wired_makeEnds:
  assumes w: "wired n srv link names rn" and off: "\<And>j. j < n \<Longrightarrow> \<not> link k j"
    and mk: "makeEnds nm srv [0..<n] rn = Some rn'"
  shows "wired n srv link (names(k := Some (map nm [0..<n]))) rn'"
proof -
  note sp = makeEnds_spec [OF mk distinct_upt]
  have c: "connectedEnds n srv names rn" "distinctNames n names" using w by (simp_all add: wired_def)
  have "linkOn n link (names(k := Some (map nm [0..<n]))) x \<longleftrightarrow> linkOn n link names x" for x
    unfolding linkOn_def using off by (intro ex_cong1) auto
  moreover have "x \<notin> (\<lambda>j. NStr (nm j)) ` set [0..<n]" if "linkOn n link names x" for x
  proof -
    obtain k' es j where x: "names k' = Some es" "j < n" "x = NStr (es ! j)" using \<open>linkOn n link names x\<close> unfolding linkOn_def by blast
    show ?thesis unfolding x(3) by (rule fresh_ends [OF c(1) mk x(1,2)])
  qed
  moreover have "nw_enabled rn' x \<longleftrightarrow> x \<notin> (\<lambda>j. NStr (nm j)) ` set [0..<n] \<and> nw_enabled rn x" for x
    using sp by (elim conjE) (erule allE)
  ultimately have "nw_enabled rn' = linkOn n link (names(k := Some (map nm [0..<n])))"
    by (intro ext) (simp only: wired_on [OF w], blast)
  with ends_makeEnds [OF c mk] show ?thesis by (simp add: wired_def)
qed

text \<open>The two kinds of loops: over the ends of one client, and over the ends of many clients to one server.\<close>

lemma wired_out:
  assumes w: "wired n srv link names rn" and run: "enableLoop b look js rn = Some rn'"
    and js: "\<And>j. j \<in> set js \<Longrightarrow> sel j \<Longrightarrow> tg j < n"
    and look: "\<And>j x. j \<in> set js \<Longrightarrow> look j = Some (Some x) \<longleftrightarrow> sel j \<and> (\<exists>es. names k = Some es \<and> x = es ! tg j)"
  shows "wired n srv (\<lambda>k' m. if k' = k \<and> (\<exists>j \<in> set js. sel j \<and> m = tg j) then b else link k' m) names rn'
     \<and> nw_servers rn' = nw_servers rn"
proof -
  let ?S = "{(k, tg j) |j. j \<in> set js \<and> sel j}"
  have "look j \<noteq> None" if "j \<in> set js" for j using run that by (auto simp: enableLoop_eq split: if_splits)
  moreover have "\<exists>k' es m. (k', m) \<in> ?S \<and> names k' = Some es \<and> m < n \<and> x = es ! m"
    if "j \<in> set js" "look j = Some (Some x)" for j x using look [OF that(1), of x] that js by blast
  moreover have "\<exists>j \<in> set js. look j = Some (Some (es ! m))" if "(k', m) \<in> ?S" "names k' = Some es" "m < n" for k' es m
    using that look by blast
  ultimately obtain rn2 where r: "enableLoop b look js rn = Some rn2"
    "wired n srv (\<lambda>k' m. if (k', m) \<in> ?S then b else link k' m) names rn2" "nw_servers rn2 = nw_servers rn"
    using wired_enableLoop [OF w, of js look ?S b] by blast
  moreover have "(k', m) \<in> ?S \<longleftrightarrow> k' = k \<and> (\<exists>j \<in> set js. sel j \<and> m = tg j)" for k' m by blast
  ultimately show ?thesis using run by simp
qed

lemma wired_in:
  assumes w: "wired n srv link names rn" and run: "enableLoop b look js rn = Some rn'" and i: "i < n"
    and look: "\<And>j x. j \<in> set js \<Longrightarrow> look j = Some (Some x) \<longleftrightarrow> sel j \<and> (\<exists>es. names (cl j) = Some es \<and> x = es ! i)"
  shows "wired n srv (\<lambda>k' m. if m = i \<and> (\<exists>j \<in> set js. sel j \<and> k' = cl j) then b else link k' m) names rn'
     \<and> nw_servers rn' = nw_servers rn"
proof -
  let ?S = "{(cl j, i) |j. j \<in> set js \<and> sel j}"
  have "look j \<noteq> None" if "j \<in> set js" for j using run that by (auto simp: enableLoop_eq split: if_splits)
  moreover have "\<exists>k' es m. (k', m) \<in> ?S \<and> names k' = Some es \<and> m < n \<and> x = es ! m"
    if "j \<in> set js" "look j = Some (Some x)" for j x using look [OF that(1), of x] that i by blast
  moreover have "\<exists>j \<in> set js. look j = Some (Some (es ! m))" if "(k', m) \<in> ?S" "names k' = Some es" "m < n" for k' es m
    using that look by blast
  ultimately obtain rn2 where r: "enableLoop b look js rn = Some rn2"
    "wired n srv (\<lambda>k' m. if (k', m) \<in> ?S then b else link k' m) names rn2" "nw_servers rn2 = nw_servers rn"
    using wired_enableLoop [OF w, of js look ?S b] by blast
  moreover have "(k', m) \<in> ?S \<longleftrightarrow> m = i \<and> (\<exists>j \<in> set js. sel j \<and> k' = cl j)" for k' m by blast
  ultimately show ?thesis using run by simp
qed

end
