(* ===== verification/Raft_Harness.thy ===== *)
theory Raft_Harness
  imports Raft_Cluster Harness_Net
begin

text \<open>
  The test harness of Raft, \<^verbatim>\<open>src/src/raft/config.go\<close>: it starts, crashes, connects and disconnects
  peers, reads their apply channels and checks what they agree on.

  Commands are ints.  Random end names are an argument; \<open>MakeEnd\<close> refuses a name that is in use.  The
  persister that \<open>saved[i]\<close> points to is the one the running peer writes to, so its content is read from the
  peer while there is one (\<open>savedNow\<close>).  A peer's apply channel is the list of the messages it has sent;
  \<open>hc_read\<close> counts those its reader goroutine has taken.  \<open>None\<close> is a panic, \<^verbatim>\<open>log.Fatalf\<close> or a
  wait for ever; \<open>t.Fatalf\<close> is a value of \<open>fatal\<close>.  What happens while the harness sleeps is an argument.
\<close>

section \<open>The configuration\<close>

record 's config =
  hc_net :: "goname network"
  hc_n :: nat
  hc_rafts :: "(int, 's) raft option list"
  hc_applyErr :: "string list"
  hc_connected :: "bool list"
  hc_saved :: "((int, 's) rval, 's) persister option list"
  hc_endnames :: "string list option list"
  hc_logs :: "(int \<rightharpoonup> int) list"
  hc_rpcs0 :: int
  hc_cmds0 :: int
  hc_maxIndex :: int
  hc_maxIndex0 :: int
  hc_read :: "nat list"
  hc_next :: nat

text \<open>\<open>cfg.endnames[i][j]\<close>; an index into a nil slice panics.\<close>

definition endname :: "'s config \<Rightarrow> nat \<Rightarrow> nat \<Rightarrow> string option" where
  "endname cfg i j = do {
     es \<leftarrow> go_idx (hc_endnames cfg) (int i);
     es \<leftarrow> es;
     go_idx es (int j) }"

definition endsNil :: "'s config \<Rightarrow> nat \<Rightarrow> bool option" where
  "endsNil cfg i = map_option (\<lambda>es. es = None) (go_idx (hc_endnames cfg) (int i))"

definition h_connect :: "nat \<Rightarrow> 's config \<Rightarrow> 's config option" where
  "h_connect i cfg = do {
     cs \<leftarrow> go_set (hc_connected cfg) (int i) True;
     let cfg = cfg\<lparr>hc_connected := cs\<rparr>;
     net \<leftarrow> enableLoop True (\<lambda>j. do {
         c \<leftarrow> go_idx cs (int j);
         if c then map_option Some (endname cfg i j) else Some None }) [0..<hc_n cfg] (hc_net cfg);
     net \<leftarrow> enableLoop True (\<lambda>j. do {
         c \<leftarrow> go_idx cs (int j);
         if c then map_option Some (endname cfg j i) else Some None }) [0..<hc_n cfg] net;
     Some (cfg\<lparr>hc_net := net\<rparr>) }"

definition h_disconnect :: "nat \<Rightarrow> 's config \<Rightarrow> 's config option" where
  "h_disconnect i cfg = do {
     cs \<leftarrow> go_set (hc_connected cfg) (int i) False;
     let cfg = cfg\<lparr>hc_connected := cs\<rparr>;
     net \<leftarrow> enableLoop False (\<lambda>j. do {
         isnil \<leftarrow> endsNil cfg i;
         if \<not> isnil then map_option Some (endname cfg i j) else Some None }) [0..<hc_n cfg] (hc_net cfg);
     net \<leftarrow> enableLoop False (\<lambda>j. do {
         isnil \<leftarrow> endsNil cfg j;
         if \<not> isnil then map_option Some (endname cfg j i) else Some None }) [0..<hc_n cfg] net;
     Some (cfg\<lparr>hc_net := net\<rparr>) }"

section \<open>Crash and restart\<close>

definition savedNow :: "'s config \<Rightarrow> nat \<Rightarrow> ((int, 's) rval, 's) persister option" where
  "savedNow cfg i = (case hc_rafts cfg ! i of Some rf \<Rightarrow> Some (persister rf) | None \<Rightarrow> hc_saved cfg ! i)"

definition crash1 :: "nat \<Rightarrow> 's config \<Rightarrow> 's config option" where
  "crash1 i cfg = do {
     cfg \<leftarrow> h_disconnect i cfg;
     let cfg = cfg\<lparr>hc_net := DeleteServer (NInt i) (hc_net cfg)\<rparr>;
     let ps = map_option Copy (savedNow cfg i);
     killed \<leftarrow> (case hc_rafts cfg ! i of None \<Rightarrow> Some () | Some rf \<Rightarrow> map_option (\<lambda>_. ()) (Kill rf));
     let ps = map_option (\<lambda>p. SaveRaftState \<lparr>raftstate = [], snapshot = []\<rparr> (ReadRaftState p)) ps;
     Some (cfg\<lparr>hc_rafts := (hc_rafts cfg)[i := None], hc_saved := (hc_saved cfg)[i := ps]\<rparr>) }"

definition start1 :: "(nat \<Rightarrow> string) \<Rightarrow> nat \<Rightarrow> 's config \<Rightarrow> 's config option" where
  "start1 randstring i cfg = do {
     cfg \<leftarrow> crash1 i cfg;
     let cfg = cfg\<lparr>hc_endnames := (hc_endnames cfg)[i := Some (map randstring [0..<hc_n cfg])]\<rparr>;
     net \<leftarrow> makeEnds randstring NInt [0..<hc_n cfg] (hc_net cfg);
     let ps = (case hc_saved cfg ! i of Some p \<Rightarrow> Copy p | None \<Rightarrow> MakePersister);
     rf \<leftarrow> Make (hc_n cfg) i ps;
     Some (cfg\<lparr>hc_net := AddServer (NInt i) (hc_next cfg) net, hc_saved := (hc_saved cfg)[i := Some ps],
               hc_rafts := (hc_rafts cfg)[i := Some rf], hc_read := (hc_read cfg)[i := 0],
               hc_next := hc_next cfg + 1\<rparr>) }"

primrec forall_servers :: "(nat \<Rightarrow> 's config \<Rightarrow> 's config option) \<Rightarrow> nat list \<Rightarrow> 's config \<Rightarrow> 's config option" where
  "forall_servers f [] cfg = Some cfg"
| "forall_servers f (i # is) cfg = Option.bind (f i cfg) (forall_servers f is)"

definition setunreliable :: "bool \<Rightarrow> 's config \<Rightarrow> 's config" where
  "setunreliable unrel cfg = cfg\<lparr>hc_net := Reliable (\<not> unrel) (hc_net cfg)\<rparr>"

definition setlongreordering :: "bool \<Rightarrow> 's config \<Rightarrow> 's config" where
  "setlongreordering longrel cfg = cfg\<lparr>hc_net := LongReordering longrel (hc_net cfg)\<rparr>"

definition emptyConfig :: "nat \<Rightarrow> 's config" where
  "emptyConfig n = \<lparr>hc_net = MakeNetwork, hc_n = n, hc_rafts = replicate n None, hc_applyErr = replicate n [],
     hc_connected = replicate n False, hc_saved = replicate n None, hc_endnames = replicate n None,
     hc_logs = replicate n Map.empty, hc_rpcs0 = 0, hc_cmds0 = 0, hc_maxIndex = 0, hc_maxIndex0 = 0,
     hc_read = replicate n 0, hc_next = 0\<rparr>"

definition make_config :: "(nat \<Rightarrow> nat \<Rightarrow> string) \<Rightarrow> nat \<Rightarrow> bool \<Rightarrow> 's config option" where
  "make_config randstring n unreliable = do {
     let cfg = setunreliable unreliable (emptyConfig n);
     let cfg = cfg\<lparr>hc_net := LongDelays True (hc_net cfg)\<rparr>;
     cfg \<leftarrow> forall_servers (\<lambda>i. start1 (randstring i) i) [0..<n] cfg;
     forall_servers h_connect [0..<n] cfg }"

primrec killAll :: "(int, 's) raft option list \<Rightarrow> (int, 's) raft option list option" where
  "killAll [] = Some []"
| "killAll (r # rs) = do {
     r' \<leftarrow> (case r of None \<Rightarrow> Some None | Some rf \<Rightarrow> map_option Some (Kill rf));
     rs' \<leftarrow> killAll rs;
     Some (r' # rs') }"

definition h_cleanup :: "'s config \<Rightarrow> 's config option" where
  "h_cleanup cfg = do {
     rs \<leftarrow> killAll (hc_rafts cfg);
     net \<leftarrow> Cleanup (hc_net cfg);
     Some (cfg\<lparr>hc_rafts := rs, hc_net := net\<rparr>) }"

section \<open>The readers of the apply channels\<close>

fun asInt :: "(int, 's) iface \<Rightarrow> int option" where
  "asInt (IInt v) = Some v"
| "asInt (IOp v) = Some v"
| "asInt INil = None"
| "asInt (IBytes _) = None"

text \<open>
  One message: any error ends the program.  (Go stores the differing value before \<open>log.Fatalf\<close>; as the process
  ends there, the failure is one step.)
\<close>

definition applyMsg :: "nat \<Rightarrow> (int, 's) applymsg \<Rightarrow> 's config \<Rightarrow> 's config option" where
  "applyMsg i m cfg =
     (if CommandValid m = False then Some cfg
      else case asInt (am_Command m) of
        None \<Rightarrow> None
      | Some v \<Rightarrow>
          let differs = list_ex (\<lambda>l. case l (CommandIndex m) of Some old \<Rightarrow> old \<noteq> v | None \<Rightarrow> False) (hc_logs cfg);
              prevok = ((hc_logs cfg ! i) (CommandIndex m - 1) \<noteq> None);
              cfg = cfg\<lparr>hc_logs := (hc_logs cfg)[i := (hc_logs cfg ! i)(CommandIndex m \<mapsto> v)],
                        hc_maxIndex := (if CommandIndex m > hc_maxIndex cfg then CommandIndex m else hc_maxIndex cfg)\<rparr>
          in if differs \<or> CommandIndex m > 1 \<and> \<not> prevok then None else Some cfg)"

text \<open>The reader of the current instance; the channels of crashed instances are not read any more.\<close>

definition readApply :: "nat \<Rightarrow> 's config \<Rightarrow> 's config option" where
  "readApply i cfg = (case hc_rafts cfg ! i of
     None \<Rightarrow> None
   | Some rf \<Rightarrow> if hc_read cfg ! i < length (applyCh rf)
       then applyMsg i (applyCh rf ! (hc_read cfg ! i)) (cfg\<lparr>hc_read := (hc_read cfg)[i := hc_read cfg ! i + 1]\<rparr>)
       else None)"

section \<open>The checks\<close>

datatype fatal = SeveralLeaders int nat | NoLeaderFound | TermsDiffer | UnexpectedLeader nat
  | ApplyError string | ValuesDiffer int int int | TooFewDecided nat int nat | NoAgreement int

text \<open>One round of \<open>checkOneLeader\<close>: what the connected servers answer, in order; the map from terms to
  leaders is visited in any order.\<close>

definition leadersOf :: "(nat \<times> int \<times> bool) list \<Rightarrow> (int, nat list) gomap" where
  "leadersOf obs = fold (\<lambda>(i, term, leader) m. if leader then gm_set term (gm_get0 [] m term @ [i]) m else m) obs []"

fun scanTerms :: "(int, nat list) gomap \<Rightarrow> int list \<Rightarrow> int \<Rightarrow> fatal + int" where
  "scanTerms m [] lastTerm = Inr lastTerm"
| "scanTerms m (t # ts) lastTerm =
     (if length (gm_get0 [] m t) > 1 then Inl (SeveralLeaders t (length (gm_get0 [] m t)))
      else scanTerms m ts (if t > lastTerm then t else lastTerm))"

definition leaderRound :: "((int, nat list) gomap \<Rightarrow> int list) \<Rightarrow> (nat \<times> int \<times> bool) list \<Rightarrow> (fatal + nat option) option" where
  "leaderRound order obs = (let m = leadersOf obs in case scanTerms m (order m) (-1) of
     Inl f \<Rightarrow> Some (Inl f)
   | Inr lastTerm \<Rightarrow> if length m \<noteq> 0 then map_option (\<lambda>l. Inr (Some l)) (go_idx (gm_get0 [] m lastTerm) 0)
                    else Some (Inr None))"

text \<open>What the connected servers answer; asking a server that is not running panics.\<close>

definition observe :: "'s config \<Rightarrow> (nat \<times> int \<times> bool) list option" where
  "observe cfg = those (map (\<lambda>i. map_option (\<lambda>rf. (i, GetState rf)) (hc_rafts cfg ! i))
     (filter (\<lambda>i. hc_connected cfg ! i) [0..<hc_n cfg]))"

fun leaderLoop :: "((int, nat list) gomap \<Rightarrow> int list) \<Rightarrow> 's config list \<Rightarrow> (fatal + nat) option" where
  "leaderLoop order [] = Some (Inl NoLeaderFound)"
| "leaderLoop order (cfg # rounds) = (case Option.bind (observe cfg) (leaderRound order) of
     None \<Rightarrow> None
   | Some (Inl f) \<Rightarrow> Some (Inl f)
   | Some (Inr (Some l)) \<Rightarrow> Some (Inr l)
   | Some (Inr None) \<Rightarrow> leaderLoop order rounds)"

text \<open>\<open>cfgs k\<close> is the configuration after the sleep of round \<open>k\<close>.\<close>

definition checkOneLeader :: "((int, nat list) gomap \<Rightarrow> int list) \<Rightarrow> (nat \<Rightarrow> 's config) \<Rightarrow> (fatal + nat) option" where
  "checkOneLeader order cfgs = leaderLoop order (map cfgs [0..<10])"

fun termsLoop :: "(nat \<times> int \<times> bool) list \<Rightarrow> int \<Rightarrow> fatal + int" where
  "termsLoop [] term = Inr term"
| "termsLoop ((_, xterm, _) # obs) term =
     (if term = -1 then termsLoop obs xterm else if term \<noteq> xterm then Inl TermsDiffer else termsLoop obs term)"

definition checkTerms :: "'s config \<Rightarrow> (fatal + int) option" where
  "checkTerms cfg = map_option (\<lambda>obs. termsLoop obs (-1)) (observe cfg)"

definition checkNoLeader :: "'s config \<Rightarrow> (fatal + unit) option" where
  "checkNoLeader cfg = map_option (\<lambda>obs. case filter (\<lambda>(_, _, leader). leader) obs of
     [] \<Rightarrow> Inr () | (i, _, _) # _ \<Rightarrow> Inl (UnexpectedLeader i)) (observe cfg)"

fun committedLoop :: "(string \<times> (int \<rightharpoonup> int)) list \<Rightarrow> int \<Rightarrow> nat \<Rightarrow> int \<Rightarrow> fatal + nat \<times> int" where
  "committedLoop [] index cnt cmd = Inr (cnt, cmd)"
| "committedLoop ((err, l) # r) index cnt cmd =
     (if err \<noteq> [] then Inl (ApplyError err)
      else case l index of
        None \<Rightarrow> committedLoop r index cnt cmd
      | Some cmd1 \<Rightarrow> if cnt > 0 \<and> cmd \<noteq> cmd1 then Inl (ValuesDiffer index cmd cmd1)
                    else committedLoop r index (cnt + 1) cmd1)"

definition nCommitted :: "int \<Rightarrow> 's config \<Rightarrow> fatal + nat \<times> int" where
  "nCommitted index cfg = committedLoop (zip (hc_applyErr cfg) (hc_logs cfg)) index 0 (-1)"

section \<open>Events\<close>

text \<open>What can happen while the harness waits: a peer handles a message, a reply or a timer, a reader takes
  a message, or the test changes the network or restarts servers.  Messages are arbitrary.\<close>

datatype 's revent =
    RAppend "(int, 's) AppendEntriesArgs" | RVote RequestVoteArgs | RInstall "'s InstallSnapshotArgs"
  | RWake wake | RElection election RequestVoteReply
  | RBroadcast broadcast nat "(int, 's) AppendEntriesArgs" AppendEntriesReply
  | RSnapReply nat "'s InstallSnapshotArgs" InstallSnapshotReply | RStart int

fun peerEvent :: "'s revent \<Rightarrow> (int, 's) raft \<Rightarrow> (int, 's) raft option" where
  "peerEvent (RAppend args) rf = map_option fst (AppendEntries rf args)"
| "peerEvent (RVote args) rf = map_option fst (RequestVote rf args)"
| "peerEvent (RInstall args) rf = map_option fst (InstallSnapshot rf args)"
| "peerEvent (RWake w) rf = mainSelect rf (role rf) w"
| "peerEvent (RElection el reply) rf = Some (fst (electionReply rf el reply))"
| "peerEvent (RBroadcast bc server args reply) rf = map_option fst (broadcastReply rf bc server args reply)"
| "peerEvent (RSnapReply server args reply) rf = sendSnapshotReply rf server args reply"
| "peerEvent (RStart c) rf = Some (fst (Start rf c))"

definition onPeer :: "nat \<Rightarrow> 's revent \<Rightarrow> 's config \<Rightarrow> 's config option" where
  "onPeer i e cfg = (if i < hc_n cfg then case hc_rafts cfg ! i of
       None \<Rightarrow> None
     | Some rf \<Rightarrow> map_option (\<lambda>rf'. cfg\<lparr>hc_rafts := (hc_rafts cfg)[i := Some rf']\<rparr>) (peerEvent e rf)
   else None)"

datatype 's hevent = HConnect nat | HDisconnect nat | HCrash nat | HStart nat "nat \<Rightarrow> string"
  | HUnreliable bool | HReorder bool | HPeer nat "'s revent" | HRead nat

fun hstep :: "'s config \<Rightarrow> 's hevent \<Rightarrow> 's config option" where
  "hstep cfg (HConnect i) = h_connect i cfg"
| "hstep cfg (HDisconnect i) = h_disconnect i cfg"
| "hstep cfg (HCrash i) = crash1 i cfg"
| "hstep cfg (HStart i nm) = start1 nm i cfg"
| "hstep cfg (HUnreliable b) = Some (setunreliable b cfg)"
| "hstep cfg (HReorder b) = Some (setlongreordering b cfg)"
| "hstep cfg (HPeer i e) = onPeer i e cfg"
| "hstep cfg (HRead i) = (if i < hc_n cfg then readApply i cfg else None)"

abbreviation hrun :: "'s config \<Rightarrow> 's hevent list \<Rightarrow> 's config option" where
  "hrun \<equiv> run_steps hstep"

section \<open>Waiting for agreement\<close>

text \<open>Has a server moved to a later term?  A server that is not running is a nil pointer.\<close>

fun movedOn :: "int \<Rightarrow> (int, 's) raft option list \<Rightarrow> bool option" where
  "movedOn startTerm [] = Some False"
| "movedOn startTerm (None # rs) = None"
| "movedOn startTerm (Some rf # rs) = (if fst (GetState rf) > startTerm then Some True else movedOn startTerm rs)"

definition waitEnd :: "int \<Rightarrow> nat \<Rightarrow> 's config \<Rightarrow> (fatal + int) option" where
  "waitEnd index n cfg = (case nCommitted index cfg of
     Inl f \<Rightarrow> Some (Inl f)
   | Inr (nd, cmd) \<Rightarrow> if nd < n then Some (Inl (TooFewDecided nd index n)) else Some (Inr cmd))"

text \<open>One list of events for each sleep.\<close>

fun waitLoop :: "'s hevent list list \<Rightarrow> int \<Rightarrow> nat \<Rightarrow> int \<Rightarrow> 's config \<Rightarrow> (fatal + int) option" where
  "waitLoop [] index n startTerm cfg = waitEnd index n cfg"
| "waitLoop (es # ess) index n startTerm cfg = (case nCommitted index cfg of
     Inl f \<Rightarrow> Some (Inl f)
   | Inr (nd, _) \<Rightarrow>
       if nd \<ge> n then waitEnd index n cfg
       else do {
         cfg \<leftarrow> hrun cfg es;
         moved \<leftarrow> (if startTerm > -1 then movedOn startTerm (hc_rafts cfg) else Some False);
         if moved then Some (Inr (-1)) else waitLoop ess index n startTerm cfg })"

definition h_wait :: "(nat \<Rightarrow> 's hevent list) \<Rightarrow> int \<Rightarrow> nat \<Rightarrow> int \<Rightarrow> 's config \<Rightarrow> (fatal + int) option" where
  "h_wait sleeps index n startTerm cfg = waitLoop (map sleeps [0..<30]) index n startTerm cfg"

text \<open>Offer the command to one server after another, until one says that it is the leader.\<close>

fun trySubmit :: "nat \<Rightarrow> nat \<Rightarrow> int \<Rightarrow> 's config \<Rightarrow> 's config \<times> nat \<times> int" where
  "trySubmit 0 starts cmd cfg = (cfg, starts, -1)"
| "trySubmit (Suc k) starts cmd cfg =
     (let starts = (starts + 1) mod hc_n cfg in
      case (if hc_connected cfg ! starts then hc_rafts cfg ! starts else None) of
        None \<Rightarrow> trySubmit k starts cmd cfg
      | Some rf \<Rightarrow>
          (case Start rf cmd of (rf', index1, _, ok) \<Rightarrow>
             let cfg = cfg\<lparr>hc_rafts := (hc_rafts cfg)[starts := Some rf']\<rparr>
             in if ok then (cfg, starts, index1) else trySubmit k starts cmd cfg))"

fun pollLoop :: "'s hevent list list \<Rightarrow> int \<Rightarrow> int \<Rightarrow> nat \<Rightarrow> 's config \<Rightarrow> (fatal + bool \<times> 's config) option" where
  "pollLoop [] index cmd expected cfg = Some (Inr (False, cfg))"
| "pollLoop (es # ess) index cmd expected cfg = (case nCommitted index cfg of
     Inl f \<Rightarrow> Some (Inl f)
   | Inr (nd, cmd1) \<Rightarrow>
       if nd > 0 \<and> nd \<ge> expected \<and> cmd1 = cmd then Some (Inr (True, cfg))
       else Option.bind (hrun cfg es) (pollLoop ess index cmd expected))"

text \<open>One attempt after another: the events of each poll of at most two seconds, and of the sleep when no
  server was found to be the leader.\<close>

fun oneLoop :: "('s hevent list list \<times> 's hevent list) list \<Rightarrow> int \<Rightarrow> nat \<Rightarrow> bool \<Rightarrow> nat \<Rightarrow> 's config
    \<Rightarrow> (fatal + int \<times> 's config) option" where
  "oneLoop [] cmd expected retry starts cfg = Some (Inl (NoAgreement cmd))"
| "oneLoop ((polls, pause) # as) cmd expected retry starts cfg =
     (case trySubmit (hc_n cfg) starts cmd cfg of (cfg, starts, index) \<Rightarrow>
        if index \<noteq> -1 then
          (case pollLoop polls index cmd expected cfg of
             None \<Rightarrow> None
           | Some (Inl f) \<Rightarrow> Some (Inl f)
           | Some (Inr (True, cfg)) \<Rightarrow> Some (Inr (index, cfg))
           | Some (Inr (False, cfg)) \<Rightarrow>
               if retry = False then Some (Inl (NoAgreement cmd)) else oneLoop as cmd expected retry starts cfg)
        else Option.bind (hrun cfg pause) (oneLoop as cmd expected retry starts))"

definition one_agree :: "('s hevent list list \<times> 's hevent list) list \<Rightarrow> int \<Rightarrow> nat \<Rightarrow> bool \<Rightarrow> 's config
    \<Rightarrow> (fatal + int \<times> 's config) option" where
  "one_agree attempts cmd expected retry cfg = oneLoop attempts cmd expected retry 0 cfg"

section \<open>Statistics\<close>

definition rpcCount :: "nat \<Rightarrow> (nat \<Rightarrow> ('a, 'r, 'w) server) \<Rightarrow> 's config \<Rightarrow> int option" where
  "rpcCount i srvs cfg = GetCount (NInt i) srvs (hc_net cfg)"

definition rpcTotal :: "'s config \<Rightarrow> int" where
  "rpcTotal cfg = GetTotalCount (hc_net cfg)"

definition h_begin :: "'s config \<Rightarrow> 's config" where
  "h_begin cfg = cfg\<lparr>hc_rpcs0 := rpcTotal cfg, hc_cmds0 := 0, hc_maxIndex0 := hc_maxIndex cfg\<rparr>"

text \<open>What \<open>end\<close> prints: the number of servers, of RPCs and of agreements.\<close>

definition h_end :: "'s config \<Rightarrow> nat \<times> int \<times> int" where
  "h_end cfg = (hc_n cfg, rpcTotal cfg - hc_rpcs0 cfg, hc_maxIndex cfg - hc_maxIndex0 cfg)"

end
