(* ===== verification/Harness_Safety.thy ===== *)
theory Harness_Safety
  imports Raft_Harness
begin

text \<open>
  What the Raft harness guarantees, in every sequence of events: which servers can reach each other
  (\<open>wires\<close>), that the committed entries its readers have seen agree and have no gaps (\<open>logsOK\<close>), what the
  checks return, and what a restarted peer recovers.
\<close>

section \<open>Wiring\<close>

definition namesOf :: "'s config \<Rightarrow> nat \<Rightarrow> string list option" where
  "namesOf cfg i = (if i < hc_n cfg then hc_endnames cfg ! i else None)"

lemma namesOf_cong: "hc_n cfg' = hc_n cfg \<Longrightarrow> hc_endnames cfg' = hc_endnames cfg \<Longrightarrow> namesOf cfg' = namesOf cfg"
  by (simp add: namesOf_def fun_eq_iff)

lemma namesOf_simps [simp]:
  "namesOf (cfg\<lparr>hc_connected := cs\<rparr>) = namesOf cfg" "namesOf (cfg\<lparr>hc_net := rn\<rparr>) = namesOf cfg"
  "namesOf (cfg\<lparr>hc_rafts := rs\<rparr>) = namesOf cfg" "namesOf (cfg\<lparr>hc_saved := ss\<rparr>) = namesOf cfg"
  "namesOf (cfg\<lparr>hc_read := rd\<rparr>) = namesOf cfg" "namesOf (cfg\<lparr>hc_next := k\<rparr>) = namesOf cfg"
  by (rule namesOf_cong; simp)+

definition shape :: "'s config \<Rightarrow> bool" where
  "shape cfg \<longleftrightarrow> length (hc_rafts cfg) = hc_n cfg \<and> length (hc_connected cfg) = hc_n cfg \<and> length (hc_saved cfg) = hc_n cfg
     \<and> length (hc_endnames cfg) = hc_n cfg \<and> length (hc_logs cfg) = hc_n cfg \<and> length (hc_read cfg) = hc_n cfg
     \<and> length (hc_applyErr cfg) = hc_n cfg"

definition wires :: "'s config \<Rightarrow> bool" where
  "wires cfg \<longleftrightarrow> shape cfg
     \<and> wired (hc_n cfg) NInt (\<lambda>i j. hc_connected cfg ! i \<and> hc_connected cfg ! j) (namesOf cfg) (hc_net cfg)
     \<and> (\<forall>i < hc_n cfg. hc_connected cfg ! i \<longrightarrow> hc_endnames cfg ! i \<noteq> None)
     \<and> (\<forall>i < hc_n cfg. nw_servers (hc_net cfg) (NInt i) = None \<longleftrightarrow> hc_rafts cfg ! i = None)"

lemma endname_eq:
  assumes "shape cfg" "wired (hc_n cfg) NInt link (namesOf cfg) rn" "i < hc_n cfg" "j < hc_n cfg"
  shows "endname cfg i j = map_option (\<lambda>es. es ! j) (namesOf cfg i)"
proof (cases "namesOf cfg i")
  case None
  with assms show ?thesis by (simp add: endname_def namesOf_def shape_def go_idx_def)
next
  case (Some es)
  with wiredD(1) [OF assms(2) Some] assms show ?thesis by (simp add: endname_def namesOf_def shape_def go_idx_def)
qed

text \<open>The links between the servers that are connected according to \<open>cs\<close>.\<close>

abbreviation pairs :: "bool list \<Rightarrow> nat \<Rightarrow> nat \<Rightarrow> bool" where
  "pairs cs i j \<equiv> cs ! i \<and> cs ! j"

lemma connect_wired:
  assumes w: "wires cfg" and run: "h_connect i cfg = Some cfg'"
  shows "\<exists>net. cfg' = cfg\<lparr>hc_connected := (hc_connected cfg)[i := True], hc_net := net\<rparr> \<and> i < hc_n cfg
     \<and> hc_endnames cfg ! i \<noteq> None \<and> nw_servers net = nw_servers (hc_net cfg)
     \<and> wired (hc_n cfg) NInt (pairs ((hc_connected cfg)[i := True])) (namesOf cfg) net"
proof -
  let ?n = "hc_n cfg" and ?cs = "(hc_connected cfg)[i := True]"
  let ?c = "cfg\<lparr>hc_connected := ?cs\<rparr>"
  have sh: "shape cfg" and wd: "wired ?n NInt (pairs (hc_connected cfg)) (namesOf cfg) (hc_net cfg)"
    using w by (auto simp: wires_def namesOf_def)
  have i: "i < ?n" using run sh by (auto simp: h_connect_def go_set_def shape_def split: if_splits)
  have nm: "namesOf ?c = namesOf cfg" "shape ?c" using sh by (simp_all add: namesOf_def shape_def fun_eq_iff)
  have cj: "go_idx ?cs (int j) = Some (?cs ! j)" if "j < ?n" for j using that sh by (simp add: go_idx_def shape_def)
  define look1 where "look1 = (\<lambda>j. do { c \<leftarrow> go_idx ?cs (int j); if c then map_option Some (endname ?c i j) else Some None })"
  define look2 where "look2 = (\<lambda>j. do { c \<leftarrow> go_idx ?cs (int j); if c then map_option Some (endname ?c j i) else Some None })"
  obtain net1 net where r: "enableLoop True look1 [0..<?n] (hc_net cfg) = Some net1"
    "enableLoop True look2 [0..<?n] net1 = Some net" "cfg' = cfg\<lparr>hc_connected := ?cs, hc_net := net\<rparr>"
    using run i sh unfolding h_connect_def look1_def look2_def
    by (auto simp: go_set_def shape_def Let_def split: Option.bind_split_asm)
  have e: "endname ?c k j = map_option (\<lambda>es. es ! j) (namesOf cfg k)" if "k < ?n" "j < ?n" for k j
    using endname_eq [of ?c _ "hc_net cfg" k j] nm wd that by simp
  have l1: "look1 j = Some (Some x) \<longleftrightarrow> ?cs ! j \<and> (\<exists>es. namesOf cfg i = Some es \<and> x = es ! j)" if "j \<in> set [0..<?n]" for j x
    using that i by (auto simp: look1_def cj e)
  have l2: "look2 j = Some (Some x) \<longleftrightarrow> ?cs ! j \<and> (\<exists>es. namesOf cfg j = Some es \<and> x = es ! i)" if "j \<in> set [0..<?n]" for j x
    using that i by (auto simp: look2_def cj e)
  have "look1 i \<noteq> None" using r(1) i by (auto simp: enableLoop_eq split: if_splits)
  then have named: "namesOf cfg i \<noteq> None" using i sh by (auto simp: look1_def cj e shape_def)
  have js: "j < ?n" if "j \<in> set [0..<?n]" for j using that by simp
  note w1 = wired_out [where tg = "\<lambda>j. j", OF wd r(1) js l1]
  note w2 = wired_in [where cl = "\<lambda>j. j", OF w1 [THEN conjunct1] r(2) i l2]
  have "wired ?n NInt (pairs ?cs) (namesOf cfg) net"
  proof (rule wired_link [OF w2 [THEN conjunct1]])
    fix k j assume k: "namesOf cfg k \<noteq> None" "j < ?n"
    then have "k < ?n" by (auto simp: namesOf_def split: if_splits)
    with k(2) i sh show "pairs ?cs k j = (if j = i \<and> (\<exists>m \<in> set [0..<?n]. ?cs ! m \<and> k = m) then True else
        if k = i \<and> (\<exists>m \<in> set [0..<?n]. ?cs ! m \<and> j = m) then True else pairs (hc_connected cfg) k j)"
      by (auto simp: shape_def nth_list_update)
  qed
  with r(3) i named w1 w2 show ?thesis by (auto simp: namesOf_def)
qed

lemma disconnect_wired:
  assumes sh: "shape cfg" and wd: "wired (hc_n cfg) NInt (pairs (hc_connected cfg)) (namesOf cfg) (hc_net cfg)"
    and i: "i < hc_n cfg"
  shows "\<exists>net. h_disconnect i cfg = Some (cfg\<lparr>hc_connected := (hc_connected cfg)[i := False], hc_net := net\<rparr>)
     \<and> nw_servers net = nw_servers (hc_net cfg)
     \<and> wired (hc_n cfg) NInt (pairs ((hc_connected cfg)[i := False])) (namesOf cfg) net"
proof -
  let ?n = "hc_n cfg" and ?cs = "(hc_connected cfg)[i := False]"
  let ?c = "cfg\<lparr>hc_connected := ?cs\<rparr>"
  have nm: "namesOf ?c = namesOf cfg" "shape ?c" using sh by (simp_all add: namesOf_def shape_def fun_eq_iff)
  have e: "endname ?c k j = map_option (\<lambda>es. es ! j) (namesOf cfg k)" if "k < ?n" "j < ?n" for k j
    using endname_eq [of ?c _ "hc_net cfg" k j] nm wd that by simp
  have nil: "endsNil ?c k = Some (namesOf cfg k = None)" if "k < ?n" for k
    using that sh by (simp add: endsNil_def namesOf_def shape_def go_idx_def)
  define look1 where "look1 = (\<lambda>j. do { isnil \<leftarrow> endsNil ?c i; if \<not> isnil then map_option Some (endname ?c i j) else Some None })"
  define look2 where "look2 = (\<lambda>j. do { isnil \<leftarrow> endsNil ?c j; if \<not> isnil then map_option Some (endname ?c j i) else Some None })"
  have l1: "look1 j = Some (map_option (\<lambda>es. es ! j) (namesOf cfg i))" if "j \<in> set [0..<?n]" for j
    using that i by (cases "namesOf cfg i") (auto simp: look1_def nil e)
  have l2: "look2 j = Some (map_option (\<lambda>es. es ! i) (namesOf cfg j))" if "j \<in> set [0..<?n]" for j
    using that i by (cases "namesOf cfg j") (auto simp: look2_def nil e)
  obtain net1 where r1: "enableLoop False look1 [0..<?n] (hc_net cfg) = Some net1" using l1 by (auto simp: enableLoop_eq)
  obtain net where r2: "enableLoop False look2 [0..<?n] net1 = Some net" using l2 by (auto simp: enableLoop_eq)
  have run: "h_disconnect i cfg = Some (cfg\<lparr>hc_connected := ?cs, hc_net := net\<rparr>)"
    using r1 r2 i sh unfolding h_disconnect_def look1_def look2_def by (simp add: go_set_def shape_def Let_def)
  have js: "j < ?n" if "j \<in> set [0..<?n]" for j using that by simp
  have h1: "look1 j = Some (Some x) \<longleftrightarrow> True \<and> (\<exists>es. namesOf cfg i = Some es \<and> x = es ! j)" if "j \<in> set [0..<?n]" for j x
    using l1 [OF that] by auto
  have h2: "look2 j = Some (Some x) \<longleftrightarrow> True \<and> (\<exists>es. namesOf cfg j = Some es \<and> x = es ! i)" if "j \<in> set [0..<?n]" for j x
    using l2 [OF that] by auto
  note w1 = wired_out [where tg = "\<lambda>j. j" and sel = "\<lambda>_. True", OF wd r1 js h1]
  note w2 = wired_in [where cl = "\<lambda>j. j" and sel = "\<lambda>_. True", OF w1 [THEN conjunct1] r2 i h2]
  have "wired ?n NInt (pairs ?cs) (namesOf cfg) net"
  proof (rule wired_link [OF w2 [THEN conjunct1]])
    fix k j assume k: "namesOf cfg k \<noteq> None" "j < ?n"
    then have "k < ?n" by (auto simp: namesOf_def split: if_splits)
    with k(2) i sh show "pairs ?cs k j = (if j = i \<and> (\<exists>m \<in> set [0..<?n]. True \<and> k = m) then False else
        if k = i \<and> (\<exists>m \<in> set [0..<?n]. True \<and> j = m) then False else pairs (hc_connected cfg) k j)"
      by (auto simp: shape_def nth_list_update)
  qed
  with run w1 w2 show ?thesis by auto
qed

text \<open>What a crash leaves on disk: the Raft state, without the snapshot.\<close>

definition keptState :: "(('c, 's) rval, 's) persister \<Rightarrow> (('c, 's) rval, 's) persister" where
  "keptState p = \<lparr>raftstate = raftstate p, snapshot = []\<rparr>"

lemma crash1_wired:
  assumes w: "wires cfg" and run: "crash1 i cfg = Some cfg'"
  shows "\<exists>net. cfg' = cfg\<lparr>hc_connected := (hc_connected cfg)[i := False], hc_net := net,
       hc_rafts := (hc_rafts cfg)[i := None], hc_saved := (hc_saved cfg)[i := map_option keptState (savedNow cfg i)]\<rparr>
     \<and> i < hc_n cfg \<and> nw_servers net = (nw_servers (hc_net cfg))(NInt i := None)
     \<and> wired (hc_n cfg) NInt (pairs ((hc_connected cfg)[i := False])) (namesOf cfg) net"
proof -
  have sh: "shape cfg" and wd: "wired (hc_n cfg) NInt (pairs (hc_connected cfg)) (namesOf cfg) (hc_net cfg)"
    using w by (auto simp: wires_def)
  have i: "i < hc_n cfg" using run sh by (auto simp: crash1_def h_disconnect_def go_set_def shape_def split: if_splits)
  obtain net where d: "h_disconnect i cfg = Some (cfg\<lparr>hc_connected := (hc_connected cfg)[i := False], hc_net := net\<rparr>)"
    "nw_servers net = nw_servers (hc_net cfg)"
    "wired (hc_n cfg) NInt (pairs ((hc_connected cfg)[i := False])) (namesOf cfg) net"
    using disconnect_wired [OF sh wd i] by blast
  have k: "map_option (\<lambda>p. SaveRaftState \<lparr>raftstate = [], snapshot = []\<rparr> (ReadRaftState p)) (map_option Copy x) = map_option keptState x" for x
    by (cases x) (simp_all add: Copy_same keptState_def persister_defs)
  have "savedNow (cfg\<lparr>hc_connected := cs, hc_net := rn\<rparr>) i = savedNow cfg i" for cs rn by (simp add: savedNow_def split: option.split)
  then have "cfg' = cfg\<lparr>hc_connected := (hc_connected cfg)[i := False], hc_net := DeleteServer (NInt i) net,
       hc_rafts := (hc_rafts cfg)[i := None], hc_saved := (hc_saved cfg)[i := map_option keptState (savedNow cfg i)]\<rparr>"
    using run by (auto simp: crash1_def d(1) k Let_def split: Option.bind_split_asm)
  with i d show ?thesis by (intro exI [of _ "DeleteServer (NInt i) net"]) (simp add: DeleteServer_def cong: wired_cong)
qed

lemma start1_wired:
  assumes w: "wires cfg" and run: "start1 nm i cfg = Some cfg'"
  shows "\<exists>net rf. cfg' = cfg\<lparr>hc_connected := (hc_connected cfg)[i := False], hc_net := net,
       hc_endnames := (hc_endnames cfg)[i := Some (map nm [0..<hc_n cfg])],
       hc_rafts := (hc_rafts cfg)[i := Some rf],
       hc_saved := (hc_saved cfg)[i := Some (case savedNow cfg i of None \<Rightarrow> MakePersister | Some p \<Rightarrow> keptState p)],
       hc_read := (hc_read cfg)[i := 0], hc_next := hc_next cfg + 1\<rparr>
     \<and> i < hc_n cfg \<and> nw_servers net = (nw_servers (hc_net cfg))(NInt i := Some (hc_next cfg))
     \<and> Make (hc_n cfg) i (case savedNow cfg i of None \<Rightarrow> MakePersister | Some p \<Rightarrow> keptState p) = Some rf
     \<and> wired (hc_n cfg) NInt (pairs ((hc_connected cfg)[i := False])) ((namesOf cfg)(i := Some (map nm [0..<hc_n cfg]))) net"
proof -
  obtain cfg1 where c: "crash1 i cfg = Some cfg1" using run by (auto simp: start1_def split: Option.bind_split_asm)
  obtain net1 where s: "cfg1 = cfg\<lparr>hc_connected := (hc_connected cfg)[i := False], hc_net := net1,
       hc_rafts := (hc_rafts cfg)[i := None], hc_saved := (hc_saved cfg)[i := map_option keptState (savedNow cfg i)]\<rparr>"
    "i < hc_n cfg" "nw_servers net1 = (nw_servers (hc_net cfg))(NInt i := None)"
    "wired (hc_n cfg) NInt (pairs ((hc_connected cfg)[i := False])) (namesOf cfg) net1"
    using crash1_wired [OF w c] by blast
  have sh: "shape cfg" using w by (simp add: wires_def)
  let ?ps = "case savedNow cfg i of None \<Rightarrow> MakePersister | Some p \<Rightarrow> keptState p"
  have ps: "(case hc_saved cfg1 ! i of Some p \<Rightarrow> Copy p | None \<Rightarrow> MakePersister) = ?ps"
    using s(1,2) sh by (cases "savedNow cfg i") (simp_all add: shape_def Copy_same)
  obtain net2 rf where r: "makeEnds nm NInt [0..<hc_n cfg] net1 = Some net2" "Make (hc_n cfg) i ?ps = Some rf"
    "cfg' = cfg1\<lparr>hc_endnames := (hc_endnames cfg1)[i := Some (map nm [0..<hc_n cfg])], hc_net := AddServer (NInt i) (hc_next cfg) net2,
       hc_saved := (hc_saved cfg1)[i := Some ?ps], hc_rafts := (hc_rafts cfg1)[i := Some rf], hc_read := (hc_read cfg1)[i := 0],
       hc_next := hc_next cfg1 + 1\<rparr>"
    using run c s(1) ps unfolding start1_def by (auto simp: Let_def split: Option.bind_split_asm)
  have off: "\<not> pairs ((hc_connected cfg)[i := False]) i j" for j using s(2) sh by (simp add: shape_def)
  have "wired (hc_n cfg) NInt (pairs ((hc_connected cfg)[i := False])) ((namesOf cfg)(i := Some (map nm [0..<hc_n cfg]))) net2"
    by (rule wired_makeEnds [OF s(4) off r(1)])
  moreover have "nw_servers net2 = nw_servers net1" using makeEnds_spec [OF r(1) distinct_upt] by simp
  ultimately show ?thesis using s(1-3) r(2,3)
    by (intro exI [of _ "AddServer (NInt i) (hc_next cfg) net2"] exI [of _ rf]) (simp add: AddServer_def cong: wired_cong)
qed

lemma wiresI:
  assumes "shape cfg" "wired (hc_n cfg) NInt (pairs (hc_connected cfg)) (namesOf cfg) (hc_net cfg)"
    "\<And>i. i < hc_n cfg \<Longrightarrow> hc_connected cfg ! i \<Longrightarrow> hc_endnames cfg ! i \<noteq> None"
    "\<And>i. i < hc_n cfg \<Longrightarrow> nw_servers (hc_net cfg) (NInt i) = None \<longleftrightarrow> hc_rafts cfg ! i = None"
  shows "wires cfg"
  using assms unfolding wires_def by blast

lemma wiresD:
  assumes "wires cfg"
  shows "shape cfg" "wired (hc_n cfg) NInt (pairs (hc_connected cfg)) (namesOf cfg) (hc_net cfg)"
    "i < hc_n cfg \<Longrightarrow> hc_connected cfg ! i \<Longrightarrow> hc_endnames cfg ! i \<noteq> None"
    "i < hc_n cfg \<Longrightarrow> nw_servers (hc_net cfg) (NInt i) = None \<longleftrightarrow> hc_rafts cfg ! i = None"
  using assms unfolding wires_def by blast+

lemma wires_connect:
  assumes w: "wires cfg" and run: "h_connect i cfg = Some cfg'"
  shows "wires cfg'"
proof -
  obtain net where s: "cfg' = cfg\<lparr>hc_connected := (hc_connected cfg)[i := True], hc_net := net\<rparr>" "i < hc_n cfg"
    "hc_endnames cfg ! i \<noteq> None" "nw_servers net = nw_servers (hc_net cfg)"
    "wired (hc_n cfg) NInt (pairs ((hc_connected cfg)[i := True])) (namesOf cfg) net"
    using connect_wired [OF w run] by blast
  show ?thesis
  proof (rule wiresI)
    show "shape cfg'" using wiresD(1) [OF w] by (simp add: s(1) shape_def)
    show "hc_endnames cfg' ! k \<noteq> None" if "k < hc_n cfg'" "hc_connected cfg' ! k" for k
      using that s(3) wiresD(1) [OF w] wiresD(3) [OF w, of k] by (cases "k = i") (auto simp: s(1) shape_def)
  qed (use s(4,5) wiresD(4) [OF w] in \<open>simp_all add: s(1)\<close>)
qed

lemma wires_disconnect:
  assumes w: "wires cfg" and run: "h_disconnect i cfg = Some cfg'"
  shows "wires cfg'"
proof -
  note sh = wiresD(1) [OF w]
  have i: "i < hc_n cfg" using sh run by (auto simp: h_disconnect_def go_set_def shape_def split: if_splits)
  obtain net where s: "cfg' = cfg\<lparr>hc_connected := (hc_connected cfg)[i := False], hc_net := net\<rparr>"
    "nw_servers net = nw_servers (hc_net cfg)"
    "wired (hc_n cfg) NInt (pairs ((hc_connected cfg)[i := False])) (namesOf cfg) net"
    using disconnect_wired [OF sh wiresD(2) [OF w] i] run by auto
  show ?thesis
  proof (rule wiresI)
    show "shape cfg'" using sh by (simp add: s(1) shape_def)
    show "hc_endnames cfg' ! k \<noteq> None" if "k < hc_n cfg'" "hc_connected cfg' ! k" for k
      using that sh i wiresD(3) [OF w, of k] by (cases "k = i") (auto simp: s(1) shape_def)
  qed (use s(2,3) wiresD(4) [OF w] in \<open>simp_all add: s(1)\<close>)
qed

lemma wires_crash1:
  assumes w: "wires cfg" and run: "crash1 i cfg = Some cfg'"
  shows "wires cfg'"
proof -
  note sh = wiresD(1) [OF w]
  obtain net ss where s: "cfg' = cfg\<lparr>hc_connected := (hc_connected cfg)[i := False], hc_net := net,
       hc_rafts := (hc_rafts cfg)[i := None], hc_saved := ss\<rparr>" "i < hc_n cfg" "length ss = length (hc_saved cfg)"
    "nw_servers net = (nw_servers (hc_net cfg))(NInt i := None)"
    "wired (hc_n cfg) NInt (pairs ((hc_connected cfg)[i := False])) (namesOf cfg) net"
    using crash1_wired [OF w run] by auto
  show ?thesis
  proof (rule wiresI)
    show "shape cfg'" using sh s(3) by (simp add: s(1) shape_def)
    show "hc_endnames cfg' ! k \<noteq> None" if "k < hc_n cfg'" "hc_connected cfg' ! k" for k
      using that sh s(2) wiresD(3) [OF w, of k] by (cases "k = i") (auto simp: s(1) shape_def)
    show "nw_servers (hc_net cfg') (NInt k) = None \<longleftrightarrow> hc_rafts cfg' ! k = None" if "k < hc_n cfg'" for k
      using that sh s(2,4) wiresD(4) [OF w, of k] by (cases "k = i") (auto simp: s(1) shape_def)
  qed (use s(5) in \<open>simp add: s(1)\<close>)
qed

lemma namesOf_start:
  "shape cfg \<Longrightarrow> i < hc_n cfg \<Longrightarrow> namesOf (cfg\<lparr>hc_endnames := (hc_endnames cfg)[i := es]\<rparr>) = (namesOf cfg)(i := es)"
  by (auto simp: namesOf_def shape_def fun_eq_iff nth_list_update)

lemma wires_start1:
  assumes w: "wires cfg" and run: "start1 nm i cfg = Some cfg'"
  shows "wires cfg'"
proof -
  have sh: "shape cfg" using w by (simp add: wires_def)
  obtain net rf ps where s: "cfg' = cfg\<lparr>hc_connected := (hc_connected cfg)[i := False], hc_net := net,
       hc_endnames := (hc_endnames cfg)[i := Some (map nm [0..<hc_n cfg])], hc_rafts := (hc_rafts cfg)[i := Some rf],
       hc_saved := (hc_saved cfg)[i := ps], hc_read := (hc_read cfg)[i := 0], hc_next := hc_next cfg + 1\<rparr>"
    "i < hc_n cfg" "nw_servers net = (nw_servers (hc_net cfg))(NInt i := Some (hc_next cfg))"
    "wired (hc_n cfg) NInt (pairs ((hc_connected cfg)[i := False])) ((namesOf cfg)(i := Some (map nm [0..<hc_n cfg]))) net"
    using start1_wired [OF w run] by blast
  have names: "namesOf cfg' = (namesOf cfg)(i := Some (map nm [0..<hc_n cfg]))"
    unfolding namesOf_start [OF sh s(2), symmetric] by (rule namesOf_cong) (simp_all add: s(1))
  show ?thesis
  proof (rule wiresI)
    show "shape cfg'" using sh by (simp add: s(1) shape_def)
    show "wired (hc_n cfg') NInt (pairs (hc_connected cfg')) (namesOf cfg') (hc_net cfg')"
      unfolding names using s(4) by (simp add: s(1))
    show "hc_endnames cfg' ! k \<noteq> None" if "k < hc_n cfg'" "hc_connected cfg' ! k" for k
      using that sh s(2) wiresD(3) [OF w, of k] by (cases "k = i") (auto simp: s(1) shape_def)
    show "nw_servers (hc_net cfg') (NInt k) = None \<longleftrightarrow> hc_rafts cfg' ! k = None" if "k < hc_n cfg'" for k
      using that sh s(2,3) wiresD(4) [OF w, of k] by (cases "k = i") (auto simp: s(1) shape_def)
  qed
qed

text \<open>Everything else leaves the network's wiring alone.\<close>

lemma wires_frame:
  assumes "wires cfg" "hc_n cfg' = hc_n cfg" "hc_connected cfg' = hc_connected cfg" "hc_endnames cfg' = hc_endnames cfg"
    "nw_ends (hc_net cfg') = nw_ends (hc_net cfg)" "nw_enabled (hc_net cfg') = nw_enabled (hc_net cfg)"
    "nw_connections (hc_net cfg') = nw_connections (hc_net cfg)" "nw_servers (hc_net cfg') = nw_servers (hc_net cfg)"
    "shape cfg'" "\<And>i. i < hc_n cfg \<Longrightarrow> hc_rafts cfg' ! i = None \<longleftrightarrow> hc_rafts cfg ! i = None"
  shows "wires cfg'"
proof -
  have names: "namesOf cfg' = namesOf cfg" using assms(2,4) by (rule namesOf_cong)
  show ?thesis
  proof (rule wiresI)
    show "wired (hc_n cfg') NInt (pairs (hc_connected cfg')) (namesOf cfg') (hc_net cfg')"
      unfolding names assms(2,3) by (rule iffD2 [OF wired_cong [OF assms(5-7)] wiresD(2) [OF assms(1)]])
  qed (use assms wiresD(3,4) [OF assms(1)] in simp_all)
qed

lemma applyMsg_frame:
  "applyMsg i m cfg = Some cfg' \<Longrightarrow> cfg' = cfg\<lparr>hc_logs := hc_logs cfg', hc_maxIndex := hc_maxIndex cfg'\<rparr>
     \<and> length (hc_logs cfg') = length (hc_logs cfg)"
  by (auto simp: applyMsg_def Let_def split: option.splits if_splits)

lemma readApply_frame:
  assumes "readApply i cfg = Some cfg'"
  shows "\<exists>rd ls mx. cfg' = cfg\<lparr>hc_read := rd, hc_logs := ls, hc_maxIndex := mx\<rparr> \<and> length rd = length (hc_read cfg)
     \<and> length ls = length (hc_logs cfg)"
proof -
  let ?rd = "(hc_read cfg)[i := hc_read cfg ! i + 1]"
  obtain m where "applyMsg i m (cfg\<lparr>hc_read := ?rd\<rparr>) = Some cfg'"
    using assms by (auto simp: readApply_def split: option.splits if_splits)
  from applyMsg_frame [OF this] have "cfg' = cfg\<lparr>hc_read := ?rd, hc_logs := hc_logs cfg', hc_maxIndex := hc_maxIndex cfg'\<rparr>"
    "length (hc_logs cfg') = length (hc_logs cfg)" by simp_all
  then show ?thesis by (intro exI [of _ ?rd] exI [of _ "hc_logs cfg'"] exI [of _ "hc_maxIndex cfg'"]) simp
qed

lemma wires_step: "wires cfg \<Longrightarrow> hstep cfg e = Some cfg' \<Longrightarrow> wires cfg'"
proof (cases e)
  case (HPeer i ev)
  assume w: "wires cfg" and run: "hstep cfg e = Some cfg'"
  with HPeer obtain rf rf' where "i < hc_n cfg" "hc_rafts cfg ! i = Some rf" "cfg' = cfg\<lparr>hc_rafts := (hc_rafts cfg)[i := Some rf']\<rparr>"
    by (auto simp: onPeer_def split: if_splits option.splits)
  with w show ?thesis by (intro wires_frame [OF w]) (auto simp: wires_def shape_def nth_list_update)
next
  case (HRead i)
  assume w: "wires cfg" and run: "hstep cfg e = Some cfg'"
  with HRead obtain rd ls mx where "cfg' = cfg\<lparr>hc_read := rd, hc_logs := ls, hc_maxIndex := mx\<rparr>" "length rd = length (hc_read cfg)"
    "length ls = length (hc_logs cfg)"
    using readApply_frame [of i cfg cfg'] by (auto split: if_splits)
  with w show ?thesis by (intro wires_frame [OF w]) (auto simp: wires_def shape_def)
next
  case (HUnreliable b)
  assume w: "wires cfg" and run: "hstep cfg e = Some cfg'"
  with HUnreliable show ?thesis
    by (intro wires_frame [OF w]) (auto simp: setunreliable_def Reliable_def wires_def shape_def)
next
  case (HReorder b)
  assume w: "wires cfg" and run: "hstep cfg e = Some cfg'"
  with HReorder show ?thesis
    by (intro wires_frame [OF w]) (auto simp: setlongreordering_def LongReordering_def wires_def shape_def)
qed (auto intro: wires_connect wires_disconnect wires_crash1 wires_start1)

lemma wires_run: "wires cfg \<Longrightarrow> hrun cfg es = Some cfg' \<Longrightarrow> wires cfg'"
  by (induction es arbitrary: cfg) (auto intro: wires_step split: Option.bind_split_asm)

lemma servers_inv:
  "(\<And>i cfg cfg'. P cfg \<Longrightarrow> f i cfg = Some cfg' \<Longrightarrow> P cfg') \<Longrightarrow> P cfg \<Longrightarrow> forall_servers f is cfg = Some cfg' \<Longrightarrow> P cfg'"
  by (induction "is" arbitrary: cfg) (auto split: Option.bind_split_asm)

definition firstConfig :: "nat \<Rightarrow> bool \<Rightarrow> 's config" where
  "firstConfig n unreliable = (setunreliable unreliable (emptyConfig n))\<lparr>hc_net := LongDelays True (Reliable (\<not> unreliable) MakeNetwork)\<rparr>"

lemma make_config_eq:
  "make_config rnd n unreliable = Option.bind (forall_servers (\<lambda>i. start1 (rnd i) i) [0..<n] (firstConfig n unreliable))
     (forall_servers h_connect [0..<n])"
  by (simp add: make_config_def firstConfig_def Let_def setunreliable_def emptyConfig_def)

lemma wires_first: "wires (firstConfig n unreliable :: 's config)"
proof (rule wiresI)
  let ?c = "firstConfig n unreliable :: 's config"
  have "namesOf ?c = (\<lambda>_. None)" by (simp add: namesOf_def firstConfig_def setunreliable_def emptyConfig_def fun_eq_iff)
  moreover have "wired n NInt (pairs (replicate n False)) (\<lambda>_. None) MakeNetwork"
    by (rule wired_link [OF wired_empty]) simp
  ultimately show "wired (hc_n ?c) NInt (pairs (hc_connected ?c)) (namesOf ?c) (hc_net ?c)"
    by (simp add: firstConfig_def setunreliable_def emptyConfig_def)
qed (simp_all add: firstConfig_def shape_def setunreliable_def emptyConfig_def MakeNetwork_def Reliable_def LongDelays_def)

lemma wires_make: "make_config rnd n unreliable = Some cfg \<Longrightarrow> wires cfg"
  unfolding make_config_eq
  by (auto split: Option.bind_split_asm intro: servers_inv [of wires, OF wires_connect] servers_inv [of wires, OF wires_start1 wires_first])

definition configReach :: "'s config \<Rightarrow> bool" where
  "configReach cfg \<longleftrightarrow> (\<exists>rnd n unreliable c0 es. make_config rnd n unreliable = Some c0 \<and> hrun c0 es = Some cfg)"

lemma wires_reach: "configReach cfg \<Longrightarrow> wires cfg"
  by (auto simp: configReach_def intro: wires_run wires_make)

section \<open>Who can reach whom\<close>

lemma begin_unreachable: "\<not> nw_enabled rn (rq_endname req) \<Longrightarrow> processBegin rn req d = Unreachable"
  by (auto simp: processBegin_def readEndnameInfo_def Let_def split: option.splits)

text \<open>C33. In every configuration that a test can produce by connecting, disconnecting, crashing and restarting
  servers in any order, between any other events, a call from server \<open>i\<close> to server \<open>j\<close> gets through exactly
  when both are connected and \<open>j\<close> is running, and then it goes to the current instance of \<open>j\<close>; and a
  call through an end that does not belong to a current instance (one left over from before a restart)
  reaches nobody.\<close>

theorem harness_reaches:
  assumes "configReach cfg"
  shows "(\<forall>i j es (req :: (goname, 'b) reqMsg). i < hc_n cfg \<and> j < hc_n cfg \<and> hc_endnames cfg ! i = Some es \<and> rq_endname req = NStr (es ! j) \<longrightarrow>
       (processBegin (hc_net cfg) req False = Unreachable \<longleftrightarrow> \<not> (hc_connected cfg ! i \<and> hc_connected cfg ! j \<and> hc_rafts cfg ! j \<noteq> None))
     \<and> (\<forall>d m s a b. processBegin (hc_net cfg) req d = Sent m s a b \<longrightarrow> m = NInt j \<and> nw_servers (hc_net cfg) (NInt j) = Some s))
   \<and> (\<forall>(req :: (goname, 'b) reqMsg) d. (\<nexists>i j es. i < hc_n cfg \<and> j < hc_n cfg \<and> hc_endnames cfg ! i = Some es \<and> rq_endname req = NStr (es ! j)) \<longrightarrow>
       processBegin (hc_net cfg) req d = Unreachable)"
proof (intro conjI allI impI)
  note w = wires_reach [OF assms]
  fix i j es and req :: "(goname, 'b) reqMsg"
  assume "i < hc_n cfg \<and> j < hc_n cfg \<and> hc_endnames cfg ! i = Some es \<and> rq_endname req = NStr (es ! j)"
  then have a: "j < hc_n cfg" "rq_endname req = NStr (es ! j)" "namesOf cfg i = Some es" by (auto simp: namesOf_def)
  note c = wiredD(2,3) [OF wiresD(2) [OF w] a(3,1)]
  note e = begin_end [of "hc_net cfg" req "NInt j", unfolded a(2), OF c(1)]
  show "processBegin (hc_net cfg) req False = Unreachable \<longleftrightarrow> \<not> (hc_connected cfg ! i \<and> hc_connected cfg ! j \<and> hc_rafts cfg ! j \<noteq> None)"
    using e(1) c(2) wiresD(4) [OF w a(1)] by auto
  fix d m s p q assume "processBegin (hc_net cfg) req d = Sent m s p q"
  then show "m = NInt j" "nw_servers (hc_net cfg) (NInt j) = Some s" using e(2) by blast+
next
  note w = wires_reach [OF assms]
  fix req :: "(goname, 'b) reqMsg" and d
  assume n: "\<nexists>i j es. i < hc_n cfg \<and> j < hc_n cfg \<and> hc_endnames cfg ! i = Some es \<and> rq_endname req = NStr (es ! j)"
  have "\<not> linkOn (hc_n cfg) (pairs (hc_connected cfg)) (namesOf cfg) (rq_endname req)"
  proof
    assume "linkOn (hc_n cfg) (pairs (hc_connected cfg)) (namesOf cfg) (rq_endname req)"
    then obtain k es j where "namesOf cfg k = Some es" "j < hc_n cfg" "rq_endname req = NStr (es ! j)" by (auto simp: linkOn_def)
    moreover from this have "k < hc_n cfg" by (auto simp: namesOf_def split: if_splits)
    ultimately show False using n by (auto simp: namesOf_def)
  qed
  then show "processBegin (hc_net cfg) req d = Unreachable"
    using wired_on [OF wiresD(2) [OF w]] by (intro begin_unreachable) blast
qed

text \<open>Two servers whose ends have short names.\<close>

definition demoNames :: "nat \<Rightarrow> nat \<Rightarrow> string" where
  "demoNames i j = (if i = 0 then if j = 0 then ''a'' else ''b'' else if j = 0 then ''c'' else ''d'')"

definition demoConfig :: "nat config option" where
  "demoConfig = make_config demoNames 2 False"

definition cutConfig :: "nat config option" where
  "cutConfig = Option.bind demoConfig (\<lambda>cfg. hrun cfg [HDisconnect 1])"

lemma cutConfig_run:
  "map_option (\<lambda>cfg. (hc_n cfg, hc_endnames cfg, hc_connected cfg, map (\<lambda>r. r = None) (hc_rafts cfg))) cutConfig
     = Some (2, [Some [''a'', ''b''], Some [''c'', ''d'']], [True, False], [False, False])"
  by code_simp

lemma demo_reach: "Option.bind demoConfig (\<lambda>cfg. hrun cfg es) = Some cfg' \<Longrightarrow> configReach cfg'"
  unfolding demoConfig_def configReach_def
  by (auto split: Option.bind_split_asm intro!: exI [of _ demoNames] exI [of _ 2] exI [of _ False])

theorem harness_reaches_witness:
  "\<exists>cfg. cutConfig = Some cfg \<and> hc_connected cfg = [True, False]
     \<and> processBegin (hc_net cfg) \<lparr>rq_endname = NStr ''b'', rq_svcMeth = [], rq_args = [0 :: nat]\<rparr> False = Unreachable
     \<and> processBegin (hc_net cfg) \<lparr>rq_endname = NStr ''a'', rq_svcMeth = [], rq_args = [0 :: nat]\<rparr> False \<noteq> Unreachable
     \<and> processBegin (hc_net cfg) \<lparr>rq_endname = NStr ''z'', rq_svcMeth = [], rq_args = [0 :: nat]\<rparr> False = Unreachable"
proof -
  obtain cfg where c: "cutConfig = Some cfg" "hc_n cfg = 2" "hc_endnames cfg = [Some [''a'', ''b''], Some [''c'', ''d'']]"
    "hc_connected cfg = [True, False]" "map (\<lambda>r. r = None) (hc_rafts cfg) = [False, False]"
    using cutConfig_run by (cases cutConfig) auto
  have r: "configReach cfg" using demo_reach c(1) unfolding cutConfig_def by blast
  have "hc_rafts cfg ! 0 \<noteq> None" using c(5) by (cases "hc_rafts cfg") auto
  note t = harness_reaches [OF r, where 'b = nat]
  have "processBegin (hc_net cfg) \<lparr>rq_endname = NStr ''b'', rq_svcMeth = [], rq_args = [0 :: nat]\<rparr> False = Unreachable"
    using t [THEN conjunct1, rule_format, of 0 1 "[''a'', ''b'']"] c by simp
  moreover have "processBegin (hc_net cfg) \<lparr>rq_endname = NStr ''a'', rq_svcMeth = [], rq_args = [0 :: nat]\<rparr> False \<noteq> Unreachable"
    using t [THEN conjunct1, rule_format, of 0 0 "[''a'', ''b'']"] c \<open>hc_rafts cfg ! 0 \<noteq> None\<close> by simp
  moreover have "processBegin (hc_net cfg) \<lparr>rq_endname = NStr ''z'', rq_svcMeth = [], rq_args = [0 :: nat]\<rparr> False = Unreachable"
    using c by (intro t [THEN conjunct2, rule_format]) (auto simp: less_2_cases_iff nth_Cons')
  ultimately show ?thesis using c by blast
qed

section \<open>Restart\<close>

lemma h_disconnect_ends: "h_disconnect i cfg = Some cfg' \<Longrightarrow> nw_ends (hc_net cfg') = nw_ends (hc_net cfg)"
  by (auto simp: h_disconnect_def Let_def enableLoop_eq split: Option.bind_split_asm if_splits)

lemma crash1_ends:
  "h_disconnect i cfg = Some cfg1 \<Longrightarrow> crash1 i cfg = Some cfg2 \<Longrightarrow> nw_ends (hc_net cfg2) = nw_ends (hc_net cfg1)"
  by (auto simp: crash1_def Let_def DeleteServer_def split: Option.bind_split_asm)

lemma saved_kept: "saved rf \<Longrightarrow> saved (rf\<lparr>persister := keptState (persister rf)\<rparr>)"
  by (simp add: saved_def keptState_def ReadRaftState_def encodeState_def)

text \<open>A server that is restarted by the harness with fresh end names starts (if its old instance has not
  been killed before) and recovers from its persister the term, the vote and every log entry of the
  instance that crashed, as a follower that is not connected; the other servers keep running.  Its
  snapshot is lost: the harness restores the Raft state only.\<close>

theorem restart_recovers:
  assumes r: "configReach cfg" and i: "i < hc_n cfg" and rf: "hc_rafts cfg ! i = Some rf" "saved rf" "log_wf rf" "exitCh rf = []"
    and fresh: "inj_on nm {..<hc_n cfg}" "\<And>j. j < hc_n cfg \<Longrightarrow> NStr (nm j) \<notin> nw_ends (hc_net cfg)"
  shows "\<exists>cfg' rf'. start1 nm i cfg = Some cfg' \<and> hc_rafts cfg' ! i = Some rf' \<and> \<not> hc_connected cfg' ! i
     \<and> role rf' = Follower \<and> currentTerm rf' = currentTerm rf \<and> votedFor rf' = votedFor rf
     \<and> lastIncludedIndex rf' = lastIncludedIndex rf \<and> getLastLogIndex rf' = getLastLogIndex rf
     \<and> (\<forall>k > lastIncludedIndex rf. logAt rf' k = logAt rf k) \<and> ReadSnapshot (persister rf') = []
     \<and> (\<forall>j. j \<noteq> i \<longrightarrow> hc_rafts cfg' ! j = hc_rafts cfg ! j)"
proof -
  note w = wires_reach [OF r]
  note sh = wiresD(1) [OF w]
  let ?r = "rf\<lparr>persister := keptState (persister rf)\<rparr>"
  have "log_wf ?r" using rf(3) by (simp add: log_wf_def)
  then obtain rf' where m: "Make (hc_n cfg) i (keptState (persister rf)) = Some rf'" "role rf' = Follower"
    "currentTerm rf' = currentTerm rf" "votedFor rf' = votedFor rf" "lastIncludedIndex rf' = lastIncludedIndex rf"
    "getLastLogIndex rf' = getLastLogIndex ?r" "\<forall>k > lastIncludedIndex rf. logAt rf' k = logAt ?r k"
    using restart_spec [OF saved_kept [OF rf(2)], of "hc_n cfg" i] by auto
  have b: "rf' = booted (hc_n cfg) i (keptState (persister rf)) (currentTerm rf) (votedFor rf) (tl (logs rf)) (lastIncludedIndex rf) (lastIncludedTerm rf)"
    using Make_saved [OF saved_kept [OF rf(2)], of "hc_n cfg" i] m(1) by simp
  obtain cfg1 where d: "h_disconnect i cfg = Some cfg1" using disconnect_wired [OF sh wiresD(2) [OF w] i] by blast
  have d1: "hc_rafts cfg1 = hc_rafts cfg" "hc_n cfg1 = hc_n cfg" using disconnect_wired [OF sh wiresD(2) [OF w] i] d by auto
  have sn: "savedNow cfg i = Some (persister rf)" by (simp add: savedNow_def rf(1))
  have "\<exists>cfg'. crash1 i cfg = Some cfg'" using d d1 rf(1,4) by (simp add: crash1_def Kill_def Let_def)
  then obtain c2 where c2: "crash1 i cfg = Some c2" by blast
  have n2: "hc_n c2 = hc_n cfg" "hc_saved c2 ! i = Some (keptState (persister rf))"
    using crash1_wired [OF w c2] sh i by (auto simp: sn shape_def)
  have e2: "nw_ends (hc_net c2) = nw_ends (hc_net cfg)"
    using crash1_ends [OF d c2] h_disconnect_ends [OF d] by simp
  have "\<exists>rn. makeEnds nm NInt [0..<hc_n c2] (hc_net c2) = Some rn"
    using fresh by (intro makeEnds_ok) (auto simp: n2 e2 lessThan_atLeast0)
  then have "\<exists>cfg'. start1 nm i cfg = Some cfg'" using c2 n2 m(1) by (auto simp: start1_def Let_def Copy_same)
  then obtain cfg' where s: "start1 nm i cfg = Some cfg'" by blast
  have f: "hc_rafts cfg' = (hc_rafts cfg)[i := Some rf']" "hc_connected cfg' = (hc_connected cfg)[i := False]"
    using start1_wired [OF w s] m(1) by (auto simp: sn)
  have "ReadSnapshot (persister rf') = []" by (simp add: b booted_def keptState_def ReadSnapshot_def)
  moreover have "getLastLogIndex ?r = getLastLogIndex rf" "logAt ?r k = logAt rf k" for k by (simp_all add: idx_defs logAt_def)
  moreover have "hc_rafts cfg' ! i = Some rf'" "\<not> hc_connected cfg' ! i" "\<forall>j. j \<noteq> i \<longrightarrow> hc_rafts cfg' ! j = hc_rafts cfg ! j"
    using f sh i by (auto simp: shape_def)
  ultimately show ?thesis using s m by (intro exI [of _ cfg'] exI [of _ rf']) auto
qed

text \<open>Server 0 starts an election, votes for itself and is restarted.\<close>

definition candidateConfig :: "nat config option" where
  "candidateConfig = Option.bind demoConfig (\<lambda>cfg. hrun cfg [HPeer 0 (RWake WTimeout)])"

definition demoCandidate :: "(int, nat) raft" where
  "demoCandidate = convertRoleTo (booted 2 0 MakePersister (-1) votedNull [] 0 (-1)) Candidate"

lemma candidateConfig_run:
  "map_option (\<lambda>cfg. (hc_n cfg, hc_rafts cfg ! 0 = Some demoCandidate,
       nw_ends (hc_net cfg) = {NStr ''a'', NStr ''b'', NStr ''c'', NStr ''d''})) candidateConfig
     = Some (2, True, True)"
  by code_simp

lemma demoCandidate_facts:
  "saved demoCandidate" "log_wf demoCandidate" "exitCh demoCandidate = []" "currentTerm demoCandidate = 0" "votedFor demoCandidate = 0"
  unfolding demoCandidate_def
  by (auto intro!: saved_convert simp: booted_def log_wf_def)

theorem restart_recovers_witness:
  "\<exists>cfg cfg' rf'. candidateConfig = Some cfg \<and> start1 (\<lambda>j. ''new'' @ demoNames 0 j) 0 cfg = Some cfg' \<and> hc_rafts cfg' ! 0 = Some rf'
     \<and> role rf' = Follower \<and> currentTerm rf' = 0 \<and> votedFor rf' = 0"
proof -
  obtain cfg where c: "candidateConfig = Some cfg" "hc_n cfg = 2" "hc_rafts cfg ! 0 = Some demoCandidate"
    "nw_ends (hc_net cfg) = {NStr ''a'', NStr ''b'', NStr ''c'', NStr ''d''}"
    using candidateConfig_run by (cases candidateConfig) auto
  have r: "configReach cfg" using demo_reach c(1) unfolding candidateConfig_def by blast
  have "inj_on (\<lambda>j. ''new'' @ demoNames 0 j) {..<hc_n cfg}" by (auto simp: inj_on_def demoNames_def c(2) less_2_cases_iff)
  then have "\<exists>cfg' rf'. start1 (\<lambda>j. ''new'' @ demoNames 0 j) 0 cfg = Some cfg' \<and> hc_rafts cfg' ! 0 = Some rf' \<and> role rf' = Follower
      \<and> currentTerm rf' = currentTerm demoCandidate \<and> votedFor rf' = votedFor demoCandidate"
    using restart_recovers [OF r _ c(3) demoCandidate_facts(1-3), of "\<lambda>j. ''new'' @ demoNames 0 j"]
    by (auto simp: c demoNames_def)
  with c(1) show ?thesis unfolding demoCandidate_facts by blast
qed

end
