(* ===== verification/Harness_Checks.thy ===== *)
theory Harness_Checks
  imports Harness_Safety
begin

text \<open>
  The checks of the Raft harness: what the readers of the apply channels keep true (\<open>logsOK\<close>), what
  \<open>nCommitted\<close>, \<open>one\<close> and \<open>checkOneLeader\<close> return.
\<close>

section \<open>The committed entries seen so far\<close>

definition logsOK :: "'s config \<Rightarrow> bool" where
  "logsOK cfg \<longleftrightarrow> length (hc_logs cfg) = hc_n cfg \<and>
     (\<forall>l \<in> set (hc_logs cfg). \<forall>l' \<in> set (hc_logs cfg). \<forall>k v v'. l k = Some v \<longrightarrow> l' k = Some v' \<longrightarrow> v = v')
   \<and> (\<forall>l \<in> set (hc_logs cfg). \<forall>k v. 1 < k \<longrightarrow> l k = Some v \<longrightarrow> l (k - 1) \<noteq> None)
   \<and> (\<forall>l \<in> set (hc_logs cfg). \<forall>k v. l k = Some v \<longrightarrow> k \<le> hc_maxIndex cfg)"

definition logsGrow :: "'s config \<Rightarrow> 's config \<Rightarrow> bool" where
  "logsGrow cfg cfg' \<longleftrightarrow> hc_n cfg' = hc_n cfg \<and> length (hc_logs cfg') = length (hc_logs cfg)
     \<and> (\<forall>i < length (hc_logs cfg). hc_logs cfg ! i \<subseteq>\<^sub>m hc_logs cfg' ! i)"

lemma logsGrow_refl [simp]: "logsGrow cfg cfg"
  by (simp add: logsGrow_def)

lemma logsGrow_trans: "logsGrow a b \<Longrightarrow> logsGrow b c \<Longrightarrow> logsGrow a c"
  by (auto simp: logsGrow_def intro: map_le_trans)

lemma logsGrow_frame: "hc_n cfg' = hc_n cfg \<Longrightarrow> hc_logs cfg' = hc_logs cfg \<Longrightarrow> logsGrow cfg cfg'"
  by (simp add: logsGrow_def)

lemma logsOK_frame:
  "hc_n cfg' = hc_n cfg \<Longrightarrow> hc_logs cfg' = hc_logs cfg \<Longrightarrow> hc_maxIndex cfg' = hc_maxIndex cfg \<Longrightarrow> logsOK cfg' = logsOK cfg"
  by (simp add: logsOK_def)

lemma applyMsg_logs:
  assumes ok: "logsOK cfg" and i: "i < hc_n cfg" and run: "applyMsg i m cfg = Some cfg'"
  shows "logsOK cfg' \<and> logsGrow cfg cfg'"
proof (cases "CommandValid m")
  case False
  then show ?thesis using ok run by (simp add: applyMsg_def)
next
  case True
  let ?k = "CommandIndex m" and ?li = "hc_logs cfg ! i"
  obtain v where v: "asInt (am_Command m) = Some v" using run True by (auto simp: applyMsg_def split: option.splits)
  let ?ls = "(hc_logs cfg)[i := ?li(?k \<mapsto> v)]"
  have same: "old = v" if "l \<in> set (hc_logs cfg)" "l ?k = Some old" for l old
    using run True v that by (auto simp: applyMsg_def Let_def list_ex_iff split: if_splits)
  have prev: "?k \<le> 1 \<or> ?li (?k - 1) \<noteq> None"
    using run True v by (auto simp: applyMsg_def Let_def split: if_splits)
  have c: "hc_logs cfg' = ?ls" "hc_n cfg' = hc_n cfg" "hc_maxIndex cfg' = max ?k (hc_maxIndex cfg)"
    using run True v by (auto simp: applyMsg_def Let_def max_def split: if_splits)
  have li: "?li \<in> set (hc_logs cfg)" using ok i by (simp add: logsOK_def)
  have mem: "l \<in> set (hc_logs cfg) \<or> l = ?li(?k \<mapsto> v)" if "l \<in> set ?ls" for l
    using that set_update_subset_insert [of "hc_logs cfg" i] by auto
  have val: "l k = Some x \<Longrightarrow> (\<exists>l' \<in> set (hc_logs cfg). l' k = Some x) \<or> k = ?k \<and> x = v" if "l \<in> set ?ls" for l k x
    using mem [OF that] li by (auto split: if_splits)
  have agree: "x = y" if "l \<in> set (hc_logs cfg)" "l' \<in> set (hc_logs cfg)" "l k = Some x" "l' k = Some y" for l l' k x y
    using ok that unfolding logsOK_def by blast
  have "x = y" if "l \<in> set ?ls" "l' \<in> set ?ls" "l k = Some x" "l' k = Some y" for l l' k x y
    using val [OF that(1,3)] val [OF that(2,4)] agree same by blast
  moreover have "l (k - 1) \<noteq> None" if "l \<in> set ?ls" "1 < k" "l k = Some x" for l k x
  proof -
    have old: "l0 (k - 1) \<noteq> None" if "l0 \<in> set (hc_logs cfg)" "l0 k = Some x" for l0
      using ok that \<open>1 < k\<close> unfolding logsOK_def by blast
    show ?thesis using mem [OF that(1)] old li prev that(2,3) by (cases "k = ?k") auto
  qed
  moreover have "k \<le> max ?k (hc_maxIndex cfg)" if "l \<in> set ?ls" "l k = Some x" for l k x
    using val [OF that] ok unfolding logsOK_def by fastforce
  ultimately have "logsOK cfg'" using ok unfolding logsOK_def c by simp
  moreover have "?li \<subseteq>\<^sub>m ?li(?k \<mapsto> v)" using same [OF li] by (auto simp: map_le_def)
  then have "logsGrow cfg cfg'" unfolding logsGrow_def c using ok i by (auto simp: nth_list_update logsOK_def)
  ultimately show ?thesis ..
qed

lemma start_logs:
  "wires cfg \<Longrightarrow> start1 nm i cfg = Some cfg' \<Longrightarrow> hc_n cfg' = hc_n cfg \<and> hc_logs cfg' = hc_logs cfg \<and> hc_maxIndex cfg' = hc_maxIndex cfg"
  using start1_wired [of cfg nm i cfg'] by auto

lemma connect_logs:
  "h_connect i cfg = Some cfg' \<Longrightarrow> hc_n cfg' = hc_n cfg \<and> hc_logs cfg' = hc_logs cfg \<and> hc_maxIndex cfg' = hc_maxIndex cfg"
  by (auto simp: h_connect_def Let_def split: Option.bind_split_asm)

lemma step_logs:
  assumes w: "wires cfg" and ok: "logsOK cfg" and run: "hstep cfg e = Some cfg'"
  shows "logsOK cfg' \<and> logsGrow cfg cfg'"
proof -
  have "hc_n cfg' = hc_n cfg \<and> hc_logs cfg' = hc_logs cfg \<and> hc_maxIndex cfg' = hc_maxIndex cfg \<or> ?thesis"
  proof (cases e)
    case (HRead i)
    then have i: "i < hc_n cfg" and r: "readApply i cfg = Some cfg'" using run by (auto split: if_splits)
    let ?c = "cfg\<lparr>hc_read := (hc_read cfg)[i := hc_read cfg ! i + 1]\<rparr>"
    obtain m where "applyMsg i m ?c = Some cfg'" using r by (auto simp: readApply_def split: option.splits if_splits)
    moreover have "logsOK ?c" using ok by (simp add: logsOK_def)
    ultimately have "logsOK cfg' \<and> logsGrow ?c cfg'" using i by (intro applyMsg_logs) simp_all
    then show ?thesis by (simp add: logsGrow_def)
  next
    case (HStart i nm)
    then show ?thesis using start_logs [OF w, of nm i cfg'] run by simp
  next
    case (HCrash i)
    then show ?thesis using crash1_wired [OF w, of i cfg'] run by auto
  next
    case (HConnect i)
    then show ?thesis using connect_logs [of i cfg cfg'] run by simp
  next
    case (HDisconnect i)
    then show ?thesis using run by (auto simp: h_disconnect_def Let_def split: Option.bind_split_asm)
  qed (use run in \<open>auto simp: onPeer_def setunreliable_def setlongreordering_def split: if_splits option.splits\<close>)
  then show ?thesis using ok logsOK_frame logsGrow_frame by blast
qed

lemma run_logs:
  "wires cfg \<Longrightarrow> logsOK cfg \<Longrightarrow> hrun cfg es = Some cfg' \<Longrightarrow> logsOK cfg' \<and> logsGrow cfg cfg'"
proof (induction es arbitrary: cfg)
  case (Cons e es)
  then obtain c where c: "hstep cfg e = Some c" "hrun c es = Some cfg'" by (auto split: Option.bind_split_asm)
  with Cons wires_step [OF Cons.prems(1) c(1)] step_logs [OF Cons.prems(1,2) c(1)] show ?case by (meson logsGrow_trans)
qed simp

lemma make_logs:
  assumes "make_config rnd n unreliable = Some cfg"
  shows "logsOK cfg"
proof -
  obtain c where c: "forall_servers (\<lambda>i. start1 (rnd i) i) [0..<n] (firstConfig n unreliable) = Some c"
    "forall_servers h_connect [0..<n] c = Some cfg" using assms by (auto simp: make_config_eq split: Option.bind_split_asm)
  have "logsOK (firstConfig n unreliable)" by (auto simp: logsOK_def firstConfig_def setunreliable_def emptyConfig_def)
  then have "wires c \<and> logsOK c"
    using start_logs logsOK_frame wires_start1 wires_first by (intro servers_inv [OF _ _ c(1), of "\<lambda>c. wires c \<and> logsOK c"]) blast+
  then show ?thesis using connect_logs logsOK_frame by (intro servers_inv [OF _ _ c(2), of logsOK]) blast+
qed

lemma logs_reach: "configReach cfg \<Longrightarrow> logsOK cfg"
  unfolding configReach_def using run_logs wires_make make_logs by blast

lemma agree_nth:
  assumes "logsOK cfg" "i < hc_n cfg" "j < hc_n cfg" "(hc_logs cfg ! i) k = Some v" "(hc_logs cfg ! j) k = Some v'"
  shows "v = v'"
proof -
  have "hc_logs cfg ! i \<in> set (hc_logs cfg)" "hc_logs cfg ! j \<in> set (hc_logs cfg)" using assms by (auto simp: logsOK_def)
  then show ?thesis using assms unfolding logsOK_def by blast
qed

text \<open>C34. As long as the harness does not stop with an apply error, in every sequence of events the commands
  that its readers have recorded agree: no two servers (nor one server, across its restarts) have committed
  different commands at one index, each server's record has no gaps, no entry is ever taken back, and
  \<open>maxIndex\<close> bounds the indices.\<close>

theorem readers_agree:
  assumes "configReach cfg" "hrun cfg es = Some cfg'" "i < hc_n cfg" "j < hc_n cfg"
  shows "(\<forall>k v v'. (hc_logs cfg' ! i) k = Some v \<and> (hc_logs cfg' ! j) k = Some v' \<longrightarrow> v = v')
     \<and> (\<forall>k v. 1 \<le> k \<and> (hc_logs cfg' ! i) k = Some v \<longrightarrow> (\<forall>m. 1 \<le> m \<and> m \<le> k \<longrightarrow> (hc_logs cfg' ! i) m \<noteq> None) \<and> k \<le> hc_maxIndex cfg')
     \<and> hc_logs cfg ! i \<subseteq>\<^sub>m hc_logs cfg' ! i"
proof -
  have ok: "logsOK cfg'" and gr: "logsGrow cfg cfg'"
    using run_logs [OF wires_reach [OF assms(1)] logs_reach [OF assms(1)] assms(2)] by auto
  have n: "hc_n cfg' = hc_n cfg" "length (hc_logs cfg') = hc_n cfg'" using gr ok by (auto simp: logsGrow_def logsOK_def)
  let ?l = "hc_logs cfg' ! i"
  have l: "?l \<in> set (hc_logs cfg')" using n assms(3) by simp
  have pred: "?l (k - 1) \<noteq> None" if "1 < k" "?l k \<noteq> None" for k using ok l that unfolding logsOK_def by blast
  have down: "?l (int k + 1 - int d) \<noteq> None" if "?l (int k + 1) \<noteq> None" "d \<le> k" for k d
    using that
  proof (induction d)
    case (Suc d)
    then have "?l (int k + 1 - int d - 1) \<noteq> None" by (intro pred) auto
    then show ?case by (simp add: algebra_simps)
  qed simp
  have gaps: "?l m \<noteq> None" if "1 \<le> k" "?l k = Some v" "1 \<le> m" "m \<le> k" for k v m
    using down [of "nat (k - 1)" "nat (k - m)"] that by simp
  have mx: "k \<le> hc_maxIndex cfg'" if "?l k = Some v" for k v using ok l that unfolding logsOK_def by blast
  show ?thesis
  proof (intro conjI allI impI)
    fix k v v' assume "?l k = Some v \<and> (hc_logs cfg' ! j) k = Some v'"
    then show "v = v'" using agree_nth [OF ok, of i j k v v'] assms(3,4) n(1) by simp
  next
    show "hc_logs cfg ! i \<subseteq>\<^sub>m ?l" using gr assms(3) n by (auto simp: logsGrow_def)
  qed (elim conjE, rule gaps mx; assumption)+
qed

section \<open>Agreement on a command\<close>

lemma committedLoop_spec:
  assumes "committedLoop xs index c cmd = Inr (nd, v)"
  shows "nd = c + length (filter (\<lambda>(e, l). l index \<noteq> None) xs)
     \<and> (0 < c \<longrightarrow> v = cmd) \<and> (\<forall>(e, l) \<in> set xs. l index = None \<or> l index = Some v)"
  using assms
proof (induction xs arbitrary: c cmd)
  case (Cons x xs)
  obtain e l where x: "x = (e, l)" by (cases x)
  show ?case
  proof (cases "l index")
    case None
    then show ?thesis using Cons x by (auto split: if_splits)
  next
    case (Some d)
    then have "\<not> (0 < c \<and> cmd \<noteq> d)" "committedLoop xs index (c + 1) d = Inr (nd, v)"
      using Cons.prems x by (auto split: if_splits)
    then show ?thesis using Cons.IH [of "c + 1" d] Some x by auto
  qed
qed simp

lemma nCommitted_spec:
  assumes "shape cfg" "nCommitted index cfg = Inr (nd, v)"
  shows "nd = card {i. i < hc_n cfg \<and> (hc_logs cfg ! i) index \<noteq> None}
     \<and> (\<forall>i < hc_n cfg. (hc_logs cfg ! i) index = None \<or> (hc_logs cfg ! i) index = Some v)"
proof -
  let ?xs = "zip (hc_applyErr cfg) (hc_logs cfg)"
  have len: "length ?xs = hc_n cfg" "length (hc_applyErr cfg) = length (hc_logs cfg)" using assms(1) by (auto simp: shape_def)
  have s: "nd = length (filter (\<lambda>(e, l). l index \<noteq> None) ?xs)" "\<forall>(e, l) \<in> set ?xs. l index = None \<or> l index = Some v"
    using committedLoop_spec assms(2) unfolding nCommitted_def by fastforce+
  have "nd = card {i. i < hc_n cfg \<and> (hc_logs cfg ! i) index \<noteq> None}"
    using s(1) len by (simp add: length_filter_conv_card split_beta cong: conj_cong)
  moreover have "(hc_logs cfg ! i) index = None \<or> (hc_logs cfg ! i) index = Some v" if "i < hc_n cfg" for i
  proof -
    have "(hc_applyErr cfg ! i, hc_logs cfg ! i) \<in> set ?xs" using that len assms(1) by (auto simp: in_set_zip shape_def)
    with s(2) show ?thesis by blast
  qed
  ultimately show ?thesis by blast
qed

text \<open>What \<open>one\<close> does to the servers is a sequence of events.\<close>

lemma hrun_append: "hrun cfg xs = Some c \<Longrightarrow> hrun c ys = Some c' \<Longrightarrow> hrun cfg (xs @ ys) = Some c'"
  by (simp add: run_steps_append)

lemma trySubmit_run:
  assumes "trySubmit k starts cmd cfg = (cfg', starts', index)" "0 < hc_n cfg"
  shows "\<exists>es. hrun cfg es = Some cfg' \<and> hc_n cfg' = hc_n cfg"
  using assms
proof (induction k arbitrary: starts cfg)
  case 0
  then show ?case by (auto intro: exI [of _ "[]"])
next
  case (Suc k)
  define st where "st = (starts + 1) mod hc_n cfg"
  have st: "st < hc_n cfg" using Suc.prems by (simp add: st_def)
  note run = Suc.prems(1) [unfolded trySubmit.simps Let_def, folded st_def]
  show ?case
  proof (cases "if hc_connected cfg ! st then hc_rafts cfg ! st else None")
    case None
    then show ?thesis using Suc.IH [of st cfg] run Suc.prems(2) by simp
  next
    case (Some rf)
    then have rf: "hc_rafts cfg ! st = Some rf" by (auto split: if_splits)
    obtain rf' index1 t ok where s: "Start rf cmd = (rf', index1, t, ok)" by (cases "Start rf cmd") auto
    let ?c = "cfg\<lparr>hc_rafts := (hc_rafts cfg)[st := Some rf']\<rparr>"
    have e: "hrun cfg [HPeer st (RStart cmd)] = Some ?c" using st rf s by (simp add: onPeer_def)
    have "cfg' = ?c \<or> trySubmit k st cmd ?c = (cfg', starts', index)" using run unfolding Some by (auto simp: s split: if_splits)
    then show ?thesis
    proof
      assume "trySubmit k st cmd ?c = (cfg', starts', index)"
      from Suc.IH [OF this] Suc.prems(2) obtain es where "hrun ?c es = Some cfg'" "hc_n cfg' = hc_n cfg" by auto
      then show ?thesis using hrun_append [OF e] by blast
    next
      assume "cfg' = ?c"
      then show ?thesis using e by (intro exI [of _ "[HPeer st (RStart cmd)]"]) simp
    qed
  qed
qed

lemma pollLoop_run:
  assumes "pollLoop ess index cmd expected cfg = Some (Inr (b, cfg'))"
  shows "\<exists>es. hrun cfg es = Some cfg'"
    and "b \<Longrightarrow> \<exists>nd. nCommitted index cfg' = Inr (nd, cmd) \<and> 0 < nd \<and> expected \<le> nd"
proof -
  have "(\<exists>es. hrun cfg es = Some cfg') \<and> (b \<longrightarrow> (\<exists>nd. nCommitted index cfg' = Inr (nd, cmd) \<and> 0 < nd \<and> expected \<le> nd))"
    using assms
  proof (induction ess arbitrary: cfg)
    case Nil
    then show ?case by (auto intro: exI [of _ "[]"])
  next
    case (Cons e ess)
    then obtain nd cmd1 where n: "nCommitted index cfg = Inr (nd, cmd1)" by (auto split: sum.splits)
    show ?case
    proof (cases "nd > 0 \<and> nd \<ge> expected \<and> cmd1 = cmd")
      case True
      then show ?thesis using Cons.prems n by (auto intro: exI [of _ "[]"])
    next
      case False
      then obtain c where c: "hrun cfg e = Some c" "pollLoop ess index cmd expected c = Some (Inr (b, cfg'))"
        using Cons.prems n by (auto split: if_splits Option.bind_split_asm)
      then show ?thesis using Cons.IH [OF c(2)] hrun_append [OF c(1)] by blast
    qed
  qed
  then show "\<exists>es. hrun cfg es = Some cfg'" "b \<Longrightarrow> \<exists>nd. nCommitted index cfg' = Inr (nd, cmd) \<and> 0 < nd \<and> expected \<le> nd" by blast+
qed

lemma hrun_n: "wires cfg \<Longrightarrow> logsOK cfg \<Longrightarrow> hrun cfg es = Some cfg' \<Longrightarrow> hc_n cfg' = hc_n cfg"
  using run_logs [of cfg es cfg'] by (simp add: logsGrow_def)

lemma oneLoop_run:
  assumes "oneLoop as cmd expected retry starts cfg = Some (Inr (index, cfg'))" "0 < hc_n cfg" "wires cfg" "logsOK cfg"
  shows "(\<exists>es. hrun cfg es = Some cfg') \<and> (\<exists>nd. nCommitted index cfg' = Inr (nd, cmd) \<and> 0 < nd \<and> expected \<le> nd)"
  using assms
proof (induction as arbitrary: starts cfg)
  case (Cons a as)
  obtain polls pause where a: "a = (polls, pause)" by (cases a)
  obtain c st ix where t: "trySubmit (hc_n cfg) starts cmd cfg = (c, st, ix)" by (cases "trySubmit (hc_n cfg) starts cmd cfg") auto
  obtain es where es: "hrun cfg es = Some c" "hc_n c = hc_n cfg" using trySubmit_run [OF t Cons.prems(2)] by blast
  have c: "wires c" "logsOK c" using wires_run [OF Cons.prems(3) es(1)] run_logs [OF Cons.prems(3,4) es(1)] by auto
  have rec: ?case if "hrun c fs = Some d" "oneLoop as cmd expected retry st d = Some (Inr (index, cfg'))" for fs d
  proof -
    have "wires d" "logsOK d" "hc_n d = hc_n cfg"
      using wires_run [OF c(1) that(1)] run_logs [OF c that(1)] hrun_n [OF c that(1)] es(2) by auto
    then show ?thesis using Cons.IH [OF that(2)] Cons.prems(2) hrun_append [OF hrun_append [OF es(1) that(1)]] by (auto simp: hrun_append)
  qed
  note run = Cons.prems(1) [unfolded a oneLoop.simps t prod.case]
  show ?case
  proof (cases "ix \<noteq> -1")
    case False
    then show ?thesis using run rec by (auto split: Option.bind_split_asm)
  next
    case True
    then obtain b d where p: "pollLoop polls ix cmd expected c = Some (Inr (b, d))"
      using run by (auto split: option.splits sum.splits)
    obtain fs where fs: "hrun c fs = Some d" using pollLoop_run(1) [OF p] by blast
    show ?thesis
    proof (cases b)
      case True
      with run p \<open>ix \<noteq> -1\<close> have "ix = index" "d = cfg'" by auto
      then show ?thesis using pollLoop_run(2) [OF p True] hrun_append [OF es(1) fs] by blast
    next
      case False
      with run p \<open>ix \<noteq> -1\<close> have "oneLoop as cmd expected retry st d = Some (Inr (index, cfg'))" by (auto split: if_splits)
      then show ?thesis by (rule rec [OF fs])
    qed
  qed
qed simp

text \<open>C35. When \<open>one(cmd, expected, retry)\<close> returns an index, at least \<open>expected\<close> servers, and at least one, have
  applied the command \<open>cmd\<close> at that index, and this is final: whatever happens later, those servers
  keep that entry and no server ever applies another command at that index, unless the harness stops with an
  apply error.\<close>

theorem one_agreement:
  assumes "configReach cfg" "0 < hc_n cfg" "one_agree attempts cmd expected retry cfg = Some (Inr (index, cfg'))"
    and "hrun cfg' es = Some cfg''"
  shows "let S = {i. i < hc_n cfg \<and> (hc_logs cfg'' ! i) index = Some cmd} in expected \<le> card S \<and> S \<noteq> {}
     \<and> (\<forall>i < hc_n cfg. \<forall>v. (hc_logs cfg'' ! i) index = Some v \<longrightarrow> v = cmd)"
proof -
  note w = wires_reach [OF assms(1)] and l = logs_reach [OF assms(1)]
  obtain fs nd where r: "hrun cfg fs = Some cfg'" "nCommitted index cfg' = Inr (nd, cmd)" "0 < nd" "expected \<le> nd"
    using oneLoop_run [OF assms(3) [unfolded one_agree_def] assms(2) w l] by blast
  have w': "wires cfg'" and l': "logsOK cfg'" "hc_n cfg' = hc_n cfg"
    using wires_run [OF w r(1)] run_logs [OF w l r(1)] hrun_n [OF w l r(1)] by auto
  have l'': "logsOK cfg''" "logsGrow cfg' cfg''" using run_logs [OF w' l'(1) assms(4)] by auto
  then have n: "hc_n cfg'' = hc_n cfg" "length (hc_logs cfg') = hc_n cfg" using l' by (auto simp: logsGrow_def logsOK_def)
  let ?T = "{i. i < hc_n cfg \<and> (hc_logs cfg' ! i) index \<noteq> None}" and ?S = "{i. i < hc_n cfg \<and> (hc_logs cfg'' ! i) index = Some cmd}"
  have nd: "nd = card ?T" "\<forall>i < hc_n cfg. (hc_logs cfg' ! i) index = None \<or> (hc_logs cfg' ! i) index = Some cmd"
    using nCommitted_spec [OF wiresD(1) [OF w'] r(2)] l'(2) by simp_all
  have "?T \<subseteq> ?S"
  proof
    fix i assume "i \<in> ?T"
    then have i: "i < hc_n cfg" "(hc_logs cfg' ! i) index = Some cmd" using nd(2) by auto
    then have "hc_logs cfg' ! i \<subseteq>\<^sub>m hc_logs cfg'' ! i" using l''(2) n(2) by (simp add: logsGrow_def)
    then have "(hc_logs cfg'' ! i) index = Some cmd" using i(2) by (metis domI map_le_def)
    with i show "i \<in> ?S" by simp
  qed
  then have c: "card ?T \<le> card ?S" by (intro card_mono) auto
  then have "card ?S > 0" using nd(1) r(3) by simp
  then obtain p where p: "p \<in> ?S" by (metis card_gt_0_iff ex_in_conv)
  have "v = cmd" if "i < hc_n cfg" "(hc_logs cfg'' ! i) index = Some v" for i v
    using agree_nth [OF l''(1), of i p index v cmd] that p n(1) by simp
  then show ?thesis using c p nd(1) r(4) unfolding Let_def by auto
qed

section \<open>One leader\<close>

definition leaderAt :: "(nat \<times> int \<times> bool) list \<Rightarrow> int \<Rightarrow> nat \<Rightarrow> bool" where
  "leaderAt obs t i \<longleftrightarrow> (i, t, True) \<in> set obs"

lemma leadersOf_spec:
  "gm_wf (leadersOf obs) \<and> gm_get0 [] (leadersOf obs) t = map fst (filter (\<lambda>(i, t', l). l \<and> t' = t) obs)
     \<and> gm_keys (leadersOf obs) = {t. \<exists>i. leaderAt obs t i}"
proof (induction obs arbitrary: t rule: rev_induct)
  case Nil
  show ?case by (simp add: leadersOf_def gm_get0_Nil leaderAt_def)
next
  case (snoc x obs)
  obtain i t' l where x: "x = (i, t', l)" by (cases x)
  have f: "leadersOf (obs @ [x]) = (if l then gm_set t' (gm_get0 [] (leadersOf obs) t' @ [i]) (leadersOf obs) else leadersOf obs)"
    by (simp add: leadersOf_def x)
  have "{t. \<exists>j. leaderAt (obs @ [x]) t j} = (if l then insert t' {t. \<exists>j. leaderAt obs t j} else {t. \<exists>j. leaderAt obs t j})"
    by (auto simp: leaderAt_def x)
  with snoc show ?case unfolding f by (auto simp: gm_get0_set x)
qed

lemma scanTerms_ok: "\<forall>t \<in> set ts. length (gm_get0 [] m t) \<le> 1 \<Longrightarrow> scanTerms m ts lt = Inr (fold max ts lt)"
  by (induction ts arbitrary: lt) (auto simp: max_def)

lemma scanTerms_several:
  "\<exists>t \<in> set ts. 1 < length (gm_get0 [] m t) \<Longrightarrow> \<exists>t \<in> set ts. scanTerms m ts lt = Inl (SeveralLeaders t (length (gm_get0 [] m t))) \<and> 1 < length (gm_get0 [] m t)"
  by (induction ts arbitrary: lt) auto

lemma fold_max: "fold max ts (lt :: int) \<in> insert lt (set ts)" "\<forall>t \<in> insert lt (set ts). t \<le> fold max ts lt"
  using Max.set_eq_fold [of lt ts] Max_in [of "set (lt # ts)"] Max_ge [of "set (lt # ts)"] by auto

lemma those_keys: "(\<And>i x. F i = Some x \<Longrightarrow> fst x = i) \<Longrightarrow> those (map F is) = Some xs \<Longrightarrow> map fst xs = is"
proof (induction "is" arbitrary: xs)
  case (Cons i "is")
  then obtain x ys where "F i = Some x" "those (map F is) = Some ys" "xs = x # ys" by (auto split: option.splits)
  with Cons show ?case by simp
qed simp

lemma observe_distinct:
  assumes "observe cfg = Some obs"
  shows "distinct (map fst obs)"
proof -
  have "map fst obs = filter (\<lambda>i. hc_connected cfg ! i) [0..<hc_n cfg]"
    by (rule those_keys [OF _ assms [unfolded observe_def]]) auto
  then show ?thesis by simp
qed

lemma distinct_two:
  assumes "distinct xs"
  shows "1 < length xs \<longleftrightarrow> (\<exists>x y. x \<noteq> y \<and> x \<in> set xs \<and> y \<in> set xs)"
proof (cases xs)
  case (Cons a r)
  then show ?thesis using assms by (cases r) auto
qed simp

lemma several_iff:
  assumes "distinct (map fst obs)"
  shows "1 < length (map fst (filter (\<lambda>(i, t', l). l \<and> t' = t) obs)) \<longleftrightarrow> (\<exists>i j. i \<noteq> j \<and> leaderAt obs t i \<and> leaderAt obs t j)"
proof -
  let ?is = "map fst (filter (\<lambda>(i, t', l). l \<and> t' = t) obs)"
  have s: "set ?is = {i. leaderAt obs t i}" by (force simp: leaderAt_def)
  have d: "distinct ?is" using assms by (simp add: distinct_map_filter)
  have "1 < length ?is \<longleftrightarrow> (\<exists>i j. i \<noteq> j \<and> i \<in> set ?is \<and> j \<in> set ?is)" by (rule distinct_two [OF d])
  then show ?thesis unfolding s by simp
qed

lemma leaderRound_spec:
  assumes ord: "\<And>m. gm_wf m \<Longrightarrow> range_order (order m) m" and d: "distinct (map fst obs)"
    and terms: "\<And>t i. leaderAt obs t i \<Longrightarrow> -1 \<le> t"
  shows "(\<nexists>t i. leaderAt obs t i) \<Longrightarrow> leaderRound order obs = Some (Inr None)"
    and "leaderAt obs t0 i0 \<Longrightarrow> (\<And>t i j. leaderAt obs t i \<Longrightarrow> leaderAt obs t j \<Longrightarrow> i = j) \<Longrightarrow>
      \<exists>l t. leaderRound order obs = Some (Inr (Some l)) \<and> leaderAt obs t l \<and> (\<forall>t' i. leaderAt obs t' i \<longrightarrow> t' \<le> t)"
    and "i \<noteq> j \<Longrightarrow> leaderAt obs t1 i \<Longrightarrow> leaderAt obs t1 j \<Longrightarrow> \<exists>t c. leaderRound order obs = Some (Inl (SeveralLeaders t c)) \<and> 1 < c"
proof -
  let ?m = "leadersOf obs"
  have wf: "gm_wf ?m" and keys: "gm_keys ?m = {t. \<exists>i. leaderAt obs t i}"
    and get: "\<And>t. gm_get0 [] ?m t = map fst (filter (\<lambda>(i, t', l). l \<and> t' = t) obs)" using leadersOf_spec by blast+
  have ro: "set (order ?m) = {t. \<exists>i. leaderAt obs t i}" using ord [OF wf] keys by (simp add: range_order_def)
  have len: "length ?m \<noteq> 0 \<longleftrightarrow> {t. \<exists>i. leaderAt obs t i} \<noteq> {}"
    unfolding keys [symmetric] by simp
  show "leaderRound order obs = Some (Inr None)" if "\<nexists>t i. leaderAt obs t i"
  proof -
    have "order ?m = []" "length ?m = 0" using that ro len by auto
    then show ?thesis by (simp add: leaderRound_def)
  qed
  show "\<exists>t c. leaderRound order obs = Some (Inl (SeveralLeaders t c)) \<and> 1 < c" if "i \<noteq> j" "leaderAt obs t1 i" "leaderAt obs t1 j"
  proof -
    have "\<exists>t \<in> set (order ?m). 1 < length (gm_get0 [] ?m t)" using that ro get several_iff [OF d] by (intro bexI [of _ t1]) auto
    from scanTerms_several [OF this, of "-1"] show ?thesis by (auto simp: leaderRound_def Let_def)
  qed
  show "\<exists>l t. leaderRound order obs = Some (Inr (Some l)) \<and> leaderAt obs t l \<and> (\<forall>t' i. leaderAt obs t' i \<longrightarrow> t' \<le> t)"
    if some: "leaderAt obs t0 i0" and uniq: "\<And>t i j. leaderAt obs t i \<Longrightarrow> leaderAt obs t j \<Longrightarrow> i = j"
  proof -
    let ?t = "fold max (order ?m) (-1)"
    have "length (gm_get0 [] ?m t) \<le> 1" for t using several_iff [OF d, of t] uniq unfolding get by (meson not_less)
    then have scan: "scanTerms ?m (order ?m) (-1) = Inr ?t" by (intro scanTerms_ok) simp
    have mx: "t' \<le> ?t" if "leaderAt obs t' i" for t' i using fold_max(2) [of "-1" "order ?m"] ro that by auto
    have "?t \<in> set (order ?m)"
      using fold_max(1) [of "order ?m" "-1"] mx [OF some] terms [OF some] some ro by (auto intro: antisym)
    then obtain i where i: "leaderAt obs ?t i" using ro by auto
    then have "i \<in> set (gm_get0 [] ?m ?t)" unfolding get by (force simp: leaderAt_def)
    then obtain l r where lr: "gm_get0 [] ?m ?t = l # r" by (cases "gm_get0 [] ?m ?t") auto
    then have "l \<in> set (map fst (filter (\<lambda>(i, t', l). l \<and> t' = ?t) obs))" unfolding get by simp
    then have "leaderAt obs ?t l" by (auto simp: leaderAt_def)
    moreover have "leaderRound order obs = Some (Inr (Some l))"
      using scan len some lr by (auto simp: leaderRound_def Let_def go_idx_def)
    ultimately show ?thesis using mx by blast
  qed
qed

lemma leaderLoop_skip:
  "\<forall>cfg \<in> set cs. \<exists>obs. observe cfg = Some obs \<and> leaderRound order obs = Some (Inr None) \<Longrightarrow>
     leaderLoop order (cs @ rest) = leaderLoop order rest"
  by (induction cs) auto

lemma leaderLoop_at:
  assumes "r < 10" and "\<And>k. k < r \<Longrightarrow> \<exists>obs. observe (cfgs k) = Some obs \<and> leaderRound order obs = Some (Inr None)"
  shows "checkOneLeader order cfgs = leaderLoop order (cfgs r # map cfgs [Suc r..<10])"
proof -
  have "[0..<r + (10 - r)] = [0..<r] @ [r..<r + (10 - r)]" by (rule upt_add_eq_append) simp
  then have "[0..<10] = [0..<r] @ r # [Suc r..<10]" using assms(1) by (simp del: upt_rec_numeral add: upt_conv_Cons)
  then have "map cfgs [0..<10] = map cfgs [0..<r] @ cfgs r # map cfgs [Suc r..<10]" by (simp del: upt_rec_numeral)
  moreover have "\<forall>cfg \<in> set (map cfgs [0..<r]). \<exists>obs. observe cfg = Some obs \<and> leaderRound order obs = Some (Inr None)"
    using assms(2) by auto
  ultimately show ?thesis unfolding checkOneLeader_def using leaderLoop_skip by metis
qed

text \<open>In the first round in which \<open>checkOneLeader\<close> sees a leader among the connected servers it returns
  the leader of the highest term if every term has at most one leader, and fails the test if some term has two;
  if it sees none in ten rounds it fails the test.  The order in which Go visits the map does not matter.\<close>

theorem checkOneLeader_result:
  assumes ord: "\<And>m. gm_wf m \<Longrightarrow> range_order (order m) m"
    and obs: "\<And>k. k < 10 \<Longrightarrow> observe (cfgs k) = Some (obs k)" and terms: "\<And>k t i. leaderAt (obs k) t i \<Longrightarrow> -1 \<le> t"
  shows "(if \<exists>r < 10. \<exists>t i. leaderAt (obs r) t i then
       (let r = (LEAST r. \<exists>t i. leaderAt (obs r) t i) in
          if \<exists>t i j. i \<noteq> j \<and> leaderAt (obs r) t i \<and> leaderAt (obs r) t j
          then \<exists>t c. checkOneLeader order cfgs = Some (Inl (SeveralLeaders t c)) \<and> 1 < c
          else \<exists>l t. checkOneLeader order cfgs = Some (Inr l) \<and> leaderAt (obs r) t l \<and> (\<forall>t' i. leaderAt (obs r) t' i \<longrightarrow> t' \<le> t))
     else checkOneLeader order cfgs = Some (Inl NoLeaderFound))"
proof -
  have d: "distinct (map fst (obs k))" if "k < 10" for k using observe_distinct [OF obs [OF that]] .
  have none: "leaderRound order (obs k) = Some (Inr None)" if "k < 10" "\<nexists>t i. leaderAt (obs k) t i" for k
    using leaderRound_spec(1) [OF ord d [OF that(1)] terms that(2)] .
  show ?thesis
  proof (cases "\<exists>r < 10. \<exists>t i. leaderAt (obs r) t i")
    case False
    then have "\<forall>cfg \<in> set (map cfgs [0..<10]). \<exists>obs. observe cfg = Some obs \<and> leaderRound order obs = Some (Inr None)"
      using obs none by (auto simp del: upt_rec_numeral)
    from leaderLoop_skip [OF this, of "[]"] have "checkOneLeader order cfgs = Some (Inl NoLeaderFound)"
      unfolding checkOneLeader_def by (simp only: append_Nil2 leaderLoop.simps)
    then show ?thesis unfolding if_not_P [OF False] .
  next
    case True
    define r where "r = (LEAST r. \<exists>t i. leaderAt (obs r) t i)"
    obtain r0 where r0: "r0 < 10" "\<exists>t i. leaderAt (obs r0) t i" using True by blast
    have ex: "\<exists>t i. leaderAt (obs r) t i" unfolding r_def by (rule LeastI [where P = "\<lambda>r. \<exists>t i. leaderAt (obs r) t i", OF r0(2)])
    have "r \<le> r0" unfolding r_def by (rule Least_le [where P = "\<lambda>r. \<exists>t i. leaderAt (obs r) t i", OF r0(2)])
    then have r: "r < 10" using r0(1) by simp
    have before: "\<nexists>t i. leaderAt (obs k) t i" if "k < r" for k using not_less_Least that unfolding r_def by blast
    have c: "checkOneLeader order cfgs = leaderLoop order (cfgs r # map cfgs [Suc r..<10])"
      using obs none before r by (intro leaderLoop_at) auto
    show ?thesis
    proof (cases "\<exists>t i j. i \<noteq> j \<and> leaderAt (obs r) t i \<and> leaderAt (obs r) t j")
      case dup: True
      then obtain t1 i j where ij: "i \<noteq> j" "leaderAt (obs r) t1 i" "leaderAt (obs r) t1 j" by blast
      have "\<exists>t c. leaderRound order (obs r) = Some (Inl (SeveralLeaders t c)) \<and> 1 < c"
        by (rule leaderRound_spec(3) [OF ord d [OF r] terms ij])
      then obtain t c where "leaderRound order (obs r) = Some (Inl (SeveralLeaders t c))" "1 < c" by blast
      then have "checkOneLeader order cfgs = Some (Inl (SeveralLeaders t c))" by (simp add: c obs r)
      then show ?thesis unfolding if_P [OF True] Let_def r_def [symmetric] if_P [OF dup] using \<open>1 < c\<close> by blast
    next
      case uniq: False
      obtain t0 i0 where t0: "leaderAt (obs r) t0 i0" using ex by blast
      have u: "i = j" if "leaderAt (obs r) t i" "leaderAt (obs r) t j" for t i j using uniq that by blast
      have "\<exists>l t. leaderRound order (obs r) = Some (Inr (Some l)) \<and> leaderAt (obs r) t l \<and> (\<forall>t' i. leaderAt (obs r) t' i \<longrightarrow> t' \<le> t)"
        by (rule leaderRound_spec(2) [OF ord d [OF r] terms t0 u])
      then obtain l t where l: "leaderRound order (obs r) = Some (Inr (Some l))" "leaderAt (obs r) t l"
        "\<forall>t' i. leaderAt (obs r) t' i \<longrightarrow> t' \<le> t" by blast
      then have "checkOneLeader order cfgs = Some (Inr l)" by (simp add: c obs r)
      then show ?thesis unfolding if_P [OF True] Let_def r_def [symmetric] if_not_P [OF uniq] using l(2,3) by blast
    qed
  qed
qed

section \<open>An example\<close>

text \<open>Two servers.  Server 0 starts an election and wins the vote of server 1; then the test asks for agreement
  on the command 42.  In the first pause the leader sends the entry, server 1 appends it, and its reply
  lets the leader commit and apply it.\<close>

definition demoVote :: RequestVoteArgs where
  "demoVote = \<lparr>rv_Term = 0, CandidateId = 0, LastLogIndex = 0, LastLogTerm = -1\<rparr>"

definition demoElection :: "nat hevent list" where
  "demoElection = [HPeer 0 (RWake WTimeout), HPeer 1 (RVote demoVote),
     HPeer 0 (RElection \<lparr>requestArgs = demoVote, voteCnt = 1, voteFlag = True\<rparr> \<lparr>rr_Term = 0, VoteGranted = True\<rparr>)]"

definition demoAppend :: "(int, nat) AppendEntriesArgs" where
  "demoAppend = \<lparr>ae_Term = 0, ae_LeaderId = 0, PrevLogIndex = 0, PrevLogTerm = -1,
     ae_Entries = [\<lparr>e_Term = 0, e_Index = 1, e_Command = IOp 42\<rparr>], LeaderCommit = 0\<rparr>"

definition demoPause :: "nat hevent list" where
  "demoPause = [HPeer 1 (RAppend demoAppend),
     HPeer 0 (RBroadcast \<lparr>curTerm = 0, commitFlag = True, commitNum = 1\<rparr> 1 demoAppend
        \<lparr>ar_Term = 0, Success = True, ConflictIndex = 0, ConflictTerm = 0\<rparr>), HRead 0]"

definition leaderConfig :: "nat config option" where
  "leaderConfig = Option.bind demoConfig (\<lambda>cfg. hrun cfg demoElection)"

lemma leaderConfig_run:
  "map_option (\<lambda>cfg. (hc_n cfg, observe cfg)) leaderConfig = Some (2, Some [(0, 0, True), (1, 0, False)])"
  by code_simp

lemma demo_one:
  "Option.bind leaderConfig (\<lambda>cfg. map_option (\<lambda>r. case r of Inl f \<Rightarrow> Inl f
       | Inr (ix, cfg') \<Rightarrow> Inr (ix, map (\<lambda>l. (l 1, l 2)) (hc_logs cfg'), hc_maxIndex cfg'))
     (one_agree [([demoPause, []], [])] 42 1 True cfg))
   = Some (Inr (1, [(Some 42, None), (None, None)], 1))"
  by code_simp

lemma leader_reach: "leaderConfig = Some cfg \<Longrightarrow> configReach cfg"
  unfolding leaderConfig_def by (rule demo_reach)

lemma demo_read:
  "Option.bind leaderConfig (\<lambda>cfg. map_option (\<lambda>c. (hc_n cfg, map (\<lambda>l. l 1) (hc_logs c), hc_maxIndex c)) (hrun cfg (HPeer 0 (RStart 42) # demoPause)))
     = Some (2, [Some 42, None], 1)"
  by code_simp

theorem readers_agree_witness:
  "\<exists>cfg cfg'. leaderConfig = Some cfg \<and> hrun cfg (HPeer 0 (RStart 42) # demoPause) = Some cfg' \<and> (hc_logs cfg' ! 0) 1 = Some 42
     \<and> 1 \<le> hc_maxIndex cfg' \<and> hc_logs cfg ! 0 \<subseteq>\<^sub>m hc_logs cfg' ! 0"
proof -
  obtain cfg cfg' where c: "leaderConfig = Some cfg" "hrun cfg (HPeer 0 (RStart 42) # demoPause) = Some cfg'" "hc_n cfg = 2"
    "map (\<lambda>l. l 1) (hc_logs cfg') = [Some 42, None]"
    using demo_read by (auto split: Option.bind_split_asm simp del: run_steps.simps)
  have "(hc_logs cfg' ! 0) 1 = Some 42" using c(4) by (cases "hc_logs cfg'") auto
  with readers_agree [OF leader_reach [OF c(1)] c(2), of 0 0] c show ?thesis by auto
qed

theorem one_agreement_witness:
  "\<exists>cfg cfg'. leaderConfig = Some cfg \<and> one_agree [([demoPause, []], [])] 42 1 True cfg = Some (Inr (1, cfg'))
     \<and> 1 \<le> card {i. i < 2 \<and> (hc_logs cfg' ! i) 1 = Some 42}"
proof -
  obtain cfg where c: "leaderConfig = Some cfg" "hc_n cfg = 2" using leaderConfig_run by (cases leaderConfig) auto
  obtain cfg' where o: "one_agree [([demoPause, []], [])] 42 1 True cfg = Some (Inr (1, cfg'))"
    using demo_one [unfolded c(1)]
    by (cases "one_agree [([demoPause, []], [])] 42 1 True cfg") (auto simp del: One_nat_def split: sum.splits)
  have "1 \<le> card {i. i < 2 \<and> (hc_logs cfg' ! i) 1 = Some 42}"
    using one_agreement [OF leader_reach [OF c(1)] _ o, of "[]" cfg'] c(2) by (simp add: Let_def)
  with c o show ?thesis by blast
qed

theorem checkOneLeader_result_witness:
  "\<exists>cfg. leaderConfig = Some cfg \<and> checkOneLeader (map fst) (\<lambda>_. cfg) = Some (Inr 0)"
proof -
  obtain cfg where c: "leaderConfig = Some cfg" "observe cfg = Some [(0, 0, True), (1, 0, False)]"
    using leaderConfig_run by (cases leaderConfig) auto
  let ?obs = "[(0, 0, True), (1, 0, False)] :: (nat \<times> int \<times> bool) list"
  have l: "leaderAt ?obs t i \<longleftrightarrow> t = 0 \<and> i = 0" for t i by (auto simp: leaderAt_def)
  have "\<exists>l t. checkOneLeader (map fst) (\<lambda>_. cfg) = Some (Inr l) \<and> leaderAt ?obs t l"
    using checkOneLeader_result [of "map fst" "\<lambda>_. cfg" "\<lambda>_. ?obs", OF range_order_self] c(2) unfolding l
    by (auto simp: Let_def split: if_splits dest: spec [of _ 0])
  then show ?thesis using c(1) unfolding l by blast
qed

end
