(* ===== verification/Service_Harness.thy ===== *)
theory Service_Harness
  imports KVRaft ShardMaster Harness_Net
begin

text \<open>
  The test harness of the replicated services, \<^verbatim>\<open>src/src/kvraft/config.go\<close>; \<^verbatim>\<open>src/src/shardmaster/config.go\<close> is a
  copy of it for the shard master.  It starts and shuts down servers, splits the network and makes clerks.

  A server is a pair of the service's state and its Raft peer.  How a service starts and stops is an
  argument, so that the definitions serve both files.  Random end names and random numbers are
  arguments, a clerk's pointer is its number in the order of creation, \<open>None\<close> is a panic or a wait for
  ever.  As in the Raft harness, the persister in \<open>saved[i]\<close> is the one that the running peer writes to.
\<close>

section \<open>The configuration\<close>

record ('v, 'c, 's) svconfig =
  vc_net :: "goname network"
  vc_n :: nat
  vc_servers :: "('v \<times> ('c, 's) raft) option list"
  vc_saved :: "(('c, 's) rval, 's) persister option list"
  vc_endnames :: "string list option list"
  vc_clerks :: "nat \<rightharpoonup> string list"
  vc_nclerks :: nat
  vc_nextClientId :: int
  vc_maxraftstate :: int
  vc_rpcs0 :: int
  vc_ops :: "32 word"
  vc_next :: nat

text \<open>\<open>cfg.endnames[i][j]\<close> and \<open>cfg.endnames[i] == nil\<close>; an index out of range or into a nil slice panics.\<close>

definition endAt :: "string list option list \<Rightarrow> nat \<Rightarrow> nat \<Rightarrow> string option" where
  "endAt ends i j = do {
     es \<leftarrow> go_idx ends (int i);
     es \<leftarrow> es;
     go_idx es (int j) }"

definition nilAt :: "string list option list \<Rightarrow> nat \<Rightarrow> bool option" where
  "nilAt ends i = map_option (\<lambda>es. es = None) (go_idx ends (int i))"

text \<open>Randomize server handles: \<open>r i\<close> is \<open>rand.Intn(i + 1)\<close>.\<close>

definition swapAt :: "'a list \<Rightarrow> nat \<Rightarrow> nat \<Rightarrow> 'a list" where
  "swapAt sa i j = sa[i := sa ! j, j := sa ! i]"

definition random_handles :: "(nat \<Rightarrow> nat) \<Rightarrow> 'a list \<Rightarrow> 'a list" where
  "random_handles r kvh = fold (\<lambda>i sa. swapAt sa i (r i)) [0..<length kvh] kvh"

section \<open>Connecting servers\<close>

definition connectUnlocked :: "nat \<Rightarrow> nat list \<Rightarrow> ('v, 'c, 's) svconfig \<Rightarrow> ('v, 'c, 's) svconfig option" where
  "connectUnlocked i to cfg = do {
     net \<leftarrow> enableLoop True (\<lambda>t. map_option Some (endAt (vc_endnames cfg) i t)) to (vc_net cfg);
     net \<leftarrow> enableLoop True (\<lambda>t. map_option Some (endAt (vc_endnames cfg) t i)) to net;
     Some (cfg\<lparr>vc_net := net\<rparr>) }"

text \<open>The second loop tests \<open>endnames[j]\<close> for the position \<open>j\<close> in \<open>from\<close> and not for the server \<open>from[j]\<close>.\<close>

definition disconnectUnlocked :: "nat \<Rightarrow> nat list \<Rightarrow> ('v, 'c, 's) svconfig \<Rightarrow> ('v, 'c, 's) svconfig option" where
  "disconnectUnlocked i from cfg = do {
     net \<leftarrow> enableLoop False (\<lambda>t. do {
         isnil \<leftarrow> nilAt (vc_endnames cfg) i;
         if \<not> isnil then map_option Some (endAt (vc_endnames cfg) i t) else Some None }) from (vc_net cfg);
     net \<leftarrow> enableLoop False (\<lambda>j. do {
         isnil \<leftarrow> nilAt (vc_endnames cfg) j;
         if \<not> isnil then map_option Some (endAt (vc_endnames cfg) (from ! j) i) else Some None }) [0..<length from] net;
     Some (cfg\<lparr>vc_net := net\<rparr>) }"

definition vc_All :: "('v, 'c, 's) svconfig \<Rightarrow> nat list" where
  "vc_All cfg = [0..<vc_n cfg]"

text \<open>A loop over servers.\<close>

primrec eachServer :: "(nat \<Rightarrow> 'a \<Rightarrow> 'a option) \<Rightarrow> nat list \<Rightarrow> 'a \<Rightarrow> 'a option" where
  "eachServer f [] cfg = Some cfg"
| "eachServer f (i # is) cfg = Option.bind (f i cfg) (eachServer f is)"

definition ConnectAll :: "('v, 'c, 's) svconfig \<Rightarrow> ('v, 'c, 's) svconfig option" where
  "ConnectAll cfg = eachServer (\<lambda>i. connectUnlocked i (vc_All cfg)) [0..<vc_n cfg] cfg"

definition isolate :: "nat list \<Rightarrow> nat list \<Rightarrow> nat \<Rightarrow> ('v, 'c, 's) svconfig \<Rightarrow> ('v, 'c, 's) svconfig option" where
  "isolate own other i cfg = Option.bind (disconnectUnlocked i other cfg) (connectUnlocked i own)"

definition vc_partition :: "nat list \<Rightarrow> nat list \<Rightarrow> ('v, 'c, 's) svconfig \<Rightarrow> ('v, 'c, 's) svconfig option" where
  "vc_partition p1 p2 cfg = do {
     cfg \<leftarrow> eachServer (isolate p1 p2) p1 cfg;
     eachServer (isolate p2 p1) p2 cfg }"

section \<open>Clerks\<close>

definition clerkEnd :: "('v, 'c, 's) svconfig \<Rightarrow> nat \<Rightarrow> nat \<Rightarrow> string option" where
  "clerkEnd cfg ck t = Option.bind (vc_clerks cfg ck) (\<lambda>es. go_idx es (int t))"

definition ConnectClientUnlocked :: "nat \<Rightarrow> nat list \<Rightarrow> ('v, 'c, 's) svconfig \<Rightarrow> ('v, 'c, 's) svconfig option" where
  "ConnectClientUnlocked ck to cfg =
     map_option (\<lambda>net. cfg\<lparr>vc_net := net\<rparr>) (enableLoop True (\<lambda>t. map_option Some (clerkEnd cfg ck t)) to (vc_net cfg))"

definition DisconnectClientUnlocked :: "nat \<Rightarrow> nat list \<Rightarrow> ('v, 'c, 's) svconfig \<Rightarrow> ('v, 'c, 's) svconfig option" where
  "DisconnectClientUnlocked ck from cfg =
     map_option (\<lambda>net. cfg\<lparr>vc_net := net\<rparr>) (enableLoop False (\<lambda>t. map_option Some (clerkEnd cfg ck t)) from (vc_net cfg))"

text \<open>The new clerk's number and the ends it is given, in a random order.\<close>

definition makeClient :: "(nat \<Rightarrow> string) \<Rightarrow> (nat \<Rightarrow> nat) \<Rightarrow> nat list \<Rightarrow> ('v, 'c, 's) svconfig
    \<Rightarrow> (('v, 'c, 's) svconfig \<times> nat \<times> string list) option" where
  "makeClient randstring r to cfg = do {
     net \<leftarrow> makeEnds randstring NInt [0..<vc_n cfg] (vc_net cfg);
     let names = map randstring [0..<vc_n cfg];
     let ck = vc_nclerks cfg;
     let cfg = cfg\<lparr>vc_net := net, vc_clerks := (vc_clerks cfg)(ck \<mapsto> names), vc_nclerks := ck + 1,
                   vc_nextClientId := vc_nextClientId cfg + 1\<rparr>;
     cfg \<leftarrow> ConnectClientUnlocked ck to cfg;
     Some (cfg, ck, random_handles r names) }"

definition deleteClient :: "nat \<Rightarrow> ('v, 'c, 's) svconfig \<Rightarrow> ('v, 'c, 's) svconfig" where
  "deleteClient ck cfg = cfg\<lparr>vc_clerks := (vc_clerks cfg)(ck := None)\<rparr>"

section \<open>Servers\<close>

definition vc_savedNow :: "('v, 'c, 's) svconfig \<Rightarrow> nat \<Rightarrow> (('c, 's) rval, 's) persister option" where
  "vc_savedNow cfg i = (case vc_servers cfg ! i of Some (_, rf) \<Rightarrow> Some (persister rf) | None \<Rightarrow> vc_saved cfg ! i)"

definition ShutdownServer :: "(('c, 's) raft \<Rightarrow> ('c, 's) raft option) \<Rightarrow> nat \<Rightarrow> ('v, 'c, 's) svconfig
    \<Rightarrow> ('v, 'c, 's) svconfig option" where
  "ShutdownServer kill i cfg = do {
     cfg \<leftarrow> disconnectUnlocked i (vc_All cfg) cfg;
     let cfg = cfg\<lparr>vc_net := DeleteServer (NInt i) (vc_net cfg)\<rparr>;
     let ps = map_option Copy (vc_savedNow cfg i);
     killed \<leftarrow> (case vc_servers cfg ! i of None \<Rightarrow> Some () | Some (_, rf) \<Rightarrow> map_option (\<lambda>_. ()) (kill rf));
     Some (cfg\<lparr>vc_saved := (vc_saved cfg)[i := ps], vc_servers := (vc_servers cfg)[i := None]\<rparr>) }"

definition vc_StartServer :: "(nat \<Rightarrow> nat \<Rightarrow> (('c, 's) rval, 's) persister \<Rightarrow> ('v \<times> ('c, 's) raft) option)
    \<Rightarrow> (nat \<Rightarrow> string) \<Rightarrow> nat \<Rightarrow> ('v, 'c, 's) svconfig \<Rightarrow> ('v, 'c, 's) svconfig option" where
  "vc_StartServer start randstring i cfg = do {
     ends \<leftarrow> go_set (vc_endnames cfg) (int i) (Some (map randstring [0..<vc_n cfg]));
     net \<leftarrow> makeEnds randstring NInt [0..<vc_n cfg] (vc_net cfg);
     let ps = (case vc_savedNow cfg i of Some p \<Rightarrow> Copy p | None \<Rightarrow> MakePersister);
     srv \<leftarrow> start (vc_n cfg) i ps;
     Some (cfg\<lparr>vc_endnames := ends, vc_net := AddServer (NInt i) (vc_next cfg) net,
               vc_saved := (vc_saved cfg)[i := Some ps], vc_servers := (vc_servers cfg)[i := Some srv],
               vc_next := vc_next cfg + 1\<rparr>) }"

definition vc_empty :: "nat \<Rightarrow> int \<Rightarrow> ('v, 'c, 's) svconfig" where
  "vc_empty n maxraftstate = \<lparr>vc_net = MakeNetwork, vc_n = n, vc_servers = replicate n None, vc_saved = replicate n None,
     vc_endnames = replicate n None, vc_clerks = Map.empty, vc_nclerks = 0, vc_nextClientId = int n + 1000,
     vc_maxraftstate = maxraftstate, vc_rpcs0 = 0, vc_ops = 0, vc_next = 0\<rparr>"

definition vc_make_config :: "(nat \<Rightarrow> nat \<Rightarrow> (('c, 's) rval, 's) persister \<Rightarrow> ('v \<times> ('c, 's) raft) option)
    \<Rightarrow> (nat \<Rightarrow> nat \<Rightarrow> string) \<Rightarrow> nat \<Rightarrow> bool \<Rightarrow> int \<Rightarrow> ('v, 'c, 's) svconfig option" where
  "vc_make_config start randstring n unreliable maxraftstate = do {
     cfg \<leftarrow> eachServer (\<lambda>i. vc_StartServer start (randstring i) i) [0..<n] (vc_empty n maxraftstate);
     cfg \<leftarrow> ConnectAll cfg;
     Some (cfg\<lparr>vc_net := Reliable (\<not> unreliable) (vc_net cfg)\<rparr>) }"

definition vc_cleanup :: "(('c, 's) raft \<Rightarrow> ('c, 's) raft option) \<Rightarrow> ('v, 'c, 's) svconfig \<Rightarrow> ('v, 'c, 's) svconfig option" where
  "vc_cleanup kill cfg = do {
     rs \<leftarrow> those (map (\<lambda>s. case s of None \<Rightarrow> Some None | Some (v, rf) \<Rightarrow> map_option (\<lambda>rf. Some (v, rf)) (kill rf)) (vc_servers cfg));
     net \<leftarrow> Cleanup (vc_net cfg);
     Some (cfg\<lparr>vc_servers := rs, vc_net := net\<rparr>) }"

text \<open>The largest log or snapshot; a server that was never started has no persister.\<close>

primrec largest :: "('p \<Rightarrow> int) \<Rightarrow> 'p option list \<Rightarrow> int \<Rightarrow> int option" where
  "largest sz [] m = Some m"
| "largest sz (p # ps) m = Option.bind p (\<lambda>p. largest sz ps (if sz p > m then sz p else m))"

definition LogSize :: "(('c, 's) rval list \<Rightarrow> nat) \<Rightarrow> ('v, 'c, 's) svconfig \<Rightarrow> int option" where
  "LogSize bytelen cfg = largest (RaftStateSize bytelen) (map (vc_savedNow cfg) [0..<vc_n cfg]) 0"

definition vc_SnapshotSize :: "('s list \<Rightarrow> nat) \<Rightarrow> ('v, 'c, 's) svconfig \<Rightarrow> int option" where
  "vc_SnapshotSize bytelen cfg = largest (SnapshotSize bytelen) (map (vc_savedNow cfg) [0..<vc_n cfg]) 0"

section \<open>Splitting off the leader\<close>

fun leaderScan :: "(nat \<times> ('v \<times> ('c, 's) raft) option) list \<Rightarrow> (bool \<times> nat) option" where
  "leaderScan [] = Some (False, 0)"
| "leaderScan ((i, None) # r) = None"
| "leaderScan ((i, Some (_, rf)) # r) = (if snd (GetState rf) then Some (True, i) else leaderScan r)"

definition vc_Leader :: "('v, 'c, 's) svconfig \<Rightarrow> (bool \<times> nat) option" where
  "vc_Leader cfg = leaderScan (zip [0..<vc_n cfg] (vc_servers cfg))"

fun fillLoop :: "nat list \<Rightarrow> nat \<Rightarrow> nat \<Rightarrow> nat list \<Rightarrow> nat list \<Rightarrow> (nat list \<times> nat list) option" where
  "fillLoop [] l j p1 p2 = Some (p1, p2)"
| "fillLoop (i # is) l j p1 p2 =
     (if i \<noteq> l then
        if j < length p1 then fillLoop is l (j + 1) (p1[j := i]) p2
        else Option.bind (go_set p2 (int j - int (length p1)) i) (fillLoop is l (j + 1) p1)
      else fillLoop is l j p1 p2)"

definition splitOff :: "nat \<Rightarrow> nat \<Rightarrow> (nat list \<times> nat list) option" where
  "splitOff n l = do {
     (p1, p2) \<leftarrow> fillLoop [0..<n] l 0 (replicate (n div 2 + 1) 0) (replicate (n div 2) 0);
     p2 \<leftarrow> go_set p2 (int (length p2) - 1) l;
     Some (p1, p2) }"

definition make_partition :: "('v, 'c, 's) svconfig \<Rightarrow> (nat list \<times> nat list) option" where
  "make_partition cfg = Option.bind (vc_Leader cfg) (\<lambda>(_, l). splitOff (vc_n cfg) l)"

section \<open>Statistics\<close>

definition vc_rpcTotal :: "('v, 'c, 's) svconfig \<Rightarrow> int" where
  "vc_rpcTotal cfg = GetTotalCount (vc_net cfg)"

definition vc_begin :: "('v, 'c, 's) svconfig \<Rightarrow> ('v, 'c, 's) svconfig" where
  "vc_begin cfg = cfg\<lparr>vc_rpcs0 := vc_rpcTotal cfg, vc_ops := 0\<rparr>"

definition vc_op :: "('v, 'c, 's) svconfig \<Rightarrow> ('v, 'c, 's) svconfig" where
  "vc_op cfg = cfg\<lparr>vc_ops := vc_ops cfg + 1\<rparr>"

text \<open>What \<open>end\<close> prints: servers, RPCs and operations.\<close>

definition vc_end :: "('v, 'c, 's) svconfig \<Rightarrow> nat \<times> int \<times> int" where
  "vc_end cfg = (vc_n cfg, vc_rpcTotal cfg - vc_rpcs0 cfg, sint (vc_ops cfg))"

section \<open>The two services\<close>

text \<open>The key/value server and the shard master as services of the harness.\<close>

type_synonym kvconfig = "(KVServer, kvop, kvval) svconfig"

definition kv_make_config :: "(nat \<Rightarrow> nat \<Rightarrow> string) \<Rightarrow> nat \<Rightarrow> bool \<Rightarrow> int \<Rightarrow> kvconfig option" where
  "kv_make_config randstring n unreliable maxraftstate =
     vc_make_config (\<lambda>n i ps. StartKVServer n i ps maxraftstate) randstring n unreliable maxraftstate"

definition kv_StartServer :: "(nat \<Rightarrow> string) \<Rightarrow> nat \<Rightarrow> kvconfig \<Rightarrow> kvconfig option" where
  "kv_StartServer randstring i cfg = vc_StartServer (\<lambda>n i ps. StartKVServer n i ps (vc_maxraftstate cfg)) randstring i cfg"

definition kv_ShutdownServer :: "nat \<Rightarrow> kvconfig \<Rightarrow> kvconfig option" where
  "kv_ShutdownServer = ShutdownServer kv_Kill"

type_synonym 's smconfig = "(ShardMaster, smop, 's) svconfig"

definition smc_make_config :: "(nat \<Rightarrow> nat \<Rightarrow> string) \<Rightarrow> nat \<Rightarrow> bool \<Rightarrow> 's smconfig option" where
  "smc_make_config randstring n unreliable = vc_make_config sm_StartServer randstring n unreliable 0"

definition smc_StartServer :: "(nat \<Rightarrow> string) \<Rightarrow> nat \<Rightarrow> 's smconfig \<Rightarrow> 's smconfig option" where
  "smc_StartServer = vc_StartServer sm_StartServer"

definition smc_ShutdownServer :: "nat \<Rightarrow> 's smconfig \<Rightarrow> 's smconfig option" where
  "smc_ShutdownServer = ShutdownServer sm_Kill"

text \<open>The rest of \<^verbatim>\<open>shardmaster/config.go\<close> is the same code, at the shard master's types.\<close>

definition kv_cleanup :: "kvconfig \<Rightarrow> kvconfig option" where
  "kv_cleanup = vc_cleanup kv_Kill"

definition smc_cleanup :: "'s smconfig \<Rightarrow> 's smconfig option" where
  "smc_cleanup = vc_cleanup sm_Kill"

definition smc_LogSize :: "((smop, 's) rval list \<Rightarrow> nat) \<Rightarrow> 's smconfig \<Rightarrow> int option" where
  "smc_LogSize = LogSize"

definition smc_connectUnlocked :: "nat \<Rightarrow> nat list \<Rightarrow> 's smconfig \<Rightarrow> 's smconfig option" where
  "smc_connectUnlocked = connectUnlocked"

definition smc_disconnectUnlocked :: "nat \<Rightarrow> nat list \<Rightarrow> 's smconfig \<Rightarrow> 's smconfig option" where
  "smc_disconnectUnlocked = disconnectUnlocked"

definition smc_ConnectAll :: "'s smconfig \<Rightarrow> 's smconfig option" where
  "smc_ConnectAll = ConnectAll"

definition smc_partition :: "nat list \<Rightarrow> nat list \<Rightarrow> 's smconfig \<Rightarrow> 's smconfig option" where
  "smc_partition = vc_partition"

definition smc_makeClient :: "(nat \<Rightarrow> string) \<Rightarrow> (nat \<Rightarrow> nat) \<Rightarrow> nat list \<Rightarrow> 's smconfig \<Rightarrow> ('s smconfig \<times> nat \<times> string list) option" where
  "smc_makeClient = makeClient"

definition smc_deleteClient :: "nat \<Rightarrow> 's smconfig \<Rightarrow> 's smconfig" where
  "smc_deleteClient = deleteClient"

definition smc_ConnectClientUnlocked :: "nat \<Rightarrow> nat list \<Rightarrow> 's smconfig \<Rightarrow> 's smconfig option" where
  "smc_ConnectClientUnlocked = ConnectClientUnlocked"

definition smc_DisconnectClientUnlocked :: "nat \<Rightarrow> nat list \<Rightarrow> 's smconfig \<Rightarrow> 's smconfig option" where
  "smc_DisconnectClientUnlocked = DisconnectClientUnlocked"

definition smc_Leader :: "'s smconfig \<Rightarrow> (bool \<times> nat) option" where
  "smc_Leader = vc_Leader"

definition smc_make_partition :: "'s smconfig \<Rightarrow> (nat list \<times> nat list) option" where
  "smc_make_partition = make_partition"

end
