(* ===== verification/ShardKV_Harness.thy ===== *)
theory ShardKV_Harness
  imports ShardKV Service_Harness
begin

text \<open>
  The test harness of the sharded service, \<^verbatim>\<open>src/src/shardkv/config.go\<close>: three shard masters, three groups of \<open>n\<close>
  servers, clerks, and one shard master clerk that tells the groups to join and leave.  All names are
  strings; every end is enabled when it is made.

  The random names are an argument: \<open>names\<close> maps what an end is for (\<open>endId\<close>) to its name.  As in the other
  harnesses a clerk's pointer is its number, \<open>saved\<close> of a running server is the persister of its peer, and
  \<open>None\<close> is a panic, a fatal error or a wait for ever.
\<close>

section \<open>Names\<close>

text \<open>\<open>strconv.Itoa\<close>.\<close>

fun digits :: "nat \<Rightarrow> string" where
  "digits k = (if k < 10 then [char_of (48 + k)] else digits (k div 10) @ [char_of (48 + k mod 10)])"

declare digits.simps [simp del]

definition Itoa :: "int \<Rightarrow> string" where
  "Itoa i = (if i < 0 then ''-'' @ digits (nat (- i)) else digits (nat i))"

definition mastername :: "nat \<Rightarrow> string" where
  "mastername i = ''master'' @ Itoa (int i)"

definition servername :: "int \<Rightarrow> nat \<Rightarrow> string" where
  "servername gid i = ''server-'' @ Itoa gid @ ''-'' @ Itoa (int i)"

section \<open>The configuration\<close>

record group =
  gg_gid :: int
  gg_servers :: "(ShardKV \<times> skvraft) option list"
  gg_saved :: "skvpersister option list"
  gg_endnames :: "string list option list"
  gg_mendnames :: "string list option list"

record 's sgconfig =
  sg_net :: "goname network"
  sg_nmasters :: nat
  sg_masters :: "(ShardMaster \<times> (smop, 's) raft) option list"
  sg_mck :: smClerk
  sg_ngroups :: nat
  sg_n :: nat
  sg_groups :: "group option list"
  sg_clerks :: "nat \<rightharpoonup> string list"
  sg_nclerks :: nat
  sg_nextClientId :: int
  sg_maxraftstate :: int
  sg_next :: nat

text \<open>What an end is for: from master or server \<open>i\<close>, from the shard master clerk, from a clerk.\<close>

datatype endId = EMaster nat nat | EShardClerk nat | EPeer nat nat nat | EMend nat nat nat | EClient nat nat | EOther nat

text \<open>Make an end, connect it, enable it; this is also the function that servers and clerks get as
  \<open>make_end\<close>.\<close>

definition make_end :: "string \<Rightarrow> string \<Rightarrow> goname network \<Rightarrow> goname network option" where
  "make_end nm srv rn = map_option (\<lambda>rn. Enable (NStr nm) True (Connect (NStr nm) (NStr srv) rn)) (MakeEnd (NStr nm) rn)"

definition openEnds :: "(nat \<Rightarrow> string) \<Rightarrow> (nat \<Rightarrow> string) \<Rightarrow> nat list \<Rightarrow> goname network \<Rightarrow> goname network option" where
  "openEnds nm srv = eachServer (\<lambda>j. make_end (nm j) (srv j))"

definition sg_group :: "nat \<Rightarrow> 's sgconfig \<Rightarrow> group option" where
  "sg_group gi cfg = Option.bind (go_idx (sg_groups cfg) (int gi)) (\<lambda>gg. gg)"

definition gg_savedNow :: "group \<Rightarrow> nat \<Rightarrow> skvpersister option" where
  "gg_savedNow gg i = (case gg_servers gg ! i of Some (_, rf) \<Rightarrow> Some (persister rf) | None \<Rightarrow> gg_saved gg ! i)"

section \<open>Clerks\<close>

text \<open>\<open>endnames\<close> has one slot for each server of a group but gets one name for each master.\<close>

primrec clientEnds :: "(nat \<Rightarrow> string) \<Rightarrow> nat list \<Rightarrow> string list \<Rightarrow> goname network \<Rightarrow> (string list \<times> goname network) option" where
  "clientEnds nm [] es rn = Some (es, rn)"
| "clientEnds nm (j # js) es rn = do {
     es \<leftarrow> go_set es (int j) (nm j);
     rn \<leftarrow> make_end (nm j) (mastername j) rn;
     clientEnds nm js es rn }"

definition sg_makeClient :: "(endId \<Rightarrow> string) \<Rightarrow> 's sgconfig \<Rightarrow> ('s sgconfig \<times> nat) option" where
  "sg_makeClient names cfg = do {
     (es, net) \<leftarrow> clientEnds (\<lambda>j. names (EClient (sg_nclerks cfg) j)) [0..<sg_nmasters cfg] (replicate (sg_n cfg) []) (sg_net cfg);
     Some (cfg\<lparr>sg_net := net, sg_clerks := (sg_clerks cfg)(sg_nclerks cfg \<mapsto> es), sg_nclerks := sg_nclerks cfg + 1,
               sg_nextClientId := sg_nextClientId cfg + 1\<rparr>, sg_nclerks cfg) }"

definition sg_deleteClient :: "nat \<Rightarrow> 's sgconfig \<Rightarrow> 's sgconfig" where
  "sg_deleteClient ck cfg = cfg\<lparr>sg_clerks := (sg_clerks cfg)(ck := None)\<rparr>"

section \<open>Servers\<close>

definition sg_ShutdownServer :: "nat \<Rightarrow> nat \<Rightarrow> 's sgconfig \<Rightarrow> 's sgconfig option" where
  "sg_ShutdownServer gi i cfg = do {
     gg \<leftarrow> sg_group gi cfg;
     net \<leftarrow> enableLoop False (\<lambda>j. map_option Some (endAt (gg_endnames gg) i j)) [0..<length (gg_servers gg)] (sg_net cfg);
     mends \<leftarrow> go_idx (gg_mendnames gg) (int i);
     net \<leftarrow> enableLoop False (\<lambda>nm. Some (Some nm)) (case mends of None \<Rightarrow> [] | Some es \<Rightarrow> es) net;
     let net = DeleteServer (NStr (servername (gg_gid gg) i)) net;
     let ps = map_option Copy (gg_savedNow gg i);
     killed \<leftarrow> (case gg_servers gg ! i of None \<Rightarrow> Some () | Some (kv, rf) \<Rightarrow> map_option (\<lambda>_. ()) (skv_Kill kv rf));
     let gg = gg\<lparr>gg_saved := (gg_saved gg)[i := ps], gg_servers := (gg_servers gg)[i := None]\<rparr>;
     Some (cfg\<lparr>sg_net := net, sg_groups := (sg_groups cfg)[gi := Some gg]\<rparr>) }"

definition ShutdownGroup :: "nat \<Rightarrow> 's sgconfig \<Rightarrow> 's sgconfig option" where
  "ShutdownGroup gi cfg = eachServer (sg_ShutdownServer gi) [0..<sg_n cfg] cfg"

definition sg_StartServer :: "(endId \<Rightarrow> string) \<Rightarrow> nat \<Rightarrow> nat \<Rightarrow> 's sgconfig \<Rightarrow> 's sgconfig option" where
  "sg_StartServer names gi i cfg = do {
     gg \<leftarrow> sg_group gi cfg;
     ends \<leftarrow> go_set (gg_endnames gg) (int i) (Some (map (\<lambda>j. names (EPeer gi i j)) [0..<sg_n cfg]));
     net \<leftarrow> openEnds (\<lambda>j. names (EPeer gi i j)) (servername (gg_gid gg)) [0..<sg_n cfg] (sg_net cfg);
     mends \<leftarrow> go_set (gg_mendnames gg) (int i) (Some (map (\<lambda>j. names (EMend gi i j)) [0..<sg_nmasters cfg]));
     net \<leftarrow> openEnds (\<lambda>j. names (EMend gi i j)) mastername [0..<sg_nmasters cfg] net;
     let ps = (case gg_savedNow gg i of Some p \<Rightarrow> Copy p | None \<Rightarrow> MakePersister);
     srv \<leftarrow> skv_StartServer (sg_n cfg) i ps (sg_maxraftstate cfg) (gg_gid gg);
     let gg = gg\<lparr>gg_endnames := ends, gg_mendnames := mends, gg_saved := (gg_saved gg)[i := Some ps],
                 gg_servers := (gg_servers gg)[i := Some srv]\<rparr>;
     Some (cfg\<lparr>sg_net := AddServer (NStr (servername (gg_gid gg) i)) (sg_next cfg) net,
               sg_groups := (sg_groups cfg)[gi := Some gg], sg_next := sg_next cfg + 1\<rparr>) }"

definition StartGroup :: "(endId \<Rightarrow> string) \<Rightarrow> nat \<Rightarrow> 's sgconfig \<Rightarrow> 's sgconfig option" where
  "StartGroup names gi cfg = eachServer (sg_StartServer names gi) [0..<sg_n cfg] cfg"

definition StartMasterServer :: "(endId \<Rightarrow> string) \<Rightarrow> nat \<Rightarrow> 's sgconfig \<Rightarrow> 's sgconfig option" where
  "StartMasterServer names i cfg = do {
     net \<leftarrow> openEnds (\<lambda>j. names (EMaster i j)) mastername [0..<sg_nmasters cfg] (sg_net cfg);
     srv \<leftarrow> sm_StartServer (sg_nmasters cfg) i MakePersister;
     ms \<leftarrow> go_set (sg_masters cfg) (int i) (Some srv);
     Some (cfg\<lparr>sg_net := AddServer (NStr (mastername i)) (sg_next cfg) net, sg_masters := ms, sg_next := sg_next cfg + 1\<rparr>) }"

definition shardclerk :: "(endId \<Rightarrow> string) \<Rightarrow> int \<Rightarrow> 's sgconfig \<Rightarrow> ('s sgconfig \<times> smClerk) option" where
  "shardclerk names nrand cfg = do {
     net \<leftarrow> openEnds (\<lambda>j. names (EShardClerk j)) mastername [0..<sg_nmasters cfg] (sg_net cfg);
     Some (cfg\<lparr>sg_net := net\<rparr>, sm_MakeClerk (sg_nmasters cfg) nrand) }"

section \<open>Joining and leaving\<close>

primrec joinMap :: "nat list \<Rightarrow> (int, string list) gomap \<Rightarrow> 's sgconfig \<Rightarrow> (int, string list) gomap option" where
  "joinMap [] m cfg = Some m"
| "joinMap (g # gis) m cfg = do {
     gg \<leftarrow> sg_group g cfg;
     joinMap gis (gm_set (gg_gid gg) (map (servername (gg_gid gg)) [0..<sg_n cfg]) m) cfg }"

definition joinm :: "nat list \<Rightarrow> (JoinArgs \<Rightarrow> (nat \<Rightarrow> bool option) list) \<Rightarrow> 's sgconfig \<Rightarrow> 's sgconfig option" where
  "joinm gis net cfg = do {
     m \<leftarrow> joinMap gis [] cfg;
     ck \<leftarrow> sm_ClerkJoin (sg_mck cfg) m net;
     Some (cfg\<lparr>sg_mck := ck\<rparr>) }"

definition join :: "nat \<Rightarrow> (JoinArgs \<Rightarrow> (nat \<Rightarrow> bool option) list) \<Rightarrow> 's sgconfig \<Rightarrow> 's sgconfig option" where
  "join gi = joinm [gi]"

definition leavem :: "nat list \<Rightarrow> (LeaveArgs \<Rightarrow> (nat \<Rightarrow> bool option) list) \<Rightarrow> 's sgconfig \<Rightarrow> 's sgconfig option" where
  "leavem gis net cfg = do {
     ggs \<leftarrow> those (map (\<lambda>g. sg_group g cfg) gis);
     ck \<leftarrow> sm_ClerkLeave (sg_mck cfg) (map gg_gid ggs) net;
     Some (cfg\<lparr>sg_mck := ck\<rparr>) }"

definition leave :: "nat \<Rightarrow> (LeaveArgs \<Rightarrow> (nat \<Rightarrow> bool option) list) \<Rightarrow> 's sgconfig \<Rightarrow> 's sgconfig option" where
  "leave gi = leavem [gi]"

section \<open>Making and checking a configuration\<close>

definition newGroup :: "nat \<Rightarrow> nat \<Rightarrow> nat \<Rightarrow> group" where
  "newGroup n nmasters gi = \<lparr>gg_gid = 100 + int gi, gg_servers = replicate n None, gg_saved = replicate n None,
     gg_endnames = replicate n None, gg_mendnames = replicate nmasters None\<rparr>"

definition makeGroup :: "(endId \<Rightarrow> string) \<Rightarrow> nat \<Rightarrow> 's sgconfig \<Rightarrow> 's sgconfig option" where
  "makeGroup names gi cfg = do {
     gs \<leftarrow> go_set (sg_groups cfg) (int gi) (Some (newGroup (sg_n cfg) (sg_nmasters cfg) gi));
     StartGroup names gi (cfg\<lparr>sg_groups := gs\<rparr>) }"

definition sg_empty :: "int \<Rightarrow> 's sgconfig" where
  "sg_empty maxraftstate = \<lparr>sg_net = MakeNetwork, sg_nmasters = 3, sg_masters = replicate 3 None, sg_mck = sm_MakeClerk 0 0,
     sg_ngroups = 0, sg_n = 0, sg_groups = [], sg_clerks = Map.empty, sg_nclerks = 0, sg_nextClientId = 0,
     sg_maxraftstate = maxraftstate, sg_next = 0\<rparr>"

definition sg_make_config :: "(endId \<Rightarrow> string) \<Rightarrow> int \<Rightarrow> nat \<Rightarrow> bool \<Rightarrow> int \<Rightarrow> 's sgconfig option" where
  "sg_make_config names nrand n unreliable maxraftstate = do {
     cfg \<leftarrow> eachServer (StartMasterServer names) [0..<3] (sg_empty maxraftstate);
     (cfg, mck) \<leftarrow> shardclerk names nrand cfg;
     cfg \<leftarrow> eachServer (makeGroup names) [0..<3] (cfg\<lparr>sg_mck := mck, sg_ngroups := 3, sg_groups := replicate 3 None, sg_n := n\<rparr>);
     Some (cfg\<lparr>sg_nextClientId := int n + 1000, sg_net := Reliable (\<not> unreliable) (sg_net cfg)\<rparr>) }"

definition sg_cleanup :: "'s sgconfig \<Rightarrow> 's sgconfig option" where
  "sg_cleanup cfg = do {
     cfg \<leftarrow> eachServer ShutdownGroup [0..<sg_ngroups cfg] cfg;
     net \<leftarrow> Cleanup (sg_net cfg);
     Some (cfg\<lparr>sg_net := net\<rparr>) }"

text \<open>Is a server's log small enough?  \<open>None\<close> in the result of a test is a fatal failure.\<close>

definition checklog1 :: "((skvop, skvval) rval list \<Rightarrow> nat) \<Rightarrow> (skvval list \<Rightarrow> nat) \<Rightarrow> int \<Rightarrow> skvpersister \<Rightarrow> bool" where
  "checklog1 rlen slen maxraftstate p \<longleftrightarrow>
     \<not> (0 \<le> maxraftstate \<and> 8 * maxraftstate < RaftStateSize rlen p)
   \<and> \<not> (maxraftstate < 0 \<and> 0 < int (slen (ReadSnapshot p)))"

definition checklogs :: "((skvop, skvval) rval list \<Rightarrow> nat) \<Rightarrow> (skvval list \<Rightarrow> nat) \<Rightarrow> 's sgconfig \<Rightarrow> 's sgconfig option" where
  "checklogs rlen slen cfg = eachServer (\<lambda>gi cfg. eachServer (\<lambda>i cfg. do {
       gg \<leftarrow> sg_group gi cfg;
       p \<leftarrow> gg_savedNow gg i;
       if checklog1 rlen slen (sg_maxraftstate cfg) p then Some cfg else None }) [0..<sg_n cfg] cfg) [0..<sg_ngroups cfg] cfg"

end
