(* ===== verification/Service_Wiring.thy ===== *)
theory Service_Wiring
  imports Service_Harness Raft_Peer "HOL-Library.Multiset"
begin

text \<open>
  What the harness of the services guarantees: after any sequence of its operations the ends of servers and
  clerks are distinct and lead to the servers they are named for (\<open>endsOK\<close>); what connecting,
  disconnecting and splitting the network do to the links; how the leader is put into a minority; what
  a restarted server finds on disk.
\<close>

section \<open>Names\<close>

text \<open>The clients are the servers (left) and the clerks (right).\<close>

definition vnames :: "('v, 'c, 's) svconfig \<Rightarrow> nat + nat \<Rightarrow> string list option" where
  "vnames cfg k = (case k of Inl i \<Rightarrow> (if i < length (vc_endnames cfg) then vc_endnames cfg ! i else None) | Inr ck \<Rightarrow> vc_clerks cfg ck)"

definition endsOK :: "('v, 'c, 's) svconfig \<Rightarrow> bool" where
  "endsOK cfg \<longleftrightarrow> length (vc_endnames cfg) = vc_n cfg \<and> length (vc_servers cfg) = vc_n cfg \<and> length (vc_saved cfg) = vc_n cfg
     \<and> connectedEnds (vc_n cfg) NInt (vnames cfg) (vc_net cfg) \<and> distinctNames (vc_n cfg) (vnames cfg)
     \<and> (\<forall>ck. vc_nclerks cfg \<le> ck \<longrightarrow> vc_clerks cfg ck = None)"

lemma vnames_cong: "vc_endnames cfg' = vc_endnames cfg \<Longrightarrow> vc_clerks cfg' = vc_clerks cfg \<Longrightarrow> vnames cfg' = vnames cfg"
  by (auto simp: vnames_def fun_eq_iff split: sum.splits)

lemma vnames_net [simp]: "vnames (cfg\<lparr>vc_net := net\<rparr>) = vnames cfg"
  by (rule vnames_cong) simp_all

lemma endsOKD:
  assumes "endsOK cfg"
  shows "length (vc_endnames cfg) = vc_n cfg" "length (vc_servers cfg) = vc_n cfg" "length (vc_saved cfg) = vc_n cfg"
    "connectedEnds (vc_n cfg) NInt (vnames cfg) (vc_net cfg)" "distinctNames (vc_n cfg) (vnames cfg)"
    "vc_nclerks cfg \<le> ck \<Longrightarrow> vc_clerks cfg ck = None"
  using assms by (auto simp: endsOK_def)

lemma endsOK_frame:
  assumes "endsOK cfg" "vc_n cfg' = vc_n cfg" "vc_endnames cfg' = vc_endnames cfg" "vc_clerks cfg' = vc_clerks cfg"
    "vc_nclerks cfg' = vc_nclerks cfg" "length (vc_servers cfg') = vc_n cfg" "length (vc_saved cfg') = vc_n cfg"
    "nw_ends (vc_net cfg') = nw_ends (vc_net cfg)" "nw_connections (vc_net cfg') = nw_connections (vc_net cfg)"
  shows "endsOK cfg'"
  using assms vnames_cong [OF assms(3,4)] by (simp add: endsOK_def connectedEnds_def)

lemma endAt_eq:
  assumes "endsOK cfg" "j < vc_n cfg"
  shows "endAt (vc_endnames cfg) i j = map_option (\<lambda>es. es ! j) (vnames cfg (Inl i))"
proof (cases "vnames cfg (Inl i)")
  case None
  then show ?thesis using assms by (auto simp: endAt_def vnames_def go_idx_def split: if_splits)
next
  case (Some es)
  then have "length es = vc_n cfg" using endsOKD(4) [OF assms(1)] by (auto simp: connectedEnds_def)
  with Some assms show ?thesis by (auto simp: endAt_def vnames_def go_idx_def split: if_splits)
qed

lemma endAt_range: "endsOK cfg \<Longrightarrow> endAt (vc_endnames cfg) i j = Some e \<Longrightarrow> i < vc_n cfg \<and> j < vc_n cfg"
  unfolding endsOK_def connectedEnds_def endAt_def
  by (auto simp: go_idx_def vnames_def split: if_splits Option.bind_split_asm dest!: spec [of _ "Inl i"])

text \<open>Is the end of client \<open>k\<close> to server \<open>j\<close> enabled?\<close>

definition up :: "('v, 'c, 's) svconfig \<Rightarrow> nat + nat \<Rightarrow> nat \<Rightarrow> bool" where
  "up cfg k j \<longleftrightarrow> (\<exists>es. vnames cfg k = Some es \<and> j < vc_n cfg \<and> nw_enabled (vc_net cfg) (NStr (es ! j)))"

text \<open>A loop over ends sets exactly the links it names.\<close>

lemma enable_up:
  assumes ok: "endsOK cfg" and run: "enableLoop b look js (vc_net cfg) = Some net"
    and hit: "\<And>j e. j \<in> set js \<Longrightarrow> look j = Some (Some e) \<Longrightarrow> \<exists>k es m. (k, m) \<in> S \<and> vnames cfg k = Some es \<and> m < vc_n cfg \<and> e = es ! m"
    and all: "\<And>k m. (k, m) \<in> S \<Longrightarrow> \<exists>es. vnames cfg k = Some es \<and> m < vc_n cfg \<and> (\<exists>j \<in> set js. look j = Some (Some (es ! m)))"
  shows "endsOK (cfg\<lparr>vc_net := net\<rparr>)" "up (cfg\<lparr>vc_net := net\<rparr>) k m \<longleftrightarrow> (if (k, m) \<in> S then b else up cfg k m)"
proof -
  have net: "net = (vc_net cfg)\<lparr>nw_enabled := \<lambda>x. if hit look js x then b else nw_enabled (vc_net cfg) x\<rparr>"
    using run [unfolded enableLoop_eq] by (cases "\<exists>j \<in> set js. look j = None") simp_all
  show "endsOK (cfg\<lparr>vc_net := net\<rparr>)"
    using endsOKD [OF ok] by (intro endsOK_frame [OF ok]) (simp_all add: net)
  have en: "nw_enabled net x \<longleftrightarrow> (if hit look js x then b else nw_enabled (vc_net cfg) x)" for x by (simp add: net)
  show "up (cfg\<lparr>vc_net := net\<rparr>) k m \<longleftrightarrow> (if (k, m) \<in> S then b else up cfg k m)"
  proof (cases "vnames cfg k")
    case None
    then show ?thesis using all [of k m] by (auto simp: up_def)
  next
    case (Some es)
    have "hit look js (NStr (es ! m)) \<longleftrightarrow> (k, m) \<in> S" if m: "m < vc_n cfg"
    proof
      assume "hit look js (NStr (es ! m))"
      then obtain k' es' m' where "(k', m') \<in> S" "vnames cfg k' = Some es'" "m' < vc_n cfg" "es ! m = es' ! m'"
        using hit unfolding hit_def by blast
      then show "(k, m) \<in> S" using endsOKD(5) [OF ok] Some m unfolding distinctNames_def by blast
    next
      assume "(k, m) \<in> S"
      then show "hit look js (NStr (es ! m))" using all [of k m] Some unfolding hit_def by force
    qed
    moreover have "(k, m) \<notin> S" if "\<not> m < vc_n cfg" using that all [of k m] by blast
    ultimately show ?thesis using Some by (auto simp: up_def en)
  qed
qed

section \<open>Connecting and disconnecting\<close>

definition named :: "('v, 'c, 's) svconfig \<Rightarrow> bool" where
  "named cfg \<longleftrightarrow> (\<forall>i < vc_n cfg. vnames cfg (Inl i) \<noteq> None)"

lemma named_net [simp]: "named (cfg\<lparr>vc_net := net\<rparr>) = named cfg"
  by (simp add: named_def)

lemma endAt_some:
  assumes "endsOK cfg"
  shows "endAt (vc_endnames cfg) i j = Some e \<longleftrightarrow> (\<exists>es. vnames cfg (Inl i) = Some es \<and> j < vc_n cfg \<and> e = es ! j)"
  using endAt_range [OF assms, of i j e] endAt_eq [OF assms, of j i] by (cases "vnames cfg (Inl i)") auto

lemma endAt_named: "endsOK cfg \<Longrightarrow> named cfg \<Longrightarrow> i < vc_n cfg \<Longrightarrow> j < vc_n cfg \<Longrightarrow> \<exists>e. endAt (vc_endnames cfg) i j = Some e"
  by (auto simp: endAt_eq named_def)

lemma nilAt_eq: "endsOK cfg \<Longrightarrow> nilAt (vc_endnames cfg) i = (if i < vc_n cfg then Some (vnames cfg (Inl i) = None) else None)"
  using endsOKD(1) [of cfg] by (auto simp: nilAt_def go_idx_def vnames_def)

lemma enableLoop_servers: "enableLoop b look js rn = Some rn' \<Longrightarrow> nw_servers rn' = nw_servers rn"
  by (auto simp: enableLoop_eq split: if_splits)

lemma disconnect_ends:
  assumes "disconnectUnlocked i from cfg = Some cfg'"
  shows "nw_ends (vc_net cfg') = nw_ends (vc_net cfg)"
proof -
  have "nw_ends rn' = nw_ends rn" if "enableLoop b look js rn = Some rn'" for b look and js :: "nat list" and rn rn'
    using that by (auto simp: enableLoop_eq split: if_splits)
  then show ?thesis using assms unfolding disconnectUnlocked_def by (fastforce split: Option.bind_split_asm)
qed

lemma enableLoop_ok: "(\<And>j. j \<in> set js \<Longrightarrow> look j \<noteq> None) \<Longrightarrow> \<exists>rn'. enableLoop b look js rn = Some rn'"
  by (auto simp: enableLoop_eq)

text \<open>A loop whose body enables or disables the end of the pair \<open>pr j\<close>, if there is one.\<close>

lemma enable_pairs:
  assumes ok: "endsOK cfg" and run: "enableLoop b look js (vc_net cfg) = Some net"
    and look: "\<And>j e. j \<in> set js \<Longrightarrow> look j = Some (Some e) \<longleftrightarrow>
       (\<exists>es. vnames cfg (fst (pr j)) = Some es \<and> snd (pr j) < vc_n cfg \<and> e = es ! snd (pr j))"
  shows "endsOK (cfg\<lparr>vc_net := net\<rparr>)"
    and "up (cfg\<lparr>vc_net := net\<rparr>) k m \<longleftrightarrow> (if (k, m) \<in> pr ` set js then b \<and> vnames cfg k \<noteq> None \<and> m < vc_n cfg else up cfg k m)"
proof -
  let ?S = "{(k, m). (k, m) \<in> pr ` set js \<and> vnames cfg k \<noteq> None \<and> m < vc_n cfg}"
  have h: "\<exists>k es m. (k, m) \<in> ?S \<and> vnames cfg k = Some es \<and> m < vc_n cfg \<and> e = es ! m"
    if hj: "j \<in> set js" "look j = Some (Some e)" for j e
  proof -
    obtain es where "vnames cfg (fst (pr j)) = Some es" "snd (pr j) < vc_n cfg" "e = es ! snd (pr j)"
      using look [OF hj(1), of e] hj(2) by auto
    moreover have "(fst (pr j), snd (pr j)) \<in> pr ` set js" using hj(1) by simp
    ultimately show ?thesis by (intro exI [of _ "fst (pr j)"] exI [of _ es] exI [of _ "snd (pr j)"]) (simp add: case_prod_beta)
  qed
  have a: "\<exists>es. vnames cfg k = Some es \<and> m < vc_n cfg \<and> (\<exists>j \<in> set js. look j = Some (Some (es ! m)))" if S: "(k, m) \<in> ?S" for k m
  proof -
    obtain j es where j: "j \<in> set js" "pr j = (k, m)" "vnames cfg k = Some es" "m < vc_n cfg" using S by auto
    then have "look j = Some (Some (es ! m))" using look [OF j(1)] by simp
    with j show ?thesis by blast
  qed
  show "endsOK (cfg\<lparr>vc_net := net\<rparr>)" by (rule enable_up(1) [OF ok run h a])
  have "up (cfg\<lparr>vc_net := net\<rparr>) k m \<longleftrightarrow> (if (k, m) \<in> ?S then b else up cfg k m)" by (rule enable_up(2) [OF ok run h a])
  moreover have "up cfg k m \<Longrightarrow> vnames cfg k \<noteq> None \<and> m < vc_n cfg" by (auto simp: up_def)
  ultimately show "up (cfg\<lparr>vc_net := net\<rparr>) k m \<longleftrightarrow> (if (k, m) \<in> pr ` set js then b \<and> vnames cfg k \<noteq> None \<and> m < vc_n cfg else up cfg k m)"
    by auto
qed

lemma connect_up:
  assumes ok: "endsOK cfg" and run: "connectUnlocked i to cfg = Some cfg'"
  shows "\<exists>net. cfg' = cfg\<lparr>vc_net := net\<rparr> \<and> nw_servers net = nw_servers (vc_net cfg) \<and> endsOK cfg'
     \<and> (\<forall>k m. up cfg' k m \<longleftrightarrow> up cfg k m \<or> k = Inl i \<and> m \<in> set to \<or> m = i \<and> k \<in> Inl ` set to)"
proof -
  obtain net1 net2 where r: "enableLoop True (\<lambda>t. map_option Some (endAt (vc_endnames cfg) i t)) to (vc_net cfg) = Some net1"
    "enableLoop True (\<lambda>t. map_option Some (endAt (vc_endnames cfg) t i)) to net1 = Some net2" "cfg' = cfg\<lparr>vc_net := net2\<rparr>"
    using run by (auto simp: connectUnlocked_def split: Option.bind_split_asm)
  let ?c = "cfg\<lparr>vc_net := net1\<rparr>"
  have n: "vnames cfg (Inl i) \<noteq> None" "t < vc_n cfg" "vnames cfg (Inl t) \<noteq> None" "i < vc_n cfg" if t: "t \<in> set to" for t
  proof -
    have "endAt (vc_endnames cfg) i t \<noteq> None" "endAt (vc_endnames cfg) t i \<noteq> None"
      using r(1,2) t by (auto simp: enableLoop_eq split: if_splits)
    then show "vnames cfg (Inl i) \<noteq> None" "t < vc_n cfg" "vnames cfg (Inl t) \<noteq> None" "i < vc_n cfg"
      using endAt_some [OF ok] by auto
  qed
  have u1: "endsOK ?c" "up ?c k m \<longleftrightarrow> (if (k, m) \<in> (\<lambda>t. (Inl i, t)) ` set to then True \<and> vnames cfg k \<noteq> None \<and> m < vc_n cfg else up cfg k m)" for k m
    by (rule enable_pairs [where pr = "\<lambda>t. (Inl i, t)", OF ok r(1)]; simp add: endAt_some [OF ok])+
  have r2: "enableLoop True (\<lambda>t. map_option Some (endAt (vc_endnames cfg) t i)) to (vc_net ?c) = Some net2" using r(2) by simp
  have u2: "endsOK (?c\<lparr>vc_net := net2\<rparr>)"
    "up (?c\<lparr>vc_net := net2\<rparr>) k m \<longleftrightarrow> (if (k, m) \<in> (\<lambda>t. (Inl t, i)) ` set to then True \<and> vnames ?c k \<noteq> None \<and> m < vc_n ?c else up ?c k m)" for k m
    by (rule enable_pairs [where pr = "\<lambda>t. (Inl t, i)", OF u1(1) r2]; simp add: endAt_some [OF ok])+
  have "up cfg' k m \<longleftrightarrow> up cfg k m \<or> k = Inl i \<and> m \<in> set to \<or> m = i \<and> k \<in> Inl ` set to" for k m
    using u2(2) [of k m] u1(2) [of k m] n by (auto simp: r(3))
  then show ?thesis using r(3) u2(1) enableLoop_servers [OF r(1)] enableLoop_servers [OF r(2)]
    by (intro exI [of _ net2]) simp
qed

lemma connect_ok:
  assumes "endsOK cfg" "named cfg" "i < vc_n cfg" "set to \<subseteq> {..<vc_n cfg}"
  shows "\<exists>cfg'. connectUnlocked i to cfg = Some cfg'"
proof -
  have e: "endAt (vc_endnames cfg) i t \<noteq> None" "endAt (vc_endnames cfg) t i \<noteq> None" if "t \<in> set to" for t
    using endAt_named [OF assms(1,2)] assms(3,4) that by (auto simp: subset_iff)
  obtain net1 where "enableLoop True (\<lambda>t. map_option Some (endAt (vc_endnames cfg) i t)) to (vc_net cfg) = Some net1"
    using enableLoop_ok [of to] e(1) by (metis (no_types, lifting) option.map_disc_iff)
  moreover obtain net2 where "enableLoop True (\<lambda>t. map_option Some (endAt (vc_endnames cfg) t i)) to net1 = Some net2"
    using enableLoop_ok [of to] e(2) by (metis (no_types, lifting) option.map_disc_iff)
  ultimately show ?thesis by (simp add: connectUnlocked_def)
qed

lemma disconnect_up:
  assumes ok: "endsOK cfg" and run: "disconnectUnlocked i from cfg = Some cfg'" and named: "named cfg"
  shows "\<exists>net. cfg' = cfg\<lparr>vc_net := net\<rparr> \<and> nw_servers net = nw_servers (vc_net cfg) \<and> endsOK cfg'
     \<and> (\<forall>k m. up cfg' k m \<longleftrightarrow> up cfg k m \<and> \<not> (k = Inl i \<and> m \<in> set from) \<and> \<not> (m = i \<and> k \<in> Inl ` set from))"
proof -
  define look1 where "look1 = (\<lambda>t. do { isnil \<leftarrow> nilAt (vc_endnames cfg) i;
     if \<not> isnil then map_option Some (endAt (vc_endnames cfg) i t) else Some None })"
  define look2 where "look2 = (\<lambda>j. do { isnil \<leftarrow> nilAt (vc_endnames cfg) j;
     if \<not> isnil then map_option Some (endAt (vc_endnames cfg) (from ! j) i) else Some None })"
  obtain net1 net2 where r: "enableLoop False look1 from (vc_net cfg) = Some net1"
    "enableLoop False look2 [0..<length from] net1 = Some net2" "cfg' = cfg\<lparr>vc_net := net2\<rparr>"
    using run unfolding disconnectUnlocked_def look1_def look2_def by (auto split: Option.bind_split_asm)
  let ?c = "cfg\<lparr>vc_net := net1\<rparr>"
  have nl: "j < vc_n cfg" if "j < length from" for j
  proof -
    have "look2 j \<noteq> None" using r(2) that by (auto simp: enableLoop_eq split: if_splits)
    then show ?thesis using nilAt_eq [OF ok, of j] by (auto simp: look2_def split: if_splits)
  qed
  have l1: "look1 t = Some (Some e) \<longleftrightarrow> (\<exists>es. vnames cfg (Inl i) = Some es \<and> t < vc_n cfg \<and> e = es ! t)" for t e
  proof (cases "i < vc_n cfg")
    case False
    then have "vnames cfg (Inl i) = None" using endsOKD(1) [OF ok] by (simp add: vnames_def)
    then show ?thesis by (simp add: look1_def nilAt_eq [OF ok] False)
  qed (auto simp: look1_def nilAt_eq [OF ok] endAt_some [OF ok])
  have l2: "look2 j = Some (Some e) \<longleftrightarrow> (\<exists>es. vnames cfg (Inl (from ! j)) = Some es \<and> i < vc_n cfg \<and> e = es ! i)"
    if "j \<in> set [0..<length from]" for j e
    using nl [of j] that named by (auto simp: look2_def nilAt_eq [OF ok] endAt_some [OF ok] named_def)
  have u1: "endsOK ?c" "up ?c k m \<longleftrightarrow> (if (k, m) \<in> (\<lambda>t. (Inl i, t)) ` set from then False \<and> vnames cfg k \<noteq> None \<and> m < vc_n cfg else up cfg k m)" for k m
    by (rule enable_pairs [where pr = "\<lambda>t. (Inl i, t)", OF ok r(1)]; simp add: l1)+
  have r2: "enableLoop False look2 [0..<length from] (vc_net ?c) = Some net2" using r(2) by simp
  have u2: "endsOK (?c\<lparr>vc_net := net2\<rparr>)"
    "up (?c\<lparr>vc_net := net2\<rparr>) k m \<longleftrightarrow> (if (k, m) \<in> (\<lambda>j. (Inl (from ! j), i)) ` set [0..<length from] then False \<and> vnames ?c k \<noteq> None \<and> m < vc_n ?c else up ?c k m)" for k m
    by (rule enable_pairs [where pr = "\<lambda>j. (Inl (from ! j), i)", OF u1(1) r2]; simp add: l2)+
  have im: "(k, m) \<in> (\<lambda>j. (Inl (from ! j), i)) ` set [0..<length from] \<longleftrightarrow> m = i \<and> k \<in> Inl ` set from" for k m
    by (force simp: image_iff in_set_conv_nth)
  have "up cfg' k m \<longleftrightarrow> up cfg k m \<and> \<not> (k = Inl i \<and> m \<in> set from) \<and> \<not> (m = i \<and> k \<in> Inl ` set from)" for k m
    using u2(2) [of k m] u1(2) [of k m] unfolding im by (auto simp: r(3))
  then show ?thesis using r(3) u2(1) enableLoop_servers [OF r(1)] enableLoop_servers [OF r(2)]
    by (intro exI [of _ net2]) simp
qed

lemma disconnect_ok:
  assumes "endsOK cfg" "named cfg" "i < vc_n cfg" "set from \<subseteq> {..<vc_n cfg}" "length from \<le> vc_n cfg"
  shows "\<exists>cfg'. disconnectUnlocked i from cfg = Some cfg'"
proof -
  have e: "endAt (vc_endnames cfg) i t \<noteq> None" "endAt (vc_endnames cfg) t i \<noteq> None" if "t \<in> set from" for t
    using endAt_named [OF assms(1,2)] assms(3,4) that by (auto simp: subset_iff)
  have "\<exists>rn'. enableLoop False (\<lambda>t. do { isnil \<leftarrow> nilAt (vc_endnames cfg) i;
     if \<not> isnil then map_option Some (endAt (vc_endnames cfg) i t) else Some None }) from rn = Some rn'" for rn
    using assms(3) e(1) by (intro enableLoop_ok) (auto simp: nilAt_eq [OF assms(1)])
  moreover have "\<exists>rn'. enableLoop False (\<lambda>j. do { isnil \<leftarrow> nilAt (vc_endnames cfg) j;
     if \<not> isnil then map_option Some (endAt (vc_endnames cfg) (from ! j) i) else Some None }) [0..<length from] rn = Some rn'" for rn
    using assms(5) e(2) by (intro enableLoop_ok) (auto simp: nilAt_eq [OF assms(1)])
  ultimately show ?thesis unfolding disconnectUnlocked_def by (metis bind.bind_lunit)
qed

section \<open>Splitting the network\<close>

text \<open>A configuration in which every server has been started once.\<close>

definition vcInv :: "('v, 'c, 's) svconfig \<Rightarrow> bool" where
  "vcInv cfg \<longleftrightarrow> endsOK cfg \<and> named cfg"

lemma isolate_up:
  assumes inv: "vcInv cfg" and i: "i < vc_n cfg" and own: "set own \<subseteq> {..<vc_n cfg}"
    and other: "set other \<subseteq> {..<vc_n cfg}" "length other \<le> vc_n cfg"
  shows "\<exists>net. isolate own other i cfg = Some (cfg\<lparr>vc_net := net\<rparr>) \<and> vcInv (cfg\<lparr>vc_net := net\<rparr>) \<and> nw_servers net = nw_servers (vc_net cfg)
     \<and> (\<forall>k m. up (cfg\<lparr>vc_net := net\<rparr>) k m \<longleftrightarrow>
          up cfg k m \<and> \<not> (k = Inl i \<and> m \<in> set other) \<and> \<not> (m = i \<and> k \<in> Inl ` set other)
          \<or> k = Inl i \<and> m \<in> set own \<or> m = i \<and> k \<in> Inl ` set own)"
proof -
  have ok: "endsOK cfg" "named cfg" using inv by (simp_all add: vcInv_def)
  obtain net1 where d: "disconnectUnlocked i other cfg = Some (cfg\<lparr>vc_net := net1\<rparr>)" "nw_servers net1 = nw_servers (vc_net cfg)"
    "endsOK (cfg\<lparr>vc_net := net1\<rparr>)"
    "\<And>k m. up (cfg\<lparr>vc_net := net1\<rparr>) k m \<longleftrightarrow> up cfg k m \<and> \<not> (k = Inl i \<and> m \<in> set other) \<and> \<not> (m = i \<and> k \<in> Inl ` set other)"
    using disconnect_ok [OF ok i other] disconnect_up [OF ok(1) _ ok(2)] by blast
  let ?c = "cfg\<lparr>vc_net := net1\<rparr>"
  obtain cfg2 where "connectUnlocked i own ?c = Some cfg2" using connect_ok [OF d(3), of i own] ok(2) i own by auto
  with connect_up [OF d(3) this] obtain net2 where c: "connectUnlocked i own ?c = Some (?c\<lparr>vc_net := net2\<rparr>)"
    "nw_servers net2 = nw_servers (vc_net ?c)" "endsOK (?c\<lparr>vc_net := net2\<rparr>)"
    "\<And>k m. up (?c\<lparr>vc_net := net2\<rparr>) k m \<longleftrightarrow> up ?c k m \<or> k = Inl i \<and> m \<in> set own \<or> m = i \<and> k \<in> Inl ` set own"
    by blast
  show ?thesis
  proof (intro exI [of _ net2] conjI allI)
    show "isolate own other i cfg = Some (cfg\<lparr>vc_net := net2\<rparr>)" using d(1) c(1) by (simp add: isolate_def)
    show "vcInv (cfg\<lparr>vc_net := net2\<rparr>)" using c(3) ok(2) by (simp add: vcInv_def)
    show "nw_servers net2 = nw_servers (vc_net cfg)" using c(2) d(2) by simp
  qed (use c(4) d(4) in simp)
qed

lemma isolate_each:
  assumes "vcInv cfg" "set is \<subseteq> set own" "set own \<subseteq> {..<vc_n cfg}" "set other \<subseteq> {..<vc_n cfg}" "length other \<le> vc_n cfg"
    and "set own \<inter> set other = {}"
  shows "\<exists>net. eachServer (isolate own other) is cfg = Some (cfg\<lparr>vc_net := net\<rparr>) \<and> vcInv (cfg\<lparr>vc_net := net\<rparr>)
     \<and> nw_servers net = nw_servers (vc_net cfg)
     \<and> (\<forall>k m. up (cfg\<lparr>vc_net := net\<rparr>) k m \<longleftrightarrow>
          up cfg k m \<and> \<not> (k \<in> Inl ` set is \<and> m \<in> set other) \<and> \<not> (m \<in> set is \<and> k \<in> Inl ` set other)
          \<or> k \<in> Inl ` set is \<and> m \<in> set own \<or> m \<in> set is \<and> k \<in> Inl ` set own)"
  using assms
proof (induction "is" arbitrary: cfg)
  case Nil
  show ?case using Nil.prems(1) by (intro exI [of _ "vc_net cfg"]) simp
next
  case (Cons i "is")
  have i: "i < vc_n cfg" using Cons.prems(2,3) by auto
  obtain net1 where s: "isolate own other i cfg = Some (cfg\<lparr>vc_net := net1\<rparr>)" "vcInv (cfg\<lparr>vc_net := net1\<rparr>)" "nw_servers net1 = nw_servers (vc_net cfg)"
    "\<And>k m. up (cfg\<lparr>vc_net := net1\<rparr>) k m \<longleftrightarrow>
          up cfg k m \<and> \<not> (k = Inl i \<and> m \<in> set other) \<and> \<not> (m = i \<and> k \<in> Inl ` set other)
          \<or> k = Inl i \<and> m \<in> set own \<or> m = i \<and> k \<in> Inl ` set own"
    using isolate_up [OF Cons.prems(1) i Cons.prems(3-5)] by blast
  let ?c = "cfg\<lparr>vc_net := net1\<rparr>"
  obtain net2 where t: "eachServer (isolate own other) is ?c = Some (?c\<lparr>vc_net := net2\<rparr>)" "vcInv (?c\<lparr>vc_net := net2\<rparr>)"
    "nw_servers net2 = nw_servers (vc_net ?c)"
    "\<And>k m. up (?c\<lparr>vc_net := net2\<rparr>) k m \<longleftrightarrow>
          up ?c k m \<and> \<not> (k \<in> Inl ` set is \<and> m \<in> set other) \<and> \<not> (m \<in> set is \<and> k \<in> Inl ` set other)
          \<or> k \<in> Inl ` set is \<and> m \<in> set own \<or> m \<in> set is \<and> k \<in> Inl ` set own"
    using Cons.IH [OF s(2)] Cons.prems by auto
  show ?case
  proof (intro exI [of _ net2] conjI allI)
    show "eachServer (isolate own other) (i # is) cfg = Some (cfg\<lparr>vc_net := net2\<rparr>)" using s(1) t(1) by simp
    show "vcInv (cfg\<lparr>vc_net := net2\<rparr>)" using t(2) by simp
    show "nw_servers net2 = nw_servers (vc_net cfg)" using t(3) s(3) by simp
    fix k m
    have d: "j \<notin> set other" if "j = i \<or> j \<in> set is" for j using Cons.prems(2,6) that by auto
    have u: "up (cfg\<lparr>vc_net := net2\<rparr>) k m \<longleftrightarrow> up (?c\<lparr>vc_net := net2\<rparr>) k m" by simp
    show "up (cfg\<lparr>vc_net := net2\<rparr>) k m \<longleftrightarrow>
          up cfg k m \<and> \<not> (k \<in> Inl ` set (i # is) \<and> m \<in> set other) \<and> \<not> (m \<in> set (i # is) \<and> k \<in> Inl ` set other)
          \<or> k \<in> Inl ` set (i # is) \<and> m \<in> set own \<or> m \<in> set (i # is) \<and> k \<in> Inl ` set own"
      unfolding u t(4) s(4) using Cons.prems(2,6) by auto
  qed
qed

lemma partition_up:
  assumes inv: "vcInv cfg" and sub: "set p1 \<subseteq> {..<vc_n cfg}" "set p2 \<subseteq> {..<vc_n cfg}"
    and len: "length p1 \<le> vc_n cfg" "length p2 \<le> vc_n cfg" and dis: "set p1 \<inter> set p2 = {}"
  shows "\<exists>net. vc_partition p1 p2 cfg = Some (cfg\<lparr>vc_net := net\<rparr>) \<and> vcInv (cfg\<lparr>vc_net := net\<rparr>) \<and> nw_servers net = nw_servers (vc_net cfg)
     \<and> (\<forall>i j. up (cfg\<lparr>vc_net := net\<rparr>) (Inl i) j \<longleftrightarrow>
          i \<in> set p1 \<and> j \<in> set p1 \<or> i \<in> set p2 \<and> j \<in> set p2
          \<or> up cfg (Inl i) j \<and> \<not> (i \<in> set p1 \<and> j \<in> set p2) \<and> \<not> (i \<in> set p2 \<and> j \<in> set p1))
     \<and> (\<forall>ck j. up (cfg\<lparr>vc_net := net\<rparr>) (Inr ck) j \<longleftrightarrow> up cfg (Inr ck) j)"
proof -
  obtain net1 where a: "eachServer (isolate p1 p2) p1 cfg = Some (cfg\<lparr>vc_net := net1\<rparr>)" "vcInv (cfg\<lparr>vc_net := net1\<rparr>)"
    "nw_servers net1 = nw_servers (vc_net cfg)"
    "\<And>k m. up (cfg\<lparr>vc_net := net1\<rparr>) k m \<longleftrightarrow>
          up cfg k m \<and> \<not> (k \<in> Inl ` set p1 \<and> m \<in> set p2) \<and> \<not> (m \<in> set p1 \<and> k \<in> Inl ` set p2)
          \<or> k \<in> Inl ` set p1 \<and> m \<in> set p1 \<or> m \<in> set p1 \<and> k \<in> Inl ` set p1"
    using isolate_each [OF inv order_refl sub len(2) dis] by blast
  let ?c = "cfg\<lparr>vc_net := net1\<rparr>"
  have "set p2 \<inter> set p1 = {}" using dis by blast
  then obtain net2 where b: "eachServer (isolate p2 p1) p2 ?c = Some (?c\<lparr>vc_net := net2\<rparr>)" "vcInv (?c\<lparr>vc_net := net2\<rparr>)"
    "nw_servers net2 = nw_servers (vc_net ?c)"
    "\<And>k m. up (?c\<lparr>vc_net := net2\<rparr>) k m \<longleftrightarrow>
          up ?c k m \<and> \<not> (k \<in> Inl ` set p2 \<and> m \<in> set p1) \<and> \<not> (m \<in> set p2 \<and> k \<in> Inl ` set p1)
          \<or> k \<in> Inl ` set p2 \<and> m \<in> set p2 \<or> m \<in> set p2 \<and> k \<in> Inl ` set p2"
    using isolate_each [OF a(2) order_refl, of p2 p1] sub len by auto
  have u: "up (cfg\<lparr>vc_net := net2\<rparr>) k m \<longleftrightarrow> up (?c\<lparr>vc_net := net2\<rparr>) k m" for k m by simp
  show ?thesis
  proof (intro exI [of _ net2] conjI allI)
    show "vc_partition p1 p2 cfg = Some (cfg\<lparr>vc_net := net2\<rparr>)" using a(1) b(1) by (simp add: vc_partition_def)
    show "vcInv (cfg\<lparr>vc_net := net2\<rparr>)" using b(2) by simp
    show "nw_servers net2 = nw_servers (vc_net cfg)" using a(3) b(3) by simp
    show "up (cfg\<lparr>vc_net := net2\<rparr>) (Inl i) j \<longleftrightarrow>
          i \<in> set p1 \<and> j \<in> set p1 \<or> i \<in> set p2 \<and> j \<in> set p2
          \<or> up cfg (Inl i) j \<and> \<not> (i \<in> set p1 \<and> j \<in> set p2) \<and> \<not> (i \<in> set p2 \<and> j \<in> set p1)" for i j
      unfolding u b(4) a(4) using dis by auto
    show "up (cfg\<lparr>vc_net := net2\<rparr>) (Inr ck) j \<longleftrightarrow> up cfg (Inr ck) j" for ck j unfolding u b(4) a(4) by auto
  qed
qed

section \<open>Every operation keeps the ends in order\<close>

lemma eachServer_inv:
  "(\<And>i c c'. P c \<Longrightarrow> f i c = Some c' \<Longrightarrow> P c') \<Longrightarrow> P cfg \<Longrightarrow> eachServer f is cfg = Some cfg' \<Longrightarrow> P cfg'"
  by (induction "is" arbitrary: cfg) (auto split: Option.bind_split_asm)

lemma vcInv_connect: "vcInv cfg \<Longrightarrow> connectUnlocked i to cfg = Some cfg' \<Longrightarrow> vcInv cfg'"
  using connect_up [of cfg i to cfg'] by (auto simp: vcInv_def)

lemma vcInv_disconnect: "vcInv cfg \<Longrightarrow> disconnectUnlocked i from cfg = Some cfg' \<Longrightarrow> vcInv cfg'"
  using disconnect_up [of cfg i "from" cfg'] by (auto simp: vcInv_def)

lemma vcInv_isolate: "vcInv cfg \<Longrightarrow> isolate own other i cfg = Some cfg' \<Longrightarrow> vcInv cfg'"
  by (auto simp: isolate_def split: Option.bind_split_asm intro: vcInv_connect vcInv_disconnect)

lemma vcInv_partition:
  assumes "vcInv cfg" "vc_partition p1 p2 cfg = Some cfg'"
  shows "vcInv cfg'"
proof -
  obtain c where c: "eachServer (isolate p1 p2) p1 cfg = Some c" "eachServer (isolate p2 p1) p2 c = Some cfg'"
    using assms(2) by (auto simp: vc_partition_def split: Option.bind_split_asm)
  have i: "vcInv c" by (rule eachServer_inv [where P = vcInv, OF vcInv_isolate assms(1) c(1)])
  show ?thesis by (rule eachServer_inv [where P = vcInv, OF vcInv_isolate i c(2)])
qed

lemma endsOK_connectAll:
  assumes "endsOK cfg" "ConnectAll cfg = Some cfg'"
  shows "endsOK cfg' \<and> vc_endnames cfg' = vc_endnames cfg \<and> vc_n cfg' = vc_n cfg"
  using eachServer_inv [where P = "\<lambda>c. endsOK c \<and> vc_endnames c = vc_endnames cfg \<and> vc_n c = vc_n cfg", OF _ _ assms(2) [unfolded ConnectAll_def]]
    assms(1) connect_up by fastforce

lemma named_endnames: "vc_endnames cfg' = vc_endnames cfg \<Longrightarrow> vc_n cfg' = vc_n cfg \<Longrightarrow> named cfg' = named cfg"
  by (simp add: named_def vnames_def)

lemma vcInv_frame:
  assumes "vcInv cfg" "vc_n cfg' = vc_n cfg" "vc_endnames cfg' = vc_endnames cfg" "vc_clerks cfg' = vc_clerks cfg"
    "vc_nclerks cfg' = vc_nclerks cfg" "length (vc_servers cfg') = vc_n cfg" "length (vc_saved cfg') = vc_n cfg"
    "nw_ends (vc_net cfg') = nw_ends (vc_net cfg)" "nw_connections (vc_net cfg') = nw_connections (vc_net cfg)"
  shows "vcInv cfg'"
  using assms(1) endsOK_frame [OF _ assms(2-9)] named_endnames [OF assms(3,2)] by (simp add: vcInv_def)

lemma vcInvD: "vcInv cfg \<Longrightarrow> length (vc_servers cfg) = vc_n cfg" "vcInv cfg \<Longrightarrow> length (vc_saved cfg) = vc_n cfg"
  using endsOKD(2,3) [of cfg] by (simp_all add: vcInv_def)

lemma vcInv_connectAll: "vcInv cfg \<Longrightarrow> ConnectAll cfg = Some cfg' \<Longrightarrow> vcInv cfg'"
  using endsOK_connectAll [of cfg cfg'] named_endnames [of cfg' cfg] by (simp add: vcInv_def)

text \<open>Loops over the ends of a clerk.\<close>

lemma clerk_frame:
  assumes "enableLoop b look js (vc_net cfg) = Some net" "vcInv cfg"
  shows "vcInv (cfg\<lparr>vc_net := net\<rparr>)"
  using assms vcInvD by (intro vcInv_frame [OF assms(2)]) (auto simp: enableLoop_eq split: if_splits)

lemma vcInv_connectClient: "vcInv cfg \<Longrightarrow> ConnectClientUnlocked ck to cfg = Some cfg' \<Longrightarrow> vcInv cfg'"
  unfolding ConnectClientUnlocked_def by (auto intro: clerk_frame)

lemma vcInv_disconnectClient: "vcInv cfg \<Longrightarrow> DisconnectClientUnlocked ck from cfg = Some cfg' \<Longrightarrow> vcInv cfg'"
  unfolding DisconnectClientUnlocked_def by (auto intro: clerk_frame)

lemma vnames_clerk: "vnames (cfg\<lparr>vc_net := net, vc_clerks := (vc_clerks cfg)(ck := es), vc_nclerks := c, vc_nextClientId := d\<rparr>)
    = (vnames cfg)(Inr ck := es)"
  by (auto simp: vnames_def fun_eq_iff split: sum.splits)

lemma vcInv_makeClient:
  assumes inv: "vcInv cfg" and run: "makeClient rs r to cfg = Some (cfg', ck, hs)"
  shows "vcInv cfg'"
proof -
  let ?ck = "vc_nclerks cfg" and ?es = "map rs [0..<vc_n cfg]"
  have ok: "endsOK cfg" "named cfg" using inv by (simp_all add: vcInv_def)
  obtain net where mk: "makeEnds rs NInt [0..<vc_n cfg] (vc_net cfg) = Some net"
    and cn: "ConnectClientUnlocked ?ck to (cfg\<lparr>vc_net := net, vc_clerks := (vc_clerks cfg)(?ck \<mapsto> ?es), vc_nclerks := ?ck + 1,
                   vc_nextClientId := vc_nextClientId cfg + 1\<rparr>) = Some cfg'"
    using run by (auto simp: makeClient_def Let_def split: Option.bind_split_asm)
  let ?c = "cfg\<lparr>vc_net := net, vc_clerks := (vc_clerks cfg)(?ck \<mapsto> ?es), vc_nclerks := ?ck + 1, vc_nextClientId := vc_nextClientId cfg + 1\<rparr>"
  have "endsOK ?c"
    unfolding endsOK_def vnames_clerk using endsOKD [OF ok(1)] ends_makeEnds [OF endsOKD(4,5) [OF ok(1)] mk, of "Inr ?ck"] by simp
  moreover have "named ?c" using named_endnames [of ?c cfg] ok(2) by simp
  ultimately show ?thesis using cn by (intro vcInv_connectClient [OF _ cn]) (simp add: vcInv_def)
qed

lemma vcInv_deleteClient:
  assumes "vcInv cfg"
  shows "vcInv (deleteClient ck cfg)"
proof -
  have vn: "vnames (deleteClient ck cfg) = (vnames cfg)(Inr ck := None)"
    by (auto simp: vnames_def deleteClient_def fun_eq_iff split: sum.splits)
  have ok: "endsOK cfg" using assms by (simp add: vcInv_def)
  have "connectedEnds (vc_n cfg) NInt ((vnames cfg)(Inr ck := None)) (vc_net cfg)"
    using endsOKD(4) [OF ok] by (simp add: connectedEnds_def)
  moreover have "distinctNames (vc_n cfg) ((vnames cfg)(Inr ck := None))"
    using endsOKD(5) [OF ok] unfolding distinctNames_def fun_upd_apply by (metis option.distinct(1))
  ultimately have "endsOK (deleteClient ck cfg)"
    unfolding endsOK_def vn using endsOKD [OF ok] by (simp add: deleteClient_def)
  then show ?thesis using assms named_endnames [of "deleteClient ck cfg" cfg] by (simp add: vcInv_def deleteClient_def)
qed

lemma start_ends:
  assumes ok: "endsOK cfg" and run: "vc_StartServer start rs i cfg = Some cfg'"
  shows "endsOK cfg' \<and> i < vc_n cfg \<and> vc_n cfg' = vc_n cfg \<and> vnames cfg' = (vnames cfg)(Inl i := Some (map rs [0..<vc_n cfg]))"
proof -
  let ?es = "map rs [0..<vc_n cfg]"
  have i: "i < vc_n cfg" using run endsOKD(1) [OF ok] by (auto simp: vc_StartServer_def go_set_def split: if_splits)
  obtain net srv ps where mk: "makeEnds rs NInt [0..<vc_n cfg] (vc_net cfg) = Some net"
    and c: "cfg' = cfg\<lparr>vc_endnames := (vc_endnames cfg)[i := Some ?es], vc_net := AddServer (NInt i) (vc_next cfg) net,
       vc_saved := (vc_saved cfg)[i := Some ps], vc_servers := (vc_servers cfg)[i := Some srv], vc_next := vc_next cfg + 1\<rparr>"
    using run i endsOKD(1) [OF ok] by (auto simp: vc_StartServer_def go_set_def Let_def split: Option.bind_split_asm)
  have vn: "vnames cfg' = (vnames cfg)(Inl i := Some ?es)"
    using i endsOKD(1) [OF ok] by (auto simp: c vnames_def fun_eq_iff split: sum.splits)
  have "connectedEnds (vc_n cfg) NInt (vnames cfg') (AddServer (NInt i) (vc_next cfg) net)" "distinctNames (vc_n cfg) (vnames cfg')"
    unfolding vn using ends_makeEnds [OF endsOKD(4,5) [OF ok] mk, of "Inl i"] by (simp_all add: connectedEnds_def AddServer_def)
  then have "endsOK cfg'" unfolding endsOK_def using endsOKD [OF ok] by (simp add: c)
  then show ?thesis using i vn by (simp add: c)
qed

lemma vcInv_start:
  assumes "vcInv cfg" "vc_StartServer start rs i cfg = Some cfg'"
  shows "vcInv cfg'"
  using start_ends [OF _ assms(2)] assms(1) by (simp add: vcInv_def named_def)

lemma endsOK_empty: "endsOK (vc_empty n mrs)"
  by (auto simp: endsOK_def vc_empty_def connectedEnds_def distinctNames_def vnames_def split: sum.splits if_splits)

lemma start_each:
  assumes "endsOK cfg" "eachServer (\<lambda>i. vc_StartServer start (rs i) i) is cfg = Some cfg'"
  shows "endsOK cfg' \<and> vc_n cfg' = vc_n cfg \<and> (\<forall>i. i \<in> set is \<or> vnames cfg (Inl i) \<noteq> None \<longrightarrow> vnames cfg' (Inl i) \<noteq> None)"
  using assms
proof (induction "is" arbitrary: cfg)
  case (Cons i "is")
  obtain c where c: "vc_StartServer start (rs i) i cfg = Some c" "eachServer (\<lambda>i. vc_StartServer start (rs i) i) is c = Some cfg'"
    using Cons.prems(2) by (auto split: Option.bind_split_asm)
  note s = start_ends [OF Cons.prems(1) c(1)]
  show ?case using Cons.IH [OF s [THEN conjunct1] c(2)] s by auto
qed simp

lemma vcInv_make:
  assumes "vc_make_config start rs n unrel mrs = Some cfg"
  shows "vcInv cfg \<and> vc_n cfg = n"
proof -
  obtain c d where c: "eachServer (\<lambda>i. vc_StartServer start (rs i) i) [0..<n] (vc_empty n mrs) = Some c" "ConnectAll c = Some d"
    "cfg = d\<lparr>vc_net := Reliable (\<not> unrel) (vc_net d)\<rparr>"
    using assms by (auto simp: vc_make_config_def split: Option.bind_split_asm)
  have n: "vc_n (vc_empty n mrs) = n" by (simp add: vc_empty_def)
  have "endsOK c" "vc_n c = n" "named c" using start_each [OF endsOK_empty c(1)] unfolding n by (simp_all add: named_def)
  then have d: "vcInv d" "vc_n d = n" using vcInv_connectAll [OF _ c(2)] endsOK_connectAll [OF _ c(2)] by (simp_all add: vcInv_def)
  then have "vcInv cfg" using vcInvD [OF d(1)] by (intro vcInv_frame [OF d(1)]) (simp_all add: c(3) Reliable_def)
  with d show ?thesis by (simp add: c(3))
qed

text \<open>Shutting down a running server; nothing of its state on disk is lost.\<close>

lemma shutdown_spec:
  assumes inv: "vcInv cfg" and i: "i < vc_n cfg" and srv: "vc_servers cfg ! i = Some (v, rf)" and kill: "kill rf \<noteq> None"
  shows "\<exists>net. ShutdownServer kill i cfg = Some (cfg\<lparr>vc_net := net, vc_saved := (vc_saved cfg)[i := Some (persister rf)],
       vc_servers := (vc_servers cfg)[i := None]\<rparr>) \<and> nw_servers net (NInt i) = None \<and> nw_ends net = nw_ends (vc_net cfg)"
proof -
  have ok: "endsOK cfg" "named cfg" using inv by (simp_all add: vcInv_def)
  have all: "set (vc_All cfg) \<subseteq> {..<vc_n cfg}" "length (vc_All cfg) \<le> vc_n cfg" by (auto simp: vc_All_def)
  obtain c where c: "disconnectUnlocked i (vc_All cfg) cfg = Some c" using disconnect_ok [OF ok i all] by blast
  obtain net where n: "c = cfg\<lparr>vc_net := net\<rparr>" using disconnect_up [OF ok(1) c ok(2)] by blast
  have "nw_ends net = nw_ends (vc_net cfg)"
    using disconnect_ends [OF c] by (simp add: n)
  then show ?thesis using kill srv c
    by (intro exI [of _ "DeleteServer (NInt i) net"]) (auto simp: ShutdownServer_def n Let_def vc_savedNow_def Copy_same DeleteServer_def)
qed

lemma vcInv_shutdown:
  assumes "vcInv cfg" "ShutdownServer kill i cfg = Some cfg'"
  shows "vcInv cfg'"
proof -
  obtain c where c: "disconnectUnlocked i (vc_All cfg) cfg = Some c"
    using assms(2) by (auto simp: ShutdownServer_def split: Option.bind_split_asm)
  have i: "vcInv c" by (rule vcInv_disconnect [OF assms(1) c])
  show ?thesis using assms(2) vcInvD [OF i] c
    by (intro vcInv_frame [OF i]) (auto simp: ShutdownServer_def Let_def DeleteServer_def split: Option.bind_split_asm)
qed

section \<open>Reachable configurations\<close>

text \<open>What a test can do with a configuration; \<open>VServer\<close> is any step of a running server.\<close>

datatype ('v, 'c, 's) vevent =
    VConnect nat "nat list"
  | VDisconnect nat "nat list"
  | VConnectAll
  | VPartition "nat list" "nat list"
  | VMakeClient "nat \<Rightarrow> string" "nat \<Rightarrow> nat" "nat list"
  | VDeleteClient nat
  | VConnectClient nat "nat list"
  | VDisconnectClient nat "nat list"
  | VShutdown nat
  | VStart "nat \<Rightarrow> string" nat
  | VServer nat "'v \<times> ('c, 's) raft"
  | VBegin
  | VOp

type_synonym ('v, 'c, 's) starter = "nat \<Rightarrow> nat \<Rightarrow> (('c, 's) rval, 's) persister \<Rightarrow> ('v \<times> ('c, 's) raft) option"
type_synonym ('c, 's) killer = "('c, 's) raft \<Rightarrow> ('c, 's) raft option"

fun vstep :: "('v, 'c, 's) starter \<Rightarrow> ('c, 's) killer \<Rightarrow> ('v, 'c, 's) svconfig \<Rightarrow> ('v, 'c, 's) vevent \<Rightarrow> ('v, 'c, 's) svconfig option" where
  "vstep start kill cfg (VConnect i to) = connectUnlocked i to cfg"
| "vstep start kill cfg (VDisconnect i from) = disconnectUnlocked i from cfg"
| "vstep start kill cfg VConnectAll = ConnectAll cfg"
| "vstep start kill cfg (VPartition p1 p2) = vc_partition p1 p2 cfg"
| "vstep start kill cfg (VMakeClient rs r to) = map_option fst (makeClient rs r to cfg)"
| "vstep start kill cfg (VDeleteClient ck) = Some (deleteClient ck cfg)"
| "vstep start kill cfg (VConnectClient ck to) = ConnectClientUnlocked ck to cfg"
| "vstep start kill cfg (VDisconnectClient ck from) = DisconnectClientUnlocked ck from cfg"
| "vstep start kill cfg (VShutdown i) = ShutdownServer kill i cfg"
| "vstep start kill cfg (VStart rs i) = vc_StartServer start rs i cfg"
| "vstep start kill cfg (VServer i srv) =
     (if i < vc_n cfg \<and> vc_servers cfg ! i \<noteq> None then Some (cfg\<lparr>vc_servers := (vc_servers cfg)[i := Some srv]\<rparr>) else None)"
| "vstep start kill cfg VBegin = Some (vc_begin cfg)"
| "vstep start kill cfg VOp = Some (vc_op cfg)"

primrec vrun :: "('v, 'c, 's) starter \<Rightarrow> ('c, 's) killer \<Rightarrow> ('v, 'c, 's) svconfig \<Rightarrow> ('v, 'c, 's) vevent list \<Rightarrow> ('v, 'c, 's) svconfig option" where
  "vrun start kill cfg [] = Some cfg"
| "vrun start kill cfg (e # es) = Option.bind (vstep start kill cfg e) (\<lambda>cfg. vrun start kill cfg es)"

definition vcReach :: "('v, 'c, 's) starter \<Rightarrow> ('c, 's) killer \<Rightarrow> ('v, 'c, 's) svconfig \<Rightarrow> bool" where
  "vcReach start kill cfg \<longleftrightarrow> (\<exists>rs n unrel mrs cfg0 es. vc_make_config start rs n unrel mrs = Some cfg0 \<and> vrun start kill cfg0 es = Some cfg)"

lemma vcInv_step:
  assumes inv: "vcInv cfg" and run: "vstep start kill cfg e = Some cfg'"
  shows "vcInv cfg'"
proof (cases e)
  case (VServer i srv)
  then have "cfg' = cfg\<lparr>vc_servers := (vc_servers cfg)[i := Some srv]\<rparr>" using run by (simp split: if_splits)
  with vcInvD [OF inv] show ?thesis by (intro vcInv_frame [OF inv]) simp_all
next
  case VBegin
  with run vcInvD [OF inv] show ?thesis by (intro vcInv_frame [OF inv]) (auto simp: vc_begin_def)
next
  case VOp
  with run vcInvD [OF inv] show ?thesis by (intro vcInv_frame [OF inv]) (auto simp: vc_op_def)
next
  case (VMakeClient rs r to)
  with run obtain ck hs where "makeClient rs r to cfg = Some (cfg', ck, hs)" by auto
  with inv show ?thesis by (rule vcInv_makeClient)
next
  case VDeleteClient
  with run vcInv_deleteClient [OF inv] show ?thesis by auto
qed (use run in \<open>simp_all add: vcInv_connect [OF inv] vcInv_disconnect [OF inv] vcInv_connectAll [OF inv] vcInv_partition [OF inv]
  vcInv_connectClient [OF inv] vcInv_disconnectClient [OF inv] vcInv_shutdown [OF inv] vcInv_start [OF inv]\<close>)

lemma vcInv_run: "vcInv cfg \<Longrightarrow> vrun start kill cfg es = Some cfg' \<Longrightarrow> vcInv cfg'"
  by (induction es arbitrary: cfg) (auto split: Option.bind_split_asm intro: vcInv_step)

lemma vcReach_inv: "vcReach start kill cfg \<Longrightarrow> vcInv cfg"
  using vcInv_run vcInv_make unfolding vcReach_def by blast

text \<open>Requests over a link: only an enabled end to a running server is served.\<close>

lemma processBegin_up:
  assumes "vcInv cfg" "vnames cfg k = Some es" "j < vc_n cfg" "rq_endname req = NStr (es ! j)"
  shows "processBegin (vc_net cfg) req False = Unreachable \<longleftrightarrow> \<not> (up cfg k j \<and> nw_servers (vc_net cfg) (NInt j) \<noteq> None)"
proof -
  have "nw_connections (vc_net cfg) (rq_endname req) = Some (NInt j)"
    using assms endsOKD(4) [of cfg] by (simp add: vcInv_def connectedEnds_def)
  moreover have "up cfg k j \<longleftrightarrow> nw_enabled (vc_net cfg) (rq_endname req)" using assms by (simp add: up_def)
  ultimately show ?thesis using begin_end(1) [of "vc_net cfg" req "NInt j"] by simp
qed

text \<open>C37. In every configuration of the service harness that a test can produce, splitting the servers into two disjoint
  groups succeeds.  Afterwards servers of one group have links to each other in both directions, there is no
  link between the groups (a request over such an end is unreachable, and within a group it reaches a
  running server), and all other links, in particular those of the clerks, are as before.\<close>

theorem partition_isolates:
  assumes "vcReach start kill cfg" "set p1 \<subseteq> {..<vc_n cfg}" "set p2 \<subseteq> {..<vc_n cfg}"
    and "length p1 \<le> vc_n cfg" "length p2 \<le> vc_n cfg" "set p1 \<inter> set p2 = {}"
  shows "\<exists>cfg'. vc_partition p1 p2 cfg = Some cfg'
     \<and> (\<forall>i j. up cfg' (Inl i) j \<longleftrightarrow>
          i \<in> set p1 \<and> j \<in> set p1 \<or> i \<in> set p2 \<and> j \<in> set p2
          \<or> up cfg (Inl i) j \<and> \<not> (i \<in> set p1 \<and> j \<in> set p2) \<and> \<not> (i \<in> set p2 \<and> j \<in> set p1))
     \<and> (\<forall>ck j. up cfg' (Inr ck) j \<longleftrightarrow> up cfg (Inr ck) j)
     \<and> (\<forall>i j es (req :: (goname, 'b) reqMsg). i < vc_n cfg \<and> j < vc_n cfg \<and> vc_endnames cfg ! i = Some es \<and> rq_endname req = NStr (es ! j) \<longrightarrow>
          (i \<in> set p1 \<and> j \<in> set p2 \<or> i \<in> set p2 \<and> j \<in> set p1 \<longrightarrow> processBegin (vc_net cfg') req False = Unreachable)
        \<and> (i \<in> set p1 \<and> j \<in> set p1 \<or> i \<in> set p2 \<and> j \<in> set p2 \<longrightarrow> nw_servers (vc_net cfg) (NInt j) \<noteq> None \<longrightarrow>
             processBegin (vc_net cfg') req False \<noteq> Unreachable))"
proof -
  note inv = vcReach_inv [OF assms(1)]
  obtain net where p: "vc_partition p1 p2 cfg = Some (cfg\<lparr>vc_net := net\<rparr>)" "vcInv (cfg\<lparr>vc_net := net\<rparr>)" "nw_servers net = nw_servers (vc_net cfg)"
    and u: "\<forall>i j. up (cfg\<lparr>vc_net := net\<rparr>) (Inl i) j \<longleftrightarrow>
          i \<in> set p1 \<and> j \<in> set p1 \<or> i \<in> set p2 \<and> j \<in> set p2
          \<or> up cfg (Inl i) j \<and> \<not> (i \<in> set p1 \<and> j \<in> set p2) \<and> \<not> (i \<in> set p2 \<and> j \<in> set p1)"
    and v: "\<forall>ck j. up (cfg\<lparr>vc_net := net\<rparr>) (Inr ck) j \<longleftrightarrow> up cfg (Inr ck) j"
    using partition_up [OF inv assms(2-6)] by blast
  let ?c = "cfg\<lparr>vc_net := net\<rparr>"
  have r: "processBegin net req False = Unreachable \<longleftrightarrow> \<not> (up ?c (Inl i) j \<and> nw_servers (vc_net cfg) (NInt j) \<noteq> None)"
    if "i < vc_n cfg \<and> j < vc_n cfg \<and> vc_endnames cfg ! i = Some es \<and> rq_endname req = NStr (es ! j)"
    for i j es and req :: "(goname, 'b) reqMsg"
  proof -
    have "vnames ?c (Inl i) = Some es" using that endsOKD(1) [of cfg] inv by (simp add: vnames_def vcInv_def)
    then show ?thesis using processBegin_up [OF p(2), of "Inl i" es j req] that p(3) by simp
  qed
  show ?thesis
  proof (intro exI [of _ ?c] conjI allI impI, goal_cases)
    case (4 i j es req)
    then have "\<not> up ?c (Inl i) j" using u [rule_format, of i j] assms(6) by blast
    with r [OF 4(1)] show ?case by simp
  next
    case (5 i j es req)
    then have "up ?c (Inl i) j" using u [rule_format, of i j] by blast
    with r [OF 5(1)] 5(3) show ?case by simp
  qed (use p(1) u v in blast)+
qed

text \<open>Three key/value servers whose ends have short names.\<close>

definition svNames :: "nat \<Rightarrow> nat \<Rightarrow> string" where
  "svNames i j = replicate i CHR ''a'' @ ''x'' @ replicate j CHR ''b''"

definition kvStart :: "int \<Rightarrow> (KVServer, kvop, kvval) starter" where
  "kvStart maxraftstate = (\<lambda>n i ps. StartKVServer n i ps maxraftstate)"

definition svDemo :: "kvconfig option" where
  "svDemo = kv_make_config svNames 3 False (-1)"

lemma svDemo_run:
  "map_option (\<lambda>cfg. (vc_n cfg, vc_endnames cfg ! 0, vc_maxraftstate cfg, nw_servers (vc_net cfg) (NInt 2), nw_ends (vc_net cfg) = (\<lambda>(i, j). NStr (svNames i j)) ` ({0, 1, 2} \<times> {0, 1, 2}))) svDemo
     = Some (3, Some [''x'', ''xb'', ''xbb''], -1, Some 2, True)"
  by code_simp

lemma svDemo_reach: "svDemo = Some cfg \<Longrightarrow> vcReach (kvStart (-1)) kv_Kill cfg"
  unfolding svDemo_def kv_make_config_def kvStart_def vcReach_def
  by (intro exI [of _ svNames] exI [of _ 3] exI [of _ False] exI [of _ "-1"] exI [of _ cfg] exI [of _ "[]"]) simp

theorem partition_isolates_witness:
  "\<exists>cfg cfg'. svDemo = Some cfg \<and> vc_partition [0, 2] [1] cfg = Some cfg' \<and> up cfg' (Inl 2) 0 \<and> \<not> up cfg' (Inl 0) 1 \<and> \<not> up cfg' (Inl 1) 2
     \<and> processBegin (vc_net cfg') \<lparr>rq_endname = NStr ''xb'', rq_svcMeth = [], rq_args = [0 :: nat]\<rparr> False = Unreachable
     \<and> processBegin (vc_net cfg') \<lparr>rq_endname = NStr ''xbb'', rq_svcMeth = [], rq_args = [0 :: nat]\<rparr> False \<noteq> Unreachable"
proof -
  obtain cfg where c: "svDemo = Some cfg" "vc_n cfg = 3" "vc_endnames cfg ! 0 = Some [''x'', ''xb'', ''xbb'']"
    "nw_servers (vc_net cfg) (NInt 2) = Some 2"
    using svDemo_run by (cases svDemo) auto
  let ?b = "\<lparr>rq_endname = NStr ''xb'', rq_svcMeth = [], rq_args = [0 :: nat]\<rparr>"
  let ?c = "\<lparr>rq_endname = NStr ''xbb'', rq_svcMeth = [], rq_args = [0 :: nat]\<rparr>"
  obtain cfg' where p: "vc_partition [0, 2] [1] cfg = Some cfg'"
    and u: "\<And>i j. up cfg' (Inl i) j \<longleftrightarrow> i \<in> set [0, 2] \<and> j \<in> set [0, 2] \<or> i \<in> set [1] \<and> j \<in> set [1]
          \<or> up cfg (Inl i) j \<and> \<not> (i \<in> set [0, 2] \<and> j \<in> set [1]) \<and> \<not> (i \<in> set [1] \<and> j \<in> set [0, 2])"
    and q: "\<And>i j es (req :: (goname, nat) reqMsg). i < vc_n cfg \<and> j < vc_n cfg \<and> vc_endnames cfg ! i = Some es \<and> rq_endname req = NStr (es ! j) \<Longrightarrow>
          (i \<in> set [0, 2] \<and> j \<in> set [1] \<or> i \<in> set [1] \<and> j \<in> set [0, 2] \<longrightarrow> processBegin (vc_net cfg') req False = Unreachable)
        \<and> (i \<in> set [0, 2] \<and> j \<in> set [0, 2] \<or> i \<in> set [1] \<and> j \<in> set [1] \<longrightarrow> nw_servers (vc_net cfg) (NInt j) \<noteq> None \<longrightarrow>
             processBegin (vc_net cfg') req False \<noteq> Unreachable)"
    using partition_isolates [OF svDemo_reach [OF c(1)], of "[0, 2]" "[1]", where 'b = nat] unfolding c(2) by fastforce
  have "up cfg' (Inl 2) 0" "\<not> up cfg' (Inl 0) 1" "\<not> up cfg' (Inl 1) 2" using u by simp_all
  moreover have "processBegin (vc_net cfg') ?b False = Unreachable"
    using q [of 0 1 "[''x'', ''xb'', ''xbb'']" ?b] c by simp
  moreover have "processBegin (vc_net cfg') ?c False \<noteq> Unreachable"
    using q [of 0 2 "[''x'', ''xb'', ''xbb'']" ?c] c by simp
  ultimately show ?thesis using c(1) p by blast
qed

end
