(* ===== verification/Service_Tests.thy ===== *)
theory Service_Tests
  imports Service_Wiring
begin

text \<open>
  What the tests of the services rely on: splitting off the leader leaves it in a minority, a restarted
  server finds everything that its old instance had written, a clerk's handles are a permutation of its
  ends.
\<close>

section \<open>Splitting off the leader\<close>

text \<open>The loop writes the servers other than \<open>l\<close>, in order, into \<open>p1\<close> and then \<open>p2\<close>.\<close>

lemma fillLoop_spec:
  assumes "j + length (filter (\<lambda>i. i \<noteq> l) is) \<le> length (p1 @ p2)"
  shows "\<exists>q1 q2. fillLoop is l j p1 p2 = Some (q1, q2) \<and> length q1 = length p1 \<and> length q2 = length p2
     \<and> q1 @ q2 = take j (p1 @ p2) @ filter (\<lambda>i. i \<noteq> l) is @ drop (j + length (filter (\<lambda>i. i \<noteq> l) is)) (p1 @ p2)"
  using assms
proof (induction "is" arbitrary: j p1 p2)
  case (Cons i "is")
  show ?case
  proof (cases "i = l")
    case True
    then show ?thesis using Cons by simp
  next
    case False
    let ?q = "(p1 @ p2)[j := i]" and ?k = "length (filter (\<lambda>i. i \<noteq> l) is)"
    have j: "j < length (p1 @ p2)" using Cons.prems False by simp
    obtain r1 r2 where r: "fillLoop (i # is) l j p1 p2 = fillLoop is l (j + 1) r1 r2" "r1 @ r2 = ?q" "length r1 = length p1" "length r2 = length p2"
    proof (cases "j < length p1")
      case True
      then show thesis using False by (intro that [of "p1[j := i]" p2]) (simp_all add: list_update_append)
    next
      case b: False
      then have "go_set p2 (int j - int (length p1)) i = Some (p2[j - length p1 := i])"
        using j by (auto simp: go_set_def nat_diff_distrib')
      then show thesis using False b by (intro that [of p1 "p2[j - length p1 := i]"]) (simp_all add: list_update_append)
    qed
    have len: "length (r1 @ r2) = length (p1 @ p2)" using r(3,4) by simp
    then have "j + 1 + ?k \<le> length (r1 @ r2)" using Cons.prems False by simp
    then obtain q1 q2 where q: "fillLoop is l (j + 1) r1 r2 = Some (q1, q2)" "length q1 = length r1" "length q2 = length r2"
      "q1 @ q2 = take (j + 1) (r1 @ r2) @ filter (\<lambda>i. i \<noteq> l) is @ drop (j + 1 + ?k) (r1 @ r2)"
      using Cons.IH [of "j + 1" r1 r2] by blast
    have t: "take (j + 1) ?q = take j (p1 @ p2) @ [i]"
      using j by (simp add: take_Suc_conv_app_nth del: take_append)
    have d: "drop (j + 1 + ?k) ?q = drop (j + 1 + ?k) (p1 @ p2)" by (simp del: drop_append)
    have "q1 @ q2 = take j (p1 @ p2) @ filter (\<lambda>i. i \<noteq> l) (i # is) @ drop (j + length (filter (\<lambda>i. i \<noteq> l) (i # is))) (p1 @ p2)"
      unfolding q(4) r(2) t d using False by (simp del: take_append drop_append)
    then show ?thesis using r q by (intro exI [of _ q1] exI [of _ q2]) simp
  qed
qed (simp del: take_append drop_append)

text \<open>The groups; for an even number of servers there is one slot too many and server 0 fills it.\<close>

lemma splitOff_eq:
  assumes n: "2 \<le> n" and l: "l < n"
  shows "\<exists>p1 p2. splitOff n l = Some (p1, p2) \<and> length p1 = n div 2 + 1 \<and> length p2 = n div 2
     \<and> p1 @ p2 = filter (\<lambda>i. i \<noteq> l) [0..<n] @ (if even n then [0] else []) @ [l]"
proof -
  let ?xs = "filter (\<lambda>i. i \<noteq> l) [0..<n]" and ?h = "n div 2"
  let ?z = "replicate (?h + 1) (0::nat) @ replicate ?h 0"
  have "distinct ?xs" "set ?xs = {..<n} - {l}" by auto
  then have xl: "length ?xs = n - 1" using l by (metis distinct_card card_Diff_singleton card_lessThan lessThan_iff)
  have z: "length ?z = (if even n then n + 1 else n)" by (auto elim!: evenE oddE)
  have "0 + length ?xs \<le> length ?z" unfolding xl z by auto
  from fillLoop_spec [OF this] obtain q1 q2 where q: "fillLoop [0..<n] l 0 (replicate (?h + 1) 0) (replicate ?h 0) = Some (q1, q2)"
    "length q1 = ?h + 1" "length q2 = ?h" "q1 @ q2 = ?xs @ drop (n - 1) ?z"
    unfolding xl by auto
  have dz: "drop (n - 1) ?z = (if even n then [0] else []) @ [0]"
  proof -
    have "?z = replicate (length ?z) 0" by (simp add: replicate_add)
    then have "drop (n - 1) ?z = replicate (length ?z - (n - 1)) 0" by (metis drop_replicate)
    then show ?thesis unfolding z using n by (auto simp: numeral_2_eq_2)
  qed
  have h: "0 < ?h" using n by simp
  then have "go_set q2 (int (length q2) - 1) l = Some (q2[length q2 - 1 := l])" using q(3) by (auto simp: go_set_def nat_diff_distrib')
  then have run: "splitOff n l = Some (q1, q2[length q2 - 1 := l])" using q(1) by (simp add: splitOff_def)
  have "q1 @ q2[length q2 - 1 := l] = (q1 @ q2)[length (q1 @ q2) - 1 := l]" using h q(3) by (auto simp: list_update_append)
  also have "\<dots> = ?xs @ (if even n then [0] else []) @ [l]" unfolding q(4) dz by (simp add: list_update_append)
  finally show ?thesis using run q by (intro exI [of _ q1] exI [of _ "q2[length q2 - 1 := l]"]) simp
qed

lemma splitOff_odd:
  assumes n: "odd n" "3 \<le> n" and l: "l < n"
  shows "\<exists>p1 p2. splitOff n l = Some (p1, p2) \<and> distinct (p1 @ p2) \<and> set (p1 @ p2) = {..<n} \<and> l \<in> set p2
     \<and> length p1 = n div 2 + 1 \<and> length p2 = n div 2"
proof -
  obtain p1 p2 where p: "splitOff n l = Some (p1, p2)" "length p1 = n div 2 + 1" "length p2 = n div 2"
    "p1 @ p2 = filter (\<lambda>i. i \<noteq> l) [0..<n] @ [l]"
    using splitOff_eq [of n l] n l by auto
  have "distinct (p1 @ p2)" "set (p1 @ p2) = {..<n}" unfolding p(4) using l by auto
  moreover have "p2 \<noteq> []" using p(3) n(2) by auto
  then have "l = last p2" using p(4) by (metis last_appendR last_snoc append_assoc)
  with \<open>p2 \<noteq> []\<close> have "l \<in> set p2" by simp
  ultimately show ?thesis using p by blast
qed

text \<open>The leader that the scan finds, or server 0 if there is none.\<close>

lemma leaderScan_spec:
  assumes "leaderScan xs = Some (b, l)"
  shows "(b \<longrightarrow> (\<exists>v rf. (l, Some (v, rf)) \<in> set xs \<and> snd (GetState rf))) \<and> (\<not> b \<longrightarrow> l = 0 \<and> (\<forall>(i, s) \<in> set xs. \<exists>v rf. s = Some (v, rf) \<and> \<not> snd (GetState rf)))"
  using assms by (induction xs rule: leaderScan.induct) (auto split: if_splits)

lemma Leader_spec:
  assumes "vcInv cfg" "vc_Leader cfg = Some (b, l)" "0 < vc_n cfg"
  shows "l < vc_n cfg" "b \<Longrightarrow> \<exists>v rf. vc_servers cfg ! l = Some (v, rf) \<and> snd (GetState rf)"
proof -
  note s = leaderScan_spec [OF assms(2) [unfolded vc_Leader_def]]
  have z: "(i, x) \<in> set (zip [0..<vc_n cfg] (vc_servers cfg)) \<Longrightarrow> i < vc_n cfg \<and> vc_servers cfg ! i = x" for i x
    using vcInvD(1) [OF assms(1)] by (auto simp: set_zip)
  show "l < vc_n cfg" using s z assms(3) by (cases b) auto
  show "\<exists>v rf. vc_servers cfg ! l = Some (v, rf) \<and> snd (GetState rf)" if b: b
  proof -
    obtain v rf where "(l, Some (v, rf)) \<in> set (zip [0..<vc_n cfg] (vc_servers cfg))" "snd (GetState rf)" using s b by blast
    then show ?thesis using z by blast
  qed
qed

text \<open>C36. With an odd number of at least three servers, \<open>make_partition\<close> and then \<open>partition\<close> cut the leader off: the two groups
  contain every server exactly once, afterwards servers have a link exactly when they are in the same
  group, the leader is in the smaller group and so reaches fewer than half of the servers (itself
  included), and the others are a majority of servers that all reach each other.\<close>

theorem partition_cuts_leader:
  assumes "vcReach start kill cfg" "odd (vc_n cfg)" "3 \<le> vc_n cfg" "vc_Leader cfg = Some (True, l)"
  shows "\<exists>p1 p2 cfg' v rf. make_partition cfg = Some (p1, p2) \<and> vc_partition p1 p2 cfg = Some cfg'
     \<and> distinct (p1 @ p2) \<and> set (p1 @ p2) = {..<vc_n cfg}
     \<and> vc_servers cfg' ! l = Some (v, rf) \<and> role rf = Leader
     \<and> (\<forall>i j. up cfg' (Inl i) j \<longleftrightarrow> i \<in> set p1 \<and> j \<in> set p1 \<or> i \<in> set p2 \<and> j \<in> set p2)
     \<and> 2 * card {j. up cfg' (Inl l) j} < vc_n cfg \<and> vc_n cfg < 2 * card (set p1)"
proof -
  note inv = vcReach_inv [OF assms(1)]
  have pos: "0 < vc_n cfg" using assms(3) by simp
  note L = Leader_spec [OF inv assms(4) pos]
  obtain p1 p2 where p: "splitOff (vc_n cfg) l = Some (p1, p2)" "distinct (p1 @ p2)" "set (p1 @ p2) = {..<vc_n cfg}" "l \<in> set p2"
    "length p1 = vc_n cfg div 2 + 1" "length p2 = vc_n cfg div 2"
    using splitOff_odd [OF assms(2,3) L(1)] by blast
  have mp: "make_partition cfg = Some (p1, p2)" using assms(4) p(1) by (simp add: make_partition_def)
  have sub: "set p1 \<subseteq> {..<vc_n cfg}" "set p2 \<subseteq> {..<vc_n cfg}" using p(3) by auto
  have len: "length p1 \<le> vc_n cfg" "length p2 \<le> vc_n cfg" using p(5,6) assms(3) by auto
  have dis: "set p1 \<inter> set p2 = {}" using p(2) by auto
  obtain net where c: "vc_partition p1 p2 cfg = Some (cfg\<lparr>vc_net := net\<rparr>)"
    and u: "\<And>i j. up (cfg\<lparr>vc_net := net\<rparr>) (Inl i) j \<longleftrightarrow>
          i \<in> set p1 \<and> j \<in> set p1 \<or> i \<in> set p2 \<and> j \<in> set p2
          \<or> up cfg (Inl i) j \<and> \<not> (i \<in> set p1 \<and> j \<in> set p2) \<and> \<not> (i \<in> set p2 \<and> j \<in> set p1)"
    using partition_up [OF inv sub len dis] by blast
  have rng: "i \<in> set p1 \<union> set p2 \<and> j \<in> set p1 \<union> set p2" if "up cfg (Inl i) j" for i j
    using that p(3) endsOKD(1) [of cfg] inv by (auto simp: up_def vnames_def vcInv_def split: if_splits)
  have u': "up (cfg\<lparr>vc_net := net\<rparr>) (Inl i) j \<longleftrightarrow> i \<in> set p1 \<and> j \<in> set p1 \<or> i \<in> set p2 \<and> j \<in> set p2" for i j
    unfolding u using rng [of i j] by blast
  have "{j. up (cfg\<lparr>vc_net := net\<rparr>) (Inl l) j} = set p2" unfolding u' using p(4) dis by blast
  moreover have "card (set p2) = vc_n cfg div 2" "card (set p1) = vc_n cfg div 2 + 1"
    using p(2,5,6) by (simp_all add: distinct_card)
  moreover have "2 * (vc_n cfg div 2) < vc_n cfg" "vc_n cfg < 2 * (vc_n cfg div 2 + 1)" using assms(2) by (auto elim!: oddE)
  moreover obtain v rf where "vc_servers cfg ! l = Some (v, rf)" "role rf = Leader" using L(2) by (auto simp: GetState_def)
  ultimately show ?thesis using mp c p(2,3) u'
    by (intro exI [of _ p1] exI [of _ p2] exI [of _ "cfg\<lparr>vc_net := net\<rparr>"] exI [of _ v] exI [of _ rf]) simp
qed

text \<open>Server 1 wins an election.\<close>

definition svLeader :: "kvconfig option" where
  "svLeader = do {
     cfg \<leftarrow> svDemo;
     (v, rf) \<leftarrow> StartKVServer 3 1 MakePersister (-1);
     vrun (kvStart (-1)) kv_Kill cfg [VServer 1 (v, convertRoleTo (convertRoleTo rf Candidate) Leader)] }"

lemma svLeader_run: "map_option (\<lambda>cfg. (vc_n cfg, vc_Leader cfg, make_partition cfg)) svLeader = Some (3, Some (True, 1), Some ([0, 2], [1]))"
  by code_simp

lemma svRun_reach:
  assumes "svDemo = Some cfg0" "vrun (kvStart (-1)) kv_Kill cfg0 es = Some cfg"
  shows "vcReach (kvStart (-1)) kv_Kill cfg"
  using assms unfolding svDemo_def kv_make_config_def vcReach_def kvStart_def by blast

lemma svLeader_reach: "svLeader = Some cfg \<Longrightarrow> vcReach (kvStart (-1)) kv_Kill cfg"
  unfolding svLeader_def by (auto split: Option.bind_split_asm simp del: vrun.simps intro: svRun_reach)

theorem partition_cuts_leader_witness:
  "\<exists>cfg cfg'. svLeader = Some cfg \<and> vc_partition [0, 2] [1] cfg = Some cfg' \<and> \<not> up cfg' (Inl 1) 0 \<and> \<not> up cfg' (Inl 2) 1 \<and> up cfg' (Inl 0) 2
     \<and> 2 * card {j. up cfg' (Inl 1) j} < 3"
proof -
  obtain cfg where c: "svLeader = Some cfg" "vc_n cfg = 3" "vc_Leader cfg = Some (True, 1)" "make_partition cfg = Some ([0, 2], [1])"
    using svLeader_run by (cases svLeader) auto
  from partition_cuts_leader [OF svLeader_reach [OF c(1)], of 1] c
  obtain p1 p2 cfg' where p: "(p1, p2) = ([0, 2], [1])" "vc_partition p1 p2 cfg = Some cfg'"
    "\<forall>i j. up cfg' (Inl i) j \<longleftrightarrow> i \<in> set p1 \<and> j \<in> set p1 \<or> i \<in> set p2 \<and> j \<in> set p2" "2 * card {j. up cfg' (Inl 1) j} < 3"
    by auto
  then show ?thesis using c(1) by (intro exI [of _ cfg] exI [of _ cfg']) simp
qed

text \<open>With an even number of servers the groups overlap: server 0 is in both.\<close>

theorem splitOff_even:
  assumes "even n" "4 \<le> n" "0 < l" "l < n"
  shows "\<exists>p1 p2. splitOff n l = Some (p1, p2) \<and> 0 \<in> set p1 \<and> 0 \<in> set p2"
proof -
  let ?xs = "filter (\<lambda>i. i \<noteq> l) [0..<n]"
  obtain p1 p2 where p: "splitOff n l = Some (p1, p2)" "length p1 = n div 2 + 1" "length p2 = n div 2" "p1 @ p2 = (?xs @ [0]) @ [l]"
    using splitOff_eq [of n l] assms by auto
  have "[0..<n] = 0 # [1..<n]" using assms(2) by (simp add: upt_conv_Cons)
  then have "p1 @ p2 = 0 # filter (\<lambda>i. i \<noteq> l) [1..<n] @ [0, l]" using p(4) assms(3) by simp
  then have "0 \<in> set p1" using p(2) by (cases p1) auto
  have n2: "2 \<le> length p2" using p(3) assms(2) by simp
  then have "length (p1 @ p2) - 2 = length p1 + (length p2 - 2)" by simp
  then have "(p1 @ p2) ! (length (p1 @ p2) - 2) = p2 ! (length p2 - 2)" by (simp only: nth_append_length_plus)
  moreover have "(p1 @ p2) ! (length (p1 @ p2) - 2) = 0" unfolding p(4) by (simp add: nth_append)
  ultimately have "0 \<in> set p2" using n2 by (metis nth_mem diff_less zero_less_numeral order_less_le_trans)
  with p(1) \<open>0 \<in> set p1\<close> show ?thesis by blast
qed

section \<open>Restart\<close>

text \<open>A service starts a server around the Raft peer that \<open>Make\<close> boots from the persister.\<close>

locale service =
  fixes start :: "('v, 'c, 's) starter"
  assumes start_Make: "start n i ps = Some (v, rf) \<Longrightarrow> Make n i ps = Some rf"
    and Make_start: "Make n i ps = Some rf \<Longrightarrow> \<exists>v. start n i ps = Some (v, rf)"
begin

lemma start_after_shutdown:
  assumes inv: "vcInv cfg" and i: "i < vc_n cfg" and srv: "vc_servers cfg ! i = Some (v, rf)" "saved rf" and kill: "kill rf \<noteq> None"
    and fresh: "inj_on nm {..<vc_n cfg}" "\<And>j. j < vc_n cfg \<Longrightarrow> NStr (nm j) \<notin> nw_ends (vc_net cfg)"
  shows "\<exists>cfg1 cfg2 v' rf'. ShutdownServer kill i cfg = Some cfg1 \<and> vc_StartServer start nm i cfg1 = Some cfg2
     \<and> vc_maxraftstate cfg1 = vc_maxraftstate cfg
     \<and> vc_servers cfg2 = (vc_servers cfg)[i := Some (v', rf')] \<and> start (vc_n cfg) i (persister rf) = Some (v', rf')
     \<and> Make (vc_n cfg) i (persister rf) = Some rf' \<and> vc_saved cfg2 ! i = Some (persister rf)"
proof -
  obtain net where s: "ShutdownServer kill i cfg = Some (cfg\<lparr>vc_net := net, vc_saved := (vc_saved cfg)[i := Some (persister rf)],
       vc_servers := (vc_servers cfg)[i := None]\<rparr>)" "nw_ends net = nw_ends (vc_net cfg)"
    using shutdown_spec [of cfg i v rf kill, OF inv i srv(1) kill] by blast
  let ?c = "cfg\<lparr>vc_net := net, vc_saved := (vc_saved cfg)[i := Some (persister rf)], vc_servers := (vc_servers cfg)[i := None]\<rparr>"
  obtain rf' where m: "Make (vc_n cfg) i (persister rf) = Some rf'" using Make_saved [OF srv(2)] by blast
  obtain v' where v: "start (vc_n cfg) i (persister rf) = Some (v', rf')" using Make_start [OF m] by blast
  have len: "length (vc_servers cfg) = vc_n cfg" "length (vc_saved cfg) = vc_n cfg" "length (vc_endnames cfg) = vc_n cfg"
    using vcInvD [OF inv] endsOKD(1) [of cfg] inv by (simp_all add: vcInv_def)
  obtain net2 where n: "makeEnds nm NInt [0..<vc_n cfg] net = Some net2"
    using makeEnds_ok [of nm "[0..<vc_n cfg]" net NInt] fresh s(2) by (auto simp: lessThan_atLeast0)
  have ps: "vc_savedNow ?c i = Some (persister rf)" using i len by (simp add: vc_savedNow_def)
  obtain cfg2 where c: "vc_StartServer start nm i ?c = Some cfg2" "vc_servers cfg2 = (vc_servers cfg)[i := Some (v', rf')]"
    "vc_saved cfg2 ! i = Some (persister rf)"
    using n v i len ps by (simp add: vc_StartServer_def go_set_def Copy_same)
  show ?thesis using s(1) c m v by (intro exI [of _ ?c] exI [of _ cfg2] exI [of _ v'] exI [of _ rf']) simp
qed

end

interpretation kvService: service "kvStart maxraftstate" for maxraftstate
  by unfold_locales (auto simp: kvStart_def StartKVServer_def split: Option.bind_split_asm)

interpretation smService: service sm_StartServer
  by unfold_locales (auto simp: sm_StartServer_def split: Option.bind_split_asm)

text \<open>C38. Shutting a key/value server down and starting it again with fresh end names loses nothing: the server that comes
  up is a follower with the term, the vote, the snapshot position and every log entry of the old one,
  its state machine is what \<open>StartKVServer\<close> reads from the old server's snapshot, the persister holds both the Raft state
  and the snapshot, and the other servers keep running.\<close>

theorem kv_restart_keeps:
  assumes "vcReach (kvStart mrs) kv_Kill cfg" "i < vc_n cfg" "vc_servers cfg ! i = Some (kv, rf)" "saved rf" "log_wf rf" "exitCh rf = []"
    and "inj_on nm {..<vc_n cfg}" "\<And>j. j < vc_n cfg \<Longrightarrow> NStr (nm j) \<notin> nw_ends (vc_net cfg)"
  shows "\<exists>cfg1 cfg2 kv' rf'. kv_ShutdownServer i cfg = Some cfg1 \<and> kv_StartServer nm i cfg1 = Some cfg2
     \<and> vc_servers cfg2 = (vc_servers cfg)[i := Some (kv', rf')] \<and> vc_saved cfg2 ! i = Some (persister rf)
     \<and> kv' = kv_loadSnapshot \<lparr>kv_me = i, kv_maxraftstate = vc_maxraftstate cfg, kv_clerkLog = Map.empty, kv_kvDB = Map.empty,
                             kv_msgCh = Map.empty, kv_chans = 0\<rparr> (persister rf)
     \<and> role rf' = Follower \<and> persister rf' = persister rf \<and> currentTerm rf' = currentTerm rf \<and> votedFor rf' = votedFor rf
     \<and> lastIncludedIndex rf' = lastIncludedIndex rf \<and> getLastLogIndex rf' = getLastLogIndex rf
     \<and> (\<forall>k > lastIncludedIndex rf. logAt rf' k = logAt rf k)"
proof -
  have "kv_Kill rf \<noteq> None" using assms(6) by (simp add: kv_Kill_def Kill_def)
  from kvService.start_after_shutdown [of cfg i kv rf kv_Kill nm "vc_maxraftstate cfg", OF vcReach_inv [OF assms(1)] assms(2-4) this assms(7,8)]
  obtain cfg1 cfg2 kv' rf' where c: "ShutdownServer kv_Kill i cfg = Some cfg1" "vc_StartServer (kvStart (vc_maxraftstate cfg)) nm i cfg1 = Some cfg2"
    "vc_maxraftstate cfg1 = vc_maxraftstate cfg" "vc_servers cfg2 = (vc_servers cfg)[i := Some (kv', rf')]"
    "kvStart (vc_maxraftstate cfg) (vc_n cfg) i (persister rf) = Some (kv', rf')"
    "Make (vc_n cfg) i (persister rf) = Some rf'" "vc_saved cfg2 ! i = Some (persister rf)"
    by blast
  have "kv_StartServer nm i cfg1 = Some cfg2" using c(2,3) by (simp add: kv_StartServer_def kvStart_def)
  moreover have "kv' = kv_loadSnapshot \<lparr>kv_me = i, kv_maxraftstate = vc_maxraftstate cfg, kv_clerkLog = Map.empty, kv_kvDB = Map.empty,
      kv_msgCh = Map.empty, kv_chans = 0\<rparr> (persister rf)"
    using c(5,6) by (simp add: kvStart_def StartKVServer_def)
  moreover have "persister rf' = persister rf" using Make_saved [OF assms(4)] c(6) by (auto simp: booted_def)
  ultimately show ?thesis using c restart_spec [OF assms(4,5), of "vc_n cfg" i]
    by (intro exI [of _ cfg1] exI [of _ cfg2] exI [of _ kv'] exI [of _ rf']) (simp add: kv_ShutdownServer_def)
qed

text \<open>The leader of three servers is shut down and started again.\<close>

definition demoLeader :: "(kvop, kvval) raft" where
  "demoLeader = convertRoleTo (convertRoleTo (booted 3 1 MakePersister (-1) votedNull [] 0 (-1)) Candidate) Leader"

lemma svLeader_servers:
  "svLeader = Some cfg \<Longrightarrow> \<exists>kv. vc_servers cfg ! 1 = Some (kv, demoLeader) \<and> vc_n cfg = 3 \<and> vc_maxraftstate cfg = -1
     \<and> nw_ends (vc_net cfg) = (\<lambda>(i, j). NStr (svNames i j)) ` ({0, 1, 2} \<times> {0, 1, 2})"
proof -
  assume a: "svLeader = Some cfg"
  obtain c where c: "svDemo = Some c" "vc_n c = 3" "vc_maxraftstate c = -1"
    "nw_ends (vc_net c) = (\<lambda>(i, j). NStr (svNames i j)) ` ({0, 1, 2} \<times> {0, 1, 2})"
    using svDemo_run by (cases svDemo) auto
  have "length (vc_servers c) = 3" using vcInvD(1) [OF vcReach_inv [OF svDemo_reach [OF c(1)]]] c(2) by simp
  moreover obtain kv where kv: "StartKVServer 3 1 MakePersister (-1) = Some (kv, booted 3 1 MakePersister (-1) votedNull [] 0 (-1))"
    by (simp add: StartKVServer_def Make_fresh)
  have "vrun (kvStart (-1)) kv_Kill c [VServer 1 (kv, demoLeader)] = Some cfg"
    using a unfolding svLeader_def c(1) kv demoLeader_def by (simp only: bind.bind_lunit prod.case)
  then have "cfg = c\<lparr>vc_servers := (vc_servers c)[1 := Some (kv, demoLeader)]\<rparr>" by (simp split: if_splits)
  ultimately show ?thesis using c by simp
qed

lemma demoLeader_facts:
  "saved demoLeader" "log_wf demoLeader" "exitCh demoLeader = []" "currentTerm demoLeader = 0" "votedFor demoLeader = 1" "role demoLeader = Leader"
  unfolding demoLeader_def by (auto intro!: saved_convert simp: booted_def log_wf_def)

theorem kv_restart_keeps_witness:
  "\<exists>cfg cfg1 cfg2 kv' rf'. svLeader = Some cfg \<and> kv_ShutdownServer 1 cfg = Some cfg1 \<and> kv_StartServer (svNames 3) 1 cfg1 = Some cfg2
     \<and> vc_servers cfg2 = (vc_servers cfg)[1 := Some (kv', rf')] \<and> role rf' = Follower \<and> currentTerm rf' = 0 \<and> votedFor rf' = 1
     \<and> vc_saved cfg2 ! 1 = Some (persister demoLeader)"
proof -
  obtain cfg where c: "svLeader = Some cfg" using svLeader_run by (cases svLeader) auto
  obtain kv where k: "vc_servers cfg ! 1 = Some (kv, demoLeader)" "vc_n cfg = 3"
    "nw_ends (vc_net cfg) = (\<lambda>(i, j). NStr (svNames i j)) ` ({0, 1, 2} \<times> {0, 1, 2})" using svLeader_servers [OF c] by blast
  have inj: "inj_on (svNames 3) {..<vc_n cfg}" by (auto simp: inj_on_def svNames_def)
  have ne: "svNames 3 j \<noteq> svNames i j'" if "i < 3" for i j j'
  proof
    assume "svNames 3 j = svNames i j'"
    then have "length (takeWhile (\<lambda>c. c = CHR ''a'') (svNames 3 j)) = length (takeWhile (\<lambda>c. c = CHR ''a'') (svNames i j'))" by simp
    moreover have "length (takeWhile (\<lambda>c. c = CHR ''a'') (svNames k m)) = k" for k m by (induction k) (simp_all add: svNames_def)
    ultimately show False using that by simp
  qed
  have fresh: "NStr (svNames 3 j) \<notin> nw_ends (vc_net cfg)" for j unfolding k(3) using ne by auto
  have i: "1 < vc_n cfg" using k(2) by simp
  show ?thesis
    using kv_restart_keeps [OF svLeader_reach [OF c] i k(1) demoLeader_facts(1-3) inj fresh] c
    unfolding demoLeader_facts by blast
qed

text \<open>The shard master recovers in the same way.\<close>

theorem sm_restart_keeps:
  assumes "vcReach start sm_Kill cfg" "i < vc_n cfg" "vc_servers cfg ! i = Some (sm, rf)" "saved rf" "log_wf rf" "exitCh rf = []"
    and "inj_on nm {..<vc_n cfg}" "\<And>j. j < vc_n cfg \<Longrightarrow> NStr (nm j) \<notin> nw_ends (vc_net cfg)"
  shows "\<exists>cfg1 cfg2 sm' rf'. smc_ShutdownServer i cfg = Some cfg1 \<and> smc_StartServer nm i cfg1 = Some cfg2
     \<and> vc_servers cfg2 = (vc_servers cfg)[i := Some (sm', rf')] \<and> vc_saved cfg2 ! i = Some (persister rf)
     \<and> role rf' = Follower \<and> currentTerm rf' = currentTerm rf \<and> votedFor rf' = votedFor rf \<and> getLastLogIndex rf' = getLastLogIndex rf
     \<and> (\<forall>k > lastIncludedIndex rf. logAt rf' k = logAt rf k)"
proof -
  have "sm_Kill rf \<noteq> None" using assms(6) by (simp add: sm_Kill_def Kill_def)
  from smService.start_after_shutdown [of cfg i sm rf sm_Kill nm, OF vcReach_inv [OF assms(1)] assms(2-4) this assms(7,8)]
  obtain cfg1 cfg2 sm' rf' where c: "ShutdownServer sm_Kill i cfg = Some cfg1" "vc_StartServer sm_StartServer nm i cfg1 = Some cfg2"
    "vc_servers cfg2 = (vc_servers cfg)[i := Some (sm', rf')]" "Make (vc_n cfg) i (persister rf) = Some rf'"
    "vc_saved cfg2 ! i = Some (persister rf)"
    by blast
  then show ?thesis using restart_spec [OF assms(4,5), of "vc_n cfg" i]
    by (intro exI [of _ cfg1] exI [of _ cfg2] exI [of _ sm'] exI [of _ rf']) (simp add: smc_ShutdownServer_def smc_StartServer_def)
qed

section \<open>New clerks\<close>

lemma swapAt_mset: "i < length xs \<Longrightarrow> j < length xs \<Longrightarrow> mset (swapAt xs i j) = mset xs \<and> length (swapAt xs i j) = length xs"
  by (simp add: swapAt_def mset_swap)

lemma random_handles_permutes:
  assumes "\<And>i. i < length kvh \<Longrightarrow> r i \<le> i"
  shows "mset (random_handles r kvh) = mset kvh"
proof -
  have "mset (fold (\<lambda>i sa. swapAt sa i (r i)) is xs) = mset xs" if "\<forall>i \<in> set is. i < length xs \<and> r i < length xs" for "is" xs
    using that
  proof (induction "is" arbitrary: xs)
    case (Cons i "is")
    have s: "mset (swapAt xs i (r i)) = mset xs" "length (swapAt xs i (r i)) = length xs" using swapAt_mset Cons.prems by auto
    have "mset (fold (\<lambda>i sa. swapAt sa i (r i)) is (swapAt xs i (r i))) = mset (swapAt xs i (r i))"
      using Cons.prems by (intro Cons.IH) (simp add: s)
    then show ?case by (simp add: s)
  qed simp
  moreover have "\<forall>i \<in> set [0..<length kvh]. i < length kvh \<and> r i < length kvh" using assms order_le_less_trans by fastforce
  ultimately show ?thesis unfolding random_handles_def by blast
qed

text \<open>A new clerk has links to exactly the servers asked for, its handles are its ends in another order, and no other
  link changes.\<close>

theorem makeClient_connects:
  assumes r: "vcReach start kill cfg" and sub: "set to \<subseteq> {..<vc_n cfg}" and rnd: "\<And>i. i < vc_n cfg \<Longrightarrow> r i \<le> i"
    and fresh: "inj_on nm {..<vc_n cfg}" "\<And>j. j < vc_n cfg \<Longrightarrow> NStr (nm j) \<notin> nw_ends (vc_net cfg)"
  shows "\<exists>cfg' hs. makeClient nm r to cfg = Some (cfg', vc_nclerks cfg, hs) \<and> mset hs = mset (map nm [0..<vc_n cfg])
     \<and> (\<forall>j. up cfg' (Inr (vc_nclerks cfg)) j \<longleftrightarrow> j \<in> set to) \<and> (\<forall>k j. k \<noteq> Inr (vc_nclerks cfg) \<longrightarrow> up cfg' k j = up cfg k j)"
proof -
  let ?ck = "vc_nclerks cfg" and ?es = "map nm [0..<vc_n cfg]"
  have inv: "vcInv cfg" by (rule vcReach_inv [OF r])
  then have ok: "endsOK cfg" by (simp add: vcInv_def)
  obtain net where mk: "makeEnds nm NInt [0..<vc_n cfg] (vc_net cfg) = Some net"
    using makeEnds_ok [of nm "[0..<vc_n cfg]" "vc_net cfg" NInt] fresh by (auto simp: lessThan_atLeast0)
  define c where "c = cfg\<lparr>vc_net := net, vc_clerks := (vc_clerks cfg)(?ck \<mapsto> ?es), vc_nclerks := ?ck + 1, vc_nextClientId := vc_nextClientId cfg + 1\<rparr>"
  have vn: "vnames c = (vnames cfg)(Inr ?ck \<mapsto> ?es)" unfolding c_def by (rule vnames_clerk)
  have n: "vc_n c = vc_n cfg" and netc: "vc_net c = net" by (simp_all add: c_def)
  have okc: "endsOK c" unfolding endsOK_def vn n
    using endsOKD [OF ok] ends_makeEnds [OF endsOKD(4,5) [OF ok] mk, of "Inr ?ck"] by (simp add: c_def)
  have en: "nw_enabled net x \<longleftrightarrow> x \<notin> (\<lambda>j. NStr (nm j)) ` set [0..<vc_n cfg] \<and> nw_enabled (vc_net cfg) x" for x
    using makeEnds_spec [OF mk distinct_upt] by (elim conjE) (erule allE)
  have upc: "up c k j \<longleftrightarrow> k \<noteq> Inr ?ck \<and> up cfg k j" for k j
  proof (cases "k = Inr ?ck")
    case True
    then show ?thesis by (auto simp: up_def vn n netc en)
  next
    case False
    have "nw_enabled net (NStr (es ! j)) = nw_enabled (vc_net cfg) (NStr (es ! j))" if "vnames cfg k = Some es" "j < vc_n cfg" for es
      using fresh_ends [OF endsOKD(4) [OF ok] mk that] en by simp
    with False show ?thesis by (auto simp: up_def vn n netc)
  qed
  have l: "clerkEnd c ?ck t = (if t < vc_n cfg then Some (nm t) else None)" for t
    by (auto simp: clerkEnd_def c_def go_idx_def)
  obtain net2 where e: "enableLoop True (\<lambda>t. map_option Some (clerkEnd c ?ck t)) to (vc_net c) = Some net2"
    using enableLoop_ok [of to "\<lambda>t. map_option Some (clerkEnd c ?ck t)" True "vc_net c"] sub by (force simp: l)
  have u: "up (c\<lparr>vc_net := net2\<rparr>) k m \<longleftrightarrow> (if (k, m) \<in> (\<lambda>t. (Inr ?ck, t)) ` set to then True \<and> vnames c k \<noteq> None \<and> m < vc_n c else up c k m)" for k m
    by (rule enable_pairs(2) [where pr = "\<lambda>t. (Inr ?ck, t)", OF okc e]) (use sub in \<open>auto simp: l vn n\<close>)
  have run: "makeClient nm r to cfg = Some (c\<lparr>vc_net := net2\<rparr>, ?ck, random_handles r ?es)"
  proof -
    have "ConnectClientUnlocked ?ck to c = Some (c\<lparr>vc_net := net2\<rparr>)" using e by (simp add: ConnectClientUnlocked_def)
    then show ?thesis unfolding makeClient_def mk Let_def bind.bind_lunit by (simp add: c_def)
  qed
  have "mset (random_handles r ?es) = mset ?es" using rnd by (intro random_handles_permutes) simp
  moreover have "up (c\<lparr>vc_net := net2\<rparr>) (Inr ?ck) j \<longleftrightarrow> j \<in> set to" for j
    unfolding u upc vn n using sub by auto
  moreover have "up (c\<lparr>vc_net := net2\<rparr>) k j = up cfg k j" if "k \<noteq> Inr ?ck" for k j unfolding u upc using that by auto
  ultimately show ?thesis using run by blast
qed

end
