(* ===== verification/ShardKV_Tests.thy ===== *)
theory ShardKV_Tests
  imports ShardKV_Harness Service_Tests
begin

text \<open>
  What the harness of the sharded service guarantees: the names of servers are distinct, a configuration can be
  made and used with three servers per group only, and what a shutdown and a restart of a server do.
\<close>

section \<open>Names of servers\<close>

lemma digits_range: "c \<in> set (digits k) \<Longrightarrow> c \<noteq> CHR ''-''"
proof (induction k rule: digits.induct)
  case (1 k)
  have d: "char_of (48 + m) \<noteq> CHR ''-''" if "m < 10" for m :: nat
  proof
    assume "char_of (48 + m) = CHR ''-''"
    then have "of_char (char_of (48 + m) :: char) = (45 :: nat)" by simp
    then show False using that by (simp add: of_char_of)
  qed
  show ?case
  proof (cases "k < 10")
    case True
    then show ?thesis using 1(2) d by (simp add: digits.simps [of k])
  next
    case False
    then have "c \<in> set (digits (k div 10)) \<or> c = char_of (48 + k mod 10)" using 1(2) by (auto simp: digits.simps [of k])
    then show ?thesis using 1(1) [OF False] d [of "k mod 10"] by auto
  qed
qed

lemma digits_ne: "digits k \<noteq> []"
  by (simp add: digits.simps [of k])

text \<open>The value of a sequence of digits.\<close>

definition numval :: "string \<Rightarrow> nat" where
  "numval s = foldl (\<lambda>v c. 10 * v + (of_char c - 48)) 0 s"

lemma numval_digits: "numval (digits k) = k"
proof (induction k rule: digits.induct)
  case (1 k)
  have d: "of_char (char_of (48 + m) :: char) = 48 + m" if "m < 10" for m :: nat using that by (simp add: of_char_of)
  show ?case
  proof (cases "k < 10")
    case True
    then show ?thesis using d [of k] by (simp add: digits.simps [of k] numval_def)
  next
    case False
    have "numval (digits k) = 10 * numval (digits (k div 10)) + k mod 10"
      using False d [of "k mod 10"] by (simp add: digits.simps [of k] numval_def)
    then show ?thesis using 1 [OF False] by simp
  qed
qed

lemma Itoa_nat_inj: "Itoa (int i) = Itoa (int j) \<Longrightarrow> i = j"
  unfolding Itoa_def by (simp, metis numval_digits)

lemma Itoa_nat_range: "CHR ''-'' \<notin> set (Itoa (int i))"
  using digits_range by (auto simp: Itoa_def)

lemma mastername_inj: "mastername i = mastername j \<Longrightarrow> i = j"
  by (auto simp: mastername_def dest: Itoa_nat_inj)

text \<open>No two servers, and no server and master, have the same name.\<close>

lemma append_dash:
  assumes "xs @ c # ys = xs' @ c # ys'" "c \<notin> set xs" "c \<notin> set xs'"
  shows "xs = xs' \<and> ys = ys'"
  using assms
proof (induction xs arbitrary: xs')
  case Nil
  then show ?case by (cases xs') auto
next
  case (Cons x xs)
  then show ?case by (cases xs') auto
qed

theorem servernames_distinct:
  "servername (int g) i = servername (int g') i' \<longleftrightarrow> g = g' \<and> i = i'" "servername gid i \<noteq> mastername j"
proof -
  have "g = g' \<and> i = i'" if "servername (int g) i = servername (int g') i'"
    using append_dash [of "Itoa (int g)" "CHR ''-''" "Itoa (int i)" "Itoa (int g')" "Itoa (int i')"] that Itoa_nat_range Itoa_nat_inj
    by (auto simp: servername_def)
  then show "servername (int g) i = servername (int g') i' \<longleftrightarrow> g = g' \<and> i = i'" by auto
  show "servername gid i \<noteq> mastername j" by (simp add: servername_def mastername_def)
qed

section \<open>Opening ends\<close>

lemma make_end_eq:
  "make_end nm srv rn = (if NStr nm \<in> nw_ends rn then None
     else Some (rn\<lparr>nw_ends := insert (NStr nm) (nw_ends rn), nw_enabled := (nw_enabled rn)(NStr nm := True),
                   nw_connections := (nw_connections rn)(NStr nm := Some (NStr srv))\<rparr>))"
  by (simp add: make_end_def MakeEnd_def Connect_def Enable_def)

lemma openEnds_spec:
  assumes "inj_on nm (set js)" "distinct js" "\<And>j. j \<in> set js \<Longrightarrow> NStr (nm j) \<notin> nw_ends rn"
  shows "\<exists>rn'. openEnds nm srv js rn = Some rn' \<and> nw_ends rn' = nw_ends rn \<union> (\<lambda>j. NStr (nm j)) ` set js \<and> nw_servers rn' = nw_servers rn"
  using assms
proof (induction js arbitrary: rn)
  case (Cons j js)
  let ?rn = "rn\<lparr>nw_ends := insert (NStr (nm j)) (nw_ends rn), nw_enabled := (nw_enabled rn)(NStr (nm j) := True),
                   nw_connections := (nw_connections rn)(NStr (nm j) := Some (NStr (srv j)))\<rparr>"
  have m: "make_end (nm j) (srv j) rn = Some ?rn" using Cons.prems(3) by (simp add: make_end_eq)
  have "NStr (nm k) \<notin> nw_ends ?rn" if "k \<in> set js" for k using Cons.prems that by (auto simp: inj_on_def)
  then obtain rn' where "openEnds nm srv js ?rn = Some rn'" "nw_ends rn' = nw_ends ?rn \<union> (\<lambda>j. NStr (nm j)) ` set js" "nw_servers rn' = nw_servers ?rn"
    using Cons.IH [of ?rn] Cons.prems by auto
  with m show ?case by (simp add: openEnds_def)
qed (simp add: openEnds_def)

text \<open>What the ends of a network are for.\<close>

definition usedIds :: "(endId \<Rightarrow> string) \<Rightarrow> goname network \<Rightarrow> endId set" where
  "usedIds names rn = {x. NStr (names x) \<in> nw_ends rn}"

lemma usedIds_simps [simp]:
  "usedIds names (AddServer x p rn) = usedIds names rn" "usedIds names (Reliable b rn) = usedIds names rn"
  "usedIds names (DeleteServer x rn) = usedIds names rn" "usedIds names MakeNetwork = {}"
  by (auto simp: usedIds_def AddServer_def Reliable_def DeleteServer_def MakeNetwork_def)

lemma openEnds_used:
  assumes "inj names" "inj f" "\<And>j. f j \<notin> usedIds names rn"
  shows "\<exists>rn'. openEnds (\<lambda>j. names (f j)) srv [0..<k] rn = Some rn' \<and> usedIds names rn' = usedIds names rn \<union> f ` {..<k} \<and> nw_servers rn' = nw_servers rn"
proof -
  have nm: "inj_on (\<lambda>j. names (f j)) (set [0..<k])" using assms(1,2) by (auto simp: inj_on_def)
  have fr: "NStr (names (f j)) \<notin> nw_ends rn" if "j \<in> set [0..<k]" for j using assms(3) that by (auto simp: usedIds_def)
  obtain rn' where r: "openEnds (\<lambda>j. names (f j)) srv [0..<k] rn = Some rn'" "nw_ends rn' = nw_ends rn \<union> (\<lambda>j. NStr (names (f j))) ` set [0..<k]"
    "nw_servers rn' = nw_servers rn"
    using openEnds_spec [OF nm distinct_upt fr, of srv] by blast
  have "usedIds names rn' = usedIds names rn \<union> f ` {..<k}"
    unfolding usedIds_def r(2) using assms(1) by (auto simp: inj_eq)
  with r show ?thesis by blast
qed

section \<open>Making a configuration\<close>

lemma eachServer_append: "eachServer f (xs @ ys) c = Option.bind (eachServer f xs c) (eachServer f ys)"
  by (induction xs arbitrary: c) (auto split: Option.bind_splits)

text \<open>A loop that keeps a property which depends on its counter runs to its end.\<close>

lemma eachServer_counts:
  assumes "\<And>k c. k < n \<Longrightarrow> P k c \<Longrightarrow> \<exists>c'. f k c = Some c' \<and> P (Suc k) c'" "P 0 c"
  shows "\<exists>c'. eachServer f [0..<n] c = Some c' \<and> P n c'"
  using assms
proof (induction n)
  case (Suc n)
  obtain c1 where c1: "eachServer f [0..<n] c = Some c1" "P n c1" using Suc.IH Suc.prems by fastforce
  obtain c2 where "f n c1 = Some c2" "P (Suc n) c2" using Suc.prems(1) [OF _ c1(2)] by blast
  with c1 show ?case by (simp add: eachServer_append)
qed simp

text \<open>The ends that are made before server \<open>i\<close> of group \<open>g\<close> is started.\<close>

fun before :: "nat \<Rightarrow> nat \<Rightarrow> endId \<Rightarrow> bool" where
  "before g i (EMaster _ _) = True"
| "before g i (EShardClerk _) = True"
| "before g i (EPeer g' i' _) = (g' < g \<or> g' = g \<and> i' < i)"
| "before g i (EMend g' i' _) = (g' < g \<or> g' = g \<and> i' < i)"
| "before g i _ = False"

text \<open>A group of \<open>n\<close> servers of which the first \<open>i\<close> have been started.\<close>

definition groupOK :: "nat \<Rightarrow> nat \<Rightarrow> nat \<Rightarrow> group \<Rightarrow> bool" where
  "groupOK n gi i gg \<longleftrightarrow> gg_gid gg = 100 + int gi \<and> length (gg_servers gg) = n \<and> length (gg_saved gg) = n
     \<and> length (gg_endnames gg) = n \<and> length (gg_mendnames gg) = 3
     \<and> (\<forall>k < i. (\<exists>es. gg_endnames gg ! k = Some es \<and> length es = n) \<and> (\<exists>ms. gg_mendnames gg ! k = Some ms \<and> length ms = 3))"

definition groupNew :: "nat \<Rightarrow> nat \<Rightarrow> group \<Rightarrow> bool" where
  "groupNew n i gg \<longleftrightarrow> (\<forall>k. i \<le> k \<longrightarrow> k < n \<longrightarrow> gg_servers gg ! k = None \<and> gg_saved gg ! k = None)"

definition groupUp :: "nat \<Rightarrow> group \<Rightarrow> bool" where
  "groupUp i gg \<longleftrightarrow> (\<forall>k < i. \<exists>kv rf. gg_servers gg ! k = Some (kv, rf) \<and> exitCh rf = [] \<and> skv_exitCh kv = 0)"

lemma skv_start_fresh: "skv_StartServer n i MakePersister mrs gid = Some (kv, rf) \<Longrightarrow> exitCh rf = [] \<and> skv_exitCh kv = 0"
proof -
  have "ReadSnapshot MakePersister = []" by (simp add: ReadSnapshot_def MakePersister_def)
  then show "skv_StartServer n i MakePersister mrs gid = Some (kv, rf) \<Longrightarrow> exitCh rf = [] \<and> skv_exitCh kv = 0"
    unfolding skv_StartServer_def Make_fresh by (auto simp: booted_def skv_loadSnapshot_def Let_def)
qed

lemma groupOK_newGroup: "groupOK n gi 0 (newGroup n 3 gi) \<and> groupNew n 0 (newGroup n 3 gi)"
  by (simp add: groupOK_def groupNew_def newGroup_def)

lemma endId_inj: "inj (EPeer g i)" "inj (EMend g i)" "inj (EMaster i)" "inj EShardClerk" "inj (EClient i)"
  by (simp_all add: inj_def)

text \<open>A server of a group starts from its persister, with fresh ends.\<close>

lemma sg_start_ok:
  assumes gg: "sg_group gi cfg = Some gg" "groupOK (sg_n cfg) gi m gg" and n: "sg_nmasters cfg = 3" "i < sg_n cfg" "i < 3"
    and names: "inj names" "\<And>j. EPeer gi i j \<notin> usedIds names (sg_net cfg)" "\<And>j. EMend gi i j \<notin> usedIds names (sg_net cfg)"
    and srv: "Make (sg_n cfg) i (case gg_savedNow gg i of Some p \<Rightarrow> Copy p | None \<Rightarrow> MakePersister) = Some rf"
  shows "\<exists>net gg' kv. sg_StartServer names gi i cfg =
       Some (cfg\<lparr>sg_net := net, sg_groups := (sg_groups cfg)[gi := Some gg'], sg_next := sg_next cfg + 1\<rparr>)
     \<and> groupOK (sg_n cfg) gi m gg' \<and> (m = i \<longrightarrow> groupOK (sg_n cfg) gi (Suc i) gg') \<and> (groupNew (sg_n cfg) i gg \<longrightarrow> groupNew (sg_n cfg) (Suc i) gg')
     \<and> gg_servers gg' = (gg_servers gg)[i := Some (kv, rf)]
     \<and> skv_StartServer (sg_n cfg) i (case gg_savedNow gg i of Some p \<Rightarrow> Copy p | None \<Rightarrow> MakePersister) (sg_maxraftstate cfg) (gg_gid gg) = Some (kv, rf)
     \<and> usedIds names net = usedIds names (sg_net cfg) \<union> EPeer gi i ` {..<sg_n cfg} \<union> EMend gi i ` {..<3}
     \<and> nw_servers net = (nw_servers (sg_net cfg))(NStr (servername (100 + int gi) i) := Some (sg_next cfg))"
proof -
  let ?ps = "case gg_savedNow gg i of Some p \<Rightarrow> Copy p | None \<Rightarrow> MakePersister"
  let ?es = "Some (map (\<lambda>j. names (EPeer gi i j)) [0..<sg_n cfg])" and ?ms = "Some (map (\<lambda>j. names (EMend gi i j)) [0..<sg_nmasters cfg])"
  have gid: "gg_gid gg = 100 + int gi" and len: "length (gg_servers gg) = sg_n cfg" "length (gg_saved gg) = sg_n cfg"
    "length (gg_endnames gg) = sg_n cfg" "length (gg_mendnames gg) = 3" using gg(2) by (simp_all add: groupOK_def)
  obtain net1 where n1: "openEnds (\<lambda>j. names (EPeer gi i j)) (servername (gg_gid gg)) [0..<sg_n cfg] (sg_net cfg) = Some net1"
    "usedIds names net1 = usedIds names (sg_net cfg) \<union> EPeer gi i ` {..<sg_n cfg}" "nw_servers net1 = nw_servers (sg_net cfg)"
    using openEnds_used [where f = "EPeer gi i", OF names(1) endId_inj(1) names(2)] by blast
  have fr: "EMend gi i j \<notin> usedIds names net1" for j using names(3) by (auto simp: n1(2))
  obtain net2 where n2: "openEnds (\<lambda>j. names (EMend gi i j)) mastername [0..<sg_nmasters cfg] net1 = Some net2"
    "usedIds names net2 = usedIds names net1 \<union> EMend gi i ` {..<3}" "nw_servers net2 = nw_servers net1"
    using openEnds_used [where f = "EMend gi i", OF names(1) endId_inj(2) fr] unfolding n(1) by blast
  obtain kv where kv: "skv_StartServer (sg_n cfg) i ?ps (sg_maxraftstate cfg) (gg_gid gg) = Some (kv, rf)"
    using srv by (simp add: skv_StartServer_def Let_def)
  define gg' where "gg' = gg\<lparr>gg_endnames := (gg_endnames gg)[i := ?es], gg_mendnames := (gg_mendnames gg)[i := ?ms],
     gg_saved := (gg_saved gg)[i := Some ?ps], gg_servers := (gg_servers gg)[i := Some (kv, rf)]\<rparr>"
  have run: "sg_StartServer names gi i cfg = Some (cfg\<lparr>sg_net := AddServer (NStr (servername (gg_gid gg) i)) (sg_next cfg) net2,
     sg_groups := (sg_groups cfg)[gi := Some gg'], sg_next := sg_next cfg + 1\<rparr>)"
    using gg(1) n1(1) n2(1) kv n(2,3) len by (simp add: sg_StartServer_def go_set_def gg'_def)
  have "groupOK (sg_n cfg) gi m gg'" "m = i \<longrightarrow> groupOK (sg_n cfg) gi (Suc i) gg'"
    using gg(2) n by (auto simp: groupOK_def gg'_def nth_list_update less_Suc_eq)
  moreover have "groupNew (sg_n cfg) i gg \<longrightarrow> groupNew (sg_n cfg) (Suc i) gg'" by (simp add: groupNew_def gg'_def)
  ultimately show ?thesis using n1(2,3) n2(2,3)
    by (intro exI [of _ "AddServer (NStr (servername (gg_gid gg) i)) (sg_next cfg) net2"] exI [of _ gg'] exI [of _ kv] conjI run kv)
      (auto simp: gg'_def AddServer_def gid usedIds_def)
qed

text \<open>The configuration while group \<open>g\<close> is being made.\<close>

definition making :: "(endId \<Rightarrow> string) \<Rightarrow> nat \<Rightarrow> nat \<Rightarrow> nat \<Rightarrow> 's sgconfig \<Rightarrow> bool" where
  "making names n g i cfg \<longleftrightarrow> sg_nmasters cfg = 3 \<and> sg_n cfg = n \<and> sg_ngroups cfg = 3 \<and> length (sg_groups cfg) = 3
     \<and> sg_clerks cfg = Map.empty \<and> sg_nclerks cfg = 0
     \<and> (\<forall>x \<in> usedIds names (sg_net cfg). before g i x) \<and> (\<forall>k < g. \<exists>gg. sg_groups cfg ! k = Some gg \<and> groupOK n k n gg \<and> groupUp n gg)"

lemma making_server:
  assumes mk: "making names n g i cfg" "g < 3" "i < n" "n \<le> 3" and names: "inj names"
    and gg: "sg_groups cfg ! g = Some gg" "groupOK n g i gg" "groupNew n i gg" "groupUp i gg"
  shows "\<exists>cfg' gg'. sg_StartServer names g i cfg = Some cfg' \<and> making names n g (Suc i) cfg' \<and> sg_groups cfg' ! g = Some gg'
     \<and> groupOK n g (Suc i) gg' \<and> groupNew n (Suc i) gg' \<and> groupUp (Suc i) gg'"
proof -
  have c: "sg_nmasters cfg = 3" "sg_n cfg = n" "length (sg_groups cfg) = 3" "\<forall>x \<in> usedIds names (sg_net cfg). before g i x" using mk(1) by (simp_all add: making_def)
  have sg: "sg_group g cfg = Some gg" using gg(1) c(3) mk(2) by (simp add: sg_group_def go_idx_def)
  have fr: "EPeer g i j \<notin> usedIds names (sg_net cfg)" "EMend g i j \<notin> usedIds names (sg_net cfg)" for j using c(4) by auto
  have ps: "gg_savedNow gg i = None" using gg(3) mk(3) by (simp add: groupNew_def gg_savedNow_def)
  obtain rf where rf: "Make (sg_n cfg) i (case gg_savedNow gg i of Some p \<Rightarrow> Copy p | None \<Rightarrow> MakePersister) = Some rf"
    by (simp add: ps Make_fresh)
  have m: "i < sg_n cfg" "i < 3" "groupOK (sg_n cfg) g i gg" using mk(3,4) c(2) gg(2) by auto
  obtain net gg' kv where s: "sg_StartServer names g i cfg =
       Some (cfg\<lparr>sg_net := net, sg_groups := (sg_groups cfg)[g := Some gg'], sg_next := sg_next cfg + 1\<rparr>)"
     "groupOK n g (Suc i) gg'" "groupNew n (Suc i) gg'"
     "usedIds names net = usedIds names (sg_net cfg) \<union> EPeer g i ` {..<n} \<union> EMend g i ` {..<3}"
     "gg_servers gg' = (gg_servers gg)[i := Some (kv, rf)]"
     "skv_StartServer n i (case gg_savedNow gg i of Some p \<Rightarrow> Copy p | None \<Rightarrow> MakePersister) (sg_maxraftstate cfg) (gg_gid gg) = Some (kv, rf)"
    using sg_start_ok [OF sg m(3) c(1) m(1,2) names fr rf] gg(3) unfolding c(2) by blast
  have "before g (Suc i) x" if "x \<in> usedIds names net" for x
    using that c(4) unfolding s(4) by (cases x) auto
  then have "making names n g (Suc i) (cfg\<lparr>sg_net := net, sg_groups := (sg_groups cfg)[g := Some gg'], sg_next := sg_next cfg + 1\<rparr>)"
    using mk(1) unfolding making_def by simp
  moreover have "skv_StartServer n i MakePersister (sg_maxraftstate cfg) (gg_gid gg) = Some (kv, rf)" using s(6) by (simp add: ps)
  then have "groupUp (Suc i) gg'" using skv_start_fresh gg(2,4) mk(3) by (auto simp: groupUp_def groupOK_def s(5) less_Suc_eq)
  ultimately show ?thesis using s(1-3) c(3) mk(2) by simp
qed

lemma making_group:
  assumes mk: "making names n g 0 cfg" and g: "g < 3" and n: "n \<le> 3" and names: "inj names"
  shows "\<exists>cfg'. makeGroup names g cfg = Some cfg' \<and> making names n (Suc g) 0 cfg'"
proof -
  let ?c = "cfg\<lparr>sg_groups := (sg_groups cfg)[g := Some (newGroup n 3 g)]\<rparr>"
  let ?P = "\<lambda>i c. making names n g i c \<and> (\<exists>gg. sg_groups c ! g = Some gg \<and> groupOK n g i gg \<and> groupNew n i gg \<and> groupUp i gg)"
  have len: "length (sg_groups cfg) = 3" using mk by (simp add: making_def)
  have "?P 0 ?c" using mk g len groupOK_newGroup [of n g] unfolding making_def groupUp_def by simp
  moreover have "\<exists>c'. sg_StartServer names g i c = Some c' \<and> ?P (Suc i) c'" if "i < n" "?P i c" for i c
    using making_server [OF _ g that(1) n names] that(2) by blast
  ultimately obtain c where c: "eachServer (sg_StartServer names g) [0..<n] ?c = Some c" "?P n c"
    using eachServer_counts [where P = ?P and f = "sg_StartServer names g" and c = ?c and n = n] by blast
  have "sg_n ?c = n" "sg_nmasters cfg = 3" "sg_n cfg = n" using mk by (simp_all add: making_def)
  then have "makeGroup names g cfg = Some c" using c(1) g len by (simp add: makeGroup_def StartGroup_def go_set_def)
  moreover have "before (Suc g) 0 x" if "before g n x" for x using that by (cases x) auto
  then have "making names n (Suc g) 0 c" using c(2) unfolding making_def by (auto simp: less_Suc_eq)
  ultimately show ?thesis by blast
qed

definition mastersMade :: "(endId \<Rightarrow> string) \<Rightarrow> nat \<Rightarrow> 's sgconfig \<Rightarrow> bool" where
  "mastersMade names k c \<longleftrightarrow> sg_nmasters c = 3 \<and> length (sg_masters c) = 3 \<and> sg_clerks c = Map.empty \<and> sg_nclerks c = 0
     \<and> (\<forall>x \<in> usedIds names (sg_net c). \<exists>i j. x = EMaster i j \<and> i < k)"

lemma masters_ok:
  assumes names: "inj names"
  shows "\<exists>cfg :: 's sgconfig. eachServer (StartMasterServer names) [0..<3] (sg_empty mrs) = Some cfg \<and> mastersMade names 3 cfg"
proof -
  have P0: "mastersMade names 0 (sg_empty mrs)" by (simp add: sg_empty_def mastersMade_def)
  have step: "\<exists>c'. StartMasterServer names k c = Some c' \<and> mastersMade names (Suc k) c'" if kc: "k < 3" "mastersMade names k c" for k and c :: "'s sgconfig"
  proof -
    note k = kc(1) kc(2) [unfolded mastersMade_def]
    have fr: "EMaster k j \<notin> usedIds names (sg_net c)" for j using k(2) by auto
    have nm: "sg_nmasters c = 3" using k(2) by simp
    obtain net where net: "openEnds (\<lambda>j. names (EMaster k j)) mastername [0..<sg_nmasters c] (sg_net c) = Some net"
      "usedIds names net = usedIds names (sg_net c) \<union> EMaster k ` {..<3}"
      using openEnds_used [where f = "EMaster k", OF names endId_inj(3) fr] unfolding nm by blast
    obtain v :: "ShardMaster \<times> (smop, 's) raft" where "sm_StartServer 3 k MakePersister = Some v" by (simp add: sm_StartServer_def Make_fresh)
    then have run: "StartMasterServer names k c = Some (c\<lparr>sg_net := AddServer (NStr (mastername k)) (sg_next c) net,
        sg_masters := (sg_masters c)[k := Some v], sg_next := sg_next c + 1\<rparr>)"
      using net(1) k nm by (simp add: StartMasterServer_def go_set_def)
    have "\<forall>x \<in> usedIds names net. \<exists>i j. x = EMaster i j \<and> i < Suc k"
    proof
      fix x assume "x \<in> usedIds names net"
      then consider "x \<in> usedIds names (sg_net c)" | j where "x = EMaster k j" unfolding net(2) by blast
      then show "\<exists>i j. x = EMaster i j \<and> i < Suc k" using k(2) less_SucI by cases blast+
    qed
    then show ?thesis unfolding run mastersMade_def using k(2) by simp
  qed
  show ?thesis using eachServer_counts [where P = "mastersMade names" and f = "StartMasterServer names" and n = 3 and c = "sg_empty mrs"] step P0 by blast
qed

lemma shardclerk_ok:
  assumes names: "inj names" and c: "sg_nmasters cfg = 3" "\<forall>x \<in> usedIds names (sg_net cfg). \<exists>i j. x = EMaster i j"
  shows "\<exists>net ck. shardclerk names nrand cfg = Some (cfg\<lparr>sg_net := net\<rparr>, ck) \<and> (\<forall>x \<in> usedIds names net. before 0 0 x)"
proof -
  have fr: "EShardClerk j \<notin> usedIds names (sg_net cfg)" for j using c(2) by auto
  obtain net where net: "openEnds (\<lambda>j. names (EShardClerk j)) mastername [0..<sg_nmasters cfg] (sg_net cfg) = Some net"
    "usedIds names net = usedIds names (sg_net cfg) \<union> EShardClerk ` {..<3}"
    using openEnds_used [where f = EShardClerk, OF names endId_inj(4) fr] unfolding c(1) by blast
  have "before 0 0 x" if "x \<in> usedIds names net" for x using that c(2) unfolding net(2) by force
  then show ?thesis using net(1)
    by (intro exI [of _ net] exI [of _ "sm_MakeClerk (sg_nmasters cfg) nrand"]) (simp add: shardclerk_def)
qed

lemma making_start:
  assumes "inj names"
  shows "\<exists>cfg mck (cfg0 :: 's sgconfig). eachServer (StartMasterServer names) [0..<3] (sg_empty mrs) = Some cfg0 \<and> shardclerk names nrand cfg0 = Some (cfg, mck)
     \<and> making names n 0 0 (cfg\<lparr>sg_mck := mck, sg_ngroups := 3, sg_groups := replicate 3 None, sg_n := n\<rparr>)"
proof -
  obtain c0 :: "'s sgconfig" where c0: "eachServer (StartMasterServer names) [0..<3] (sg_empty mrs) = Some c0" "mastersMade names 3 c0"
    using masters_ok [OF assms] by blast
  then have m: "sg_nmasters c0 = 3" "sg_clerks c0 = Map.empty" "sg_nclerks c0 = 0" "\<forall>x \<in> usedIds names (sg_net c0). \<exists>i j. x = EMaster i j"
    unfolding mastersMade_def by blast+
  obtain net ck where ck: "shardclerk names nrand c0 = Some (c0\<lparr>sg_net := net\<rparr>, ck)" "\<forall>x \<in> usedIds names net. before 0 0 x"
    using shardclerk_ok [OF assms m(1,4)] by blast
  show ?thesis
    by (intro exI [of _ "c0\<lparr>sg_net := net\<rparr>"] exI [of _ ck] exI [of _ c0]) (simp add: c0 m ck making_def)
qed

lemma make_config_ok:
  assumes "inj names" "n \<le> 3"
  shows "\<exists>cfg :: 's sgconfig. sg_make_config names nrand n unrel mrs = Some cfg \<and> making names n 3 0 cfg"
proof -
  obtain c mck and c0 :: "'s sgconfig" where c: "eachServer (StartMasterServer names) [0..<3] (sg_empty mrs) = Some c0" "shardclerk names nrand c0 = Some (c, mck)"
    "making names n 0 0 (c\<lparr>sg_mck := mck, sg_ngroups := 3, sg_groups := replicate 3 None, sg_n := n\<rparr>)"
    using making_start [OF assms(1)] by blast
  let ?c = "c\<lparr>sg_mck := mck, sg_ngroups := 3, sg_groups := replicate 3 None, sg_n := n\<rparr>"
  obtain d where d: "eachServer (makeGroup names) [0..<3] ?c = Some d" "making names n 3 0 d"
    using eachServer_counts [where P = "\<lambda>g c. making names n g 0 c" and n = 3 and f = "makeGroup names" and c = ?c] c(3)
      making_group [OF _ _ assms(2,1)] by blast
  have "making names n 3 0 (d\<lparr>sg_nextClientId := int n + 1000, sg_net := Reliable (\<not> unrel) (sg_net d)\<rparr>)"
    using d(2) unfolding making_def by simp
  then show ?thesis using c(1,2) d(1) unfolding sg_make_config_def by simp
qed

text \<open>With more than three servers, server 3 of group 0 has no slot in \<open>mendnames\<close>.\<close>

lemma start_keeps_slots:
  assumes "sg_StartServer names g i cfg = Some cfg'" "sg_group g cfg = Some gg"
  shows "\<exists>gg'. sg_group g cfg' = Some gg' \<and> length (gg_mendnames gg') = length (gg_mendnames gg) \<and> i < length (gg_mendnames gg)"
  using assms by (auto simp: sg_StartServer_def sg_group_def go_idx_def go_set_def Let_def split: Option.bind_split_asm if_splits)

lemma group_too_large:
  assumes "sg_group g cfg = Some gg" "length (gg_mendnames gg) < k"
  shows "eachServer (sg_StartServer names g) [0..<k] cfg = None"
proof (rule ccontr)
  let ?m = "length (gg_mendnames gg)"
  assume "eachServer (sg_StartServer names g) [0..<k] cfg \<noteq> None"
  then obtain d where "eachServer (sg_StartServer names g) [0..<k] cfg = Some d" by blast
  then have "eachServer (sg_StartServer names g) ([0..<?m] @ ?m # [Suc ?m..<k]) cfg = Some d"
    using assms(2) by (metis upt_conv_Cons upt_add_eq_append less_imp_add_positive zero_le le_add2 add_0 order_less_imp_le le_add_diff_inverse)
  then obtain c c' where c: "eachServer (sg_StartServer names g) [0..<?m] cfg = Some c" "sg_StartServer names g ?m c = Some c'"
    unfolding eachServer_append by (auto split: Option.bind_split_asm)
  let ?P = "\<lambda>c. \<exists>gg'. sg_group g c = Some gg' \<and> length (gg_mendnames gg') = ?m"
  have step: "?P c'" if "?P c" "sg_StartServer names g i c = Some c'" for i c c' using start_keeps_slots [OF that(2)] that(1) by auto
  have "?P c" by (rule eachServer_inv [where P = ?P, OF step _ c(1)]) (use assms(1) in auto)
  then show False using start_keeps_slots [OF c(2)] by auto
qed

lemma make_config_fails:
  assumes "inj names" "3 < n"
  shows "(sg_make_config names nrand n unrel mrs :: 's sgconfig option) = None"
proof -
  obtain c mck and c0 :: "'s sgconfig" where c: "eachServer (StartMasterServer names) [0..<3] (sg_empty mrs) = Some c0" "shardclerk names nrand c0 = Some (c, mck)"
    "making names n 0 0 (c\<lparr>sg_mck := mck, sg_ngroups := 3, sg_groups := replicate 3 None, sg_n := n\<rparr>)"
    using making_start [OF assms(1)] by blast
  let ?c = "c\<lparr>sg_mck := mck, sg_ngroups := 3, sg_groups := replicate 3 None, sg_n := n\<rparr>"
  have m: "sg_nmasters ?c = 3" using c(3) by (simp add: making_def)
  let ?d = "?c\<lparr>sg_groups := (replicate 3 None)[0 := Some (newGroup n 3 0)]\<rparr>"
  have "sg_group 0 ?d = Some (newGroup n 3 0)" by (simp add: sg_group_def go_idx_def)
  then have "eachServer (sg_StartServer names 0) [0..<n] ?d = None"
    by (rule group_too_large) (simp add: newGroup_def assms(2))
  then have "makeGroup names 0 ?c = None" using m by (simp add: makeGroup_def StartGroup_def go_set_def)
  then show ?thesis using c(1,2) unfolding sg_make_config_def by (simp add: upt_conv_Cons)
qed

text \<open>A clerk needs a slot for each of the three masters.\<close>

lemma clientEnds_ok:
  assumes "inj names" "k \<le> length es" "\<And>j. EClient c j \<notin> usedIds names rn"
  shows "\<exists>es' rn'. clientEnds (\<lambda>j. names (EClient c j)) [0..<k] es rn = Some (es', rn')"
proof -
  have "\<exists>es' rn'. clientEnds (\<lambda>j. names (EClient c j)) js es rn = Some (es', rn')"
    if "distinct js" "\<forall>j \<in> set js. j < length es \<and> NStr (names (EClient c j)) \<notin> nw_ends rn" for js es rn
    using that
  proof (induction js arbitrary: es rn)
    case (Cons j js)
    let ?rn = "rn\<lparr>nw_ends := insert (NStr (names (EClient c j))) (nw_ends rn), nw_enabled := (nw_enabled rn)(NStr (names (EClient c j)) := True),
       nw_connections := (nw_connections rn)(NStr (names (EClient c j)) := Some (NStr (mastername j)))\<rparr>"
    have "\<forall>i \<in> set js. i < length (es[j := names (EClient c j)]) \<and> NStr (names (EClient c i)) \<notin> nw_ends ?rn"
      using Cons.prems assms(1) by (auto simp: inj_eq)
    then obtain es' rn' where "clientEnds (\<lambda>j. names (EClient c j)) js (es[j := names (EClient c j)]) ?rn = Some (es', rn')"
      using Cons.IH [of "es[j := names (EClient c j)]" ?rn] Cons.prems by auto
    then show ?case using Cons.prems by (simp add: go_set_def make_end_eq)
  qed simp
  then show ?thesis using assms(2,3) by (auto simp: usedIds_def)
qed

lemma clientEnds_fails:
  assumes "length es < k"
  shows "clientEnds nm [0..<k] es rn = None"
proof -
  have "clientEnds nm js es rn = None" if "j \<in> set js" "length es \<le> j" for j js es rn
    using that
  proof (induction js arbitrary: es rn)
    case (Cons i js)
    show ?case
    proof (cases "i < length es")
      case True
      then have "j \<in> set js" "length (es[i := nm i]) \<le> j" using Cons.prems by auto
      then have "clientEnds nm js (es[i := nm i]) rn = None" for rn by (rule Cons.IH)
      with True show ?thesis by (simp add: go_set_def split: Option.bind_split)
    qed (simp add: go_set_def)
  qed simp
  then show ?thesis using assms by simp
qed

text \<open>C40. If the random names are distinct, \<open>make_config\<close> of the sharded service succeeds exactly with at most three servers per
  group (with more, a slice that is sized for the masters is indexed by a server), and then \<open>makeClient\<close> succeeds exactly
  with at least three (a slice that is sized for the servers is indexed by a master).\<close>

theorem sg_only_three_servers:
  assumes "inj names"
  shows "((\<exists>cfg :: 's sgconfig. sg_make_config names nrand n unreliable maxraftstate = Some cfg) \<longleftrightarrow> n \<le> 3)
   \<and> (\<forall>cfg :: 's sgconfig. sg_make_config names nrand n unreliable maxraftstate = Some cfg \<longrightarrow>
        ((\<exists>cfg' ck. sg_makeClient names cfg = Some (cfg', ck)) \<longleftrightarrow> 3 \<le> n))"
proof (cases "n \<le> 3")
  case False
  then show ?thesis using make_config_fails [where 's = 's, OF assms] by simp
next
  case True
  obtain cfg :: "'s sgconfig" where cfg: "sg_make_config names nrand n unreliable maxraftstate = Some cfg" "making names n 3 0 cfg"
    using make_config_ok [OF assms True] by blast
  then have c: "sg_n cfg = n" "sg_nmasters cfg = 3" "EClient k j \<notin> usedIds names (sg_net cfg)" for k j
    by (auto simp: making_def)
  have "(\<exists>cfg' ck. sg_makeClient names cfg = Some (cfg', ck)) \<longleftrightarrow> 3 \<le> n"
  proof (cases "3 \<le> n")
    case True
    then have "3 \<le> length (replicate n [])" by simp
    from clientEnds_ok [OF assms this c(3)] obtain es rn where
      "clientEnds (\<lambda>j. names (EClient (sg_nclerks cfg) j)) [0..<3] (replicate n []) (sg_net cfg) = Some (es, rn)" by blast
    then show ?thesis using c(1,2) True by (simp add: sg_makeClient_def)
  next
    case False
    then show ?thesis using clientEnds_fails [of "replicate n []" 3] c(1,2) by (simp add: sg_makeClient_def)
  qed
  with cfg(1) True show ?thesis by simp
qed

text \<open>Distinct names for a small example.\<close>

fun sgNames :: "endId \<Rightarrow> string" where
  "sgNames (EMaster i j) = replicate i CHR ''a'' @ ''m'' @ replicate j CHR ''b''"
| "sgNames (EShardClerk j) = ''s'' @ replicate j CHR ''b''"
| "sgNames (EPeer g i j) = replicate g CHR ''g'' @ ''p'' @ replicate i CHR ''a'' @ ''p'' @ replicate j CHR ''b''"
| "sgNames (EMend g i j) = replicate g CHR ''g'' @ ''n'' @ replicate i CHR ''a'' @ ''n'' @ replicate j CHR ''b''"
| "sgNames (EClient c j) = replicate c CHR ''a'' @ ''c'' @ replicate j CHR ''b''"
| "sgNames (EOther k) = ''o'' @ replicate k CHR ''b''"

text \<open>The number of copies of a letter tells the indices.\<close>

lemma sgNames_letters:
  "(length (filter (\<lambda>c. c = CHR ''a'') (sgNames x)), length (filter (\<lambda>c. c = CHR ''b'') (sgNames x)), length (filter (\<lambda>c. c = CHR ''g'') (sgNames x)),
    CHR ''m'' \<in> set (sgNames x), CHR ''s'' \<in> set (sgNames x), CHR ''p'' \<in> set (sgNames x), CHR ''n'' \<in> set (sgNames x), CHR ''c'' \<in> set (sgNames x))
   = (case x of EMaster i j \<Rightarrow> (i, j, 0, True, False, False, False, False) | EShardClerk j \<Rightarrow> (0, j, 0, False, True, False, False, False)
      | EPeer g i j \<Rightarrow> (i, j, g, False, False, True, False, False) | EMend g i j \<Rightarrow> (i, j, g, False, False, False, True, False)
      | EClient c j \<Rightarrow> (c, j, 0, False, False, False, False, True) | EOther k \<Rightarrow> (0, k, 0, False, False, False, False, False))"
  by (cases x) (auto simp: filter_replicate)

lemma sgNames_inj: "inj sgNames"
proof (rule injI)
  fix x y assume "sgNames x = sgNames y"
  then show "x = y" using sgNames_letters [of x] sgNames_letters [of y] by (simp split: endId.splits)
qed

theorem sg_only_three_servers_witness:
  "(\<exists>cfg :: nat sgconfig. sg_make_config sgNames 0 3 False (-1) = Some cfg \<and> (\<exists>cfg' ck. sg_makeClient sgNames cfg = Some (cfg', ck)))
   \<and> (sg_make_config sgNames 0 5 False (-1) :: nat sgconfig option) = None"
proof
  note t = sg_only_three_servers [where 's = nat, OF sgNames_inj]
  obtain cfg :: "nat sgconfig" where c: "sg_make_config sgNames 0 3 False (-1) = Some cfg" using t [of 0 3 False "-1"] by auto
  moreover have "\<exists>cfg' ck. sg_makeClient sgNames cfg = Some (cfg', ck)" using t [of 0 3 False "-1", THEN conjunct2, rule_format, OF c] by simp
  ultimately show "\<exists>cfg :: nat sgconfig. sg_make_config sgNames 0 3 False (-1) = Some cfg \<and> (\<exists>cfg' ck. sg_makeClient sgNames cfg = Some (cfg', ck))"
    by blast
  show "(sg_make_config sgNames 0 5 False (-1) :: nat sgconfig option) = None"
    using t [of 0 5 False "-1", THEN conjunct1] by (cases "sg_make_config sgNames 0 5 False (-1) :: nat sgconfig option") auto
qed

section \<open>Reachable configurations\<close>

definition sgInv :: "'s sgconfig \<Rightarrow> bool" where
  "sgInv cfg \<longleftrightarrow> sg_nmasters cfg = 3 \<and> sg_n cfg \<le> 3 \<and> length (sg_groups cfg) = 3
     \<and> (\<forall>gi < 3. \<exists>gg. sg_groups cfg ! gi = Some gg \<and> groupOK (sg_n cfg) gi (sg_n cfg) gg)"

text \<open>What a test can do; \<open>SServer\<close> is a step of a running server, \<open>SMakeEnd\<close> a call of \<open>make_end\<close> by a server or a clerk.\<close>

datatype sevent =
    SShutdown nat nat
  | SStart "endId \<Rightarrow> string" nat nat
  | SMakeClient "endId \<Rightarrow> string"
  | SDeleteClient nat
  | SMakeEnd string string
  | SServer nat nat "ShardKV \<times> skvraft"
  | SJoin "nat list" "JoinArgs \<Rightarrow> (nat \<Rightarrow> bool option) list"
  | SLeave "nat list" "LeaveArgs \<Rightarrow> (nat \<Rightarrow> bool option) list"

definition serverStep :: "nat \<Rightarrow> nat \<Rightarrow> ShardKV \<times> skvraft \<Rightarrow> 's sgconfig \<Rightarrow> 's sgconfig option" where
  "serverStep gi i srv cfg = do {
     gg \<leftarrow> sg_group gi cfg;
     if i < length (gg_servers gg) \<and> gg_servers gg ! i \<noteq> None
     then Some (cfg\<lparr>sg_groups := (sg_groups cfg)[gi := Some (gg\<lparr>gg_servers := (gg_servers gg)[i := Some srv]\<rparr>)]\<rparr>) else None }"

fun sstep :: "'s sgconfig \<Rightarrow> sevent \<Rightarrow> 's sgconfig option" where
  "sstep cfg (SShutdown gi i) = sg_ShutdownServer gi i cfg"
| "sstep cfg (SStart names gi i) = sg_StartServer names gi i cfg"
| "sstep cfg (SMakeClient names) = map_option fst (sg_makeClient names cfg)"
| "sstep cfg (SDeleteClient ck) = Some (sg_deleteClient ck cfg)"
| "sstep cfg (SMakeEnd nm srv) = map_option (\<lambda>net. cfg\<lparr>sg_net := net\<rparr>) (make_end nm srv (sg_net cfg))"
| "sstep cfg (SServer gi i srv) = serverStep gi i srv cfg"
| "sstep cfg (SJoin gis net) = joinm gis net cfg"
| "sstep cfg (SLeave gis net) = leavem gis net cfg"

primrec srun :: "'s sgconfig \<Rightarrow> sevent list \<Rightarrow> 's sgconfig option" where
  "srun cfg [] = Some cfg"
| "srun cfg (e # es) = Option.bind (sstep cfg e) (\<lambda>cfg. srun cfg es)"

definition sgReach :: "'s sgconfig \<Rightarrow> bool" where
  "sgReach cfg \<longleftrightarrow> (\<exists>names nrand n unreliable maxraftstate cfg0 es. inj names \<and>
     sg_make_config names nrand n unreliable maxraftstate = Some cfg0 \<and> srun cfg0 es = Some cfg)"

lemma sgInv_frame:
  assumes "sgInv cfg" "sg_nmasters cfg' = sg_nmasters cfg" "sg_n cfg' = sg_n cfg" "sg_groups cfg' = sg_groups cfg"
  shows "sgInv cfg'"
  using assms by (simp add: sgInv_def)

lemma sgInv_group:
  assumes inv: "sgInv cfg" and gg: "sg_group gi cfg = Some gg" and gg': "groupOK (sg_n cfg) gi (sg_n cfg) gg'"
    and c: "sg_nmasters cfg' = sg_nmasters cfg" "sg_n cfg' = sg_n cfg" "sg_groups cfg' = (sg_groups cfg)[gi := Some gg']"
  shows "sgInv cfg'"
proof -
  have "\<exists>gg. ((sg_groups cfg)[gi := Some gg']) ! k = Some gg \<and> groupOK (sg_n cfg) k (sg_n cfg) gg" if "k < 3" for k
    using inv gg' that by (cases "k = gi") (auto simp: sgInv_def)
  then show ?thesis using inv by (simp add: sgInv_def c)
qed

lemma sgInvD: "sgInv cfg \<Longrightarrow> sg_group gi cfg = Some gg \<Longrightarrow> gi < 3 \<and> groupOK (sg_n cfg) gi (sg_n cfg) gg"
  by (auto simp: sgInv_def sg_group_def go_idx_def split: if_splits)

lemma groupOK_upd:
  assumes "groupOK n gi m gg" "gg_gid gg' = gg_gid gg" "length (gg_servers gg') = length (gg_servers gg)" "length (gg_saved gg') = length (gg_saved gg)"
    "gg_endnames gg' = gg_endnames gg" "gg_mendnames gg' = gg_mendnames gg"
  shows "groupOK n gi m gg'"
  using assms by (simp add: groupOK_def)

lemma sg_shutdown_cases:
  assumes "sg_ShutdownServer gi i cfg = Some cfg'"
  obtains gg es where "sg_group gi cfg = Some gg" "cfg' = cfg\<lparr>sg_net := sg_net cfg', sg_groups := (sg_groups cfg)[gi := Some
       (gg\<lparr>gg_saved := (gg_saved gg)[i := map_option Copy (gg_savedNow gg i)], gg_servers := (gg_servers gg)[i := None]\<rparr>)]\<rparr>"
  using assms by (auto simp: sg_ShutdownServer_def Let_def split: Option.bind_split_asm)

lemma sgInv_shutdown:
  assumes inv: "sgInv cfg" and run: "sg_ShutdownServer gi i cfg = Some cfg'"
  shows "sgInv cfg'"
proof -
  obtain gg where gg: "sg_group gi cfg = Some gg" and c: "cfg' = cfg\<lparr>sg_net := sg_net cfg', sg_groups := (sg_groups cfg)[gi := Some
       (gg\<lparr>gg_saved := (gg_saved gg)[i := map_option Copy (gg_savedNow gg i)], gg_servers := (gg_servers gg)[i := None]\<rparr>)]\<rparr>"
    using sg_shutdown_cases [OF run] by blast
  show ?thesis
  proof (rule sgInv_group [OF inv gg])
    show "groupOK (sg_n cfg) gi (sg_n cfg) (gg\<lparr>gg_saved := (gg_saved gg)[i := map_option Copy (gg_savedNow gg i)], gg_servers := (gg_servers gg)[i := None]\<rparr>)"
      by (rule groupOK_upd [OF sgInvD [OF inv gg, THEN conjunct2]]) simp_all
  qed (subst c, simp)+
qed

lemma sgInv_start:
  assumes inv: "sgInv cfg" and run: "sg_StartServer names gi i cfg = Some cfg'"
  shows "sgInv cfg'"
proof -
  obtain gg where gg: "sg_group gi cfg = Some gg" using run by (auto simp: sg_StartServer_def split: Option.bind_split_asm)
  note ok = sgInvD [OF inv gg, THEN conjunct2]
  have len: "length (gg_endnames gg) = sg_n cfg" "length (gg_mendnames gg) = 3" using ok by (simp_all add: groupOK_def)
  have i: "i < sg_n cfg" "i < 3" and nm: "sg_nmasters cfg = 3"
    using run gg len inv by (auto simp: sg_StartServer_def go_set_def sgInv_def Let_def split: Option.bind_split_asm if_splits)
  obtain ps srv net where c: "cfg' = cfg\<lparr>sg_net := net, sg_groups := (sg_groups cfg)[gi := Some
     (gg\<lparr>gg_endnames := (gg_endnames gg)[i := Some (map (\<lambda>j. names (EPeer gi i j)) [0..<sg_n cfg])],
         gg_mendnames := (gg_mendnames gg)[i := Some (map (\<lambda>j. names (EMend gi i j)) [0..<sg_nmasters cfg])],
         gg_saved := (gg_saved gg)[i := Some ps], gg_servers := (gg_servers gg)[i := Some srv]\<rparr>)], sg_next := sg_next cfg + 1\<rparr>"
    using run gg len i by (auto simp: sg_StartServer_def go_set_def Let_def split: Option.bind_split_asm)
  show ?thesis
  proof (rule sgInv_group [OF inv gg])
    show "groupOK (sg_n cfg) gi (sg_n cfg) (gg\<lparr>gg_endnames := (gg_endnames gg)[i := Some (map (\<lambda>j. names (EPeer gi i j)) [0..<sg_n cfg])],
         gg_mendnames := (gg_mendnames gg)[i := Some (map (\<lambda>j. names (EMend gi i j)) [0..<sg_nmasters cfg])],
         gg_saved := (gg_saved gg)[i := Some ps], gg_servers := (gg_servers gg)[i := Some srv]\<rparr>)"
      using ok i nm by (auto simp: groupOK_def nth_list_update)
  qed (simp_all add: c)
qed

lemma sgInv_step:
  assumes inv: "sgInv cfg" and run: "sstep cfg e = Some cfg'"
  shows "sgInv cfg'"
proof (cases e)
  case (SServer gi i srv)
  then obtain gg where gg: "sg_group gi cfg = Some gg"
    and c: "cfg' = cfg\<lparr>sg_groups := (sg_groups cfg)[gi := Some (gg\<lparr>gg_servers := (gg_servers gg)[i := Some srv]\<rparr>)]\<rparr>"
    using run by (auto simp: serverStep_def split: Option.bind_split_asm if_splits)
  show ?thesis
  proof (rule sgInv_group [OF inv gg])
    show "groupOK (sg_n cfg) gi (sg_n cfg) (gg\<lparr>gg_servers := (gg_servers gg)[i := Some srv]\<rparr>)"
      by (rule groupOK_upd [OF sgInvD [OF inv gg, THEN conjunct2]]) simp_all
  qed (simp_all add: c)
next
  case SShutdown
  then show ?thesis using run by (auto intro: sgInv_shutdown [OF inv])
next
  case SStart
  then show ?thesis using run by (auto intro: sgInv_start [OF inv])
qed (use run in \<open>auto intro!: sgInv_frame [OF inv] simp: sg_makeClient_def sg_deleteClient_def joinm_def leavem_def split: Option.bind_split_asm\<close>)

lemma sgInv_run: "sgInv cfg \<Longrightarrow> srun cfg es = Some cfg' \<Longrightarrow> sgInv cfg'"
  by (induction es arbitrary: cfg) (auto split: Option.bind_split_asm intro: sgInv_step)

lemma sgInv_make:
  assumes "inj names" "sg_make_config names nrand n unreliable maxraftstate = Some (cfg :: 's sgconfig)"
  shows "sgInv cfg"
proof -
  have n: "n \<le> 3" using make_config_fails [where 's = 's, OF assms(1), of n nrand unreliable maxraftstate] assms(2) by (cases "n \<le> 3") auto
  then have "making names n 3 0 cfg" using make_config_ok [where 's = 's, OF assms(1) n, of nrand unreliable maxraftstate] assms(2) by auto
  then show ?thesis using n unfolding making_def sgInv_def by metis
qed

lemma sgReach_inv: "sgReach cfg \<Longrightarrow> sgInv cfg"
  using sgInv_make sgInv_run unfolding sgReach_def by blast

section \<open>Shutdown and restart\<close>

text \<open>The network after a shutdown.\<close>

lemma sg_shutdown_ok:
  assumes inv: "sgInv cfg" and i: "i < sg_n cfg" and gg: "sg_group gi cfg = Some gg" and srv: "gg_servers gg ! i = Some (kv, rf)"
    and kill: "exitCh rf = []" "skv_exitCh kv = 0" and es: "gg_endnames gg ! i = Some es" "gg_mendnames gg ! i = Some ms"
  shows "\<exists>gg'. sg_ShutdownServer gi i cfg = Some (cfg\<lparr>
       sg_net := (sg_net cfg)\<lparr>nw_enabled := \<lambda>x. x \<notin> NStr ` set (es @ ms) \<and> nw_enabled (sg_net cfg) x,
                             nw_servers := (nw_servers (sg_net cfg))(NStr (servername (100 + int gi) i) := None)\<rparr>,
       sg_groups := (sg_groups cfg)[gi := Some gg']\<rparr>)
     \<and> gg' = gg\<lparr>gg_saved := (gg_saved gg)[i := Some (persister rf)], gg_servers := (gg_servers gg)[i := None]\<rparr>"
proof -
  note ok = sgInvD [OF inv gg, THEN conjunct2]
  have len: "length (gg_servers gg) = sg_n cfg" "length (gg_endnames gg) = sg_n cfg" "length (gg_mendnames gg) = 3" "length es = sg_n cfg"
    "gg_gid gg = 100 + int gi" using ok i es(1) by (auto simp: groupOK_def)
  have i3: "i < 3" using i inv by (simp add: sgInv_def)
  have look: "endAt (gg_endnames gg) i j = Some (es ! j)" if "j < sg_n cfg" for j
    using that i len es(1) by (simp add: endAt_def go_idx_def)
  have h1: "hit (\<lambda>j. map_option Some (endAt (gg_endnames gg) i j)) [0..<length (gg_servers gg)] x \<longleftrightarrow> x \<in> NStr ` set es" for x
  proof -
    have "hit (\<lambda>j. map_option Some (endAt (gg_endnames gg) i j)) [0..<length (gg_servers gg)] x \<longleftrightarrow> (\<exists>j < sg_n cfg. x = NStr (es ! j))"
      unfolding hit_def len(1) using look by auto
    moreover have "(\<exists>j < sg_n cfg. x = NStr (es ! j)) \<longleftrightarrow> x \<in> NStr ` set es" using len(4) by (auto simp: set_conv_nth)
    ultimately show ?thesis by (rule trans)
  qed
  have h2: "hit (\<lambda>nm. Some (Some nm)) ms x \<longleftrightarrow> x \<in> NStr ` set ms" for x by (auto simp: hit_def)
  let ?net = "(sg_net cfg)\<lparr>nw_enabled := \<lambda>x. if x \<in> NStr ` set es then False else nw_enabled (sg_net cfg) x\<rparr>"
  have e1: "enableLoop False (\<lambda>j. map_option Some (endAt (gg_endnames gg) i j)) [0..<length (gg_servers gg)] (sg_net cfg) = Some ?net"
    unfolding enableLoop_eq h1 using look len(1) by auto
  have e2: "enableLoop False (\<lambda>nm. Some (Some nm)) ms ?net =
      Some ((sg_net cfg)\<lparr>nw_enabled := \<lambda>x. x \<notin> NStr ` set (es @ ms) \<and> nw_enabled (sg_net cfg) x\<rparr>)"
  proof -
    have "(\<lambda>x. if x \<in> NStr ` set ms then False else nw_enabled ?net x) = (\<lambda>x. x \<notin> NStr ` set (es @ ms) \<and> nw_enabled (sg_net cfg) x)"
      by (auto simp: fun_eq_iff)
    then show ?thesis unfolding enableLoop_eq h2 by simp
  qed
  have m: "go_idx (gg_mendnames gg) (int i) = Some (Some ms)" using i3 len(3) es(2) by (simp add: go_idx_def)
  have k: "skv_Kill kv rf \<noteq> None" using kill by (simp add: skv_Kill_def Kill_def)
  have ps: "gg_savedNow gg i = Some (persister rf)" using srv by (simp add: gg_savedNow_def)
  show ?thesis unfolding sg_ShutdownServer_def using gg e1 m e2 k srv
    by (auto simp: ps Copy_same Let_def DeleteServer_def len(5))
qed

text \<open>C39. In every configuration of the sharded service that a test can produce, a running server whose exit channels are empty can
  be shut down.  Its Raft state and snapshot stay on disk, no other server changes, no end leads to it any more, and
  the ends it was given for its group and for the masters are cut off.  Every other end serves requests as before:
  this includes the ends that the server itself made with \<open>make_end\<close>, so it is not prevented from sending to other groups.\<close>

theorem sg_shutdown_isolates:
  assumes "sgReach cfg" "i < sg_n cfg" "sg_group gi cfg = Some gg" "gg_servers gg ! i = Some (kv, rf)" "exitCh rf = []" "skv_exitCh kv = 0"
    and "gg_endnames gg ! i = Some es" "gg_mendnames gg ! i = Some ms"
  shows "\<exists>cfg' gg'. sg_ShutdownServer gi i cfg = Some cfg' \<and> sg_groups cfg' = (sg_groups cfg)[gi := Some gg']
     \<and> gg_servers gg' = (gg_servers gg)[i := None] \<and> gg_saved gg' = (gg_saved gg)[i := Some (persister rf)]
     \<and> (\<forall>(req :: (goname, 'b) reqMsg) d. nw_connections (sg_net cfg) (rq_endname req) = Some (NStr (servername (gg_gid gg) i)) \<longrightarrow>
          processBegin (sg_net cfg') req d = Unreachable)
     \<and> (\<forall>(req :: (goname, 'b) reqMsg) d. rq_endname req \<in> NStr ` set (es @ ms) \<longrightarrow> processBegin (sg_net cfg') req d = Unreachable)
     \<and> (\<forall>(req :: (goname, 'b) reqMsg) d. rq_endname req \<notin> NStr ` set (es @ ms) \<longrightarrow>
          nw_connections (sg_net cfg) (rq_endname req) \<noteq> Some (NStr (servername (gg_gid gg) i)) \<longrightarrow>
          processBegin (sg_net cfg') req d = processBegin (sg_net cfg) req d)"
proof -
  note inv = sgReach_inv [OF assms(1)]
  have gid: "gg_gid gg = 100 + int gi" using sgInvD [OF inv assms(3)] by (simp add: groupOK_def)
  let ?net = "(sg_net cfg)\<lparr>nw_enabled := \<lambda>x. x \<notin> NStr ` set (es @ ms) \<and> nw_enabled (sg_net cfg) x,
                             nw_servers := (nw_servers (sg_net cfg))(NStr (servername (100 + int gi) i) := None)\<rparr>"
  let ?gg = "gg\<lparr>gg_saved := (gg_saved gg)[i := Some (persister rf)], gg_servers := (gg_servers gg)[i := None]\<rparr>"
  have run: "sg_ShutdownServer gi i cfg = Some (cfg\<lparr>sg_net := ?net, sg_groups := (sg_groups cfg)[gi := Some ?gg]\<rparr>)"
    using sg_shutdown_ok [OF inv assms(2-8)] by blast
  have "processBegin ?net req d = Unreachable"
    if "nw_connections (sg_net cfg) (rq_endname req) = Some (NStr (servername (gg_gid gg) i))" for req :: "(goname, 'b) reqMsg" and d
    using that by (simp add: processBegin_def readEndnameInfo_def Let_def gid)
  moreover have "processBegin ?net req d = Unreachable" if "rq_endname req \<in> NStr ` set (es @ ms)" for req :: "(goname, 'b) reqMsg" and d
    using that by (simp add: processBegin_def readEndnameInfo_def Let_def split: option.split)
  moreover have "processBegin ?net req d = processBegin (sg_net cfg) req d"
    if "rq_endname req \<notin> NStr ` set (es @ ms)" "nw_connections (sg_net cfg) (rq_endname req) \<noteq> Some (NStr (servername (gg_gid gg) i))"
    for req :: "(goname, 'b) reqMsg" and d
    using that by (auto simp: processBegin_def readEndnameInfo_def Let_def gid split: option.split)
  ultimately show ?thesis using run
    by (intro exI [of _ "cfg\<lparr>sg_net := ?net, sg_groups := (sg_groups cfg)[gi := Some ?gg]\<rparr>"] exI [of _ ?gg]) simp
qed

text \<open>Server 0 of group 0 of a fresh configuration.\<close>

lemma sg_fresh_server:
  assumes "inj names" "sg_make_config names nrand 3 False (-1) = Some (cfg :: 's sgconfig)"
  shows "\<exists>gg kv rf es ms. sgReach cfg \<and> sg_n cfg = 3 \<and> sg_group 0 cfg = Some gg \<and> gg_gid gg = 100 \<and> gg_servers gg ! 0 = Some (kv, rf) \<and> exitCh rf = []
     \<and> skv_exitCh kv = 0 \<and> gg_endnames gg ! 0 = Some es \<and> gg_mendnames gg ! 0 = Some ms \<and> length (gg_servers gg) = 3 \<and> length es = 3"
proof -
  have "sgReach cfg" unfolding sgReach_def using assms
    by (intro exI [of _ names] exI [of _ nrand] exI [of _ 3] exI [of _ False] exI [of _ "-1"] exI [of _ cfg] exI [of _ "[]"]) simp
  moreover have m: "making names 3 3 0 cfg" using make_config_ok [where 's = 's, OF assms(1) order_refl, of nrand False "-1"] assms(2) by auto
  moreover obtain gg where g: "sg_groups cfg ! 0 = Some gg" "groupOK 3 0 3 gg" "groupUp 3 gg" using m unfolding making_def by force
  moreover have "sg_group 0 cfg = Some gg" using g(1) m by (simp add: making_def sg_group_def go_idx_def)
  moreover obtain es ms where "gg_endnames gg ! 0 = Some es" "length es = 3" "gg_mendnames gg ! 0 = Some ms" 
    using g(2) unfolding groupOK_def by force
  moreover have "gg_gid gg = 100" "length (gg_servers gg) = 3" using g(2) by (simp_all add: groupOK_def)
  moreover obtain kv rf where "gg_servers gg ! 0 = Some (kv, rf)" "exitCh rf = []" "skv_exitCh kv = 0" using g(3) unfolding groupUp_def by force
  ultimately show ?thesis by (auto simp: making_def)
qed

theorem sg_shutdown_isolates_witness:
  "\<exists>(cfg :: nat sgconfig) cfg' gg gg' es. sg_make_config sgNames 0 3 False (-1) = Some cfg \<and> sg_group 0 cfg = Some gg \<and> gg_endnames gg ! 0 = Some es
     \<and> sg_ShutdownServer 0 0 cfg = Some cfg' \<and> sg_groups cfg' = (sg_groups cfg)[0 := Some gg'] \<and> gg_servers gg ! 0 \<noteq> None \<and> gg_servers gg' ! 0 = None
     \<and> processBegin (sg_net cfg') \<lparr>rq_endname = NStr (es ! 1), rq_svcMeth = [], rq_args = [0 :: nat]\<rparr> False = Unreachable"
proof -
  obtain cfg :: "nat sgconfig" where c: "sg_make_config sgNames 0 3 False (-1) = Some cfg"
    using make_config_ok [where 's = nat, OF sgNames_inj order_refl, of 0 False "-1"] by blast
  obtain gg kv rf es ms where g: "sgReach cfg" "0 < sg_n cfg" "sg_group 0 cfg = Some gg" "gg_servers gg ! 0 = Some (kv, rf)" "exitCh rf = []"
    "skv_exitCh kv = 0" "gg_endnames gg ! 0 = Some es" "gg_mendnames gg ! 0 = Some ms" "length (gg_servers gg) = 3" "length es = 3"
    using sg_fresh_server [OF sgNames_inj c] by auto
  obtain cfg' gg' where s: "sg_ShutdownServer 0 0 cfg = Some cfg'" "sg_groups cfg' = (sg_groups cfg)[0 := Some gg']" "gg_servers gg' = (gg_servers gg)[0 := None]"
    "\<And>(req :: (goname, nat) reqMsg) d. rq_endname req \<in> NStr ` set (es @ ms) \<Longrightarrow> processBegin (sg_net cfg') req d = Unreachable"
    using sg_shutdown_isolates [where 'b = nat, OF g(1-8)] by blast
  have "processBegin (sg_net cfg') \<lparr>rq_endname = NStr (es ! 1), rq_svcMeth = [], rq_args = [0 :: nat]\<rparr> False = Unreachable"
    by (rule s(4)) (use g(10) in simp)
  then show ?thesis using c g s(1-3)
    by (intro exI [of _ cfg] exI [of _ cfg'] exI [of _ gg] exI [of _ gg'] exI [of _ es]) simp
qed

text \<open>The sharded server is a service in the sense of the other harnesses.\<close>

interpretation skvService: service "\<lambda>n i ps. skv_StartServer n i ps maxraftstate gid" for maxraftstate gid
  by unfold_locales (auto simp: skv_StartServer_def Let_def split: Option.bind_split_asm)

text \<open>Starting a server again after its shutdown, with fresh names, brings back what it had on disk.\<close>

theorem sg_restart_keeps:
  assumes reach: "sgReach cfg" and i: "i < sg_n cfg" and gg: "sg_group gi cfg = Some gg" and srv: "gg_servers gg ! i = Some (kv, rf)" "saved rf" "log_wf rf"
    and kill: "exitCh rf = []" "skv_exitCh kv = 0" and names: "inj names" "\<And>j. EPeer gi i j \<notin> usedIds names (sg_net cfg)" "\<And>j. EMend gi i j \<notin> usedIds names (sg_net cfg)"
  shows "\<exists>cfg1 cfg2 gg2 kv' rf'. sg_ShutdownServer gi i cfg = Some cfg1 \<and> sg_StartServer names gi i cfg1 = Some cfg2
     \<and> sg_group gi cfg2 = Some gg2 \<and> gg_servers gg2 = (gg_servers gg)[i := Some (kv', rf')]
     \<and> skv_StartServer (sg_n cfg) i (persister rf) (sg_maxraftstate cfg) (gg_gid gg) = Some (kv', rf')
     \<and> role rf' = Follower \<and> currentTerm rf' = currentTerm rf \<and> votedFor rf' = votedFor rf \<and> getLastLogIndex rf' = getLastLogIndex rf
     \<and> (\<forall>k > lastIncludedIndex rf. logAt rf' k = logAt rf k)"
proof -
  note inv = sgReach_inv [OF reach]
  note ok = sgInvD [OF inv gg]
  have n: "sg_n cfg \<le> 3" "sg_nmasters cfg = 3" "length (sg_groups cfg) = 3" using inv by (simp_all add: sgInv_def)
  obtain es ms where e: "gg_endnames gg ! i = Some es" "gg_mendnames gg ! i = Some ms" using ok i by (auto simp: groupOK_def)
  obtain gg1 where s: "sg_ShutdownServer gi i cfg = Some (cfg\<lparr>
       sg_net := (sg_net cfg)\<lparr>nw_enabled := \<lambda>x. x \<notin> NStr ` set (es @ ms) \<and> nw_enabled (sg_net cfg) x,
                             nw_servers := (nw_servers (sg_net cfg))(NStr (servername (100 + int gi) i) := None)\<rparr>,
       sg_groups := (sg_groups cfg)[gi := Some gg1]\<rparr>)"
    "gg1 = gg\<lparr>gg_saved := (gg_saved gg)[i := Some (persister rf)], gg_servers := (gg_servers gg)[i := None]\<rparr>"
    using sg_shutdown_ok [OF inv i gg srv(1) kill e] by blast
  define cfg1 where "cfg1 = cfg\<lparr>
       sg_net := (sg_net cfg)\<lparr>nw_enabled := \<lambda>x. x \<notin> NStr ` set (es @ ms) \<and> nw_enabled (sg_net cfg) x,
                             nw_servers := (nw_servers (sg_net cfg))(NStr (servername (100 + int gi) i) := None)\<rparr>,
       sg_groups := (sg_groups cfg)[gi := Some gg1]\<rparr>"
  have run1: "sg_ShutdownServer gi i cfg = Some cfg1" using s(1) by (simp add: cfg1_def)
  have c1: "sg_n cfg1 = sg_n cfg" "sg_nmasters cfg1 = 3" "sg_maxraftstate cfg1 = sg_maxraftstate cfg" "usedIds names (sg_net cfg1) = usedIds names (sg_net cfg)"
    "sg_groups cfg1 = (sg_groups cfg)[gi := Some gg1]" using n(2) by (simp_all add: cfg1_def usedIds_def)
  have g1: "sg_group gi cfg1 = Some gg1" using ok n(3) by (simp add: sg_group_def go_idx_def c1(5))
  have ok1: "groupOK (sg_n cfg1) gi (sg_n cfg) gg1" unfolding s(2) c1(1) using ok by (auto intro: groupOK_upd)
  have len: "length (gg_servers gg) = sg_n cfg" "length (gg_saved gg) = sg_n cfg" using ok by (simp_all add: groupOK_def)
  have ps: "gg_savedNow gg1 i = Some (persister rf)" using i len by (simp add: s(2) gg_savedNow_def)
  obtain rf' where m: "Make (sg_n cfg) i (persister rf) = Some rf'" using Make_saved [OF srv(2)] by blast
  have fr: "EPeer gi i j \<notin> usedIds names (sg_net cfg1)" "EMend gi i j \<notin> usedIds names (sg_net cfg1)" for j using names(2,3) c1(4) by simp_all
  have i1: "i < sg_n cfg1" "i < 3" using i n(1) c1(1) by simp_all
  have m1: "Make (sg_n cfg1) i (case gg_savedNow gg1 i of Some p \<Rightarrow> Copy p | None \<Rightarrow> MakePersister) = Some rf'"
    using m by (simp add: ps Copy_same c1(1))
  obtain net gg2 kv' where t: "sg_StartServer names gi i cfg1 =
       Some (cfg1\<lparr>sg_net := net, sg_groups := (sg_groups cfg1)[gi := Some gg2], sg_next := sg_next cfg1 + 1\<rparr>)"
     "gg_servers gg2 = (gg_servers gg1)[i := Some (kv', rf')]"
     "skv_StartServer (sg_n cfg1) i (case gg_savedNow gg1 i of Some p \<Rightarrow> Copy p | None \<Rightarrow> MakePersister) (sg_maxraftstate cfg1) (gg_gid gg1) = Some (kv', rf')"
    using sg_start_ok [OF g1 ok1 c1(2) i1 names(1) fr m1] by blast
  let ?c = "cfg1\<lparr>sg_net := net, sg_groups := (sg_groups cfg1)[gi := Some gg2], sg_next := sg_next cfg1 + 1\<rparr>"
  have "sg_group gi ?c = Some gg2" using ok n(3) by (simp add: sg_group_def go_idx_def c1(5))
  moreover have "skv_StartServer (sg_n cfg) i (persister rf) (sg_maxraftstate cfg) (gg_gid gg) = Some (kv', rf')"
  proof -
    have "gg_gid gg1 = gg_gid gg" by (simp add: s(2))
    then show ?thesis using t(3) unfolding ps c1(1,3) by (simp add: Copy_same)
  qed
  moreover have "gg_servers gg2 = (gg_servers gg)[i := Some (kv', rf')]" by (simp add: t(2) s(2))
  ultimately show ?thesis using run1 t(1) m restart_spec [OF srv(2,3), of "sg_n cfg" i]
    by (intro exI [of _ cfg1] exI [of _ ?c] exI [of _ gg2] exI [of _ kv'] exI [of _ rf']) simp
qed

section \<open>Joining\<close>

text \<open>The map sent by \<open>joinm\<close> gives every group of the list the names under which its servers are registered.\<close>

theorem joinMap_names:
  assumes "joinMap gis m cfg = Some m'" "\<And>gid v. gm_get m gid = Some v \<Longrightarrow> v = map (servername gid) [0..<sg_n cfg]"
  shows "gm_get m' gid = (if gid \<in> gm_keys m \<or> (\<exists>g \<in> set gis. \<exists>gg. sg_group g cfg = Some gg \<and> gg_gid gg = gid)
     then Some (map (servername gid) [0..<sg_n cfg]) else None)"
  using assms
proof (induction gis arbitrary: m)
  case Nil
  then have "m' = m" by simp
  then show ?case using Nil(2) [of gid] by (cases "gm_get m gid") (auto simp: gm_keys_dom)
next
  case (Cons g gis)
  obtain gg where gg: "sg_group g cfg = Some gg" using Cons.prems(1) by (auto split: Option.bind_split_asm)
  let ?m = "gm_set (gg_gid gg) (map (servername (gg_gid gg)) [0..<sg_n cfg]) m"
  have run: "joinMap gis ?m cfg = Some m'" using Cons.prems(1) gg by simp
  have val: "v = map (servername k) [0..<sg_n cfg]" if "gm_get ?m k = Some v" for k v
    using that Cons.prems(2) by (auto split: if_splits)
  have "gid \<in> gm_keys ?m \<or> (\<exists>g \<in> set gis. \<exists>gg. sg_group g cfg = Some gg \<and> gg_gid gg = gid)
      \<longleftrightarrow> gid \<in> gm_keys m \<or> (\<exists>g \<in> set (g # gis). \<exists>gg. sg_group g cfg = Some gg \<and> gg_gid gg = gid)"
    unfolding gm_keys_set using gg by auto
  with Cons.IH [OF run val] show ?case by (simp only:)
qed

end
