(* ===== verification/Spec2Isabelle.thy ===== *)
theory Spec2Isabelle
  imports Raft_Safety KV_Node ShardKV_Service Lin_Events Labgob Labrpc_Calls Harness_Checks ShardKV_Tests
begin

text \<open>
  \<^bold>\<open>A verified model of a Raft-based sharded key/value store.\<close>

  The program (\<^verbatim>\<open>src/src\<close>, written in Go) is a Raft library (\<^verbatim>\<open>raft\<close>) and three services on top of it: a
  key/value server (\<^verbatim>\<open>kvraft\<close>), a shard master that assigns shards to groups of servers (\<^verbatim>\<open>shardmaster\<close>),
  and a sharded key/value server that moves shards between groups (\<^verbatim>\<open>shardkv\<close>).  Its tests run on a
  simulated network (\<^verbatim>\<open>labrpc\<close>, \<^verbatim>\<open>labgob\<close>) and judge recorded histories with a linearizability
  checker (\<^verbatim>\<open>linearizability\<close>).  A client's command goes from a clerk to a server, through \<open>Start\<close> into
  the log of the Raft peer, by \<open>AppendEntries\<close> to the other peers, and when it is committed through
  the apply channel back to the server, which executes it once and wakes the waiting handler.

  \<^bold>\<open>How code becomes definitions.\<close>
  A struct is a \<^theory_text>\<open>record\<close> with the source's fields, a Go function is a definition with the source's name.
  A handler runs under a mutex, so it is one function on the state; a goroutine that unlocks, sends
  and locks again is split there, one definition for each critical section.  A panic (index out of
  range, a failed type assertion, a nil pointer, closing a nil channel) and \<^verbatim>\<open>log.Fatal\<close> are \<open>None\<close>.  Go's \<open>int\<close>
  is \<open>int\<close> where the values are indices and terms that cannot reach the bounds; the bit sets use 64-bit words.
  A Go map is a function or, where the order of traversal is observable, an association list
  (\<open>gomap\<close>) with the order of the traversal as an argument.  Time, random numbers, the scheduler and
  message delivery are arguments or choices of a step relation.  A loop that may not end runs with fuel
  (\<open>loopn\<close>, \<open>listLength\<close>): running out of fuel is \<open>None\<close>, and each theorem that such a loop returns
  gives a bound above which the fuel is enough (the rank of the locale \<open>ranked_loop\<close>).

  \<^bold>\<open>The theories.\<close>

  \<^item> \<open>Prelude\<close>: Go slices, maps and integer division, the gob stream of values as a codec, at-most-once
    execution, ranked loops, iteration orders.
  \<^item> \<open>Persister\<close> (\<^verbatim>\<open>raft/persister.go\<close>): the two byte stores and what a store promises (\<open>stable_store\<close>).
  \<^item> \<open>Raft_Model\<close> (\<^verbatim>\<open>raft/raft.go\<close>): the peer's state and all its handlers, timers and goroutine bodies;
    \<open>Raft_Log\<close>, \<open>Raft_Append\<close>, \<open>Raft_Peer\<close>, \<open>Raft_Votes\<close>: the log invariant, what \<open>AppendEntries\<close>
    answers, keeps and delivers on every branch, compaction and installation of snapshots, what is
    on stable storage after every step, when a vote is granted.  \<open>Raft_Examples\<close> holds concrete peers.
  \<^item> \<open>Raft_Cluster\<close>, \<open>Raft_Safety\<close>: a cluster of peers as an inductive step relation in which messages are
    delayed, lost, duplicated and reordered and peers crash and restart; election safety and
    durability over all reachable states, two executions that break election safety with the replies
    that the code mishandles, and one in which a snapshot that is taken late empties the log of a peer.
  \<^item> \<open>Raft_Replication\<close>: the leader's loop for one follower: it ends within a bound and aligns the
    follower's log, or falls back to a snapshot; when replies commit an entry; a commit without a
    majority and a livelock that the code allows.
  \<^item> \<open>KVRaft\<close>, \<open>KV_Service\<close> (\<^verbatim>\<open>kvraft\<close>): server and clerk; the database refines a plain map run on the first copy
    of each command, a snapshot replaces a prefix of the log, what handlers answer, the clerk's loop.
  \<^item> \<open>KV_Node\<close>: a Raft peer and its server together, through elections, snapshots and restarts: the
    database is that of the committed commands.  Steps are labelled with what their message is, and the
    theorem is about executions of expected ones: entries that agree with what is committed, snapshots of
    committed commands that are not too old.  That is what Raft's log replication promises; the code
    can break it (\<open>commit_without_majority\<close>, \<open>install_rolls_back\<close>), so it is a visible hypothesis.
  \<^item> \<open>ShardMaster\<close>, \<open>ShardMaster_Balance\<close>, \<open>ShardMaster_Service\<close> (\<^verbatim>\<open>shardmaster\<close>): configurations, the rebalancing
    and its fairness for every iteration order of the map, the append-only list of configurations, the
    command that makes every replica panic.
  \<^item> \<open>ShardKV\<close>, \<open>ShardKV_Service\<close> (\<^verbatim>\<open>shardkv\<close>): the state machine of a group, migration of a shard between groups with
    its executed-command record, the counter of outstanding moves, routing of keys.
  \<^item> \<open>Bitset\<close> (\<^verbatim>\<open>linearizability/bitset.go\<close>): sets of positions in 64-bit words; \<open>popcnt\<close> counts the members.
  \<^item> \<open>Linearizability\<close> (\<^verbatim>\<open>linearizability/linearizability.go\<close>, \<^verbatim>\<open>model.go\<close>, \<^verbatim>\<open>models.go\<close>): the checker, with
    its doubly linked list in a heap of nodes.  \<open>Lin_Heap\<close>: \<open>unlift\<close> undoes \<open>lift\<close>.  \<open>Lin_Search\<close>: the invariant
    and the rank of the cached depth-first search.  \<open>Lin_Check\<close>: \<open>checkSingle\<close> decides whether a list of
    entries is linearizable.  \<open>Lin_Operations\<close>, \<open>Lin_Locality\<close>, \<open>Lin_Events\<close>: so do \<open>CheckOperations\<close>, for the
    whole store although it checks key by key, and \<open>CheckEvents\<close>.
  \<^item> \<open>Labgob\<close> (\<^verbatim>\<open>labgob/labgob.go\<close>): the checks and warnings around \<^verbatim>\<open>encoding/gob\<close>, over tables of types; they end
    on recursive types, and encoding followed by decoding into a default variable restores the value.
  \<^item> \<open>Labrpc\<close>, \<open>Labrpc_Calls\<close> (\<^verbatim>\<open>labrpc/labrpc.go\<close>): the simulated network, with calls as processes that
    interleave at the points where \<open>processReq\<close> waits; a call that returns true was executed once by a
    server of the name its end was connected to, none whose reply is undecided succeeds once the server
    is deleted or while its end is disabled, every call can return by steps of its own.
  \<^item> \<open>Harness_Net\<close>: ends, names and the loops over them, shared by the four test harnesses.
    \<open>Raft_Harness\<close>, \<open>Harness_Safety\<close>, \<open>Harness_Checks\<close> (\<^verbatim>\<open>raft/config.go\<close>): which servers reach each other after any
    sequence of events, what a restart recovers, the agreement of the readers, the checks of the tests.
  \<^item> \<open>Service_Harness\<close> (\<^verbatim>\<open>kvraft/config.go\<close>, \<^verbatim>\<open>shardmaster/config.go\<close>), generic in the service.  \<open>Service_Wiring\<close>: the ends
    of servers and clerks stay in order under every operation, what \<open>partition\<close> does to the links.
    \<open>Service_Tests\<close>: the leader is cut off from the majority, restarts lose nothing, new clerks.
  \<^item> \<open>ShardKV_Harness\<close>, \<open>ShardKV_Tests\<close> (\<^verbatim>\<open>shardkv/config.go\<close>): names of servers, for which sizes a configuration can be made,
    shutdown and restart of a server, what a join announces.

  The interfaces between the parts are locales: \<open>stable_store\<close> and the codec between peers and storage,
  at-most-once execution between log and database, \<open>ranked_loop\<close> for the loops, \<open>bit_store\<close> between
  search and bit sets, \<open>service\<close> between the harnesses and the three services they start; each is
  interpreted on the model's own definitions.

  \<^bold>\<open>What is parameter.\<close>  \<open>sort.Sort\<close> (it permutes and sorts), the iteration order of maps (each key once),
  the size of an encoding, the network's answers, timers, random identifiers.

  \<^bold>\<open>Not modelled.\<close>
  The log files of \<^verbatim>\<open>raft/util.go\<close>, which only print; in the harnesses the two-minute limit, the seeding of random
  numbers and the printing; \<^verbatim>\<open>encoding/gob\<close> itself; the durations of timers; mutexes, beyond the atomicity of
  the sections they guard.  The cluster of \<open>Raft_Cluster\<close> has its own messages and does not run on the
  network of \<open>Labrpc\<close>: its steps allow every loss, delay and reordering that the network can cause.
\<close>

section \<open>The key/value server on its Raft peer\<close>

lemma booted_hasTerm: "hasTerm (booted n self ps t v rest lii lit) lii lit"
  by (simp add: hasTerm_def logAt_def go_idx_def subIdx_def booted_def)

text \<open>C13. The key/value server takes its snapshots with the wrong term: it passes on the term of the
  message, which is the peer's current term when the entry was applied and not the term of the
  entry.  While the peer runs, its log still shows the right term at the snapshot's index; once it
  is restarted from its persister it shows the term of the message instead.\<close>

theorem kv_snapshot_wrong_term:
  assumes "raft_wf rf" and "lastIncludedIndex rf < i" and "i \<le> commitIndex rf"
    and "kv_receiveNewMsg sz kv ps (applyMsgAt rf i) = Some (kv', note, Some (snap, index, term))"
  shows "index = i \<and> term = currentTerm rf \<and> (\<exists>rf1 rf2.
       TakeSnapshot rf snap index term = Some rf1 \<and> logAt rf1 i = logAt rf i
     \<and> Make n self (persister rf1) = Some rf2 \<and> hasTerm rf2 i (currentTerm rf))"
proof -
  have call: "index = i" "term = currentTerm rf"
    using assms(4) by (auto simp: kv_receiveNewMsg_def applyMsgAt_def kv_checkState_def Let_def
        split: if_splits iface.splits)
  have wf: "log_wf rf" and b: "i \<le> lastApplied rf" "i \<le> getLastLogIndex rf"
    using assms(1,3) by (auto simp: raft_wf_def log_wf_def)
  from TakeSnapshot_spec [OF wf assms(2) b] obtain rf1 where
    r1: "TakeSnapshot rf snap i (currentTerm rf) = Some rf1" "saved rf1" "logAt rf1 i = logAt rf i"
    by blast
  have "lastIncludedTerm rf1 = currentTerm rf" "lastIncludedIndex rf1 = i"
    using r1(1) TakeSnapshot_new [OF assms(2) b(2)] by auto
  then have "\<exists>rf2. Make n self (persister rf1) = Some rf2 \<and> hasTerm rf2 i (currentTerm rf)"
    using Make_saved [OF r1(2)] booted_hasTerm by metis
  with call r1 show ?thesis by blast
qed

definition ex_snap_peer :: kvraft where
  "ex_snap_peer = (booted 3 1 MakePersister 3 votedNull [ex_kventry 1 1 (ex_kvop ''Put'' ''a'' 1 1)] 0 (-1))
     \<lparr>commitIndex := 1, lastApplied := 1\<rparr>"

theorem kv_snapshot_wrong_term_witness:
  "hasTerm ex_snap_peer 1 1 \<and> (\<exists>snap rf1 rf2. TakeSnapshot ex_snap_peer snap 1 3 = Some rf1
     \<and> Make 3 1 (persister rf1) = Some rf2 \<and> hasTerm rf2 1 3)"
proof -
  have wf: "raft_wf ex_snap_peer"
    by (simp add: ex_snap_peer_def booted_def raft_wf_def log_wf_def idx_defs ex_kventry_def)
  have f: "lastIncludedIndex ex_snap_peer < 1" "1 \<le> commitIndex ex_snap_peer"
    "currentTerm ex_snap_peer = 3" "hasTerm ex_snap_peer 1 1"
    by (simp_all add: ex_snap_peer_def booted_def hasTerm_def logAt_def go_idx_def subIdx_def ex_kventry_def)
  have "\<exists>kv' note snap. kv_receiveNewMsg length (kv_initial 1 0) MakePersister (applyMsgAt ex_snap_peer 1)
      = Some (kv', note, Some (snap, 1, 3))"
    by (simp add: kv_receiveNewMsg_def applyMsgAt_def kv_checkState_def kv_initial_def Let_def go_div_def
        ex_snap_peer_def booted_def logAt_def go_idx_def subIdx_def ex_kventry_def kv_apply_def
        RaftStateSize_def)
  then obtain kv' nt snap where "kv_receiveNewMsg length (kv_initial 1 0) MakePersister (applyMsgAt ex_snap_peer 1)
      = Some (kv', nt, Some (snap, 1, 3))" by blast
  from kv_snapshot_wrong_term [OF wf f(1,2) this, of 3 1] f(3,4) show ?thesis by auto
qed

end
